(* ===== verification/Prelude.thy ===== *)
theory Prelude
  imports Main "HOL-Library.Monad_Syntax"
begin

text \<open>
  What the components share: generic lemmas on lists, options and maps, the collections of
  simplification rules the component proofs use, and the swap of two list positions that every
  array algorithm of the sources performs.
\<close>

named_theorems js_simps \<open>evaluation rules of the JavaScript value model\<close>
named_theorems go_simps \<open>evaluation rules of the simulator model\<close>

section \<open>Options as results that may throw\<close>

text \<open>
  A computation that may throw a single kind of exception is an option: \<open>None\<close> is the throw.
  \<open>Option.bind\<close> sequences such computations; \<open>foldM\<close> is a loop over a list whose body may throw.
\<close>

fun foldM :: "('a \<Rightarrow> 's \<Rightarrow> 's option) \<Rightarrow> 'a list \<Rightarrow> 's \<Rightarrow> 's option" where
  "foldM f [] s = Some s"
| "foldM f (x # xs) s = Option.bind (f x s) (foldM f xs)"

fun mapM :: "('a \<Rightarrow> 'b option) \<Rightarrow> 'a list \<Rightarrow> 'b list option" where
  "mapM f [] = Some []"
| "mapM f (x # xs) = Option.bind (f x) (\<lambda>y. Option.bind (mapM f xs) (\<lambda>ys. Some (y # ys)))"

lemma foldM_append: "foldM f (xs @ ys) s = Option.bind (foldM f xs s) (foldM f ys)"
  by (induction xs arbitrary: s) (auto split: bind_splits)

lemma foldM_invariant:
  assumes "foldM f xs s = Some t" and "I s"
    and "\<And>x s t. x \<in> set xs \<Longrightarrow> I s \<Longrightarrow> f x s = Some t \<Longrightarrow> I t"
  shows "I t"
  using assms by (induction xs arbitrary: s) (auto simp: bind_eq_Some_conv)

lemma mapM_length: "mapM f xs = Some ys \<Longrightarrow> length ys = length xs"
  by (induction xs arbitrary: ys) (auto simp: bind_eq_Some_conv)

lemma mapM_nth: "mapM f xs = Some ys \<Longrightarrow> i < length xs \<Longrightarrow> f (xs ! i) = Some (ys ! i)"
proof (induction xs arbitrary: ys i)
  case (Cons x xs)
  then show ?case by (cases i) (auto simp: bind_eq_Some_conv)
qed simp

lemma mapM_total: "(\<And>x. x \<in> set xs \<Longrightarrow> f x = Some (g x)) \<Longrightarrow> mapM f xs = Some (map g xs)"
  by (induction xs) auto

lemma option_eqI: "(\<And>c. a = Some c \<longleftrightarrow> b = Some c) \<Longrightarrow> a = b"
  by (cases a; cases b) auto

section \<open>Lists updated by index\<close>

definition swap_at :: "'a list \<Rightarrow> nat \<Rightarrow> nat \<Rightarrow> 'a list" where
  "swap_at xs i j = xs[i := xs ! j, j := xs ! i]"

lemma length_swap_at [simp]: "length (swap_at xs i j) = length xs"
  by (simp add: swap_at_def)

lemma nth_swap_at:
  "i < length xs \<Longrightarrow> j < length xs \<Longrightarrow> k < length xs \<Longrightarrow>
   swap_at xs i j ! k = (if k = j then xs ! i else if k = i then xs ! j else xs ! k)"
  by (auto simp: swap_at_def nth_list_update)

lemma set_swap_at [simp]:
  "i < length xs \<Longrightarrow> j < length xs \<Longrightarrow> set (swap_at xs i j) = set xs"
  by (simp add: swap_at_def)

lemma distinct_map_nth_eq:
  "distinct (map f xs) \<Longrightarrow> i < length xs \<Longrightarrow> j < length xs \<Longrightarrow> f (xs ! i) = f (xs ! j) \<Longrightarrow> i = j"
  by (metis length_map nth_eq_iff_index_eq nth_map)

section \<open>Insertion-ordered maps\<close>

text \<open>
  The \<open>Map\<close>s and plain objects of JavaScript keep their keys in insertion order; assigning to a
  present key keeps its place.
\<close>

fun map_put :: "('k \<times> 'v) list \<Rightarrow> 'k \<Rightarrow> 'v \<Rightarrow> ('k \<times> 'v) list" where
  "map_put [] k v = [(k, v)]"
| "map_put ((k', v') # m) k v = (if k' = k then (k, v) # m else (k', v') # map_put m k v)"

definition map_del :: "('k \<times> 'v) list \<Rightarrow> 'k \<Rightarrow> ('k \<times> 'v) list" where
  "map_del m k = filter (\<lambda>(k', _). k' \<noteq> k) m"

lemma map_of_map_put [simp]: "map_of (map_put m k v) = (map_of m)(k \<mapsto> v)"
  by (induction m) auto

lemma map_of_map_del [simp]: "map_of (map_del m k) = (map_of m)(k := None)"
  by (induction m) (auto simp: map_del_def fun_eq_iff)

lemma map_put_fresh: "k \<notin> fst ` set m \<Longrightarrow> map_put m k v = m @ [(k, v)]"
  by (induction m) auto

lemma keys_map_put: "map fst (map_put m k v) = (if k \<in> fst ` set m then map fst m else map fst m @ [k])"
  by (induction m) (simp, case_tac a, simp)

lemma distinct_map_put [simp]: "distinct (map fst m) \<Longrightarrow> distinct (map fst (map_put m k v))"
  by (auto simp: keys_map_put)

lemma keys_map_del: "map fst (map_del m k) = filter (\<lambda>x. x \<noteq> k) (map fst m)"
  by (induction m) (auto simp: map_del_def)

lemma distinct_map_del [simp]: "distinct (map fst m) \<Longrightarrow> distinct (map fst (map_del m k))"
  by (simp add: keys_map_del)

text \<open>
  What code expects of a keyed store, whatever it is made of: a lookup finds what was put last, and
  after a deletion the store's answer for an absent key. The answer wraps what was put.
\<close>

locale keyed =
  fixes get :: "'s \<Rightarrow> 'k \<Rightarrow> 'a" and put :: "'s \<Rightarrow> 'k \<Rightarrow> 'v \<Rightarrow> 's" and del :: "'s \<Rightarrow> 'k \<Rightarrow> 's"
    and absent :: 'a and wrap :: "'v \<Rightarrow> 'a"
  assumes get_put: "get (put s k v) j = (if j = k then wrap v else get s j)"
    and get_del: "get (del s k) j = (if j = k then absent else get s j)"
begin

lemma get_put_put: "get (put (put s k v) k w) = get (put s k w)"
  by (simp add: get_put fun_eq_iff)

lemma get_del_put: "get (del (put s k v) k) = get (del s k)"
  by (simp add: get_put get_del fun_eq_iff)

lemma get_fold_put_if:
  "get (fold (\<lambda>k s. if P k then put s k (f k) else s) ks s) j =
     (if j \<in> set ks \<and> P j then wrap (f j) else get s j)"
  by (induction ks arbitrary: s) (auto simp: get_put)

lemma get_fold_put: "get (fold (\<lambda>k s. put s k (f k)) ks s) j = (if j \<in> set ks then wrap (f j) else get s j)"
  using get_fold_put_if [of "\<lambda>_. True" f ks s j] by simp

lemma get_fold_del: "get (fold (\<lambda>k s. del s k) ks s) j = (if j \<in> set ks then absent else get s j)"
  by (induction ks arbitrary: s) (auto simp: get_del)

end

interpretation assoc: keyed map_of map_put map_del None Some
  by unfold_locales (simp_all add: fun_upd_apply)

end
