(* ===== verification/Js_Value.thy ===== *)
theory Js_Value
  imports Prelude
begin

text \<open>
  The JavaScript values that the editor's network mapper handles: plain JSON-like data, with the
  operators the code applies to it. Objects are association lists in property order. Numbers are
  the integers (ids, ports, latencies); the mapper only copies coordinates and zoom factors and
  never computes with them. A property access on \<open>undefined\<close> or \<open>null\<close>, and an assignment to a
  property of a primitive (the bundle's modules are strict), throw: they are \<open>None\<close>.
\<close>

datatype jv = JUndef | JNull | JBool bool | JNum int | JStr string
  | JArr "jv list" | JObj "(string \<times> jv) list"

type_synonym obj = "(string \<times> jv) list"

section \<open>Truthiness, defaults, property access\<close>

fun truthy :: "jv \<Rightarrow> bool" where
  "truthy JUndef = False"
| "truthy JNull = False"
| "truthy (JBool b) = b"
| "truthy (JNum n) = (n \<noteq> 0)"
| "truthy (JStr s) = (s \<noteq> [])"
| "truthy (JArr _) = True"
| "truthy (JObj _) = True"

definition nullish :: "jv \<Rightarrow> bool" where
  "nullish v \<longleftrightarrow> v = JUndef \<or> v = JNull"

definition js_or :: "jv \<Rightarrow> jv \<Rightarrow> jv" where
  "js_or a b = (if truthy a then a else b)"

definition js_default :: "jv \<Rightarrow> jv \<Rightarrow> jv" where
  "js_default a d = (if a = JUndef then d else a)"

definition js_nvl :: "jv \<Rightarrow> jv \<Rightarrow> jv" where
  "js_nvl a d = (if nullish a then d else a)"

fun oget :: "obj \<Rightarrow> string \<Rightarrow> jv" where
  "oget [] k = JUndef"
| "oget ((k', v) # o') k = (if k' = k then v else oget o' k)"

fun oset :: "obj \<Rightarrow> string \<Rightarrow> jv \<Rightarrow> obj" where
  "oset [] k v = [(k, v)]"
| "oset ((k', v') # o') k v = (if k' = k then (k, v) # o' else (k', v') # oset o' k v)"

definition odel :: "obj \<Rightarrow> string \<Rightarrow> obj" where
  "odel o' k = filter (\<lambda>(k', _). k' \<noteq> k) o'"

fun getp :: "jv \<Rightarrow> string \<Rightarrow> jv option" where
  "getp JUndef k = None"
| "getp JNull k = None"
| "getp (JObj o') k = Some (oget o' k)"
| "getp _ k = Some JUndef"

fun setp :: "jv \<Rightarrow> string \<Rightarrow> jv \<Rightarrow> jv option" where
  "setp (JObj o') k v = Some (JObj (oset o' k v))"
| "setp _ k v = None"

section \<open>Conversions\<close>

definition digit_char :: "nat \<Rightarrow> char" where
  "digit_char d = char_of (48 + d)"

fun nat_digits :: "nat \<Rightarrow> string" where
  "nat_digits n = (if n < 10 then [digit_char n] else nat_digits (n div 10) @ [digit_char (n mod 10)])"

declare nat_digits.simps [simp del]

definition num_string :: "int \<Rightarrow> string" where
  "num_string n = (if n < 0 then CHR ''-'' # nat_digits (nat (- n)) else nat_digits (nat n))"

fun intercalate :: "string \<Rightarrow> string list \<Rightarrow> string" where
  "intercalate sep [] = []"
| "intercalate sep [s] = s"
| "intercalate sep (s # t # ss) = s @ sep @ intercalate sep (t # ss)"

fun js_string :: "jv \<Rightarrow> string" where
  "js_string JUndef = ''undefined''"
| "js_string JNull = ''null''"
| "js_string (JBool b) = (if b then ''true'' else ''false'')"
| "js_string (JNum n) = num_string n"
| "js_string (JStr s) = s"
| "js_string (JArr vs) = intercalate '','' (map (\<lambda>v. if nullish v then [] else js_string v) vs)"
| "js_string (JObj _) = ''[object Object]''"

text \<open>\<open>Object.assign({}, v)\<close>: the own enumerable properties, by index for strings and arrays.\<close>

fun js_entries :: "jv \<Rightarrow> obj" where
  "js_entries (JObj o') = o'"
| "js_entries (JArr vs) = map (\<lambda>(i, v). (nat_digits i, v)) (enumerate 0 vs)"
| "js_entries (JStr s) = map (\<lambda>(i, c). (nat_digits i, JStr [c])) (enumerate 0 s)"
| "js_entries _ = []"

definition js_assign :: "obj \<Rightarrow> jv \<Rightarrow> obj" where
  "js_assign o' v = foldl (\<lambda>acc (k, w). oset acc k w) o' (js_entries v)"

text \<open>\<open>JSON.parse(JSON.stringify(v))\<close>: undefined properties go, undefined array entries are null.\<close>

fun json_clone :: "jv \<Rightarrow> jv" where
  "json_clone JUndef = JNull"
| "json_clone (JArr vs) = JArr (map json_clone vs)"
| "json_clone (JObj o') =
     JObj (map (\<lambda>(k, v). (k, json_clone v)) (filter (\<lambda>(k, v). v \<noteq> JUndef) o'))"
| "json_clone v = v"

section \<open>parseInt\<close>

definition js_space :: "char \<Rightarrow> bool" where
  "js_space c \<longleftrightarrow> of_char c \<in> {9, 10, 11, 12, 13, 32 :: nat}"

definition digit_val :: "nat \<Rightarrow> char \<Rightarrow> nat option" where
  "digit_val r c =
     (let n = of_char c :: nat;
          d = (if 48 \<le> n \<and> n \<le> 57 then n - 48
               else if 97 \<le> n \<and> n \<le> 122 then n - 87
               else if 65 \<le> n \<and> n \<le> 90 then n - 55 else 36)
      in if d < r then Some d else None)"

fun take_digits :: "nat \<Rightarrow> nat option \<Rightarrow> string \<Rightarrow> nat option" where
  "take_digits r acc [] = acc"
| "take_digits r acc (c # cs) =
     (case digit_val r c of
        None \<Rightarrow> acc
      | Some d \<Rightarrow> take_digits r (Some (r * (case acc of None \<Rightarrow> 0 | Some a \<Rightarrow> a) + d)) cs)"

text \<open>\<open>parseInt(s)\<close> with no radix; \<open>None\<close> is NaN.\<close>

definition parse_int :: "string \<Rightarrow> int option" where
  "parse_int s =
     (let s1 = dropWhile js_space s;
          neg = (case s1 of c # _ \<Rightarrow> c = CHR ''-'' | [] \<Rightarrow> False);
          s2 = (case s1 of c # cs \<Rightarrow> if c = CHR ''-'' \<or> c = CHR ''+'' then cs else s1 | [] \<Rightarrow> []);
          hex = (take 2 s2 = ''0x'' \<or> take 2 s2 = ''0X'');
          r = (if hex then 16 else 10);
          s3 = (if hex then drop 2 s2 else s2)
      in map_option (\<lambda>n. if neg then - int n else int n) (take_digits r None s3))"

definition parse_int_or_0 :: "string \<Rightarrow> int" where
  "parse_int_or_0 s = (case parse_int s of None \<Rightarrow> 0 | Some n \<Rightarrow> n)"

text \<open>\<open>String.prototype.split\<close> at a one-character separator.\<close>

fun split_at_char :: "char \<Rightarrow> string \<Rightarrow> string list" where
  "split_at_char d [] = [[]]"
| "split_at_char d (c # cs) =
     (if c = d then [] # split_at_char d cs
      else (case split_at_char d cs of [] \<Rightarrow> [[c]] | w # ws \<Rightarrow> (c # w) # ws))"

text \<open>
  The order in which \<open>Object.keys\<close> lists keys inserted in the given order: array indices first, in
  ascending order, then the other keys.
\<close>

definition dec_val :: "string \<Rightarrow> nat" where
  "dec_val s = (case take_digits 10 None s of None \<Rightarrow> 0 | Some n \<Rightarrow> n)"

definition is_index :: "string \<Rightarrow> bool" where
  "is_index s \<longleftrightarrow> nat_digits (dec_val s) = s \<and> dec_val s < 2 ^ 32 - 1"

definition key_order :: "string list \<Rightarrow> string list" where
  "key_order ks = sort_key dec_val (filter is_index ks) @ filter (\<lambda>k. \<not> is_index k) ks"

lemma set_key_order [simp]: "set (key_order ks) = set ks"
  by (auto simp: key_order_def)

lemma distinct_key_order [simp]: "distinct ks \<Longrightarrow> distinct (key_order ks)"
  by (auto simp: key_order_def)

text \<open>\<open>Array.prototype.sort\<close> on strings: a stable sort by code units.\<close>

fun str_le :: "string \<Rightarrow> string \<Rightarrow> bool" where
  "str_le [] t = True"
| "str_le (c # s) [] = False"
| "str_le (c # s) (d # t) =
     (if c = d then str_le s t else (of_char c :: nat) < of_char d)"

fun str_insert :: "string \<Rightarrow> string list \<Rightarrow> string list" where
  "str_insert s [] = [s]"
| "str_insert s (t # ts) = (if str_le s t then s # t # ts else t # str_insert s ts)"

definition sort_strings :: "string list \<Rightarrow> string list" where
  "sort_strings ss = foldr str_insert ss []"

section \<open>Laws of objects\<close>

lemma oget_oset [simp]: "oget (oset o' k v) k' = (if k = k' then v else oget o' k')"
  by (induction o') auto

lemma oget_odel [simp]: "oget (odel o' k) k' = (if k = k' then JUndef else oget o' k')"
  by (induction o') (auto simp: odel_def)

interpretation js_obj: keyed oget oset odel JUndef "\<lambda>v. v"
  by unfold_locales auto

lemma oset_same: "oget o' k = v \<Longrightarrow> v \<noteq> JUndef \<Longrightarrow> oset o' k v = o'"
  by (induction o') auto

lemma js_assign_empty: "distinct (map fst o') \<Longrightarrow> js_assign [] (JObj o') = o'"
proof -
  have step: "distinct (map fst (acc @ xs)) \<Longrightarrow>
      foldl (\<lambda>acc (k, w). oset acc k w) acc xs = acc @ xs" for acc xs :: obj
  proof (induction xs arbitrary: acc)
    case (Cons x xs)
    obtain k w where x: "x = (k, w)" by (cases x)
    have "k \<notin> fst ` set acc \<Longrightarrow> oset acc k w = acc @ [(k, w)]" for acc :: obj
      by (induction acc) auto
    then show ?case using Cons x by (auto simp: image_Un)
  qed simp
  show "distinct (map fst o') \<Longrightarrow> js_assign [] (JObj o') = o'"
    using step [of "[]" o'] by (simp add: js_assign_def)
qed

lemmas [js_simps] = nullish_def js_or_def js_default_def js_nvl_def

section \<open>Decimal numerals and parseInt\<close>

lemma of_char_digit [simp]: "d < 10 \<Longrightarrow> of_char (digit_char d) = 48 + d"
  by (simp add: digit_char_def)

lemma digit_val_digit [simp]: "d < 10 \<Longrightarrow> digit_val 10 (digit_char d) = Some d"
  by (simp add: digit_val_def)

lemma nat_digits_nonempty [simp]: "nat_digits n \<noteq> []"
  by (subst nat_digits.simps) simp

lemma set_nat_digits: "c \<in> set (nat_digits n) \<Longrightarrow> \<exists>d < 10. c = digit_char d"
proof (induction n rule: nat_digits.induct)
  case (1 n)
  show ?case
  proof (cases "n < 10")
    case True
    with 1 show ?thesis by (auto simp: nat_digits.simps [of n])
  next
    case False
    then have "n mod 10 < 10" by simp
    with False 1 show ?thesis by (auto simp: nat_digits.simps [of n] simp del: mod_less_divisor)
  qed
qed

lemma digit_not: "d < 10 \<Longrightarrow> digit_char d \<noteq> c" if "of_char c < (48 :: nat) \<or> of_char c > (57 :: nat)"
proof
  assume "d < 10" "digit_char d = c"
  then have "of_char c = (48 + d :: nat)" using of_char_digit by blast
  then show False using that \<open>d < 10\<close> by simp
qed

lemma nat_digits_free:
  assumes "of_char c < (48 :: nat) \<or> of_char c > (57 :: nat)"
  shows "c \<notin> set (nat_digits n)"
  using set_nat_digits [of c n] digit_not [OF assms] by blast

lemma take_digits_append:
  "\<forall>c \<in> set xs. digit_val r c \<noteq> None \<Longrightarrow>
   take_digits r acc (xs @ ys) = take_digits r (take_digits r acc xs) ys"
  by (induction xs arbitrary: acc) (auto split: option.splits)

lemma take_digits_nat: "take_digits 10 (Some a) (nat_digits n) = Some (a * 10 ^ length (nat_digits n) + n)"
  and take_digits_nat_None: "take_digits 10 None (nat_digits n) = Some n"
proof (induction n arbitrary: a rule: nat_digits.induct)
  case (1 n)
  have dig: "\<forall>c \<in> set (nat_digits m). digit_val 10 c \<noteq> None" for m
    using set_nat_digits by fastforce
  { case 1
    show ?case
    proof (cases "n < 10")
      case True
      then show ?thesis by (simp add: nat_digits.simps [of n])
    next
      case False
      then show ?thesis
        using "1.IH"(1) [OF False] dig
        by (simp add: nat_digits.simps [of n] take_digits_append algebra_simps)
    qed
  next
    case 2
    show ?case
    proof (cases "n < 10")
      case True
      then show ?thesis by (simp add: nat_digits.simps [of n])
    next
      case False
      then show ?thesis
        using "1.IH"(2) [OF False] dig
        by (simp add: nat_digits.simps [of n] take_digits_append)
    qed
  }
qed

lemma hd_nat_digits: "\<exists>d < 10. hd (nat_digits n) = digit_char d"
  using set_nat_digits [of "hd (nat_digits n)" n] by simp

lemma parse_int_nat_digits: "parse_int (nat_digits n) = Some (int n)"
proof -
  obtain c cs where e: "nat_digits n = c # cs" by (cases "nat_digits n") auto
  obtain d where d: "d < 10" "c = digit_char d" using hd_nat_digits [of n] e by auto
  have "\<not> js_space c" using d by (simp add: js_space_def)
  moreover have "c \<noteq> CHR ''-''" "c \<noteq> CHR ''+''" using d digit_not by simp_all
  moreover have "CHR ''x'' \<notin> set (nat_digits n)" "CHR ''X'' \<notin> set (nat_digits n)"
    by (rule nat_digits_free, simp)+
  then have "take 2 (c # cs) \<noteq> ''0x'' \<and> take 2 (c # cs) \<noteq> ''0X''"
    using e by (cases cs) auto
  ultimately show ?thesis
    using take_digits_nat_None [of n] e
    by (simp add: parse_int_def Let_def del: take_digits.simps take_Suc_Cons take_Cons_numeral)
qed

lemma split_at_char_free: "d \<notin> set s \<Longrightarrow> split_at_char d s = [s]"
  by (induction s) auto

lemma split_at_char_append:
  "d \<notin> set s \<Longrightarrow> split_at_char d (s @ d # t) = s # split_at_char d t"
  by (induction s) auto

lemma split_intercalate:
  "xs \<noteq> [] \<Longrightarrow> \<forall>x \<in> set xs. d \<notin> set x \<Longrightarrow> split_at_char d (intercalate [d] xs) = xs"
  by (induction "[d]" xs rule: intercalate.induct) (simp_all add: split_at_char_free split_at_char_append)

lemma intercalate_inj:
  assumes "intercalate [d] xs = intercalate [d] ys"
    and "\<forall>x \<in> set xs. d \<notin> set x \<and> x \<noteq> []" "\<forall>y \<in> set ys. d \<notin> set y \<and> y \<noteq> []"
  shows "xs = ys"
proof -
  have empty: "intercalate [d] zs = [] \<longleftrightarrow> zs = []" if "\<forall>z \<in> set zs. d \<notin> set z \<and> z \<noteq> []" for zs
    using that by (induction "[d]" zs rule: intercalate.induct) auto
  show ?thesis
  proof (cases "xs = [] \<or> ys = []")
    case True
    then show ?thesis using empty [OF assms(2)] empty [OF assms(3)] assms(1) by auto
  next
    case False
    then show ?thesis using split_intercalate [of xs d] split_intercalate [of ys d] assms by metis
  qed
qed

lemma set_intercalate: "set (intercalate sep xs) \<subseteq> set sep \<union> (\<Union>x \<in> set xs. set x)"
  by (induction sep xs rule: intercalate.induct) auto

lemma nat_digits_inject: "nat_digits m = nat_digits n \<Longrightarrow> m = n"
  by (metis parse_int_nat_digits of_nat_eq_iff option.inject)

section \<open>Numerals are determined by their text\<close>

lemma nat_digits_inj: "nat_digits m = nat_digits n \<Longrightarrow> m = n"
  by (metis of_nat_eq_iff option.inject parse_int_nat_digits)

lemma num_string_minus: "num_string n = CHR ''-'' # s \<longleftrightarrow> n < 0 \<and> s = nat_digits (nat (- n))"
proof -
  have "CHR ''-'' \<notin> set (nat_digits (nat n))" by (rule nat_digits_free) simp
  then have "nat_digits (nat n) \<noteq> CHR ''-'' # s" by (metis list.set_intros(1))
  then show ?thesis by (auto simp: num_string_def)
qed

lemma num_string_inj:
  assumes "num_string m = num_string n"
  shows "m = n"
proof (cases "m < 0")
  case True
  then have "num_string n = CHR ''-'' # nat_digits (nat (- m))" using assms by (simp add: num_string_def)
  then have "n < 0" "nat (- m) = nat (- n)" using num_string_minus nat_digits_inj by blast+
  then show ?thesis using True by simp
next
  case False
  then have "\<not> n < 0" using assms num_string_minus[of m "nat_digits (nat (- n))"] by (auto simp: num_string_def[of n])
  then have "nat m = nat n" using assms False nat_digits_inj by (simp add: num_string_def)
  then show ?thesis using False \<open>\<not> n < 0\<close> by simp
qed

lemma num_string_free:
  assumes "c \<noteq> CHR ''-''" and "of_char c < (48 :: nat) \<or> of_char c > (57 :: nat)"
  shows "c \<notin> set (num_string n)"
  using assms(1) nat_digits_free [OF assms(2)] by (auto simp: num_string_def)

lemma num_string_nonempty: "num_string n \<noteq> []"
  by (simp add: num_string_def)

end
