(* ===== verification/Network_Mapper.thy ===== *)
theory Network_Mapper
  imports Js_Value
begin

text \<open>
  \<open>src/utils/networkMapper.js\<close> of the editor (bundled in web/static/cyeditor.common.js): the
  translation between the network JSON of the backend, the display state and the cells of the
  graph editor. Definitions follow the functions of that file in their order. A result \<open>None\<close> is a
  thrown TypeError. \<open>Math.random\<close> is the parameter \<open>rnd\<close>: its n-th use yields the suffix
  \<open>rnd n\<close>, and the number of uses so far is threaded through. The node and edge objects that the
  code mutates through two references (the array entry and the lookup map) are list entries, and
  the lookup map holds their index.
\<close>

type_synonym rnd = "nat \<Rightarrow> string"

section \<open>Helpers\<close>

definition DEFAULT_PAN :: jv where
  "DEFAULT_PAN = JObj [(''x'', JNum 0), (''y'', JNum 0)]"

definition DEFAULT_ZOOM :: jv where
  "DEFAULT_ZOOM = JNum 1"

definition ensureArray :: "jv \<Rightarrow> jv list" where
  "ensureArray v = (case v of JArr vs \<Rightarrow> vs | _ \<Rightarrow> [])"

definition deepClone :: "jv \<Rightarrow> jv" where
  "deepClone v = json_clone (js_or v (JObj []))"

definition generateId :: "rnd \<Rightarrow> string \<Rightarrow> nat \<Rightarrow> jv \<times> nat" where
  "generateId rnd prefix c = (JStr (prefix @ ''-'' @ rnd c), Suc c)"

definition pickPosition :: "jv \<Rightarrow> jv option" where
  "pickPosition position =
     do {
       let p = js_or (js_default position (JObj [])) (JObj []);
       x \<leftarrow> getp p ''x'';
       y \<leftarrow> getp p ''y'';
       Some (JObj [(''x'', js_default x (JNum 0)), (''y'', js_default y (JNum 0))])
     }"

text \<open>\<open>data.id || generateId(prefix)\<close>\<close>

definition id_or_gen :: "rnd \<Rightarrow> string \<Rightarrow> jv \<Rightarrow> nat \<Rightarrow> jv \<times> nat" where
  "id_or_gen rnd prefix v c = (if truthy v then (v, c) else generateId rnd prefix c)"

section \<open>Edge identifiers\<close>

definition buildEdgeDisplayId :: "jv \<Rightarrow> string option" where
  "buildEdgeDisplayId edge =
     do {
       src \<leftarrow> getp edge ''src_node_id'';
       srcPort \<leftarrow> getp edge ''src_port_id'';
       dst \<leftarrow> getp edge ''dst_node_id'';
       dstPort \<leftarrow> getp edge ''dst_port_id'';
       let s = js_string (js_nvl src (JNum 0));
       let sp = js_string (js_nvl srcPort (JNum 0));
       let d = js_string (js_nvl dst (JNum 0));
       let dp = js_string (js_nvl dstPort (JNum 0));
       Some (''edge-'' @ s @ ''-p'' @ sp @ ''-'' @ d @ ''-p'' @ dp)
     }"

record edge_ports =
  ep_src :: int
  ep_srcPort :: int
  ep_dst :: int
  ep_dstPort :: int

definition parseEdgeDisplayId :: "string \<Rightarrow> edge_ports option" where
  "parseEdgeDisplayId edgeId =
     (let parts = split_at_char (CHR ''-'') edgeId
      in if 5 \<le> length parts \<and> parts ! 0 = ''edge''
         then Some \<lparr>ep_src = parse_int_or_0 (parts ! 1),
                    ep_srcPort = parse_int_or_0 (drop 1 (parts ! 2)),
                    ep_dst = parse_int_or_0 (parts ! 3),
                    ep_dstPort = parse_int_or_0 (drop 1 (parts ! 4))\<rparr>
         else None)"

section \<open>From the network to the display\<close>

definition buildNodeDisplayFromNetwork :: "rnd \<Rightarrow> jv \<Rightarrow> nat \<Rightarrow> (jv \<times> nat) option" where
  "buildNodeDisplayFromNetwork rnd node c =
     do {
       nd \<leftarrow> getp node ''display'';
       let display = js_assign [] (js_or nd (JObj []));
       position \<leftarrow> pickPosition (oget display ''position'');
       let data = odel display ''position'';
       nid \<leftarrow> getp node ''node_id'';
       let (i, c') =
         (if truthy (oget data ''id'') then (oget data ''id'', c)
          else if \<not> nullish nid then (JStr (js_string nid), c)
          else generateId rnd ''node'' c);
       let data = oset data ''id'' i;
       name \<leftarrow> getp node ''node_name'';
       inp \<leftarrow> getp node ''in_ports'';
       outp \<leftarrow> getp node ''out_ports'';
       cache \<leftarrow> getp node ''cache'';
       dir \<leftarrow> getp node ''directory'';
       feat \<leftarrow> getp node ''node_features'';
       dom \<leftarrow> getp node ''coherence_domain_id'';
       let data = oset data ''custom''
         (JObj [(''node_id'', nid), (''node_name'', name), (''in_ports'', inp),
                (''out_ports'', outp), (''cache'', cache), (''directory'', dir),
                (''node_features'', feat), (''coherence_domain_id'', dom)]);
       Some (JObj [(''data'', JObj data), (''position'', position)], c')
     }"

definition arrow :: string where
  "arrow = [CHR 0xE2, CHR 0x86, CHR 0x92]"

definition buildEdgeDisplayFromNetwork :: "jv \<Rightarrow> (jv \<rightharpoonup> jv) \<Rightarrow> jv option" where
  "buildEdgeDisplayFromNetwork edge nodeIdToDisplayId =
     do {
       ed \<leftarrow> getp edge ''display'';
       let display = js_assign [] (js_or ed (JObj []));
       let data = js_assign [] (js_or (oget display ''data'') (JObj []));
       position \<leftarrow> pickPosition (oget display ''position'');
       edgeId \<leftarrow> buildEdgeDisplayId edge;
       let data = oset data ''id'' (JStr edgeId);
       src \<leftarrow> getp edge ''src_node_id'';
       dst \<leftarrow> getp edge ''dst_node_id'';
       let data = (if \<not> truthy (oget data ''source'') \<and> \<not> nullish src
         then oset data ''source'' (js_or (case nodeIdToDisplayId src of None \<Rightarrow> JUndef | Some v \<Rightarrow> v)
                                        (JStr (js_string src)))
         else data);
       let data = (if \<not> truthy (oget data ''target'') \<and> \<not> nullish dst
         then oset data ''target'' (js_or (case nodeIdToDisplayId dst of None \<Rightarrow> JUndef | Some v \<Rightarrow> v)
                                        (JStr (js_string dst)))
         else data);
       let data = (if \<not> truthy (oget data ''lineType'') then oset data ''lineType'' (JStr ''bezier'')
                   else data);
       sp \<leftarrow> getp edge ''src_port_id'';
       dp \<leftarrow> getp edge ''dst_port_id'';
       let sp = js_nvl sp (JNum 0);
       let dp = js_nvl dp (JNum 0);
       let data = oset data ''label'' (JStr (js_string sp @ arrow @ js_string dp));
       let data = oset data ''srcPort'' sp;
       let data = oset data ''dstPort'' dp;
       eid \<leftarrow> getp edge ''edge_id'';
       lat \<leftarrow> getp edge ''latency'';
       bw \<leftarrow> getp edge ''bandwidth'';
       pts \<leftarrow> getp edge ''packet_types'';
       ls \<leftarrow> getp edge ''link_status'';
       let data = oset data ''custom''
         (JObj [(''edge_id'', eid), (''src_node_id'', src), (''dst_node_id'', dst),
                (''src_port_id'', sp), (''dst_port_id'', dp), (''latency'', lat),
                (''bandwidth'', bw), (''packet_types'', pts), (''link_status'', ls)]);
       Some (JObj [(''data'', JObj data), (''position'', position)])
     }"

text \<open>The loop over the nodes fills the map from node ids to display ids.\<close>

fun displayNodes_loop ::
  "rnd \<Rightarrow> jv list \<Rightarrow> (jv \<rightharpoonup> jv) \<Rightarrow> nat \<Rightarrow> (jv list \<times> (jv \<rightharpoonup> jv)) option" where
  "displayNodes_loop rnd [] m c = Some ([], m)"
| "displayNodes_loop rnd (node # nodes) m c =
     do {
       (dn, c') \<leftarrow> buildNodeDisplayFromNetwork rnd node c;
       nid \<leftarrow> getp node ''node_id'';
       d \<leftarrow> getp dn ''data'';
       i \<leftarrow> getp d ''id'';
       (dns, m') \<leftarrow> displayNodes_loop rnd nodes (m(nid \<mapsto> i)) c';
       Some (dn # dns, m')
     }"

definition networkToDisplay :: "rnd \<Rightarrow> jv \<Rightarrow> jv option" where
  "networkToDisplay rnd network0 =
     do {
       let network = js_default network0 (JObj []);
       ns \<leftarrow> getp network ''nodes'';
       es \<leftarrow> getp network ''edges'';
       (displayNodes, m) \<leftarrow> displayNodes_loop rnd (ensureArray ns) Map.empty 0;
       displayEdges \<leftarrow> mapM (\<lambda>e. buildEdgeDisplayFromNetwork e m) (ensureArray es);
       zoom \<leftarrow> getp network ''zoom'';
       pan0 \<leftarrow> getp network ''pan'';
       pan \<leftarrow> pickPosition (js_or pan0 DEFAULT_PAN);
       Some (JObj [(''zoom'', js_or zoom DEFAULT_ZOOM), (''pan'', pan),
                   (''elements'', JObj [(''nodes'', JArr displayNodes), (''edges'', JArr displayEdges)])])
     }"

section \<open>Edge identifiers\<close>

lemma num_string_nat [simp]: "num_string (int n) = nat_digits n"
  by (simp add: num_string_def)

lemma parse_int_num_string [simp]: "parse_int_or_0 (num_string (int n)) = int n"
  by (simp add: parse_int_or_0_def parse_int_nat_digits)

lemma split_edge_id:
  "split_at_char (CHR ''-'') (''edge-'' @ nat_digits a @ ''-p'' @ nat_digits b @ ''-'' @ nat_digits c @ ''-p'' @ nat_digits d)
   = [''edge'', nat_digits a, CHR ''p'' # nat_digits b, nat_digits c, CHR ''p'' # nat_digits d]"
proof -
  have free: "CHR ''-'' \<notin> set (nat_digits n)" for n by (rule nat_digits_free) simp
  note app = split_at_char_append [OF free]
  have b: "split_at_char (CHR ''-'') ((CHR ''p'' # nat_digits b) @ CHR ''-'' # t)
           = (CHR ''p'' # nat_digits b) # split_at_char (CHR ''-'') t" for t
    by (rule split_at_char_append) (simp add: free)
  have d: "split_at_char (CHR ''-'') (CHR ''p'' # nat_digits d) = [CHR ''p'' # nat_digits d]"
    by (rule split_at_char_free) (simp add: free)
  show ?thesis using app b d free by simp
qed

text \<open>C19: parsing the display id built for an edge gives back its source and destination node and
  ports, for all non-negative ids, an absent id or port counting as 0.\<close>

theorem edge_id_roundtrip:
  assumes "js_nvl (oget e ''src_node_id'') (JNum 0) = JNum (int a)"
    and "js_nvl (oget e ''src_port_id'') (JNum 0) = JNum (int b)"
    and "js_nvl (oget e ''dst_node_id'') (JNum 0) = JNum (int c)"
    and "js_nvl (oget e ''dst_port_id'') (JNum 0) = JNum (int d)"
  shows "Option.bind (buildEdgeDisplayId (JObj e)) parseEdgeDisplayId =
         Some \<lparr>ep_src = int a, ep_srcPort = int b, ep_dst = int c, ep_dstPort = int d\<rparr>"
  using assms split_edge_id [of a b c d]
  by (simp add: buildEdgeDisplayId_def parseEdgeDisplayId_def parse_int_or_0_def parse_int_nat_digits)

theorem edge_id_roundtrip_witness:
  "Option.bind (buildEdgeDisplayId (JObj [(''src_node_id'', JNum 3), (''src_port_id'', JNum 1),
      (''dst_node_id'', JNum 12)])) parseEdgeDisplayId =
   Some \<lparr>ep_src = 3, ep_srcPort = 1, ep_dst = 12, ep_dstPort = 0\<rparr>"
  using edge_id_roundtrip [of "[(''src_node_id'', JNum 3), (''src_port_id'', JNum 1), (''dst_node_id'', JNum 12)]" 3 1 12 0]
  by (simp add: js_simps)

section \<open>Totality of the helpers\<close>

lemma pickPosition_total: "\<exists>p. pickPosition v = Some (JObj p)"
  by (cases v) (auto simp: pickPosition_def js_simps)

lemma getp_obj [simp]: "getp (JObj o') k = Some (oget o' k)" by simp

lemma getp_truthy: "truthy v \<Longrightarrow> \<exists>w. getp v k = Some w"
  by (cases v) auto

lemma truthy_or_obj [simp]: "truthy (js_or v (JObj o'))"
  by (simp add: js_or_def)

end
