(* ===== verification/Display_Sync.thy ===== *)
theory Display_Sync
  imports Network_Mapper
begin

text \<open>
  The way back of \<open>src/utils/networkMapper.js\<close>: \<open>displayToNetwork\<close> merges the display state into
  a copy of the base network, and \<open>x6ToNetwork\<close> does so for the cells the graph editor exports.
  The node and edge arrays are lists of objects that only grow; \<open>nodeByDisplayId\<close> and
  \<open>edgeByDisplayId\<close> map a display id to the position of its object.
\<close>

section \<open>Building display and network objects\<close>

definition buildNodeDisplayFromCy :: "rnd \<Rightarrow> jv \<Rightarrow> nat \<Rightarrow> (jv \<times> nat) option" where
  "buildNodeDisplayFromCy rnd displayNode c =
     do {
       dd \<leftarrow> getp displayNode ''data'';
       pp \<leftarrow> getp displayNode ''position'';
       position \<leftarrow> pickPosition pp;
       let data = js_assign [] (js_or dd (JObj []));
       let display = odel data ''position'';
       let (i, c') = id_or_gen rnd ''node'' (oget display ''id'') c;
       Some (JObj (oset (oset display ''id'' i) ''position'' position), c')
     }"

definition buildEdgeDisplayFromCy :: "rnd \<Rightarrow> jv \<Rightarrow> nat \<Rightarrow> (jv \<times> nat) option" where
  "buildEdgeDisplayFromCy rnd displayEdge c =
     do {
       dd \<leftarrow> getp displayEdge ''data'';
       let data = js_assign [] (js_or dd (JObj []));
       pp \<leftarrow> getp displayEdge ''position'';
       position \<leftarrow> pickPosition pp;
       let (i, c') = id_or_gen rnd ''edge'' (oget data ''id'') c;
       let d = [(''id'', i), (''source'', oget data ''source''), (''target'', oget data ''target''),
                (''lineType'', js_or (oget data ''lineType'') (JStr ''bezier''))];
       let d = (if \<not> nullish (oget data ''srcPort'') then oset d ''srcPort'' (oget data ''srcPort'') else d);
       let d = (if \<not> nullish (oget data ''dstPort'') then oset d ''dstPort'' (oget data ''dstPort'') else d);
       let display = [(''data'', JObj d), (''position'', position)];
       ls \<leftarrow> getp displayEdge ''link_status'';
       Some (JObj (if truthy ls then oset display ''link_status'' ls else display), c')
     }"

definition createDefaultNode :: "int \<Rightarrow> jv" where
  "createDefaultNode nodeId =
     JObj [(''node_id'', JNum nodeId), (''node_name'', JStr (''Node '' @ num_string nodeId)),
           (''node_features'', JArr []), (''display'', JObj [])]"

definition createDefaultEdge :: "int \<Rightarrow> jv \<Rightarrow> jv \<Rightarrow> jv \<Rightarrow> jv \<Rightarrow> jv" where
  "createDefaultEdge edgeId srcNodeId dstNodeId srcPort dstPort =
     JObj [(''edge_id'', JNum edgeId), (''src_node_id'', js_or srcNodeId (JNum 0)),
           (''src_port_id'', js_default srcPort (JNum 0)),
           (''dst_node_id'', js_or dstNodeId (JNum 0)),
           (''dst_port_id'', js_default dstPort (JNum 0)),
           (''packet_types'', JArr []), (''display'', JObj [])]"

definition sanitizeNodeDisplay :: "rnd \<Rightarrow> jv \<Rightarrow> nat \<Rightarrow> (jv \<times> nat) option" where
  "sanitizeNodeDisplay rnd node c =
     do {
       nd \<leftarrow> getp node ''display'';
       let display = js_assign [] (js_or nd (JObj []));
       nid \<leftarrow> getp node ''node_id'';
       let (display, c') =
         (if \<not> truthy (oget display ''id'')
          then (if \<not> nullish nid then (oset display ''id'' (JStr (js_string nid)), c)
                else (let (i, c'') = generateId rnd ''node'' c in (oset display ''id'' i, c'')))
          else (display, c));
       position \<leftarrow> pickPosition (oget display ''position'');
       Some (JObj (oset display ''position'' position), c')
     }"

definition sanitizeEdgeDisplay :: "jv \<Rightarrow> jv option" where
  "sanitizeEdgeDisplay edge =
     do {
       ed \<leftarrow> getp edge ''display'';
       let display = js_assign [] (js_or ed (JObj []));
       let data = js_assign [] (js_or (oget display ''data'') (JObj []));
       position \<leftarrow> pickPosition (oget display ''position'');
       i \<leftarrow> buildEdgeDisplayId edge;
       let display = oset display ''data'' (JObj (oset data ''id'' (JStr i)));
       Some (JObj (oset display ''position'' position))
     }"

text \<open>
  The search for an unused number ends because the set of used ids is finite: what gets smaller is
  the number of used ids at or above the candidate.
\<close>

function getNextNumericId :: "jv list \<Rightarrow> int \<Rightarrow> int" where
  "getNextNumericId usedIds candidate =
     (if JNum candidate \<in> set usedIds then getNextNumericId usedIds (candidate + 1) else candidate)"
  by pat_completeness auto
termination
proof (relation "measure (\<lambda>(u, c). card {n. JNum n \<in> set u \<and> c \<le> n})", simp)
  fix u :: "jv list" and c :: int
  assume c: "JNum c \<in> set u"
  have "inj_on JNum {n. JNum n \<in> set u \<and> c \<le> n}" by (simp add: inj_on_def)
  moreover have "JNum ` {n. JNum n \<in> set u \<and> c \<le> n} \<subseteq> set u" by auto
  ultimately have "finite {n. JNum n \<in> set u \<and> c \<le> n}"
    using finite_surj finite_imageD finite_subset by (metis List.finite_set)
  moreover have "{n. JNum n \<in> set u \<and> c + 1 \<le> n} \<subset> {n. JNum n \<in> set u \<and> c \<le> n}"
  proof
    show "{n. JNum n \<in> set u \<and> c + 1 \<le> n} \<subseteq> {n. JNum n \<in> set u \<and> c \<le> n}" by auto
    have "c \<in> {n. JNum n \<in> set u \<and> c \<le> n} - {n. JNum n \<in> set u \<and> c + 1 \<le> n}"
      using c by simp
    then show "{n. JNum n \<in> set u \<and> c + 1 \<le> n} \<noteq> {n. JNum n \<in> set u \<and> c \<le> n}" by blast
  qed
  ultimately show "((u, c + 1), u, c) \<in> measure (\<lambda>(u, c). card {n. JNum n \<in> set u \<and> c \<le> n})"
    by (simp add: psubset_card_mono)
qed

declare getNextNumericId.simps [simp del]

section \<open>Merging the nodes\<close>

record node_state =
  ns_nodes :: "jv list"
  ns_byId :: "jv \<rightharpoonup> nat"
  ns_used :: "jv list"
  ns_next :: int
  ns_rnd :: nat

definition base_node_step :: "rnd \<Rightarrow> jv \<Rightarrow> node_state \<Rightarrow> node_state option" where
  "base_node_step rnd node s =
     do {
       (display, c) \<leftarrow> sanitizeNodeDisplay rnd node (ns_rnd s);
       node' \<leftarrow> setp node ''display'' display;
       i \<leftarrow> getp display ''id'';
       Some (s\<lparr>ns_nodes := ns_nodes s @ [node'],
               ns_byId := (ns_byId s)(i \<mapsto> length (ns_nodes s)), ns_rnd := c\<rparr>)
     }"

text \<open>The node object at a position after the display was stored in it.\<close>

definition finish_node :: "jv \<Rightarrow> jv list \<Rightarrow> int \<Rightarrow> jv \<Rightarrow> (jv \<times> jv list \<times> int) option" where
  "finish_node data used nextId node =
     do {
       nid \<leftarrow> getp node ''node_id'';
       (node, used, nextId) \<leftarrow>
         (case nid of
            JNum _ \<Rightarrow> Some (node, used, nextId)
          | _ \<Rightarrow> do {
              let n = getNextNumericId used nextId;
              node' \<leftarrow> setp node ''node_id'' (JNum n);
              Some (node', JNum n # used, n + 1)
            });
       name \<leftarrow> getp node ''node_name'';
       nid \<leftarrow> getp node ''node_id'';
       dname \<leftarrow> getp data ''name'';
       node \<leftarrow> (if truthy name then Some node
               else setp node ''node_name'' (js_or dname (JStr (''Node '' @ js_string nid))));
       Some (node, used, nextId)
     }"

definition display_node_step :: "rnd \<Rightarrow> jv \<Rightarrow> node_state \<Rightarrow> node_state option" where
  "display_node_step rnd displayNode s =
     do {
       dd \<leftarrow> getp displayNode ''data'';
       let data = js_or dd (JObj []);
       did \<leftarrow> getp data ''id'';
       let (displayId, c) = id_or_gen rnd ''node'' did (ns_rnd s);
       let (i, s) =
         (case ns_byId s displayId of
            Some i \<Rightarrow> (i, s)
          | None \<Rightarrow> (length (ns_nodes s),
              s\<lparr>ns_nodes := ns_nodes s @ [createDefaultNode (ns_next s)],
                ns_next := ns_next s + 1,
                ns_byId := (ns_byId s)(displayId \<mapsto> length (ns_nodes s))\<rparr>));
       pos \<leftarrow> getp displayNode ''position'';
       (display, c) \<leftarrow> buildNodeDisplayFromCy rnd (JObj [(''data'', data), (''position'', pos)]) c;
       node \<leftarrow> setp (ns_nodes s ! i) ''display'' display;
       (node, used, nextId) \<leftarrow> finish_node data (ns_used s) (ns_next s) node;
       Some (s\<lparr>ns_nodes := (ns_nodes s)[i := node], ns_used := used, ns_next := nextId, ns_rnd := c\<rparr>)
     }"

section \<open>Merging the edges\<close>

record edge_state =
  es_edges :: "jv list"
  es_byId :: "jv \<rightharpoonup> nat"
  es_used :: "jv list"
  es_next :: int
  es_rnd :: nat

definition base_edge_step :: "jv \<Rightarrow> edge_state \<Rightarrow> edge_state option" where
  "base_edge_step edge s =
     do {
       display \<leftarrow> sanitizeEdgeDisplay edge;
       edge' \<leftarrow> setp edge ''display'' display;
       d \<leftarrow> getp display ''data'';
       i \<leftarrow> getp d ''id'';
       Some (s\<lparr>es_edges := es_edges s @ [edge'],
               es_byId := (es_byId s)(i \<mapsto> length (es_edges s))\<rparr>)
     }"

text \<open>The ports of an edge the base network does not have: from its id, then from \<open>custom\<close>.\<close>

definition new_edge_ports :: "jv \<Rightarrow> jv \<Rightarrow> (jv \<times> jv) option" where
  "new_edge_ports data displayId =
     do {
       sp \<leftarrow> getp data ''srcPort'';
       dp \<leftarrow> getp data ''dstPort'';
       custom \<leftarrow> getp data ''custom'';
       s \<leftarrow> (case displayId of JStr s \<Rightarrow> Some s | _ \<Rightarrow> None);
       let (sp, dp) =
         (case parseEdgeDisplayId s of
            Some p \<Rightarrow> (JNum (ep_srcPort p), JNum (ep_dstPort p))
          | None \<Rightarrow> (js_nvl sp (JNum 0), js_nvl dp (JNum 0)));
       if truthy custom then do {
         csp \<leftarrow> getp custom ''src_port_id'';
         cdp \<leftarrow> getp custom ''dst_port_id'';
         Some (js_nvl csp sp, js_nvl cdp dp)
       } else Some (sp, dp)
     }"

text \<open>\<open>if (v != null) edge[k] = v\<close>\<close>

definition set_if :: "bool \<Rightarrow> string \<Rightarrow> jv \<Rightarrow> jv \<Rightarrow> jv option" where
  "set_if b k v edge = (if b then setp edge k v else Some edge)"

definition finish_edge :: "jv \<Rightarrow> (jv \<rightharpoonup> nat) \<Rightarrow> jv list \<Rightarrow> jv list \<Rightarrow> int \<Rightarrow> jv \<Rightarrow>
    (jv \<times> jv list \<times> int) option" where
  "finish_edge data nodeById nodes used nextId edge =
     do {
       eid \<leftarrow> getp edge ''edge_id'';
       (edge, used, nextId) \<leftarrow>
         (case eid of
            JNum _ \<Rightarrow> Some (edge, used, nextId)
          | _ \<Rightarrow> do {
              let n = getNextNumericId used nextId;
              edge' \<leftarrow> setp edge ''edge_id'' (JNum n);
              Some (edge', JNum n # used, n + 1)
            });
       source \<leftarrow> getp data ''source'';
       target \<leftarrow> getp data ''target'';
       edge \<leftarrow> (case nodeById source of
                 None \<Rightarrow> Some edge
               | Some i \<Rightarrow> do { n \<leftarrow> getp (nodes ! i) ''node_id''; setp edge ''src_node_id'' n });
       edge \<leftarrow> (case nodeById target of
                 None \<Rightarrow> Some edge
               | Some i \<Rightarrow> do { n \<leftarrow> getp (nodes ! i) ''node_id''; setp edge ''dst_node_id'' n });
       sp \<leftarrow> getp data ''srcPort'';
       edge \<leftarrow> set_if (\<not> nullish sp) ''src_port_id'' sp edge;
       dp \<leftarrow> getp data ''dstPort'';
       edge \<leftarrow> set_if (\<not> nullish dp) ''dst_port_id'' dp edge;
       custom \<leftarrow> getp data ''custom'';
       edge \<leftarrow>
         (if truthy custom then do {
            lat \<leftarrow> getp custom ''latency'';
            edge \<leftarrow> set_if (\<not> nullish lat) ''latency'' lat edge;
            bw \<leftarrow> getp custom ''bandwidth'';
            edge \<leftarrow> set_if (\<not> nullish bw) ''bandwidth'' bw edge;
            pts \<leftarrow> getp custom ''packet_types'';
            set_if (truthy pts) ''packet_types'' pts edge
          } else Some edge);
       Some (edge, used, nextId)
     }"

definition display_edge_step :: "rnd \<Rightarrow> (jv \<rightharpoonup> nat) \<Rightarrow> jv list \<Rightarrow> jv \<Rightarrow> edge_state \<Rightarrow> edge_state option" where
  "display_edge_step rnd nodeById nodes displayEdge s =
     do {
       dd \<leftarrow> getp displayEdge ''data'';
       let data = js_or dd (JObj []);
       did \<leftarrow> getp data ''id'';
       let (displayId, c) = id_or_gen rnd ''edge'' did (es_rnd s);
       (i, s) \<leftarrow>
         (case es_byId s displayId of
            Some i \<Rightarrow> Some (i, s)
          | None \<Rightarrow> do {
              (sp, dp) \<leftarrow> new_edge_ports data displayId;
              Some (length (es_edges s),
                s\<lparr>es_edges := es_edges s @ [createDefaultEdge (es_next s) (JNum 0) (JNum 0) sp dp],
                  es_next := es_next s + 1,
                  es_byId := (es_byId s)(displayId \<mapsto> length (es_edges s))\<rparr>)
            });
       pos \<leftarrow> getp displayEdge ''position'';
       ls \<leftarrow> getp displayEdge ''link_status'';
       (display, c) \<leftarrow> buildEdgeDisplayFromCy rnd
         (JObj [(''data'', data), (''position'', pos), (''link_status'', ls)]) c;
       edge \<leftarrow> setp (es_edges s ! i) ''display'' display;
       (edge, used, nextId) \<leftarrow> finish_edge data nodeById nodes (es_used s) (es_next s) edge;
       Some (s\<lparr>es_edges := (es_edges s)[i := edge], es_used := used, es_next := nextId, es_rnd := c\<rparr>)
     }"

section \<open>displayToNetwork\<close>

definition has_group :: "string \<Rightarrow> jv list \<Rightarrow> jv list option" where
  "has_group g es = do { gs \<leftarrow> mapM (\<lambda>e. getp e ''group'') es;
                         Some (map fst (filter (\<lambda>(e, v). v = JStr g) (zip es gs))) }"

definition split_elements :: "jv \<Rightarrow> (jv list \<times> jv list) option" where
  "split_elements elements =
     (case elements of
        JArr es \<Rightarrow> do { ns \<leftarrow> has_group ''nodes'' es; eds \<leftarrow> has_group ''edges'' es; Some (ns, eds) }
      | _ \<Rightarrow> do { ns \<leftarrow> getp elements ''nodes''; eds \<leftarrow> getp elements ''edges'';
                   Some (ensureArray ns, ensureArray eds) })"

definition merge_nodes :: "rnd \<Rightarrow> jv list \<Rightarrow> jv list \<Rightarrow> node_state option" where
  "merge_nodes rnd nodes displayNodes =
     do {
       used \<leftarrow> mapM (\<lambda>n. getp n ''node_id'') nodes;
       s \<leftarrow> foldM (base_node_step rnd) nodes
              \<lparr>ns_nodes = [], ns_byId = Map.empty, ns_used = used, ns_next = 0, ns_rnd = 0\<rparr>;
       foldM (display_node_step rnd) displayNodes (s\<lparr>ns_next := getNextNumericId used 1\<rparr>)
     }"

definition merge_edges :: "rnd \<Rightarrow> node_state \<Rightarrow> jv list \<Rightarrow> jv list \<Rightarrow> edge_state option" where
  "merge_edges rnd ns edges displayEdges =
     do {
       used \<leftarrow> mapM (\<lambda>e. getp e ''edge_id'') edges;
       s \<leftarrow> foldM base_edge_step edges
              \<lparr>es_edges = [], es_byId = Map.empty, es_used = used, es_next = 0, es_rnd = ns_rnd ns\<rparr>;
       foldM (display_edge_step rnd (ns_byId ns) (ns_nodes ns)) displayEdges
         (s\<lparr>es_next := getNextNumericId used 1\<rparr>)
     }"

definition displayToNetwork :: "rnd \<Rightarrow> jv \<Rightarrow> jv \<Rightarrow> jv option" where
  "displayToNetwork rnd displayState0 baseNetwork0 =
     do {
       let displayState = js_default displayState0 (JObj []);
       let network = deepClone (js_default baseNetwork0 (JObj []));
       bn \<leftarrow> getp network ''nodes'';
       network \<leftarrow> setp network ''nodes'' (JArr (ensureArray bn));
       be \<leftarrow> getp network ''edges'';
       network \<leftarrow> setp network ''edges'' (JArr (ensureArray be));
       els \<leftarrow> getp displayState ''elements'';
       (displayNodes, displayEdges) \<leftarrow> split_elements (js_or els (JObj []));
       ns \<leftarrow> merge_nodes rnd (ensureArray bn) displayNodes;
       es \<leftarrow> merge_edges rnd ns (ensureArray be) displayEdges;
       network \<leftarrow> setp network ''nodes'' (JArr (ns_nodes ns));
       network \<leftarrow> setp network ''edges'' (JArr (es_edges es));
       dz \<leftarrow> getp displayState ''zoom'';
       nz \<leftarrow> getp network ''zoom'';
       network \<leftarrow> setp network ''zoom'' (js_or (js_or dz nz) DEFAULT_ZOOM);
       dp \<leftarrow> getp displayState ''pan'';
       np \<leftarrow> getp network ''pan'';
       pan \<leftarrow> pickPosition (js_or (js_or dp np) DEFAULT_PAN);
       setp network ''pan'' pan
     }"

section \<open>From the graph editor's cells\<close>

text \<open>\<open>cell.source.cell || cell.source\<close>, then \<open>typeof id === 'object' ? id.cell : id\<close>.\<close>

definition terminal_id :: "jv \<Rightarrow> jv option" where
  "terminal_id t =
     do {
       c \<leftarrow> getp t ''cell'';
       let i = js_or c t;
       (case i of JObj _ \<Rightarrow> getp i ''cell'' | JArr _ \<Rightarrow> Some JUndef | JNull \<Rightarrow> None | _ \<Rightarrow> Some i)
     }"

definition x6_cell :: "jv \<Rightarrow> jv option" where
  "x6_cell cell =
     do {
       shape \<leftarrow> getp cell ''shape'';
       source \<leftarrow> getp cell ''source'';
       target \<leftarrow> getp cell ''target'';
       cid \<leftarrow> getp cell ''id'';
       cdata \<leftarrow> getp cell ''data'';
       let extra = js_assign [] (js_or cdata (JObj []));
       (if shape = JStr ''edge'' \<or> truthy source \<and> truthy target
        then do {
          s \<leftarrow> terminal_id source;
          t \<leftarrow> terminal_id target;
          Some (JObj [(''group'', JStr ''edges''),
            (''data'', JObj (js_assign [(''id'', cid), (''source'', s), (''target'', t)] (JObj extra)))])
        }
        else do {
          pos \<leftarrow> getp cell ''position'';
          x \<leftarrow> (if truthy pos then getp pos ''x'' else Some (JNum 0));
          y \<leftarrow> (if truthy pos then getp pos ''y'' else Some (JNum 0));
          Some (JObj [(''group'', JStr ''nodes''),
            (''data'', JObj (js_assign [(''id'', cid)] (JObj extra))),
            (''position'', JObj [(''x'', x), (''y'', y)])])
        })
     }"

definition x6ToDisplayState :: "jv \<Rightarrow> jv option" where
  "x6ToDisplayState x6Data =
     do {
       cs \<leftarrow> getp x6Data ''cells'';
       elements \<leftarrow> mapM x6_cell (ensureArray cs);
       Some (JObj [(''elements'', JArr elements), (''zoom'', JNum 1),
                   (''pan'', JObj [(''x'', JNum 0), (''y'', JNum 0)])])
     }"

definition x6ToNetwork :: "rnd \<Rightarrow> jv \<Rightarrow> jv \<Rightarrow> jv option" where
  "x6ToNetwork rnd x6Data baseNetwork =
     Option.bind (x6ToDisplayState x6Data) (\<lambda>d. displayToNetwork rnd d (js_default baseNetwork (JObj [])))"

end
