(* ===== verification/Display_Merge.thy ===== *)
theory Display_Merge
  imports Display_Sync
begin

text \<open>
  What merging a display state into a network does, proved over the definitions of \<open>Display_Sync\<close>:
  the numbers of the nodes and edges of the result, when they stay distinct, and that merging the
  unmodified display of a network changes neither.
\<close>

fun field :: "string \<Rightarrow> jv \<Rightarrow> jv" where
  "field k (JObj o') = oget o' k"
| "field k _ = JUndef"

fun is_num :: "jv \<Rightarrow> bool" where
  "is_num (JNum _) = True"
| "is_num _ = False"

fun is_obj :: "jv \<Rightarrow> bool" where
  "is_obj (JObj _) = True"
| "is_obj _ = False"

lemma is_numE: "is_num v \<Longrightarrow> \<exists>n. v = JNum n" by (cases v) auto
lemma is_objE: "is_obj v \<Longrightarrow> \<exists>o'. v = JObj o'" by (cases v) auto

lemma buildNodeDisplayFromCy_total:
  "\<exists>o' c'. buildNodeDisplayFromCy rnd (JObj [(''data'', d), (''position'', p)]) c = Some (JObj o', c')"
  using pickPosition_total [of p]
  by (auto simp: buildNodeDisplayFromCy_def Let_def split: prod.split)

lemma sanitizeNodeDisplay_obj:
  assumes "\<not> nullish (oget n ''node_id'')"
  shows "\<exists>d c'. sanitizeNodeDisplay rnd (JObj n) c = Some (JObj d, c') \<and>
     oget d ''id'' = (let i = field ''id'' (JObj (js_assign [] (js_or (oget n ''display'') (JObj []))))
                      in if truthy i then i else JStr (js_string (oget n ''node_id'')))"
proof -
  let ?d = "js_assign [] (js_or (oget n ''display'') (JObj []))"
  obtain p where "pickPosition (oget ?d ''position'') = Some (JObj p)"
    using pickPosition_total by blast
  then show ?thesis using assms by (simp add: sanitizeNodeDisplay_def Let_def)
qed

lemma finish_node_num:
  assumes "oget n ''node_id'' = JNum k" and "truthy data"
  shows "\<exists>n'. finish_node data used nxt (JObj n) = Some (JObj n', used, nxt) \<and> oget n' ''node_id'' = JNum k"
proof -
  obtain w where "getp data ''name'' = Some w" using getp_truthy assms(2) by blast
  then show ?thesis using assms by (auto simp: finish_node_def)
qed

text \<open>Between the nodes of a state: every node is an object with a numeric id.\<close>

definition node_inv :: "node_state \<Rightarrow> bool" where
  "node_inv s \<longleftrightarrow> (\<forall>n \<in> set (ns_nodes s). is_obj n \<and> is_num (field ''node_id'' n)) \<and>
     (\<forall>d i. ns_byId s d = Some i \<longrightarrow> i < length (ns_nodes s))"

definition node_ids :: "node_state \<Rightarrow> jv list" where
  "node_ids s = map (field ''node_id'') (ns_nodes s)"

definition display_id :: "rnd \<Rightarrow> string \<Rightarrow> jv \<Rightarrow> nat \<Rightarrow> jv" where
  "display_id rnd prefix dn c = fst (id_or_gen rnd prefix (field ''id'' (js_or (field ''data'' dn) (JObj []))) c)"

lemma getp_field: "truthy v \<Longrightarrow> getp v k = Some (field k v)"
  by (cases v) auto

lemma display_node_step_spec:
  assumes inv: "node_inv s" and dn: "is_obj dn"
  shows "\<exists>s'. display_node_step rnd dn s = Some s' \<and> node_inv s' \<and> ns_used s' = ns_used s \<and>
    (if ns_byId s (display_id rnd ''node'' dn (ns_rnd s)) = None
     then node_ids s' = node_ids s @ [JNum (ns_next s)] \<and> ns_next s' = ns_next s + 1 \<and>
          ns_byId s' = (ns_byId s)(display_id rnd ''node'' dn (ns_rnd s) \<mapsto> length (ns_nodes s))
     else node_ids s' = node_ids s \<and> ns_next s' = ns_next s \<and> ns_byId s' = ns_byId s)"
proof -
  obtain o' where o': "dn = JObj o'" using dn is_objE by blast
  define data where "data = js_or (oget o' ''data'') (JObj [])"
  have td: "truthy data" by (simp add: data_def)
  obtain did c where ig: "id_or_gen rnd ''node'' (field ''id'' data) (ns_rnd s) = (did, c)" by force
  then have did: "display_id rnd ''node'' dn (ns_rnd s) = did"
    by (simp add: display_id_def o' data_def)
  obtain bd c2 where bd: "buildNodeDisplayFromCy rnd
      (JObj [(''data'', data), (''position'', oget o' ''position'')]) c = Some (JObj bd, c2)"
    using buildNodeDisplayFromCy_total by blast
  show ?thesis
  proof (cases "ns_byId s did")
    case None
    let ?n = "oset [(''node_id'', JNum (ns_next s)), (''node_name'', JStr (''Node '' @ num_string (ns_next s))),
                    (''node_features'', JArr []), (''display'', JObj [])] ''display'' (JObj bd)"
    obtain n' where n': "finish_node data (ns_used s) (ns_next s + 1) (JObj ?n) = Some (JObj n', ns_used s, ns_next s + 1)"
        "oget n' ''node_id'' = JNum (ns_next s)"
      using finish_node_num [of ?n "ns_next s" data] td by force
    show ?thesis
      using inv None did ig bd n'
      by (auto simp: display_node_step_def o' getp_field [OF td] data_def [symmetric] createDefaultNode_def
          node_inv_def node_ids_def nth_append less_Suc_eq list_update_append split: if_splits)
  next
    case (Some i)
    then have i: "i < length (ns_nodes s)" using inv by (auto simp: node_inv_def)
    obtain n where n: "ns_nodes s ! i = JObj n" using inv i is_objE by (meson node_inv_def nth_mem)
    obtain k where k: "oget n ''node_id'' = JNum k"
      using inv i n is_numE by (metis field.simps(1) node_inv_def nth_mem)
    obtain n' where n': "finish_node data (ns_used s) (ns_next s) (JObj (oset n ''display'' (JObj bd))) = Some (JObj n', ns_used s, ns_next s)"
        "oget n' ''node_id'' = JNum k"
      using finish_node_num [of "oset n ''display'' (JObj bd)" k data] td k by force
    have "node_ids s ! i = JNum k" using i n k by (simp add: node_ids_def)
    then have "(map (field ''node_id'') (ns_nodes s))[i := JNum k] = node_ids s"
      by (metis list_update_id node_ids_def)
    then show ?thesis
      using inv Some did ig bd n' n i
      by (auto simp: display_node_step_def o' getp_field [OF td] data_def [symmetric]
          node_inv_def node_ids_def map_update dest!: set_update_subset_insert [THEN subsetD])
  qed
qed

lemma mapM_field: "(\<And>n. n \<in> set ns \<Longrightarrow> is_obj n) \<Longrightarrow> mapM (\<lambda>n. getp n k) ns = Some (map (field k) ns)"
proof (rule mapM_total)
  fix n assume "\<And>n. n \<in> set ns \<Longrightarrow> is_obj n" "n \<in> set ns"
  then have "is_obj n" by blast
  then show "getp n k = Some (field k n)" by (cases n) auto
qed

text \<open>The display id a base node is looked up under.\<close>

definition base_display_id :: "jv \<Rightarrow> jv" where
  "base_display_id n =
     (let i = field ''id'' (JObj (js_assign [] (js_or (field ''display'' n) (JObj []))))
      in if truthy i then i else JStr (js_string (field ''node_id'' n)))"

definition wf_base_node :: "jv \<Rightarrow> bool" where
  "wf_base_node n \<longleftrightarrow> is_obj n \<and> is_num (field ''node_id'' n)"

lemma base_node_step_spec:
  assumes "node_inv s" and n: "wf_base_node n"
  shows "\<exists>s'. base_node_step rnd n s = Some s' \<and> node_inv s' \<and> ns_used s' = ns_used s \<and>
     ns_next s' = ns_next s \<and> node_ids s' = node_ids s @ [field ''node_id'' n] \<and>
     ns_byId s' = (ns_byId s)(base_display_id n \<mapsto> length (ns_nodes s))"
proof -
  obtain o' k where o': "n = JObj o'" "oget o' ''node_id'' = JNum k"
    using n is_objE is_numE by (metis field.simps(1) wf_base_node_def)
  then obtain d c' where d: "sanitizeNodeDisplay rnd (JObj o') (ns_rnd s) = Some (JObj d, c')"
     "oget d ''id'' = base_display_id n"
    using sanitizeNodeDisplay_obj [of o' rnd "ns_rnd s"]
    by (auto simp: base_display_id_def nullish_def Let_def cong: if_cong)
  then show ?thesis using assms o'
    by (auto simp: base_node_step_def node_inv_def node_ids_def less_Suc_eq)
qed

lemma base_nodes_spec:
  assumes "node_inv s" and "\<forall>n \<in> set ns. wf_base_node n"
  shows "\<exists>s'. foldM (base_node_step rnd) ns s = Some s' \<and> node_inv s' \<and> ns_used s' = ns_used s \<and>
     ns_next s' = ns_next s \<and> node_ids s' = node_ids s @ map (field ''node_id'') ns \<and>
     dom (ns_byId s') = dom (ns_byId s) \<union> base_display_id ` set ns"
  using assms
proof (induction ns arbitrary: s)
  case (Cons n ns)
  obtain s1 where s1: "base_node_step rnd n s = Some s1" "node_inv s1" "ns_used s1 = ns_used s"
     "ns_next s1 = ns_next s" "node_ids s1 = node_ids s @ [field ''node_id'' n]"
     "ns_byId s1 = (ns_byId s)(base_display_id n \<mapsto> length (ns_nodes s))"
    using base_node_step_spec [of s n rnd] Cons.prems by auto
  show ?case using Cons.IH [of s1] Cons.prems s1 by auto
qed simp

text \<open>The id a display element carries.\<close>

definition carried_id :: "jv \<Rightarrow> jv" where
  "carried_id dn = field ''id'' (js_or (field ''data'' dn) (JObj []))"

definition identified :: "jv \<Rightarrow> bool" where
  "identified dn \<longleftrightarrow> is_obj dn \<and> truthy (carried_id dn)"

lemma display_id_identified: "identified dn \<Longrightarrow> display_id rnd p dn c = carried_id dn"
  by (simp add: display_id_def id_or_gen_def identified_def carried_id_def)

lemma card_Diff_insert_new:
  "finite A \<Longrightarrow> x \<notin> D \<Longrightarrow> card (insert x A - D) = Suc (card (A - insert x D))"
proof -
  assume "finite A" "x \<notin> D"
  then have "insert x A - D = insert x (A - insert x D)" "x \<notin> A - insert x D" "finite (A - insert x D)"
    by auto
  then show ?thesis by simp
qed

text \<open>Merging display nodes: the base ids stay in front, the new nodes are numbered on.\<close>

lemma display_nodes_spec:
  assumes "node_inv s" and "\<forall>dn \<in> set dns. identified dn"
  shows "\<exists>s' k. foldM (display_node_step rnd) dns s = Some s' \<and> node_inv s' \<and>
     k = card (carried_id ` set dns - dom (ns_byId s)) \<and>
     node_ids s' = node_ids s @ map JNum [ns_next s..ns_next s + int k - 1] \<and>
     ns_next s' = ns_next s + int k \<and> dom (ns_byId s') = dom (ns_byId s) \<union> carried_id ` set dns"
  using assms
proof (induction dns arbitrary: s)
  case Nil
  then show ?case by (auto intro!: exI [of _ "0::nat"])
next
  case (Cons dn dns)
  have id: "identified dn" "display_id rnd ''node'' dn (ns_rnd s) = carried_id dn"
    using Cons.prems by (auto simp: display_id_identified)
  obtain s1 where s1: "display_node_step rnd dn s = Some s1" "node_inv s1"
    and st: "if ns_byId s (carried_id dn) = None
     then node_ids s1 = node_ids s @ [JNum (ns_next s)] \<and> ns_next s1 = ns_next s + 1 \<and>
          ns_byId s1 = (ns_byId s)(carried_id dn \<mapsto> length (ns_nodes s))
     else node_ids s1 = node_ids s \<and> ns_next s1 = ns_next s \<and> ns_byId s1 = ns_byId s"
    using display_node_step_spec [of s dn rnd] Cons.prems id by (auto simp: identified_def)
  obtain s' k where s': "foldM (display_node_step rnd) dns s1 = Some s'" "node_inv s'"
     "k = card (carried_id ` set dns - dom (ns_byId s1))"
     "node_ids s' = node_ids s1 @ map JNum [ns_next s1..ns_next s1 + int k - 1]"
     "ns_next s' = ns_next s1 + int k" "dom (ns_byId s') = dom (ns_byId s1) \<union> carried_id ` set dns"
    using Cons.IH [of s1] s1 Cons.prems by auto
  show ?case
  proof (cases "ns_byId s (carried_id dn) = None")
    case True
    have "[ns_next s..ns_next s + int (Suc k) - 1] = ns_next s # [ns_next s + 1..ns_next s + 1 + int k - 1]"
      by (simp add: upto_rec1)
    moreover have "card (carried_id ` set (dn # dns) - dom (ns_byId s)) = Suc k"
      using True st s'(3) card_Diff_insert_new [of "carried_id ` set dns" "carried_id dn" "dom (ns_byId s)"]
      by (auto simp: domIff)
    ultimately show ?thesis using True st s1 s' by (intro exI [of _ s'] exI [of _ "Suc k"]) auto
  next
    case False
    then have "insert (carried_id dn) (carried_id ` set dns) - dom (ns_byId s) = carried_id ` set dns - dom (ns_byId s)"
      by auto
    then show ?thesis using False st s1 s' by (intro exI [of _ s'] exI [of _ k]) auto
  qed
qed

definition next_node_id :: "jv list \<Rightarrow> int" where
  "next_node_id nodes = getNextNumericId (map (field ''node_id'') nodes) 1"

lemma merge_nodes_spec:
  assumes "\<forall>n \<in> set nodes. wf_base_node n" and "\<forall>dn \<in> set displayNodes. identified dn"
  shows "\<exists>s. merge_nodes rnd nodes displayNodes = Some s \<and> node_inv s \<and>
     dom (ns_byId s) = base_display_id ` set nodes \<union> carried_id ` set displayNodes \<and>
     node_ids s = map (field ''node_id'') nodes @
       map JNum [next_node_id nodes .. next_node_id nodes +
         int (card (carried_id ` set displayNodes - base_display_id ` set nodes)) - 1]"
proof -
  let ?used = "map (field ''node_id'') nodes"
  let ?k = "card (carried_id ` set displayNodes - base_display_id ` set nodes)"
  let ?s0 = "\<lparr>ns_nodes = [], ns_byId = Map.empty, ns_used = ?used, ns_next = 0, ns_rnd = 0\<rparr>"
  have used: "mapM (\<lambda>n. getp n ''node_id'') nodes = Some ?used"
    using assms(1) by (intro mapM_field) (auto simp: wf_base_node_def)
  have i0: "node_inv ?s0" by (simp add: node_inv_def)
  obtain s1 where s1: "foldM (base_node_step rnd) nodes ?s0 = Some s1"
    "node_inv s1" "node_ids s1 = ?used" "dom (ns_byId s1) = base_display_id ` set nodes"
    using base_nodes_spec [OF i0 assms(1), of rnd] by (auto simp: node_ids_def)
  let ?s2 = "s1\<lparr>ns_next := next_node_id nodes\<rparr>"
  have i2: "node_inv ?s2" using s1(2) by (simp add: node_inv_def)
  have n2: "node_ids ?s2 = ?used" using s1(3) by (simp add: node_ids_def)
  show ?thesis
    using display_nodes_spec [OF i2 assms(2), of rnd] used s1(1,4) n2
    by (auto simp: merge_nodes_def next_node_id_def)
qed

section \<open>What merging edges does\<close>

definition edge_inv :: "edge_state \<Rightarrow> bool" where
  "edge_inv s \<longleftrightarrow> (\<forall>e \<in> set (es_edges s). is_obj e \<and> is_num (field ''edge_id'' e)) \<and>
     (\<forall>d i. es_byId s d = Some i \<longrightarrow> i < length (es_edges s))"

definition edge_ids :: "edge_state \<Rightarrow> jv list" where
  "edge_ids s = map (field ''edge_id'') (es_edges s)"

definition wf_base_edge :: "jv \<Rightarrow> bool" where
  "wf_base_edge e \<longleftrightarrow> is_obj e \<and> is_num (field ''edge_id'' e)"

text \<open>The display id a base edge is looked up under.\<close>

definition base_edge_id :: "jv \<Rightarrow> jv" where
  "base_edge_id e = JStr (case buildEdgeDisplayId e of None \<Rightarrow> [] | Some s \<Rightarrow> s)"

lemma buildEdgeDisplayId_obj: "\<exists>s. buildEdgeDisplayId (JObj e) = Some s"
  by (simp add: buildEdgeDisplayId_def Let_def)

lemma set_if_obj [simp]: "set_if b k v (JObj o') = Some (JObj (if b then oset o' k v else o'))"
  by (simp add: set_if_def)

lemma base_edge_step_spec:
  assumes "edge_inv s" and e: "wf_base_edge e"
  shows "\<exists>s'. base_edge_step e s = Some s' \<and> edge_inv s' \<and> es_used s' = es_used s \<and>
     es_next s' = es_next s \<and> es_rnd s' = es_rnd s \<and> edge_ids s' = edge_ids s @ [field ''edge_id'' e] \<and>
     es_byId s' = (es_byId s)(base_edge_id e \<mapsto> length (es_edges s))"
proof -
  obtain o' k where o': "e = JObj o'" "oget o' ''edge_id'' = JNum k"
    using e is_objE is_numE by (metis field.simps(1) wf_base_edge_def)
  obtain i where i: "buildEdgeDisplayId (JObj o') = Some i" using buildEdgeDisplayId_obj by blast
  obtain p where "pickPosition (oget (js_assign [] (js_or (oget o' ''display'') (JObj []))) ''position'') = Some (JObj p)"
    using pickPosition_total by blast
  then show ?thesis using assms o' i
    by (auto simp: base_edge_step_def sanitizeEdgeDisplay_def Let_def edge_inv_def edge_ids_def
        base_edge_id_def less_Suc_eq)
qed

lemma base_edges_spec:
  assumes "edge_inv s" and "\<forall>e \<in> set es. wf_base_edge e"
  shows "\<exists>s'. foldM base_edge_step es s = Some s' \<and> edge_inv s' \<and> es_used s' = es_used s \<and>
     es_next s' = es_next s \<and> edge_ids s' = edge_ids s @ map (field ''edge_id'') es \<and>
     dom (es_byId s') = dom (es_byId s) \<union> base_edge_id ` set es"
  using assms
proof (induction es arbitrary: s)
  case (Cons e es)
  obtain s1 where s1: "base_edge_step e s = Some s1" "edge_inv s1" "es_used s1 = es_used s"
     "es_next s1 = es_next s" "edge_ids s1 = edge_ids s @ [field ''edge_id'' e]"
     "es_byId s1 = (es_byId s)(base_edge_id e \<mapsto> length (es_edges s))"
    using base_edge_step_spec [of s e] Cons.prems by auto
  show ?case using Cons.IH [of s1] Cons.prems s1 by auto
qed simp

definition store_ok :: "(jv \<rightharpoonup> nat) \<Rightarrow> jv list \<Rightarrow> bool" where
  "store_ok byId nodes \<longleftrightarrow> (\<forall>d i. byId d = Some i \<longrightarrow> i < length nodes \<and> is_obj (nodes ! i))"

lemma node_inv_store: "node_inv s \<Longrightarrow> store_ok (ns_byId s) (ns_nodes s)"
  by (auto simp: node_inv_def store_ok_def)

text \<open>Each write of \<open>finish_edge\<close> keeps the object an object and leaves its number alone.\<close>

definition numbered :: "string \<Rightarrow> int \<Rightarrow> jv \<Rightarrow> bool" where
  "numbered k n v \<longleftrightarrow> (\<exists>o'. v = JObj o' \<and> oget o' k = JNum n)"

lemma numbered_set:
  "numbered k n v \<Longrightarrow> k' \<noteq> k \<Longrightarrow> \<exists>v'. setp v k' w = Some v' \<and> numbered k n v'"
  by (auto simp: numbered_def)

lemma numbered_set_if:
  "numbered k n v \<Longrightarrow> k' \<noteq> k \<Longrightarrow> \<exists>v'. set_if b k' w v = Some v' \<and> numbered k n v'"
  by (auto simp: numbered_def)

lemma numbered_endpoint:
  assumes "numbered ''edge_id'' n e" "k \<noteq> ''edge_id''" "store_ok byId nodes"
  shows "\<exists>e'. (case byId d of None \<Rightarrow> Some e
     | Some i \<Rightarrow> Option.bind (getp (nodes ! i) ''node_id'') (setp e k)) = Some e' \<and> numbered ''edge_id'' n e'"
proof (cases "byId d")
  case (Some i)
  then have "is_obj (nodes ! i)" using assms(3) by (auto simp: store_ok_def)
  then obtain o' where "nodes ! i = JObj o'" using is_objE by blast
  then show ?thesis using Some assms numbered_set by auto
qed (use assms in auto)

lemma numbered_custom:
  assumes e: "numbered ''edge_id'' n e"
  shows "\<exists>e'. (if truthy custom then do {
            lat \<leftarrow> getp custom ''latency'';
            edge \<leftarrow> set_if (\<not> nullish lat) ''latency'' lat e;
            bw \<leftarrow> getp custom ''bandwidth'';
            edge \<leftarrow> set_if (\<not> nullish bw) ''bandwidth'' bw edge;
            pts \<leftarrow> getp custom ''packet_types'';
            set_if (truthy pts) ''packet_types'' pts edge
          } else Some e) = Some e' \<and> numbered ''edge_id'' n e'"
proof (cases "truthy custom")
  case True
  note g = getp_field [OF True]
  from e obtain o' where "e = JObj o'" "oget o' ''edge_id'' = JNum n" by (auto simp: numbered_def)
  then show ?thesis using True by (auto simp: g numbered_def)
qed (use e in auto)

lemma finish_edge_num:
  assumes e: "numbered ''edge_id'' k e" and "truthy data" and st: "store_ok byId nodes"
  shows "\<exists>e'. finish_edge data byId nodes used nxt e = Some (e', used, nxt) \<and> numbered ''edge_id'' k e'"
proof -
  note g = getp_field [OF assms(2)]
  obtain o' where o': "e = JObj o'" "oget o' ''edge_id'' = JNum k" using e by (auto simp: numbered_def)
  obtain e1 where e1: "(case byId (field ''source'' data) of None \<Rightarrow> Some e
     | Some i \<Rightarrow> Option.bind (getp (nodes ! i) ''node_id'') (setp e ''src_node_id'')) = Some e1" "numbered ''edge_id'' k e1"
    using numbered_endpoint [OF e _ st, of "''src_node_id''"] by auto
  obtain e2 where e2: "(case byId (field ''target'' data) of None \<Rightarrow> Some e1
     | Some i \<Rightarrow> Option.bind (getp (nodes ! i) ''node_id'') (setp e1 ''dst_node_id'')) = Some e2" "numbered ''edge_id'' k e2"
    using numbered_endpoint [OF e1(2) _ st, of "''dst_node_id''"] by auto
  let ?sp = "field ''srcPort'' data" and ?dp = "field ''dstPort'' data"
  obtain e3 where e3: "set_if (\<not> nullish ?sp) ''src_port_id'' ?sp e2 = Some e3" "numbered ''edge_id'' k e3"
    using numbered_set_if [OF e2(2), of "''src_port_id''"] by auto
  obtain e4 where e4: "set_if (\<not> nullish ?dp) ''dst_port_id'' ?dp e3 = Some e4" "numbered ''edge_id'' k e4"
    using numbered_set_if [OF e3(2), of "''dst_port_id''"] by auto
  show ?thesis
    using numbered_custom [OF e4(2), of "field ''custom'' data"] e1(1) e2(1) e3(1) e4(1) o'
    by (auto simp: finish_edge_def g)
qed

text \<open>Display edges whose id is a non-empty string.\<close>

definition named :: "jv \<Rightarrow> bool" where
  "named de \<longleftrightarrow> is_obj de \<and> (case carried_id de of JStr s \<Rightarrow> s \<noteq> [] | _ \<Rightarrow> False)"

lemma new_edge_ports_total: "truthy data \<Longrightarrow> \<exists>sp dp. new_edge_ports data (JStr s) = Some (sp, dp)"
proof -
  assume t: "truthy data"
  show ?thesis
  proof (cases "truthy (field ''custom'' data)")
    case True
    then show ?thesis using getp_field [OF t] getp_field [OF True]
      by (auto simp: new_edge_ports_def split: option.splits)
  next
    case False
    then show ?thesis using getp_field [OF t]
      by (auto simp: new_edge_ports_def split: option.splits)
  qed
qed

lemma buildEdgeDisplayFromCy_total:
  "\<exists>o' c'. buildEdgeDisplayFromCy rnd (JObj [(''data'', d), (''position'', p), (''link_status'', ls)]) c = Some (JObj o', c')"
  using pickPosition_total [of p]
  by (auto simp: buildEdgeDisplayFromCy_def Let_def split: prod.split)

lemma display_edge_step_spec:
  assumes inv: "edge_inv s" and de: "named de" and st: "store_ok byId nodes"
  shows "\<exists>s'. display_edge_step rnd byId nodes de s = Some s' \<and> edge_inv s' \<and> es_used s' = es_used s \<and>
    (if es_byId s (carried_id de) = None
     then edge_ids s' = edge_ids s @ [JNum (es_next s)] \<and> es_next s' = es_next s + 1 \<and>
          es_byId s' = (es_byId s)(carried_id de \<mapsto> length (es_edges s))
     else edge_ids s' = edge_ids s \<and> es_next s' = es_next s \<and> es_byId s' = es_byId s)"
proof -
  obtain o' where o': "de = JObj o'" using de is_objE named_def by blast
  define data where "data = js_or (oget o' ''data'') (JObj [])"
  have td: "truthy data" by (simp add: data_def)
  obtain str where str: "carried_id de = JStr str" "str \<noteq> []"
    using de by (auto simp: named_def split: jv.splits)
  then have fid: "field ''id'' data = JStr str" by (simp add: carried_id_def o' data_def)
  have ig: "id_or_gen rnd ''edge'' (field ''id'' data) (es_rnd s) = (JStr str, es_rnd s)"
    using str fid by (simp add: id_or_gen_def)
  obtain bd c2 where bd: "buildEdgeDisplayFromCy rnd
      (JObj [(''data'', data), (''position'', oget o' ''position''), (''link_status'', oget o' ''link_status'')]) (es_rnd s) = Some (JObj bd, c2)"
    using buildEdgeDisplayFromCy_total by blast
  show ?thesis
  proof (cases "es_byId s (JStr str)")
    case None
    obtain sp dp where pts: "new_edge_ports data (JStr str) = Some (sp, dp)"
      using new_edge_ports_total [OF td] by blast
    obtain n0 where n0: "setp (createDefaultEdge (es_next s) (JNum 0) (JNum 0) sp dp) ''display'' (JObj bd) = Some n0"
      "numbered ''edge_id'' (es_next s) n0"
      by (simp add: createDefaultEdge_def numbered_def)
    obtain n' where n': "finish_edge data byId nodes (es_used s) (es_next s + 1) n0 = Some (n', es_used s, es_next s + 1)"
        "numbered ''edge_id'' (es_next s) n'"
      using finish_edge_num [OF n0(2) td st] by blast
    show ?thesis
      using inv None ig bd n0(1) n' pts
      by (auto simp: display_edge_step_def o' getp_field [OF td] data_def [symmetric] str(1)[unfolded o']
          edge_inv_def edge_ids_def nth_append less_Suc_eq list_update_append numbered_def split: if_splits)
  next
    case (Some i)
    then have i: "i < length (es_edges s)" using inv by (auto simp: edge_inv_def)
    then obtain n k where n: "es_edges s ! i = JObj n" and k: "oget n ''edge_id'' = JNum k"
      using inv is_objE is_numE by (metis field.simps(1) edge_inv_def nth_mem)
    have nb: "numbered ''edge_id'' k (JObj (oset n ''display'' (JObj bd)))" using k by (simp add: numbered_def)
    obtain n' where n': "finish_edge data byId nodes (es_used s) (es_next s) (JObj (oset n ''display'' (JObj bd))) = Some (n', es_used s, es_next s)"
        "numbered ''edge_id'' k n'"
      using finish_edge_num [OF nb td st] by blast
    have "edge_ids s ! i = JNum k" using i n k by (simp add: edge_ids_def)
    then have "(map (field ''edge_id'') (es_edges s))[i := JNum k] = edge_ids s"
      by (metis list_update_id edge_ids_def)
    then show ?thesis
      using inv Some ig bd n' n i
      by (auto simp: display_edge_step_def o' getp_field [OF td] data_def [symmetric] str(1)[unfolded o']
          edge_inv_def edge_ids_def map_update numbered_def dest!: set_update_subset_insert [THEN subsetD])
  qed
qed

lemma display_edges_spec:
  assumes "edge_inv s" and "\<forall>de \<in> set des. named de" and st: "store_ok byId nodes"
  shows "\<exists>s' k. foldM (display_edge_step rnd byId nodes) des s = Some s' \<and> edge_inv s' \<and>
     k = card (carried_id ` set des - dom (es_byId s)) \<and>
     edge_ids s' = edge_ids s @ map JNum [es_next s..es_next s + int k - 1] \<and>
     es_next s' = es_next s + int k"
  using assms(1,2)
proof (induction des arbitrary: s)
  case Nil
  then show ?case by (auto intro!: exI [of _ "0::nat"])
next
  case (Cons de des)
  obtain s1 where s1: "display_edge_step rnd byId nodes de s = Some s1" "edge_inv s1"
    and stp: "if es_byId s (carried_id de) = None
     then edge_ids s1 = edge_ids s @ [JNum (es_next s)] \<and> es_next s1 = es_next s + 1 \<and>
          es_byId s1 = (es_byId s)(carried_id de \<mapsto> length (es_edges s))
     else edge_ids s1 = edge_ids s \<and> es_next s1 = es_next s \<and> es_byId s1 = es_byId s"
    using display_edge_step_spec [OF _ _ st, of s de rnd] Cons.prems by auto
  obtain s' k where s': "foldM (display_edge_step rnd byId nodes) des s1 = Some s'" "edge_inv s'"
     "k = card (carried_id ` set des - dom (es_byId s1))"
     "edge_ids s' = edge_ids s1 @ map JNum [es_next s1..es_next s1 + int k - 1]"
     "es_next s' = es_next s1 + int k"
    using Cons.IH [of s1] s1 Cons.prems by auto
  show ?case
  proof (cases "es_byId s (carried_id de) = None")
    case True
    have "[es_next s..es_next s + int (Suc k) - 1] = es_next s # [es_next s + 1..es_next s + 1 + int k - 1]"
      by (simp add: upto_rec1)
    moreover have "card (carried_id ` set (de # des) - dom (es_byId s)) = Suc k"
      using True stp s'(3) card_Diff_insert_new [of "carried_id ` set des" "carried_id de" "dom (es_byId s)"]
      by (auto simp: domIff)
    ultimately show ?thesis using True stp s1 s' by (intro exI [of _ s'] exI [of _ "Suc k"]) auto
  next
    case False
    then have "insert (carried_id de) (carried_id ` set des) - dom (es_byId s) = carried_id ` set des - dom (es_byId s)"
      by auto
    then show ?thesis using False stp s1 s' by (intro exI [of _ s'] exI [of _ k]) auto
  qed
qed

definition next_edge_id :: "jv list \<Rightarrow> int" where
  "next_edge_id edges = getNextNumericId (map (field ''edge_id'') edges) 1"

lemma merge_edges_spec:
  assumes "\<forall>e \<in> set edges. wf_base_edge e" and "\<forall>de \<in> set displayEdges. named de" and "node_inv ns"
  shows "\<exists>s. merge_edges rnd ns edges displayEdges = Some s \<and> edge_inv s \<and>
     edge_ids s = map (field ''edge_id'') edges @
       map JNum [next_edge_id edges .. next_edge_id edges +
         int (card (carried_id ` set displayEdges - base_edge_id ` set edges)) - 1]"
proof -
  let ?used = "map (field ''edge_id'') edges"
  let ?s0 = "\<lparr>es_edges = [], es_byId = Map.empty, es_used = ?used, es_next = 0, es_rnd = ns_rnd ns\<rparr>"
  have used: "mapM (\<lambda>n. getp n ''edge_id'') edges = Some ?used"
    using assms(1) by (intro mapM_field) (auto simp: wf_base_edge_def)
  have i0: "edge_inv ?s0" by (simp add: edge_inv_def)
  obtain s1 where s1: "foldM base_edge_step edges ?s0 = Some s1"
    "edge_inv s1" "edge_ids s1 = ?used" "dom (es_byId s1) = base_edge_id ` set edges"
    using base_edges_spec [OF i0 assms(1)] by (auto simp: edge_ids_def)
  let ?s2 = "s1\<lparr>es_next := next_edge_id edges\<rparr>"
  have i2: "edge_inv ?s2" using s1(2) by (simp add: edge_inv_def)
  have n2: "edge_ids ?s2 = ?used" using s1(3) by (simp add: edge_ids_def)
  show ?thesis
    using display_edges_spec [OF i2 assms(2) node_inv_store [OF assms(3)], of rnd] used s1(1,4) n2
    by (auto simp: merge_edges_def next_edge_id_def)
qed

section \<open>Display edges that say nothing of ports\<close>

definition zero_ports :: "jv \<Rightarrow> bool" where
  "zero_ports e \<longleftrightarrow> is_obj e \<and> field ''src_port_id'' e = JNum 0 \<and> field ''dst_port_id'' e = JNum 0"

definition portless :: "jv \<Rightarrow> bool" where
  "portless de \<longleftrightarrow>
     (let data = js_or (field ''data'' de) (JObj [])
      in is_obj de \<and> nullish (field ''srcPort'' data) \<and> nullish (field ''dstPort'' data) \<and>
         \<not> truthy (field ''custom'' data) \<and>
         (\<exists>s. carried_id de = JStr s \<and> s \<noteq> [] \<and> parseEdgeDisplayId s = None))"

lemma zero_ports_setp:
  "zero_ports v \<Longrightarrow> setp v k w = Some v' \<Longrightarrow> k \<noteq> ''src_port_id'' \<Longrightarrow> k \<noteq> ''dst_port_id'' \<Longrightarrow> zero_ports v'"
  by (auto simp: zero_ports_def dest!: is_objE)

lemma finish_edge_zero:
  assumes "finish_edge data byId nodes used nxt e = Some (e', used', nxt')" and "zero_ports e" and "truthy data"
    and "nullish (field ''srcPort'' data)" "nullish (field ''dstPort'' data)" "\<not> truthy (field ''custom'' data)"
  shows "zero_ports e'"
proof -
  note g = getp_field [OF assms(3)]
  obtain o' where o': "e = JObj o'" using assms(2) is_objE by (auto simp: zero_ports_def)
  define e1 where "e1 = (case oget o' ''edge_id'' of JNum _ \<Rightarrow> e | _ \<Rightarrow> JObj (oset o' ''edge_id'' (JNum (getNextNumericId used nxt))))"
  have z1: "zero_ports e1" using assms(2) by (auto simp: e1_def o' zero_ports_def split: jv.splits)
  have "\<exists>e2. (case byId (field ''source'' data) of None \<Rightarrow> Some e1
     | Some i \<Rightarrow> Option.bind (getp (nodes ! i) ''node_id'') (setp e1 ''src_node_id'')) = Some e2 \<and>
    (case byId (field ''target'' data) of None \<Rightarrow> Some e2
     | Some i \<Rightarrow> Option.bind (getp (nodes ! i) ''node_id'') (setp e2 ''dst_node_id'')) = Some e'"
  proof (cases "\<exists>k. oget o' ''edge_id'' = JNum k")
    case True
    then have "e1 = e" by (auto simp: e1_def)
    then show ?thesis
      using True assms(1,4-6) by (auto simp: finish_edge_def g o' set_if_def Let_def split: bind_splits)
  next
    case False
    then have "e1 = JObj (oset o' ''edge_id'' (JNum (getNextNumericId used nxt)))"
      by (auto simp: e1_def split: jv.splits)
    then show ?thesis
      using False assms(1,4-6)
      by (auto simp: finish_edge_def g o' set_if_def Let_def split: jv.splits bind_splits)
  qed
  then obtain e2 where e2: "(case byId (field ''source'' data) of None \<Rightarrow> Some e1
     | Some i \<Rightarrow> Option.bind (getp (nodes ! i) ''node_id'') (setp e1 ''src_node_id'')) = Some e2"
    "(case byId (field ''target'' data) of None \<Rightarrow> Some e2
     | Some i \<Rightarrow> Option.bind (getp (nodes ! i) ''node_id'') (setp e2 ''dst_node_id'')) = Some e'" by blast
  have z2: "zero_ports e2" using e2(1) z1 zero_ports_setp [of e1] by (auto split: option.splits bind_splits)
  show ?thesis using e2(2) z2 zero_ports_setp [of e2] by (auto split: option.splits bind_splits)
qed

text \<open>From position \<open>b\<close> on, all edges of the state have zero ports.\<close>

definition zero_from :: "nat \<Rightarrow> edge_state \<Rightarrow> bool" where
  "zero_from b s \<longleftrightarrow> b \<le> length (es_edges s) \<and> (\<forall>i. b \<le> i \<and> i < length (es_edges s) \<longrightarrow> zero_ports (es_edges s ! i))"

lemma display_edge_step_zero:
  assumes step: "display_edge_step rnd byId nodes de s = Some s'" and de: "portless de" and z: "zero_from b s"
  shows "zero_from b s'"
proof -
  obtain o' where o': "de = JObj o'" using de is_objE by (auto simp: portless_def Let_def)
  define data where "data = js_or (oget o' ''data'') (JObj [])"
  have td: "truthy data" by (simp add: data_def)
  note g = getp_field [OF td]
  obtain str where str: "field ''id'' data = JStr str" "str \<noteq> []" "parseEdgeDisplayId str = None"
    using de by (auto simp: portless_def carried_id_def o' data_def Let_def)
  have p: "nullish (field ''srcPort'' data)" "nullish (field ''dstPort'' data)" "\<not> truthy (field ''custom'' data)"
    using de by (simp_all add: portless_def o' data_def Let_def)
  have ig: "id_or_gen rnd ''edge'' (JStr str) (es_rnd s) = (JStr str, es_rnd s)"
    using str(2) by (simp add: id_or_gen_def)
  have np: "new_edge_ports data (JStr str) = Some (JNum 0, JNum 0)"
    using p str(3) by (simp add: new_edge_ports_def g js_nvl_def)
  obtain i s1 bd c e nx e' used nx' where
    i: "(case es_byId s (JStr str) of Some i \<Rightarrow> (i, s)
        | None \<Rightarrow> (length (es_edges s),
            s\<lparr>es_edges := es_edges s @ [createDefaultEdge (es_next s) (JNum 0) (JNum 0) (JNum 0) (JNum 0)],
              es_next := es_next s + 1, es_byId := (es_byId s)(JStr str \<mapsto> length (es_edges s))\<rparr>)) = (i, s1)"
    and e: "setp (es_edges s1 ! i) ''display'' bd = Some e"
    and e': "finish_edge data byId nodes (es_used s1) (es_next s1) e = Some (e', used, nx')"
    and s': "s' = s1\<lparr>es_edges := (es_edges s1)[i := e'], es_used := used, es_next := nx', es_rnd := c\<rparr>"
    using step by (auto simp: display_edge_step_def o' data_def [symmetric] g str(1) ig np split: bind_splits option.splits prod.splits)
  have z1: "zero_from b s1"
    using i z by (auto simp: zero_from_def nth_append createDefaultEdge_def zero_ports_def js_default_def split: option.splits)
  have "zero_ports e'" if "b \<le> i" "i < length (es_edges s1)"
    using finish_edge_zero [OF e' zero_ports_setp [OF _ e] td p] z1 that by (simp add: zero_from_def)
  then show ?thesis using z1 unfolding zero_from_def s'
    by (simp add: nth_list_update del: not_less) (metis nth_list_update_eq nth_list_update_neq)
qed

lemma merge_edges_zero:
  assumes m: "merge_edges rnd ns edges displayEdges = Some s" and b: "\<forall>e \<in> set edges. wf_base_edge e"
    and d: "\<forall>de \<in> set displayEdges. portless de"
  shows "zero_from (length edges) s"
proof -
  let ?used = "map (field ''edge_id'') edges"
  let ?s0 = "\<lparr>es_edges = [], es_byId = Map.empty, es_used = ?used, es_next = 0, es_rnd = ns_rnd ns\<rparr>"
  have used: "mapM (\<lambda>n. getp n ''edge_id'') edges = Some ?used"
    using b by (intro mapM_field) (auto simp: wf_base_edge_def)
  have "edge_inv ?s0" by (simp add: edge_inv_def)
  then obtain s1 where s1: "foldM base_edge_step edges ?s0 = Some s1" "edge_ids s1 = ?used"
    using base_edges_spec [OF _ b, of ?s0] by (auto simp: edge_ids_def)
  have "length (es_edges s1) = length edges" using arg_cong [OF s1(2), of length] by (simp add: edge_ids_def)
  then have "zero_from (length edges) (s1\<lparr>es_next := getNextNumericId ?used 1\<rparr>)"
    unfolding zero_from_def by auto
  moreover have "foldM (display_edge_step rnd (ns_byId ns) (ns_nodes ns)) displayEdges
      (s1\<lparr>es_next := getNextNumericId ?used 1\<rparr>) = Some s"
    using m used s1(1) by (simp add: merge_edges_def)
  ultimately show ?thesis
    using d by (elim foldM_invariant [where I = "zero_from (length edges)"]) (auto intro: display_edge_step_zero)
qed

section \<open>What displayToNetwork does to a well-formed network\<close>

fun keys_ok :: "jv \<Rightarrow> bool" where
  "keys_ok (JObj o') = distinct (map fst o')"
| "keys_ok _ = True"

definition network_nodes :: "jv \<Rightarrow> jv list" where
  "network_nodes net = ensureArray (field ''nodes'' net)"

definition network_edges :: "jv \<Rightarrow> jv list" where
  "network_edges net = ensureArray (field ''edges'' net)"

definition wf_network :: "jv \<Rightarrow> bool" where
  "wf_network net \<longleftrightarrow> is_obj net \<and> keys_ok net \<and>
     (\<forall>n \<in> set (network_nodes net). wf_base_node n \<and> keys_ok n) \<and>
     (\<forall>e \<in> set (network_edges net). wf_base_edge e \<and> keys_ok e)"

definition clone_field :: "jv \<Rightarrow> jv" where
  "clone_field v = (if v = JUndef then JUndef else json_clone v)"

lemma oget_notin: "k \<notin> fst ` set o' \<Longrightarrow> oget o' k = JUndef"
  by (induction o') auto

lemma field_json_clone:
  assumes "is_obj v" "keys_ok v"
  shows "field k (json_clone v) = clone_field (field k v)"
proof -
  obtain o' where v: "v = JObj o'" using assms(1) is_objE by blast
  have "distinct (map fst o') \<Longrightarrow>
     oget (map (\<lambda>(k, v). (k, json_clone v)) (filter (\<lambda>(k, v). v \<noteq> JUndef) o')) k = clone_field (oget o' k)"
  proof (induction o')
    case (Cons x xs)
    then have "fst x \<notin> fst ` set xs" by simp
    then have "oget xs (fst x) = JUndef" by (rule oget_notin)
    then show ?case using Cons by (cases x) (auto simp: clone_field_def)
  qed (simp add: clone_field_def)
  then show ?thesis using assms(2) v by (simp add: case_prod_unfold)
qed

lemma is_obj_clone [simp]: "is_obj (json_clone v) = is_obj v"
  by (cases v) auto

lemma is_num_clone [simp]: "is_num (clone_field v) = is_num v"
  by (cases v) (auto simp: clone_field_def)

lemma clone_num: "is_num v \<Longrightarrow> clone_field v = v"
  by (cases v) (auto simp: clone_field_def)

lemma ensureArray_clone [simp]: "ensureArray (clone_field v) = map json_clone (ensureArray v)"
  by (cases v) (auto simp: clone_field_def ensureArray_def)

lemma deepClone_obj: "is_obj v \<Longrightarrow> deepClone v = json_clone v"
  by (cases v) (auto simp: deepClone_def js_simps)

lemma network_nodes_clone: "wf_network net \<Longrightarrow> network_nodes (deepClone net) = map json_clone (network_nodes net)"
  and network_edges_clone: "wf_network net \<Longrightarrow> network_edges (deepClone net) = map json_clone (network_edges net)"
  by (auto simp: wf_network_def network_nodes_def network_edges_def deepClone_obj field_json_clone)

lemma wf_clone_nodes:
  assumes "wf_network net"
  shows "\<forall>n \<in> set (network_nodes (deepClone net)). wf_base_node n"
    and "map (field ''node_id'') (network_nodes (deepClone net)) = map (field ''node_id'') (network_nodes net)"
  using assms
  by (auto simp: network_nodes_clone) (auto simp: wf_network_def wf_base_node_def field_json_clone clone_num)

lemma wf_clone_edges:
  assumes "wf_network net"
  shows "\<forall>e \<in> set (network_edges (deepClone net)). wf_base_edge e"
    and "map (field ''edge_id'') (network_edges (deepClone net)) = map (field ''edge_id'') (network_edges net)"
  using assms
  by (auto simp: network_edges_clone) (auto simp: wf_network_def wf_base_edge_def field_json_clone clone_num)

text \<open>How many display elements the base network does not know.\<close>

definition new_node_count :: "jv \<Rightarrow> jv list \<Rightarrow> nat" where
  "new_node_count net dns =
     card (carried_id ` set dns - base_display_id ` set (network_nodes (deepClone net)))"

definition new_edge_count :: "jv \<Rightarrow> jv list \<Rightarrow> nat" where
  "new_edge_count net des =
     card (carried_id ` set des - base_edge_id ` set (network_edges (deepClone net)))"

lemma displayToNetwork_merge:
  assumes net: "wf_network net" and ds: "is_obj ds"
    and els: "split_elements (js_or (field ''elements'' ds) (JObj [])) = Some (dns, des)"
    and dns: "\<forall>dn \<in> set dns. identified dn" and des: "\<forall>de \<in> set des. named de"
  shows "\<exists>net'. displayToNetwork rnd ds net = Some net' \<and>
     map (field ''node_id'') (network_nodes net') =
       map (field ''node_id'') (network_nodes net) @
       map JNum [next_node_id (network_nodes net) .. next_node_id (network_nodes net) + int (new_node_count net dns) - 1] \<and>
     map (field ''edge_id'') (network_edges net') =
       map (field ''edge_id'') (network_edges net) @
       map JNum [next_edge_id (network_edges net) .. next_edge_id (network_edges net) + int (new_edge_count net des) - 1]"
proof -
  let ?n = "network_nodes (deepClone net)" and ?e = "network_edges (deepClone net)"
  obtain nb where nb: "deepClone net = JObj nb"
    using net is_objE [of "json_clone net"] by (auto simp: wf_network_def deepClone_obj)
  obtain d where d: "ds = JObj d" using ds is_objE by blast
  have n: "net \<noteq> JUndef" using net by (auto simp: wf_network_def)
  have cl: "next_node_id ?n = next_node_id (network_nodes net)" "next_edge_id ?e = next_edge_id (network_edges net)"
    using wf_clone_nodes(2) [OF net] wf_clone_edges(2) [OF net] by (simp_all add: next_node_id_def next_edge_id_def)
  obtain ns where ns: "merge_nodes rnd ?n dns = Some ns" "node_inv ns"
    "node_ids ns = map (field ''node_id'') (network_nodes net) @
       map JNum [next_node_id (network_nodes net) .. next_node_id (network_nodes net) + int (new_node_count net dns) - 1]"
    using merge_nodes_spec [OF wf_clone_nodes(1) [OF net] dns, of rnd] cl(1) wf_clone_nodes(2) [OF net]
    by (auto simp: new_node_count_def)
  obtain es where es: "merge_edges rnd ns ?e des = Some es"
    "edge_ids es = map (field ''edge_id'') (network_edges net) @
       map JNum [next_edge_id (network_edges net) .. next_edge_id (network_edges net) + int (new_edge_count net des) - 1]"
    using merge_edges_spec [OF wf_clone_edges(1) [OF net] des ns(2), of rnd] cl(2) wf_clone_edges(2) [OF net]
    by (auto simp: new_edge_count_def)
  have arr: "ensureArray (oget nb ''nodes'') = ?n" "ensureArray (oget nb ''edges'') = ?e"
    by (simp_all add: network_nodes_def network_edges_def nb)
  obtain p where "pickPosition (js_or (js_or (oget d ''pan'') (oget nb ''pan'')) DEFAULT_PAN) = Some (JObj p)"
    using pickPosition_total by blast
  then show ?thesis
    using nb d n arr ns(1,3) es els
    by (simp add: displayToNetwork_def js_default_def network_nodes_def network_edges_def
        node_ids_def edge_ids_def ensureArray_def)
qed

text \<open>Edges appended for display edges without ports have the ports zero.\<close>

lemma displayToNetwork_ports:
  assumes m: "displayToNetwork rnd ds net = Some net'" and net: "wf_network net" and ds: "is_obj ds"
    and els: "split_elements (js_or (field ''elements'' ds) (JObj [])) = Some (dns, des)"
    and des: "\<forall>de \<in> set des. portless de"
  shows "\<forall>e \<in> set (drop (length (network_edges net)) (network_edges net')). zero_ports e"
proof -
  let ?e = "network_edges (deepClone net)"
  obtain nb where nb: "deepClone net = JObj nb"
    using net is_objE [of "json_clone net"] by (auto simp: wf_network_def deepClone_obj)
  obtain d where d: "ds = JObj d" using ds is_objE by blast
  have n: "net \<noteq> JUndef" using net by (auto simp: wf_network_def)
  have arr: "ensureArray (oget nb ''edges'') = ?e" by (simp add: network_edges_def nb)
  obtain ns es where es: "merge_edges rnd ns ?e des = Some es" "network_edges net' = es_edges es"
    using m nb d n els pickPosition_total [of "js_or (js_or (oget d ''pan'') (oget nb ''pan'')) DEFAULT_PAN"] arr
    by (auto simp: displayToNetwork_def js_default_def network_edges_def ensureArray_def split: bind_splits)
  have "length ?e = length (network_edges net)"
    using arg_cong [OF wf_clone_edges(2) [OF net], of length] by simp
  then have "zero_from (length (network_edges net)) es"
    using merge_edges_zero [OF es(1) wf_clone_edges(1) [OF net] des] by simp
  then show ?thesis by (auto simp: zero_from_def es(2) in_set_conv_nth)
qed

section \<open>Displaying a network and merging the display back\<close>

text \<open>A value JSON leaves alone, and display attributes that are absent or an object with such an id.\<close>

fun plain :: "jv \<Rightarrow> bool" where
  "plain (JArr _) = False"
| "plain (JObj _) = False"
| "plain _ = True"

definition wf_display :: "jv \<Rightarrow> bool" where
  "wf_display d \<longleftrightarrow> nullish d \<or> is_obj d \<and> keys_ok d \<and> plain (field ''id'' d)"

definition wf_displayed :: "jv \<Rightarrow> bool" where
  "wf_displayed net \<longleftrightarrow> wf_network net \<and>
     (\<forall>n \<in> set (network_nodes net). wf_display (field ''display'' n)) \<and>
     (\<forall>e \<in> set (network_edges net). \<forall>k \<in> {''src_node_id'', ''src_port_id'', ''dst_node_id'', ''dst_port_id''}.
        plain (field k e))"

lemma clone_plain: "plain v \<Longrightarrow> clone_field v = v"
  by (cases v) (auto simp: clone_field_def)

lemma clone_nullish: "nullish v \<Longrightarrow> clone_field v = v"
  by (auto simp: clone_field_def nullish_def)

lemma nullish_or: "nullish v \<Longrightarrow> js_or v w = w"
  by (auto simp: js_simps)

lemma keys_ok_clone: "keys_ok v \<Longrightarrow> keys_ok (json_clone v)"
proof (cases v)
  case (JObj o')
  assume "keys_ok v"
  then have "distinct (map fst (filter (\<lambda>(k, v). v \<noteq> JUndef) o'))"
    using JObj distinct_map_filter by auto
  moreover have "map fst (map (\<lambda>(k, v). (k, json_clone v)) xs) = map fst xs" for xs :: obj
    by (induction xs) auto
  ultimately show ?thesis using JObj by (simp del: map_map)
qed auto

lemma assigned_id:
  assumes "is_obj d" "keys_ok d"
  shows "field k (JObj (js_assign [] (js_or d (JObj [])))) = field k d"
  using assms by (cases d) (simp_all add: js_or_def js_assign_empty)

lemma base_display_id_clone:
  assumes "wf_base_node n" "keys_ok n" "wf_display (field ''display'' n)"
  shows "base_display_id (json_clone n) = base_display_id n"
proof -
  let ?d = "field ''display'' n"
  have n: "is_obj n" "clone_field (field ''node_id'' n) = field ''node_id'' n"
    using assms(1) by (auto simp: wf_base_node_def clone_num)
  show ?thesis
  proof (cases "nullish ?d")
    case True
    then show ?thesis using n assms(2)
      by (simp add: base_display_id_def field_json_clone clone_nullish Let_def cong: if_cong)
  next
    case False
    then have d: "is_obj ?d" "keys_ok ?d" "plain (field ''id'' ?d)"
      using assms(3) by (auto simp: wf_display_def)
    then have "clone_field ?d = json_clone ?d" by (auto simp: clone_field_def)
    then show ?thesis
      using n d assms(2) assigned_id [of "json_clone ?d"] assigned_id [of ?d]
      by (simp add: base_display_id_def field_json_clone keys_ok_clone clone_plain Let_def del: field.simps cong: if_cong)
  qed
qed

lemma truthy_base_display_id: "wf_base_node n \<Longrightarrow> truthy (base_display_id n)"
proof -
  assume "wf_base_node n"
  then obtain k where "field ''node_id'' n = JNum k" using is_numE by (auto simp: wf_base_node_def)
  then show ?thesis by (simp add: base_display_id_def num_string_def Let_def)
qed

lemma buildNodeDisplay_ok:
  assumes "wf_base_node n"
  shows "\<exists>dn d c'. buildNodeDisplayFromNetwork rnd n c = Some (dn, c') \<and> is_obj dn \<and>
     field ''data'' dn = JObj d \<and> oget d ''id'' = base_display_id n"
proof -
  obtain o' k where o': "n = JObj o'" "oget o' ''node_id'' = JNum k"
    using assms is_objE is_numE by (metis field.simps(1) wf_base_node_def)
  let ?d = "js_assign [] (js_or (oget o' ''display'') (JObj []))"
  obtain p where p: "pickPosition (oget ?d ''position'') = Some (JObj p)"
    using pickPosition_total by blast
  show ?thesis
    using o' p by (auto simp: buildNodeDisplayFromNetwork_def base_display_id_def nullish_def Let_def)
qed

lemma carried_id_data: "field ''data'' dn = JObj d \<Longrightarrow> carried_id dn = oget d ''id''"
  by (simp add: carried_id_def js_or_def)

lemma displayNodes_loop_ok:
  assumes "\<forall>n \<in> set ns. wf_base_node n"
  shows "\<exists>dns m'. displayNodes_loop rnd ns m c = Some (dns, m') \<and> (\<forall>dn \<in> set dns. is_obj dn) \<and>
     map carried_id dns = map base_display_id ns"
  using assms
proof (induction ns arbitrary: m c)
  case (Cons n ns)
  obtain dn d c' where dn: "buildNodeDisplayFromNetwork rnd n c = Some (dn, c')" "is_obj dn"
     "field ''data'' dn = JObj d" "oget d ''id'' = base_display_id n"
    using buildNodeDisplay_ok Cons.prems by (meson list.set_intros(1))
  obtain od where od: "dn = JObj od" using dn(2) is_objE by blast
  obtain on where on: "n = JObj on" using Cons.prems is_objE by (auto simp: wf_base_node_def)
  obtain dns m' where "displayNodes_loop rnd ns (m(oget on ''node_id'' \<mapsto> base_display_id n)) c' = Some (dns, m')"
     "\<forall>dn \<in> set dns. is_obj dn" "map carried_id dns = map base_display_id ns"
    using Cons.IH [of "m(oget on ''node_id'' \<mapsto> base_display_id n)" c'] Cons.prems
    by (meson list.set_intros(2))
  then show ?case
    using dn od on carried_id_data [OF dn(3)] by (intro exI [of _ "dn # dns"] exI [of _ m']) simp
qed simp

lemma buildEdgeDisplay_ok:
  assumes "wf_base_edge e"
  shows "\<exists>de d. buildEdgeDisplayFromNetwork e m = Some de \<and> is_obj de \<and>
     field ''data'' de = JObj d \<and> oget d ''id'' = base_edge_id e"
proof -
  obtain o' where o': "e = JObj o'" using assms is_objE by (auto simp: wf_base_edge_def)
  obtain p where p: "pickPosition (oget (js_assign [] (js_or (oget o' ''display'') (JObj []))) ''position'') = Some (JObj p)"
    using pickPosition_total by blast
  obtain i where "buildEdgeDisplayId (JObj o') = Some i" using buildEdgeDisplayId_obj by blast
  then show ?thesis using o' p by (simp add: buildEdgeDisplayFromNetwork_def Let_def base_edge_id_def)
qed

lemma displayEdges_ok:
  assumes "\<forall>e \<in> set es. wf_base_edge e"
  shows "\<exists>des. mapM (\<lambda>e. buildEdgeDisplayFromNetwork e m) es = Some des \<and> (\<forall>de \<in> set des. is_obj de) \<and>
     map carried_id des = map base_edge_id es"
  using assms
proof (induction es)
  case (Cons e es)
  then show ?case using buildEdgeDisplay_ok [of e m] carried_id_data by force
qed simp

lemma base_edge_id_named: "is_obj e \<Longrightarrow> \<exists>c s. base_edge_id e = JStr (c # s)"
  by (cases e) (auto simp: base_edge_id_def buildEdgeDisplayId_def Let_def)

lemma base_edge_id_clone:
  assumes "is_obj e" "keys_ok e"
    and "\<forall>k \<in> {''src_node_id'', ''src_port_id'', ''dst_node_id'', ''dst_port_id''}. plain (field k e)"
  shows "base_edge_id (json_clone e) = base_edge_id e"
proof -
  have f: "is_obj v \<Longrightarrow> getp v k = Some (field k v)" for v k by (cases v) auto
  show ?thesis
    using assms by (simp add: base_edge_id_def buildEdgeDisplayId_def f field_json_clone clone_plain del: getp.simps)
qed

lemma same_ids_new: "map f xs = map g ys \<Longrightarrow> card (f ` set xs - g ` set ys) = 0"
  by (metis Diff_cancel card.empty image_set)

lemma display_roundtrip_ids:
  assumes "wf_displayed net"
  shows "\<exists>d net'. networkToDisplay rnd net = Some d \<and> displayToNetwork rnd' d net = Some net' \<and>
     map (field ''node_id'') (network_nodes net') = map (field ''node_id'') (network_nodes net) \<and>
     map (field ''edge_id'') (network_edges net') = map (field ''edge_id'') (network_edges net)"
proof -
  have net: "wf_network net" using assms by (simp add: wf_displayed_def)
  obtain o' where o': "net = JObj o'" using net is_objE [of net] by (auto simp: wf_network_def)
  have ar: "ensureArray (oget o' ''nodes'') = network_nodes net" "ensureArray (oget o' ''edges'') = network_edges net"
    by (simp_all add: o' network_nodes_def network_edges_def)
  have wn: "\<forall>n \<in> set (network_nodes net). wf_base_node n" and we: "\<forall>e \<in> set (network_edges net). wf_base_edge e"
    using net by (auto simp: wf_network_def)
  obtain dns m where dns: "displayNodes_loop rnd (network_nodes net) Map.empty 0 = Some (dns, m)"
     "\<forall>dn \<in> set dns. is_obj dn" "map carried_id dns = map base_display_id (network_nodes net)"
    using displayNodes_loop_ok [OF wn] by blast
  obtain des where des: "mapM (\<lambda>e. buildEdgeDisplayFromNetwork e m) (network_edges net) = Some des"
     "\<forall>de \<in> set des. is_obj de" "map carried_id des = map base_edge_id (network_edges net)"
    using displayEdges_ok [OF we] by blast
  obtain p where p: "pickPosition (js_or (oget o' ''pan'') DEFAULT_PAN) = Some (JObj p)"
    using pickPosition_total by blast
  let ?d = "JObj [(''zoom'', js_or (oget o' ''zoom'') DEFAULT_ZOOM), (''pan'', JObj p),
                  (''elements'', JObj [(''nodes'', JArr dns), (''edges'', JArr des)])]"
  have d: "networkToDisplay rnd net = Some ?d"
    using dns(1) des(1) p ar by (simp add: networkToDisplay_def js_default_def o')
  have els: "split_elements (js_or (field ''elements'' ?d) (JObj [])) = Some (dns, des)"
    by (simp add: split_elements_def js_or_def ensureArray_def)
  have "\<forall>dn \<in> set dns. identified dn"
    using dns(2,3) wn truthy_base_display_id by (metis (no_types, lifting) identified_def in_set_conv_nth length_map nth_map nth_mem)
  moreover have "\<forall>de \<in> set des. named de"
  proof
    fix de assume de: "de \<in> set des"
    then obtain e where "e \<in> set (network_edges net)" "carried_id de = base_edge_id e"
      using des(3) by (metis (no_types, lifting) in_set_conv_nth length_map nth_map nth_mem)
    then show "named de" using base_edge_id_named [of e] we des(2) de by (auto simp: named_def wf_base_edge_def)
  qed
  moreover have "map base_display_id (network_nodes (deepClone net)) = map base_display_id (network_nodes net)"
    using assms by (auto simp: network_nodes_clone [OF net] wf_displayed_def wf_network_def base_display_id_clone)
  then have "new_node_count net dns = 0"
    using dns(3) same_ids_new by (metis new_node_count_def)
  moreover have "map base_edge_id (network_edges (deepClone net)) = map base_edge_id (network_edges net)"
    using assms by (auto simp: network_edges_clone [OF net] wf_displayed_def wf_network_def wf_base_edge_def base_edge_id_clone)
  then have "new_edge_count net des = 0"
    using des(3) same_ids_new by (metis new_edge_count_def)
  ultimately show ?thesis
    using displayToNetwork_merge [OF net _ els, of rnd'] d by auto
qed

section \<open>When the numbers stay distinct\<close>

lemma getNextNumericId_ge: "c \<le> getNextNumericId used c"
  by (induction used c rule: getNextNumericId.induct) (subst getNextNumericId.simps, force)

lemma getNextNumericId_unused: "JNum (getNextNumericId used c) \<notin> set used"
  by (induction used c rule: getNextNumericId.induct) (subst getNextNumericId.simps, simp)

lemma getNextNumericId_least:
  "c \<le> i \<Longrightarrow> i < getNextNumericId used c \<Longrightarrow> JNum i \<in> set used"
proof (induction used c rule: getNextNumericId.induct)
  case (1 used c)
  then show ?case
    by (cases "JNum c \<in> set used"; cases "i = c")
       (auto simp: getNextNumericId.simps [of used c])
qed

definition ex_net :: jv where
  "ex_net = JObj [(''nodes'', JArr [JObj [(''node_id'', JNum 1)], JObj [(''node_id'', JNum 3)]]),
                  (''edges'', JArr [JObj [(''edge_id'', JNum 1), (''src_node_id'', JNum 1), (''dst_node_id'', JNum 3)]])]"

definition ex_dns :: "jv list" where
  "ex_dns = [JObj [(''data'', JObj [(''id'', JStr ''a'')])], JObj [(''data'', JObj [(''id'', JStr ''b'')])]]"

definition ex_des :: "jv list" where
  "ex_des = [JObj [(''data'', JObj [(''id'', JStr ''edge-1-p0-3-p0'')])]]"

definition ex_display :: jv where
  "ex_display = JObj [(''elements'', JObj [(''nodes'', JArr ex_dns), (''edges'', JArr ex_des)])]"

lemma ex_hyps:
  "is_obj ex_display" "\<forall>dn \<in> set ex_dns. identified dn" "\<forall>de \<in> set ex_des. named de"
  "split_elements (js_or (field ''elements'' ex_display) (JObj [])) = Some (ex_dns, ex_des)"
  by (simp_all add: ex_display_def ex_dns_def ex_des_def identified_def named_def carried_id_def js_or_def
      split_elements_def ensureArray_def)

lemma ex_counts:
  "new_node_count ex_net ex_dns = 2" "new_edge_count ex_net ex_des = 0"
  "next_node_id (network_nodes ex_net) = 2" "next_edge_id (network_edges ex_net) = 2"
  by code_simp+

section \<open>Properties\<close>

lemma ex_net_parts [simp]:
  "network_nodes ex_net = [JObj [(''node_id'', JNum 1)], JObj [(''node_id'', JNum 3)]]"
  "network_edges ex_net = [JObj [(''edge_id'', JNum 1), (''src_node_id'', JNum 1), (''dst_node_id'', JNum 3)]]"
  by (simp_all add: ex_net_def network_nodes_def network_edges_def ensureArray_def)

lemma wf_ex_net: "wf_network ex_net" and wf_displayed_ex_net: "wf_displayed ex_net"
  by (simp_all add: wf_network_def wf_displayed_def wf_base_node_def wf_base_edge_def wf_display_def nullish_def)
     (simp_all add: ex_net_def)

text \<open>The first number from 1 on that no id uses, without reference to how it is searched for.\<close>

definition first_free :: "jv list \<Rightarrow> int \<Rightarrow> bool" where
  "first_free ids a \<longleftrightarrow> 1 \<le> a \<and> JNum a \<notin> set ids \<and> (\<forall>i. 1 \<le> i \<and> i < a \<longrightarrow> JNum i \<in> set ids)"

lemma first_free_next:
  "first_free (map (field ''node_id'') ns) (next_node_id ns)"
  "first_free (map (field ''edge_id'') es) (next_edge_id es)"
  unfolding first_free_def next_node_id_def next_edge_id_def
  using getNextNumericId_ge getNextNumericId_unused getNextNumericId_least by blast+

lemma first_free_unique: "first_free ids a \<Longrightarrow> first_free ids b \<Longrightarrow> a = b"
  unfolding first_free_def by (metis linorder_neqE_linordered_idom)

text \<open>C5: merging a display state into a base network never fails and returns a network whose node ids
  are those of the base network, in order, followed by consecutive numbers for the display nodes the
  base does not know, starting at the first number from 1 on that the base does not use; and likewise
  for edges. So no base element is ever removed or renumbered. Conditions: the network, its nodes
  and its edges are objects without repeated keys whose ids are numbers (\<open>wf_network\<close>), the display
  state is an object whose elements split into nodes and edges, and every display element is an object
  that carries an id, a true value for nodes (\<open>identified\<close>) and a non-empty string for edges
  (\<open>named\<close>). A base node is known by its display id, a base edge by \<open>buildEdgeDisplayId\<close>; the new
  elements are counted by the different ids they carry.\<close>

theorem displayToNetwork_ids:
  assumes net: "wf_network net" and ds: "is_obj ds"
    and els: "split_elements (js_or (field ''elements'' ds) (JObj [])) = Some (dns, des)"
    and dns: "\<forall>dn \<in> set dns. identified dn" and des: "\<forall>de \<in> set des. named de"
  shows "\<exists>net' a b. displayToNetwork rnd ds net = Some net' \<and>
     first_free (map (field ''node_id'') (network_nodes net)) a \<and>
     first_free (map (field ''edge_id'') (network_edges net)) b \<and>
     map (field ''node_id'') (network_nodes net') =
       map (field ''node_id'') (network_nodes net) @
       map JNum [a .. a + int (new_node_count net dns) - 1] \<and>
     map (field ''edge_id'') (network_edges net') =
       map (field ''edge_id'') (network_edges net) @
       map JNum [b .. b + int (new_edge_count net des) - 1]"
  using displayToNetwork_merge [OF net ds els dns des, of rnd] first_free_next by blast

lemma ex_net_free:
  "first_free (map (field ''node_id'') (network_nodes ex_net)) 2"
  "first_free (map (field ''edge_id'') (network_edges ex_net)) 2"
proof -
  have "i = 1" if "1 \<le> i" "i < 2" for i :: int using that by simp
  then show "first_free (map (field ''node_id'') (network_nodes ex_net)) 2"
    "first_free (map (field ''edge_id'') (network_edges ex_net)) 2"
    by (auto simp: first_free_def)
qed

theorem displayToNetwork_ids_witness:
  "\<exists>net'. displayToNetwork (\<lambda>_. ''r'') ex_display ex_net = Some net' \<and>
     map (field ''node_id'') (network_nodes net') = [JNum 1, JNum 3, JNum 2, JNum 3] \<and>
     map (field ''edge_id'') (network_edges net') = [JNum 1]"
  using displayToNetwork_ids [OF wf_ex_net ex_hyps(1,4,2,3), of "\<lambda>_. ''r''"] ex_counts
    first_free_unique [OF _ ex_net_free(1)] first_free_unique [OF _ ex_net_free(2)]
  by (auto simp: upto.simps)

text \<open>C17: displaying a network and merging that display back returns a network with exactly the same
  node ids and edge ids, in the same order.\<close>

theorem display_roundtrip:
  assumes "wf_displayed net"
  shows "\<exists>d net'. networkToDisplay rnd net = Some d \<and> displayToNetwork rnd' d net = Some net' \<and>
     map (field ''node_id'') (network_nodes net') = map (field ''node_id'') (network_nodes net) \<and>
     map (field ''edge_id'') (network_edges net') = map (field ''edge_id'') (network_edges net)"
  using assms by (rule display_roundtrip_ids)

theorem display_roundtrip_witness:
  "\<exists>d net'. networkToDisplay (\<lambda>_. ''r'') ex_net = Some d \<and> displayToNetwork (\<lambda>_. ''s'') d ex_net = Some net' \<and>
     map (field ''node_id'') (network_nodes net') = [JNum 1, JNum 3] \<and>
     map (field ''edge_id'') (network_edges net') = [JNum 1]"
  using display_roundtrip [OF wf_displayed_ex_net, of "\<lambda>_. ''r''" "\<lambda>_. ''s''"] by simp

lemma distinct_numbered_on:
  "distinct (ids @ map JNum [a..b]) \<longleftrightarrow> distinct ids \<and> (\<forall>i. a \<le> i \<and> i \<le> b \<longrightarrow> JNum i \<notin> set ids)"
  by (auto simp: distinct_map inj_on_def)

text \<open>C18: after a merge the node ids are pairwise distinct exactly when the base ids were and no base
  node already uses one of the consecutive numbers given to the new nodes; only the first of
  these numbers is ever checked by the code.\<close>

theorem merged_node_ids_distinct:
  assumes net: "wf_network net" and ds: "is_obj ds"
    and els: "split_elements (js_or (field ''elements'' ds) (JObj [])) = Some (dns, des)"
    and dns: "\<forall>dn \<in> set dns. identified dn" and des: "\<forall>de \<in> set des. named de"
    and base: "ids = map (field ''node_id'') (network_nodes net)"
    and first: "nxt = next_node_id (network_nodes net)"
  shows "\<exists>net'. displayToNetwork rnd ds net = Some net' \<and>
     (distinct (map (field ''node_id'') (network_nodes net')) \<longleftrightarrow>
        distinct ids \<and> (\<forall>i. nxt \<le> i \<and> i \<le> nxt + int (new_node_count net dns) - 1 \<longrightarrow> JNum i \<notin> set ids)) \<and>
     1 \<le> nxt \<and> JNum nxt \<notin> set ids"
proof -
  obtain net' where "displayToNetwork rnd ds net = Some net'"
    "map (field ''node_id'') (network_nodes net') = ids @ map JNum [nxt .. nxt + int (new_node_count net dns) - 1]"
    using displayToNetwork_merge [OF net ds els dns des, of rnd] base first by auto
  then show ?thesis
    using getNextNumericId_ge [of 1 ids] getNextNumericId_unused [of ids 1] base first
    by (auto simp: distinct_numbered_on next_node_id_def simp del: distinct_append)
qed

theorem merged_node_ids_distinct_witness:
  "\<exists>net'. displayToNetwork (\<lambda>_. ''r'') ex_display ex_net = Some net' \<and>
     \<not> distinct (map (field ''node_id'') (network_nodes net'))"
  using merged_node_ids_distinct [OF wf_ex_net ex_hyps(1,4,2,3) refl refl, of "\<lambda>_. ''r''"] ex_counts
  by (auto dest: spec [of _ "3::int"])

text \<open>two new display nodes can give a network in which two nodes carry the same id although all
  ids of the base network were distinct: with base ids 1 and 3 the new nodes get 2 and 3.\<close>

lemma new_node_ids_collide:
  "\<exists>net ds net'. wf_network net \<and> distinct (map (field ''node_id'') (network_nodes net)) \<and>
     displayToNetwork rnd ds net = Some net' \<and>
     \<not> distinct (map (field ''node_id'') (network_nodes net'))"
proof -
  obtain net' where "displayToNetwork rnd ex_display ex_net = Some net'"
     "map (field ''node_id'') (network_nodes net') = [JNum 1, JNum 3, JNum 2, JNum 3]"
    using displayToNetwork_merge [OF wf_ex_net ex_hyps(1,4,2,3), of rnd] ex_counts by (auto simp: upto.simps)
  then show ?thesis using wf_ex_net by (intro exI [of _ ex_net] exI [of _ ex_display] exI [of _ net']) simp
qed

end
