(* ===== verification/Collection.thy ===== *)
theory Collection
  imports Js_Value
begin

text \<open>
  The ordered set of cells of the graph editor (class \<open>Collection\<close> of x6's model/collection.js in
  web/static/cyeditor.common.js): an array of cells in z order, a map from ids to cells, and a
  \<open>length\<close> that is kept by hand. A cell is an object referenced from both the array and the map;
  here it is a value, and an assignment to a cell (\<open>coll_update\<close>) writes both places. Cells carry a
  z index when they are added (\<open>prepareCell\<close> sees to it), so that the comparator compares numbers.
  Events are returned as lists. The \<open>merge\<close> option, which no caller in the bundle sets, is left out.
\<close>

section \<open>Cells\<close>

text \<open>The ends of an edge are cells, by id, or free points, which carry no id.\<close>

record gcell =
  gc_id :: string
  gc_edge :: bool
  gc_source :: "string option"
  gc_target :: "string option"
  gc_z :: "int option"
  gc_props :: obj

definition z_of :: "gcell \<Rightarrow> int" where
  "z_of c = (case gc_z c of None \<Rightarrow> 0 | Some z \<Rightarrow> z)"

record collection =
  col_cells :: "gcell list"
  col_map :: "string \<rightharpoonup> gcell"
  col_length :: int

definition coll_clean :: collection where
  "coll_clean = \<lparr>col_cells = [], col_map = Map.empty, col_length = 0\<rparr>"

section \<open>Array operations\<close>

text \<open>\<open>xs.splice(i, 0, ...ys)\<close> and \<open>xs.splice(i, 1)\<close>: a negative position counts from the end.\<close>

definition splice_at :: "int \<Rightarrow> 'a list \<Rightarrow> nat" where
  "splice_at i xs = (if i < 0 then nat (max 0 (int (length xs) + i)) else min (nat i) (length xs))"

definition splice_insert :: "int \<Rightarrow> 'a list \<Rightarrow> 'a list \<Rightarrow> 'a list" where
  "splice_insert i ys xs = take (splice_at i xs) xs @ ys @ drop (splice_at i xs) xs"

definition splice_delete :: "int \<Rightarrow> 'a list \<Rightarrow> 'a list" where
  "splice_delete i xs = take (splice_at i xs) xs @ drop (Suc (splice_at i xs)) xs"

fun index_of :: "('a \<Rightarrow> bool) \<Rightarrow> 'a list \<Rightarrow> int" where
  "index_of P [] = -1"
| "index_of P (x # xs) = (if P x then 0 else (let i = index_of P xs in if i < 0 then -1 else i + 1))"

section \<open>Operations\<close>

definition coll_get :: "string \<Rightarrow> collection \<Rightarrow> gcell option" where
  "coll_get i col = col_map col i"

definition coll_has :: "string \<Rightarrow> collection \<Rightarrow> bool" where
  "coll_has i col \<longleftrightarrow> coll_get i col \<noteq> None"

definition coll_at :: "int \<Rightarrow> collection \<Rightarrow> gcell option" where
  "coll_at index col =
     (let i = (if index < 0 then index + col_length col else index)
      in if 0 \<le> i \<and> i < int (length (col_cells col)) then Some (col_cells col ! nat i) else None)"

definition coll_first :: "collection \<Rightarrow> gcell option" where
  "coll_first col = coll_at 0 col"

definition coll_last :: "collection \<Rightarrow> gcell option" where
  "coll_last col = coll_at (-1) col"

definition coll_indexOf :: "gcell \<Rightarrow> collection \<Rightarrow> int" where
  "coll_indexOf c col = index_of (\<lambda>d. gc_id d = gc_id c) (col_cells col)"

definition coll_sort :: "collection \<Rightarrow> collection" where
  "coll_sort col = col\<lparr>col_cells := sort_key z_of (col_cells col)\<rparr>"

text \<open>The position \<open>add\<close> inserts at: past the end by default, counted from the end if negative.\<close>

definition coll_index :: "int option \<Rightarrow> collection \<Rightarrow> int" where
  "coll_index index col =
     (let i = (case index of None \<Rightarrow> col_length col | Some i \<Rightarrow> i);
          i = (if i > col_length col then col_length col else i)
      in if i < 0 then i + col_length col + 1 else i)"

definition reference :: "gcell \<Rightarrow> collection \<Rightarrow> collection" where
  "reference c col = col\<lparr>col_map := (col_map col)(gc_id c \<mapsto> c)\<rparr>"

definition unreference :: "gcell \<Rightarrow> collection \<Rightarrow> collection" where
  "unreference c col = col\<lparr>col_map := (col_map col)(gc_id c := None)\<rparr>"

text \<open>
  \<open>add\<close> takes the cells whose id is not present yet, one after the other; with no position given
  and sorting not switched off the array is sorted again. The result lists the cells added.
\<close>

fun coll_take_new :: "gcell list \<Rightarrow> collection \<Rightarrow> gcell list \<times> collection" where
  "coll_take_new [] col = ([], col)"
| "coll_take_new (c # cs) col =
     (if coll_has (gc_id c) col then coll_take_new cs col
      else (let (added, col') = coll_take_new cs (reference c col) in (c # added, col')))"

definition coll_add :: "gcell list \<Rightarrow> int option \<Rightarrow> bool \<Rightarrow> collection \<Rightarrow> gcell list \<times> collection" where
  "coll_add cells index srt col =
     (let localIndex = coll_index index col;
          sortable = (index = None \<and> srt);
          (added, col) = coll_take_new cells col;
          col = (if added \<noteq> []
                 then (let cs = splice_insert localIndex added (col_cells col)
                       in col\<lparr>col_cells := cs, col_length := int (length cs)\<rparr>)
                 else col);
          col = (if sortable \<and> added \<noteq> [] then coll_sort col else col)
      in (added, col))"

text \<open>One turn of \<open>removeCells\<close>, up to the \<open>removed\<close> event that the model handles.\<close>

definition coll_remove_one :: "string \<Rightarrow> collection \<Rightarrow> gcell option \<times> collection" where
  "coll_remove_one i col =
     (case coll_get i col of
        None \<Rightarrow> (None, col)
      | Some c \<Rightarrow>
          (let index = coll_indexOf c col;
               col = col\<lparr>col_cells := splice_delete index (col_cells col), col_length := col_length col - 1,
                         col_map := (col_map col)(gc_id c := None)\<rparr>
           in (Some c, unreference c col)))"

definition coll_reset :: "gcell list \<Rightarrow> bool \<Rightarrow> collection \<Rightarrow> gcell list \<times> collection" where
  "coll_reset cells diff col =
     (let previous = col_cells col;
          col = (if diff then col else (let col = fold unreference previous col in coll_clean))
      in coll_add cells None True col)"

text \<open>The ids reported as added and removed by the \<open>updated\<close> event of a reset.\<close>

definition reset_added :: "gcell list \<Rightarrow> gcell list \<Rightarrow> gcell list" where
  "reset_added previous current = filter (\<lambda>a. \<not> list_ex (\<lambda>b. gc_id b = gc_id a) previous) current"

definition reset_removed :: "gcell list \<Rightarrow> gcell list \<Rightarrow> gcell list" where
  "reset_removed previous current = filter (\<lambda>a. \<not> list_ex (\<lambda>b. gc_id b = gc_id a) current) previous"

definition coll_push :: "gcell \<Rightarrow> collection \<Rightarrow> gcell list \<times> collection" where
  "coll_push c col = coll_add [c] (Some (col_length col)) True col"

definition coll_unshift :: "gcell \<Rightarrow> collection \<Rightarrow> gcell list \<times> collection" where
  "coll_unshift c col = coll_add [c] (Some 0) True col"

definition coll_pop :: "collection \<Rightarrow> gcell option \<times> collection" where
  "coll_pop col =
     (case coll_at (col_length col - 1) col of None \<Rightarrow> (None, col) | Some c \<Rightarrow> coll_remove_one (gc_id c) col)"

definition coll_shift :: "collection \<Rightarrow> gcell option \<times> collection" where
  "coll_shift col = (case coll_at 0 col of None \<Rightarrow> (None, col) | Some c \<Rightarrow> coll_remove_one (gc_id c) col)"

text \<open>An assignment to properties of the cell with id \<open>i\<close>, which keeps its id.\<close>

definition coll_update :: "string \<Rightarrow> (gcell \<Rightarrow> gcell) \<Rightarrow> collection \<Rightarrow> collection" where
  "coll_update i f col =
     col\<lparr>col_cells := map (\<lambda>c. if gc_id c = i then f c else c) (col_cells col),
         col_map := (case col_map col i of None \<Rightarrow> col_map col | Some c \<Rightarrow> (col_map col)(i \<mapsto> f c))\<rparr>"

section \<open>Array, map and length agree\<close>

definition coll_ok :: "collection \<Rightarrow> bool" where
  "coll_ok col \<longleftrightarrow>
     distinct (map gc_id (col_cells col)) \<and> col_length col = int (length (col_cells col)) \<and>
     col_map col = map_of (map (\<lambda>c. (gc_id c, c)) (col_cells col))"

lemma map_of_ids: "distinct (map gc_id cs) \<Longrightarrow>
    map_of (map (\<lambda>c. (gc_id c, c)) cs) i = Some c \<longleftrightarrow> c \<in> set cs \<and> gc_id c = i"
  by (subst map_of_eq_Some_iff) (auto simp: comp_def)

lemma map_of_ids_None: "map_of (map (\<lambda>c. (gc_id c, c)) cs) i = None \<longleftrightarrow> i \<notin> gc_id ` set cs"
  by (induction cs) auto

lemma coll_get_Some: "coll_ok col \<Longrightarrow> coll_get i col = Some c \<longleftrightarrow> c \<in> set (col_cells col) \<and> gc_id c = i"
  by (simp add: coll_ok_def coll_get_def map_of_ids)

lemma coll_has_iff: "coll_ok col \<Longrightarrow> coll_has i col \<longleftrightarrow> i \<in> gc_id ` set (col_cells col)"
  by (simp add: coll_ok_def coll_get_def coll_has_def map_of_ids_None)

lemma coll_ok_clean: "coll_ok coll_clean"
  by (simp add: coll_ok_def coll_clean_def)

lemma map_of_ids_eq:
  assumes "distinct (map gc_id cs)" "distinct (map gc_id ds)" "set cs = set ds"
  shows "map_of (map (\<lambda>c. (gc_id c, c)) cs) = map_of (map (\<lambda>c. (gc_id c, c)) ds)"
proof
  fix i
  have "map_of (map (\<lambda>c. (gc_id c, c)) cs) i = Some c \<longleftrightarrow> map_of (map (\<lambda>c. (gc_id c, c)) ds) i = Some c" for c
    using assms by (simp add: map_of_ids)
  then show "map_of (map (\<lambda>c. (gc_id c, c)) cs) i = map_of (map (\<lambda>c. (gc_id c, c)) ds) i"
    by (rule option_eqI)
qed

lemma coll_ok_sort: "coll_ok col \<Longrightarrow> coll_ok (coll_sort col)"
  unfolding coll_ok_def coll_sort_def
  using map_of_ids_eq [of "sort_key z_of (col_cells col)" "col_cells col"] by (simp add: distinct_map)

lemma set_splice_insert [simp]: "set (splice_insert i ys xs) = set ys \<union> set xs"
proof -
  have "set (take n xs) \<union> set (drop n xs) = set xs" for n by (metis append_take_drop_id set_append)
  then show ?thesis unfolding splice_insert_def by auto
qed

lemma map_splice_insert: "map f (splice_insert i ys xs) = splice_insert i (map f ys) (map f xs)"
  by (simp add: splice_insert_def splice_at_def take_map drop_map)

lemma distinct_splice_insert:
  "distinct ys \<Longrightarrow> distinct xs \<Longrightarrow> set ys \<inter> set xs = {} \<Longrightarrow> distinct (splice_insert i ys xs)"
  using set_take_disj_set_drop_if_distinct [of xs "splice_at i xs" "splice_at i xs"] unfolding splice_insert_def
  by (auto dest: in_set_takeD in_set_dropD)

lemma coll_take_new_spec:
  assumes "coll_take_new cs col = (added, col')"
  shows "col_cells col' = col_cells col \<and> col_length col' = col_length col \<and> set added \<subseteq> set cs \<and>
    distinct (map gc_id added) \<and> (\<forall>c \<in> set added. col_map col (gc_id c) = None) \<and>
    col_map col' = (\<lambda>i. case map_of (map (\<lambda>c. (gc_id c, c)) added) i of None \<Rightarrow> col_map col i | Some c \<Rightarrow> Some c)"
  using assms
proof (induction cs arbitrary: col added)
  case Nil
  then show ?case by simp
next
  case (Cons c cs)
  show ?case
  proof (cases "coll_has (gc_id c) col")
    case True
    then show ?thesis using Cons.IH [of col added] Cons.prems by auto
  next
    case False
    then obtain ad where a: "added = c # ad" "coll_take_new cs (reference c col) = (ad, col')"
      using Cons.prems by (auto simp: Let_def split: prod.splits)
    note IH = Cons.IH [OF a(2)]
    have "gc_id d \<noteq> gc_id c" if "d \<in> set ad" for d
      using IH that by (auto simp: reference_def split: if_splits)
    then have new: "gc_id c \<notin> gc_id ` set ad" by (metis imageE)
    have none: "col_map col (gc_id c) = None" using False by (simp add: coll_has_def coll_get_def)
    have cm: "col_map col' i =
        (case map_of (map (\<lambda>c. (gc_id c, c)) added) i of None \<Rightarrow> col_map col i | Some c \<Rightarrow> Some c)" for i
    proof (cases "i = gc_id c")
      case True
      then have "map_of (map (\<lambda>c. (gc_id c, c)) ad) i = None" using new by (simp add: map_of_ids_None)
      then show ?thesis using IH True by (simp add: a(1) reference_def)
    next
      case False
      then show ?thesis using IH by (simp add: a(1) reference_def split: option.splits)
    qed
    have "\<forall>d \<in> set ad. col_map col (gc_id d) = None"
      using IH by (auto simp: reference_def split: if_splits)
    then show ?thesis using IH new none cm by (auto simp: a(1) reference_def fun_eq_iff)
  qed
qed

lemma coll_add_ok:
  assumes ok: "coll_ok col" and add: "coll_add cs index srt col = (added, col')"
  shows "coll_ok col' \<and> set (col_cells col') = set added \<union> set (col_cells col) \<and>
    set added \<subseteq> set cs \<and> gc_id ` set (col_cells col') = gc_id ` set cs \<union> gc_id ` set (col_cells col)"
proof -
  obtain col1 where t: "coll_take_new cs col = (added, col1)"
    using add by (auto simp: coll_add_def Let_def split: prod.splits)
  note s = coll_take_new_spec [OF t]
  let ?cs = "splice_insert (coll_index index col) added (col_cells col)"
  have none: "gc_id ` set added \<inter> gc_id ` set (col_cells col) = {}"
    using s ok by (auto simp: coll_ok_def map_of_ids_None)
  have d: "distinct (map gc_id ?cs)"
    unfolding map_splice_insert using s ok none by (intro distinct_splice_insert) (auto simp: coll_ok_def)
  have m: "col_map col1 = map_of (map (\<lambda>c. (gc_id c, c)) ?cs)"
  proof
    fix i
    have "col_map col1 i = Some c \<longleftrightarrow> map_of (map (\<lambda>c. (gc_id c, c)) ?cs) i = Some c" for c
    proof (cases "map_of (map (\<lambda>c. (gc_id c, c)) added) i")
      case None
      moreover have "col_map col1 = (\<lambda>i. case map_of (map (\<lambda>c. (gc_id c, c)) added) i of
          None \<Rightarrow> col_map col i | Some c \<Rightarrow> Some c)" using s by blast
      ultimately have "col_map col1 i = col_map col i" by (simp only: option.simps)
      moreover have "i \<notin> gc_id ` set added" using None map_of_ids_None by metis
      ultimately show ?thesis
        using ok map_of_ids [OF d, of i c] map_of_ids [of "col_cells col" i c] by (auto simp: coll_ok_def)
    next
      case (Some x)
      then have "x \<in> set added \<and> gc_id x = i" using s map_of_ids [of added i x] by blast
      then have "map_of (map (\<lambda>c. (gc_id c, c)) ?cs) i = Some x" using map_of_ids [OF d] by simp
      then show ?thesis using s Some by simp
    qed
    then show "col_map col1 i = map_of (map (\<lambda>c. (gc_id c, c)) ?cs) i" by (rule option_eqI)
  qed
  have ids: "gc_id ` set cs \<subseteq> gc_id ` set added \<union> gc_id ` set (col_cells col)"
  proof
    fix i assume "i \<in> gc_id ` set cs"
    have all: "coll_take_new ds c0 = (ad, c1) \<Longrightarrow> i \<in> gc_id ` set ds \<Longrightarrow> i \<in> gc_id ` set ad \<or> col_map c0 i \<noteq> None" for ds c0 ad c1
    proof (induction ds arbitrary: c0 ad)
      case (Cons d ds)
      show ?case
      proof (cases "coll_has (gc_id d) c0")
        case True
        then show ?thesis using Cons by (auto simp: coll_has_def coll_get_def)
      next
        case False
        then obtain ad' where a: "ad = d # ad'" "coll_take_new ds (reference d c0) = (ad', c1)"
          using Cons.prems(1) by (auto simp: Let_def split: prod.splits)
        show ?thesis using Cons.IH [OF a(2)] Cons.prems(2) by (auto simp: a(1) reference_def split: if_splits)
      qed
    qed simp
    from all [OF t \<open>i \<in> gc_id ` set cs\<close>] show "i \<in> gc_id ` set added \<union> gc_id ` set (col_cells col)"
      using ok map_of_ids_None [of "col_cells col" i] unfolding coll_ok_def by (metis UnI1 UnI2)
  qed
  define col2 where "col2 = (if added \<noteq> [] then col1\<lparr>col_cells := ?cs, col_length := int (length ?cs)\<rparr> else col1)"
  have ok2: "coll_ok col2"
    using s ok d m by (auto simp: coll_ok_def splice_insert_def col2_def)
  have set2: "set (col_cells col2) = set added \<union> set (col_cells col)" using s by (auto simp: col2_def)
  have col': "col' = (if (index = None \<and> srt) \<and> added \<noteq> [] then coll_sort col2 else col2)"
  proof -
    have "coll_add cs index srt col = (added, if (index = None \<and> srt) \<and> added \<noteq> [] then coll_sort col2 else col2)"
      using s unfolding coll_add_def Let_def t col2_def by simp
    then show ?thesis using add by simp
  qed
  have "coll_ok col'" using ok2 coll_ok_sort [OF ok2] unfolding col' by simp
  moreover have "set (col_cells col') = set added \<union> set (col_cells col)"
    using set2 unfolding col' by (simp add: coll_sort_def)
  ultimately show ?thesis using s ids by auto
qed


lemma index_of_spec:
  "x \<in> set xs \<Longrightarrow> P x \<Longrightarrow> \<exists>i < length xs. index_of P xs = int i \<and> P (xs ! i) \<and> (\<forall>j < i. \<not> P (xs ! j))"
proof (induction xs)
  case (Cons y ys)
  show ?case
  proof (cases "P y")
    case False
    then obtain i where "i < length ys" "index_of P ys = int i" "P (ys ! i)" "\<forall>j < i. \<not> P (ys ! j)"
      using Cons by auto
    then show ?thesis
      using False by (intro exI [of _ "Suc i"]) (auto simp: less_Suc_eq_0_disj)
  qed auto
qed simp

lemma splice_delete_nat: "i < length xs \<Longrightarrow> splice_delete (int i) xs = take i xs @ drop (Suc i) xs"
  by (simp add: splice_delete_def splice_at_def)

lemma filter_remove_nth:
  assumes "distinct (map f xs)" "i < length xs"
  shows "take i xs @ drop (Suc i) xs = filter (\<lambda>x. f x \<noteq> f (xs ! i)) xs"
proof -
  let ?P = "\<lambda>x. f x \<noteq> f (xs ! i)"
  have all: "?P (xs ! j)" if "j < length xs" "j \<noteq> i" for j using distinct_map_nth_eq [OF assms(1)] assms(2) that by blast
  have "filter ?P xs = filter ?P (take i xs) @ filter ?P (drop (Suc i) xs)"
    using id_take_nth_drop [OF assms(2)] by (metis (mono_tags, lifting) filter.simps(2) filter_append)
  moreover have "filter ?P (take i xs) = take i xs" "filter ?P (drop (Suc i) xs) = drop (Suc i) xs"
    using all by (auto simp: filter_id_conv in_set_conv_nth)
  ultimately show ?thesis by simp
qed

lemma coll_remove_one_spec:
  assumes ok: "coll_ok col"
  shows "coll_ok (snd (coll_remove_one i col)) \<and>
    col_cells (snd (coll_remove_one i col)) = filter (\<lambda>c. gc_id c \<noteq> i) (col_cells col) \<and>
    fst (coll_remove_one i col) = coll_get i col"
proof (cases "coll_get i col")
  case None
  then have "i \<notin> gc_id ` set (col_cells col)" using coll_has_iff [OF ok, of i] unfolding coll_has_def by simp
  then have "filter (\<lambda>c. gc_id c \<noteq> i) (col_cells col) = col_cells col" by (auto simp: filter_id_conv)
  then show ?thesis using None ok by (simp add: coll_remove_one_def)
next
  case (Some c)
  let ?cs = "col_cells col"
  have c: "c \<in> set ?cs" "gc_id c = i" using Some ok by (auto simp: coll_get_Some)
  have d: "distinct (map gc_id ?cs)" using ok by (simp add: coll_ok_def)
  obtain k where k: "k < length ?cs" "index_of (\<lambda>d. gc_id d = gc_id c) ?cs = int k" "gc_id (?cs ! k) = gc_id c"
    using index_of_spec [OF c(1), of "\<lambda>d. gc_id d = gc_id c"] by auto
  have del: "splice_delete (coll_indexOf c col) ?cs = filter (\<lambda>d. gc_id d \<noteq> i) ?cs"
    using filter_remove_nth [OF d k(1)] k c(2) by (simp add: coll_indexOf_def splice_delete_nat)
  have "length (take k ?cs @ drop (Suc k) ?cs) = length ?cs - 1" using k(1) by simp
  then have len: "length (filter (\<lambda>d. gc_id d \<noteq> i) ?cs) = length ?cs - 1"
    using filter_remove_nth [OF d k(1)] k(3) c(2) by simp
  have "map_of (map (\<lambda>c. (gc_id c, c)) (filter (\<lambda>d. gc_id d \<noteq> i) cs)) x =
      (if x = i then None else map_of (map (\<lambda>c. (gc_id c, c)) cs) x)" for cs :: "gcell list" and x
    by (induction cs) auto
  then have m: "(map_of (map (\<lambda>c. (gc_id c, c)) cs))(i := None) =
      map_of (map (\<lambda>c. (gc_id c, c)) (filter (\<lambda>d. gc_id d \<noteq> i) cs))" for cs :: "gcell list"
    by (simp add: fun_eq_iff)
  have "length ?cs > 0" using k(1) by linarith
  then show ?thesis
    using Some c(2) ok del len m d
    by (simp add: coll_remove_one_def Let_def unreference_def coll_ok_def distinct_map_filter of_nat_diff Suc_leI)
qed

lemma coll_reset_ok:
  assumes "coll_ok col" "coll_reset cs diff col = (added, col')"
  shows "coll_ok col' \<and> gc_id ` set (col_cells col') =
    gc_id ` set cs \<union> (if diff then gc_id ` set (col_cells col) else {})"
  using assms coll_add_ok [of col cs None True added col'] coll_add_ok [OF coll_ok_clean, of cs None True added col']
  by (auto simp: coll_reset_def Let_def coll_clean_def split: if_splits)

lemma coll_update_ok:
  assumes ok: "coll_ok col" and keep: "\<And>c. gc_id (f c) = gc_id c"
  shows "coll_ok (coll_update i f col)"
proof -
  let ?g = "\<lambda>c. if gc_id c = i then f c else c"
  have ids: "map gc_id (map ?g cs) = map gc_id cs" for cs using keep by (induction cs) auto
  have m: "map_of (map (\<lambda>c. (gc_id c, c)) (map ?g cs)) = (case map_of (map (\<lambda>c. (gc_id c, c)) cs) i of
      None \<Rightarrow> map_of (map (\<lambda>c. (gc_id c, c)) cs) | Some c \<Rightarrow> (map_of (map (\<lambda>c. (gc_id c, c)) cs))(i \<mapsto> f c))" for cs
    by (induction cs) (auto simp: fun_eq_iff keep split: option.splits)
  show ?thesis
    using ok ids [of "col_cells col"] m [of "col_cells col"] by (simp add: coll_ok_def coll_update_def del: map_map split: option.splits)
qed

end
