(* ===== verification/Graph_Model.thy ===== *)
theory Graph_Model
  imports Collection
begin

text \<open>
  The graph model of the editor (class \<open>Model\<close> of x6's model/model.js in
  web/static/cyeditor.common.js) over its collection of cells: the sets of node and edge ids, and
  for every cell the lists of the edges that leave and enter it, which the event handlers
  \<open>onCellAdded\<close>, \<open>onCellRemoved\<close>, \<open>onReset\<close> and \<open>onEdgeTerminalChanged\<close> keep up to date. The
  events that the collection triggers are the calls of these handlers. Cells are flat: the editor
  embeds none in another, so parents and children are left out.
\<close>

record gmodel =
  gm_coll :: collection
  gm_nodes :: "string list"
  gm_edges :: "string list"
  gm_out :: "string \<rightharpoonup> string list"
  gm_in :: "string \<rightharpoonup> string list"
  gm_batches :: "(string \<times> int) list"

definition newModel :: gmodel where
  "newModel = \<lparr>gm_coll = coll_clean, gm_nodes = [], gm_edges = [], gm_out = Map.empty, gm_in = Map.empty,
     gm_batches = []\<rparr>"

section \<open>The edge indexes\<close>

definition key_add :: "string \<Rightarrow> string list \<Rightarrow> string list" where
  "key_add k ks = (if k \<in> set ks then ks else ks @ [k])"

definition key_del :: "string \<Rightarrow> string list \<Rightarrow> string list" where
  "key_del k ks = filter (\<lambda>x. x \<noteq> k) ks"

definition cache_drop :: "string \<Rightarrow> string \<Rightarrow> (string \<rightharpoonup> string list) \<Rightarrow> (string \<rightharpoonup> string list)" where
  "cache_drop k e ref =
     (case ref k of
        None \<Rightarrow> ref
      | Some cache \<Rightarrow>
          (let index = index_of (\<lambda>x. x = e) cache
           in if index \<ge> 0
              then (let cache = splice_delete index cache
                    in if cache = [] then ref(k := None) else ref(k \<mapsto> cache))
              else ref))"

definition cache_push :: "string \<Rightarrow> string \<Rightarrow> (string \<rightharpoonup> string list) \<Rightarrow> (string \<rightharpoonup> string list)" where
  "cache_push k e ref =
     (let cache = (case ref k of None \<Rightarrow> [] | Some c \<Rightarrow> c)
      in ref(k \<mapsto> (if index_of (\<lambda>x. x = e) cache = -1 then cache @ [e] else cache)))"

definition onEdgeTerminalChanged ::
  "string \<Rightarrow> string option \<Rightarrow> string option \<Rightarrow> (string \<rightharpoonup> string list) \<Rightarrow> (string \<rightharpoonup> string list)" where
  "onEdgeTerminalChanged e prev terminal ref =
     (let ref = (case prev of Some k \<Rightarrow> if k \<noteq> [] then cache_drop k e ref else ref | None \<Rightarrow> ref)
      in case terminal of Some k \<Rightarrow> if k \<noteq> [] then cache_push k e ref else ref | None \<Rightarrow> ref)"

definition onCellAdded :: "gcell \<Rightarrow> gmodel \<Rightarrow> gmodel" where
  "onCellAdded c m =
     (if gc_edge c
      then m\<lparr>gm_edges := key_add (gc_id c) (gm_edges m),
             gm_out := onEdgeTerminalChanged (gc_id c) None (gc_source c) (gm_out m),
             gm_in := onEdgeTerminalChanged (gc_id c) None (gc_target c) (gm_in m)\<rparr>
      else m\<lparr>gm_nodes := key_add (gc_id c) (gm_nodes m)\<rparr>)"

definition onReset :: "gcell list \<Rightarrow> gmodel \<Rightarrow> gmodel" where
  "onReset cells m =
     fold onCellAdded cells (m\<lparr>gm_nodes := [], gm_edges := [], gm_out := Map.empty, gm_in := Map.empty\<rparr>)"

text \<open>The first half of \<open>onCellRemoved\<close>: the cell leaves the key sets and the edge indexes.\<close>

definition unindex_cell :: "gcell \<Rightarrow> gmodel \<Rightarrow> gmodel" where
  "unindex_cell c m =
     (if gc_edge c
      then m\<lparr>gm_edges := key_del (gc_id c) (gm_edges m),
             gm_out := (case gc_source c of Some k \<Rightarrow> if k \<noteq> [] then cache_drop k (gc_id c) (gm_out m) else gm_out m
                                          | None \<Rightarrow> gm_out m),
             gm_in := (case gc_target c of Some k \<Rightarrow> if k \<noteq> [] then cache_drop k (gc_id c) (gm_in m) else gm_in m
                                         | None \<Rightarrow> gm_in m)\<rparr>
      else m\<lparr>gm_nodes := key_del (gc_id c) (gm_nodes m)\<rparr>)"

section \<open>Queries\<close>

definition getCell :: "string \<Rightarrow> gmodel \<Rightarrow> gcell option" where
  "getCell i m = coll_get i (gm_coll m)"

definition getCells :: "gmodel \<Rightarrow> gcell list" where
  "getCells m = col_cells (gm_coll m)"

definition getMaxZIndex :: "gmodel \<Rightarrow> int" where
  "getMaxZIndex m = (case coll_last (gm_coll m) of None \<Rightarrow> 0 | Some c \<Rightarrow> z_of c)"

definition getMinZIndex :: "gmodel \<Rightarrow> int" where
  "getMinZIndex m = (case coll_first (gm_coll m) of None \<Rightarrow> 0 | Some c \<Rightarrow> z_of c)"

definition getCellsFromCache :: "string list \<Rightarrow> gmodel \<Rightarrow> gcell list" where
  "getCellsFromCache ks m = List.map_filter (\<lambda>i. getCell i m) (key_order ks)"

definition getNodes :: "gmodel \<Rightarrow> gcell list" where
  "getNodes m = getCellsFromCache (gm_nodes m) m"

definition getEdges :: "gmodel \<Rightarrow> gcell list" where
  "getEdges m = getCellsFromCache (gm_edges m) m"

definition cached_edges :: "(string \<rightharpoonup> string list) \<Rightarrow> string \<Rightarrow> gmodel \<Rightarrow> gcell list option" where
  "cached_edges ref i m =
     map_option (\<lambda>is. filter gc_edge (List.map_filter (\<lambda>i. getCell i m) is)) (ref i)"

definition getOutgoingEdges :: "string \<Rightarrow> gmodel \<Rightarrow> gcell list option" where
  "getOutgoingEdges i m = cached_edges (gm_out m) i m"

definition getIncomingEdges :: "string \<Rightarrow> gmodel \<Rightarrow> gcell list option" where
  "getIncomingEdges i m = cached_edges (gm_in m) i m"

definition collect_edges :: "gcell list option \<Rightarrow> gcell list \<Rightarrow> gcell list" where
  "collect_edges es result =
     (case es of
        None \<Rightarrow> result
      | Some es \<Rightarrow> fold (\<lambda>e r. if gc_id e \<in> gc_id ` set r then r else r @ [e]) es result)"

text \<open>\<open>getConnectedEdges\<close> without the options \<open>indirect\<close> and \<open>deep\<close>.\<close>

definition getConnectedEdges :: "string \<Rightarrow> bool \<Rightarrow> bool \<Rightarrow> gmodel \<Rightarrow> gcell list" where
  "getConnectedEdges i incoming outgoing m =
     (let r = (if outgoing then collect_edges (getOutgoingEdges i m) [] else [])
      in if incoming then collect_edges (getIncomingEdges i m) r else r)"

definition isBoundary :: "string \<Rightarrow> bool \<Rightarrow> gmodel \<Rightarrow> bool" where
  "isBoundary i isOrigin m =
     (let arr = (if isOrigin then getIncomingEdges i m else getOutgoingEdges i m)
      in arr = None \<or> arr = Some [])"

definition getBoundaryNodes :: "bool \<Rightarrow> gmodel \<Rightarrow> gcell list" where
  "getBoundaryNodes isOrigin m =
     List.map_filter (\<lambda>i. if isBoundary i isOrigin m then getCell i m else None) (key_order (gm_nodes m))"

definition getRoots :: "gmodel \<Rightarrow> gcell list" where
  "getRoots m = getBoundaryNodes True m"

definition getLeafs :: "gmodel \<Rightarrow> gcell list" where
  "getLeafs m = getBoundaryNodes False m"

definition isRoot :: "string \<Rightarrow> gmodel \<Rightarrow> bool" where
  "isRoot i m = isBoundary i True m"

definition isLeaf :: "string \<Rightarrow> gmodel \<Rightarrow> bool" where
  "isLeaf i m = isBoundary i False m"

section \<open>Adding and resetting\<close>

definition prepareCell :: "gmodel \<Rightarrow> gcell \<Rightarrow> gcell" where
  "prepareCell m c = (if gc_z c = None then c\<lparr>gc_z := Some (getMaxZIndex m + 1)\<rparr> else c)"

definition addCell :: "gcell \<Rightarrow> gmodel \<Rightarrow> gmodel" where
  "addCell c m =
     (if coll_has (gc_id c) (gm_coll m) then m
      else (let (added, col) = coll_add [prepareCell m c] None True (gm_coll m)
            in fold onCellAdded added (m\<lparr>gm_coll := col\<rparr>)))"

definition resetCells :: "gcell list \<Rightarrow> bool \<Rightarrow> gmodel \<Rightarrow> gmodel" where
  "resetCells cells diff m =
     (let (added, col) = coll_reset (map (prepareCell m) cells) diff (gm_coll m)
      in onReset (col_cells col) (m\<lparr>gm_coll := col\<rparr>))"

definition fromJSON_cells :: "gcell list \<Rightarrow> gcell list \<Rightarrow> bool \<Rightarrow> gmodel \<Rightarrow> gmodel" where
  "fromJSON_cells nodes edges diff m =
     (if \<not> diff then resetCells (nodes @ edges) diff m
      else resetCells (filter (\<lambda>n. gc_id n \<notin> set (gm_nodes m)) nodes @
                       filter (\<lambda>e. gc_id e \<notin> set (gm_edges m)) edges) diff m)"

section \<open>Removing and reconnecting\<close>

text \<open>
  \<open>setSource\<close> and \<open>setTarget\<close> of an edge, with a cell id or a free point; the handler runs if the
  end changed.
\<close>

definition setSource :: "string \<Rightarrow> string option \<Rightarrow> gmodel \<Rightarrow> gmodel" where
  "setSource e t m =
     (case getCell e m of
        None \<Rightarrow> m
      | Some c \<Rightarrow>
          if \<not> gc_edge c \<or> gc_source c = t then m
          else m\<lparr>gm_coll := coll_update e (\<lambda>c. c\<lparr>gc_source := t\<rparr>) (gm_coll m),
                 gm_out := onEdgeTerminalChanged e (gc_source c) t (gm_out m)\<rparr>)"

definition setTarget :: "string \<Rightarrow> string option \<Rightarrow> gmodel \<Rightarrow> gmodel" where
  "setTarget e t m =
     (case getCell e m of
        None \<Rightarrow> m
      | Some c \<Rightarrow>
          if \<not> gc_edge c \<or> gc_target c = t then m
          else m\<lparr>gm_coll := coll_update e (\<lambda>c. c\<lparr>gc_target := t\<rparr>) (gm_coll m),
                 gm_in := onEdgeTerminalChanged e (gc_target c) t (gm_in m)\<rparr>)"

definition disconnectConnectedEdges :: "string \<Rightarrow> gmodel \<Rightarrow> gmodel" where
  "disconnectConnectedEdges i m =
     fold (\<lambda>e m.
         (let m = (if gc_source e = Some i then setSource (gc_id e) None m else m)
          in if gc_target e = Some i then setTarget (gc_id e) None m else m))
       (getConnectedEdges i True True m) m"

text \<open>
  \<open>removeCell\<close> removes the cell from the collection, and its handler removes the connected edges in
  turn, which may themselves have edges attached. Each removal takes a cell away, so the number of
  cells is fuel enough.
\<close>

fun removeCell_fuel :: "nat \<Rightarrow> bool \<Rightarrow> string \<Rightarrow> gmodel \<Rightarrow> gmodel" where
  "removeCell_fuel fuel disconnect i m =
     (case coll_remove_one i (gm_coll m) of
        (None, _) \<Rightarrow> m
      | (Some c, col) \<Rightarrow>
          (case fuel of
             0 \<Rightarrow> m
           | Suc n \<Rightarrow>
               (let m = unindex_cell c (m\<lparr>gm_coll := col\<rparr>)
                in if disconnect then disconnectConnectedEdges i m
                   else fold (\<lambda>e. removeCell_fuel n disconnect (gc_id e)) (getConnectedEdges i True True m) m)))"

declare removeCell_fuel.simps [simp del]

definition removeCell :: "bool \<Rightarrow> string \<Rightarrow> gmodel \<Rightarrow> gmodel" where
  "removeCell disconnect i m = removeCell_fuel (length (getCells m)) disconnect i m"

text \<open>\<open>clear\<close> removes the edges before the nodes, without looking for connected edges.\<close>

definition remove_plain :: "string \<Rightarrow> gmodel \<Rightarrow> gmodel" where
  "remove_plain i m =
     (case coll_remove_one i (gm_coll m) of
        (None, _) \<Rightarrow> m
      | (Some c, col) \<Rightarrow> unindex_cell c (m\<lparr>gm_coll := col\<rparr>))"

definition clear_model :: "gmodel \<Rightarrow> gmodel" where
  "clear_model m =
     fold (\<lambda>c. remove_plain (gc_id c)) (sort_key (\<lambda>c. if gc_edge c then 1 else (2 :: nat)) (getCells m)) m"

section \<open>Batches\<close>

definition batch_count :: "string \<Rightarrow> gmodel \<Rightarrow> int" where
  "batch_count name m = (case map_of (gm_batches m) name of None \<Rightarrow> 0 | Some n \<Rightarrow> n)"

definition startBatch :: "string \<Rightarrow> gmodel \<Rightarrow> gmodel" where
  "startBatch name m = m\<lparr>gm_batches := map_put (gm_batches m) name (batch_count name m + 1)\<rparr>"

definition stopBatch :: "string \<Rightarrow> gmodel \<Rightarrow> gmodel" where
  "stopBatch name m = m\<lparr>gm_batches := map_put (gm_batches m) name (batch_count name m - 1)\<rparr>"

definition batchUpdate :: "string \<Rightarrow> (gmodel \<Rightarrow> gmodel) \<Rightarrow> gmodel \<Rightarrow> gmodel" where
  "batchUpdate name execute m = stopBatch name (execute (startBatch name m))"

definition hasActiveBatch :: "string list \<Rightarrow> gmodel \<Rightarrow> bool" where
  "hasActiveBatch names m \<longleftrightarrow> list_ex (\<lambda>b. batch_count b m > 0) names"

definition addCells :: "gcell list \<Rightarrow> gmodel \<Rightarrow> gmodel" where
  "addCells cells m = (if cells = [] then m else stopBatch ''add'' (fold addCell cells (startBatch ''add'' m)))"

definition removeCells :: "bool \<Rightarrow> string list \<Rightarrow> gmodel \<Rightarrow> gmodel" where
  "removeCells disconnect is m =
     (if is = [] then m else batchUpdate ''remove'' (fold (removeCell disconnect) is) m)"

section \<open>The indexes describe the cells\<close>

definition ref_rel :: "(string \<rightharpoonup> string list) \<Rightarrow> (string \<Rightarrow> string set) \<Rightarrow> bool" where
  "ref_rel ref R \<longleftrightarrow>
     (\<forall>i. case ref i of None \<Rightarrow> R i = {} | Some l \<Rightarrow> l \<noteq> [] \<and> distinct l \<and> set l = R i)"

definition edges_at :: "(gcell \<Rightarrow> string option) \<Rightarrow> gcell set \<Rightarrow> string \<Rightarrow> string set" where
  "edges_at f S i = {gc_id c | c. c \<in> S \<and> gc_edge c \<and> f c = Some i \<and> i \<noteq> []}"

definition cells_of :: "gmodel \<Rightarrow> gcell set" where
  "cells_of m = set (col_cells (gm_coll m))"

definition model_ok :: "gmodel \<Rightarrow> bool" where
  "model_ok m \<longleftrightarrow>
     coll_ok (gm_coll m) \<and>
     distinct (gm_nodes m) \<and> set (gm_nodes m) = gc_id ` {c \<in> cells_of m. \<not> gc_edge c} \<and>
     distinct (gm_edges m) \<and> set (gm_edges m) = gc_id ` {c \<in> cells_of m. gc_edge c} \<and>
     ref_rel (gm_out m) (edges_at gc_source (cells_of m)) \<and>
     ref_rel (gm_in m) (edges_at gc_target (cells_of m))"

lemma index_of_neg: "index_of P xs < 0 \<longleftrightarrow> (\<forall>x \<in> set xs. \<not> P x)"
  by (induction xs) (auto simp: Let_def)

lemma index_of_minus: "index_of P xs = -1 \<longleftrightarrow> (\<forall>x \<in> set xs. \<not> P x)"
proof -
  have "-1 \<le> index_of P xs" by (induction xs) (auto simp: Let_def)
  then show ?thesis using index_of_neg [of P xs] by linarith
qed

lemma delete_first:
  assumes "distinct l" "e \<in> set l"
  shows "splice_delete (index_of (\<lambda>x. x = e) l) l = filter (\<lambda>x. x \<noteq> e) l"
proof -
  obtain k where "k < length l" "index_of (\<lambda>x. x = e) l = int k" "l ! k = e"
    using index_of_spec [OF assms(2), of "\<lambda>x. x = e"] by auto
  then show ?thesis using filter_remove_nth [of id l k] assms(1) by (simp add: splice_delete_nat)
qed

lemma ref_relD:
  "ref_rel ref R \<Longrightarrow> ref k = None \<Longrightarrow> R k = {}"
  "ref_rel ref R \<Longrightarrow> ref k = Some l \<Longrightarrow> l \<noteq> [] \<and> distinct l \<and> set l = R k"
  unfolding ref_rel_def by (auto dest: spec [of _ k])

lemma ref_rel_upd:
  "ref_rel ref R \<Longrightarrow> (case v of None \<Rightarrow> r = {} | Some l \<Rightarrow> l \<noteq> [] \<and> distinct l \<and> set l = r) \<Longrightarrow>
   ref_rel (ref(k := v)) (R(k := r))"
  unfolding ref_rel_def by (auto simp only: fun_upd_apply split: if_splits)

lemma ref_rel_push: "ref_rel ref R \<Longrightarrow> ref_rel (cache_push k e ref) (R(k := insert e (R k)))"
  unfolding cache_push_def Let_def
  by (rule ref_rel_upd) (auto simp: index_of_minus dest: ref_relD split: option.splits)

lemma ref_rel_drop:
  assumes "ref_rel ref R"
  shows "ref_rel (cache_drop k e ref) (R(k := R k - {e}))"
proof (cases "ref k")
  case None
  then have "R(k := R k - {e}) = R" using ref_relD(1) [OF assms] by (simp add: fun_upd_idem)
  then show ?thesis using assms None by (simp add: cache_drop_def)
next
  case (Some l)
  note l = ref_relD(2) [OF assms Some]
  show ?thesis
  proof (cases "e \<in> set l")
    case True
    have i: "index_of (\<lambda>x. x = e) l \<ge> 0" using index_of_neg [of "\<lambda>x. x = e" l] True by force
    have "cache_drop k e ref = ref(k := (if filter (\<lambda>x. x \<noteq> e) l = [] then None else Some (filter (\<lambda>x. x \<noteq> e) l)))"
      using Some i delete_first [of l e] l True by (simp add: cache_drop_def Let_def)
    moreover have "ref_rel \<dots> (R(k := R k - {e}))"
      by (rule ref_rel_upd [OF assms]) (use l in \<open>auto simp: filter_empty_conv\<close>)
    ultimately show ?thesis by simp
  next
    case False
    then have "\<not> index_of (\<lambda>x. x = e) l \<ge> 0" using index_of_neg [of "\<lambda>x. x = e" l] by auto
    then have "cache_drop k e ref = ref" using Some by (simp add: cache_drop_def)
    moreover have "R(k := R k - {e}) = R" using l False by (auto simp: fun_upd_idem)
    ultimately show ?thesis using assms by simp
  qed
qed

lemma edges_at_insert:
  "edges_at f (insert c S) =
     (case f c of
        Some k \<Rightarrow> if gc_edge c \<and> k \<noteq> [] then (edges_at f S)(k := insert (gc_id c) (edges_at f S k)) else edges_at f S
      | None \<Rightarrow> edges_at f S)"
  unfolding edges_at_def by (rule ext) (auto split: option.splits)

lemma edges_at_remove:
  assumes "inj_on gc_id S" "c \<in> S"
  shows "edges_at f (S - {c}) =
     (case f c of
        Some k \<Rightarrow> if gc_edge c \<and> k \<noteq> [] then (edges_at f S)(k := edges_at f S k - {gc_id c}) else edges_at f S
      | None \<Rightarrow> edges_at f S)"
proof
  fix i
  have "gc_id d = gc_id c \<longleftrightarrow> d = c" if "d \<in> S" for d using assms that by (auto simp: inj_on_def)
  then show "edges_at f (S - {c}) i =
     (case f c of
        Some k \<Rightarrow> if gc_edge c \<and> k \<noteq> [] then (edges_at f S)(k := edges_at f S k - {gc_id c}) else edges_at f S
      | None \<Rightarrow> edges_at f S) i"
    unfolding edges_at_def by (auto split: option.splits)
qed

lemma coll_ok_inj: "coll_ok col \<Longrightarrow> inj_on gc_id (set (col_cells col))"
  by (simp add: coll_ok_def distinct_map)

lemma model_ok_new: "model_ok newModel"
  by (simp add: model_ok_def newModel_def cells_of_def coll_ok_clean) (simp add: coll_clean_def ref_rel_def edges_at_def)

section \<open>Adding a cell\<close>

definition indexed :: "gcell set \<Rightarrow> gmodel \<Rightarrow> bool" where
  "indexed S m \<longleftrightarrow>
     distinct (gm_nodes m) \<and> set (gm_nodes m) = gc_id ` {c \<in> S. \<not> gc_edge c} \<and>
     distinct (gm_edges m) \<and> set (gm_edges m) = gc_id ` {c \<in> S. gc_edge c} \<and>
     ref_rel (gm_out m) (edges_at gc_source S) \<and> ref_rel (gm_in m) (edges_at gc_target S)"

lemma model_ok_indexed: "model_ok m \<longleftrightarrow> coll_ok (gm_coll m) \<and> indexed (cells_of m) m"
  by (auto simp: model_ok_def indexed_def)

lemma coll_onCellAdded [simp]: "gm_coll (onCellAdded c m) = gm_coll m"
  by (simp add: onCellAdded_def)

lemma indexed_onCellAdded:
  assumes "indexed S m"
  shows "indexed (insert c S) (onCellAdded c m)"
proof (cases "gc_edge c")
  case True
  have "{d \<in> insert c S. gc_edge d} = insert c {d \<in> S. gc_edge d}" "{d \<in> insert c S. \<not> gc_edge d} = {d \<in> S. \<not> gc_edge d}"
    using True by auto
  then show ?thesis
    using assms True
    by (auto simp: indexed_def onCellAdded_def key_add_def onEdgeTerminalChanged_def edges_at_insert
        intro: ref_rel_push split: option.splits)
next
  case False
  have "{d \<in> insert c S. \<not> gc_edge d} = insert c {d \<in> S. \<not> gc_edge d}" "{d \<in> insert c S. gc_edge d} = {d \<in> S. gc_edge d}"
    using False by auto
  then show ?thesis
    using assms False
    by (auto simp: indexed_def onCellAdded_def key_add_def edges_at_insert split: option.splits)
qed

lemma indexed_fold_added:
  "indexed S m \<Longrightarrow> indexed (set cs \<union> S) (fold onCellAdded cs m) \<and> gm_coll (fold onCellAdded cs m) = gm_coll m"
proof (induction cs arbitrary: S m)
  case (Cons c cs)
  then show ?case using Cons.IH [OF indexed_onCellAdded [OF Cons.prems, of c]] by simp
qed simp

lemma indexed_coll [simp]: "indexed S (m\<lparr>gm_coll := col\<rparr>) = indexed S m"
  by (simp add: indexed_def)

lemma addCell_ok:
  assumes "model_ok m"
  shows "model_ok (addCell c m) \<and>
    cells_of (addCell c m) = (if gc_id c \<in> gc_id ` cells_of m then cells_of m else insert (prepareCell m c) (cells_of m))"
proof (cases "coll_has (gc_id c) (gm_coll m)")
  case True
  then show ?thesis using assms by (auto simp: addCell_def model_ok_def coll_has_iff cells_of_def)
next
  case False
  have ok: "coll_ok (gm_coll m)" using assms by (simp add: model_ok_def)
  have pid: "gc_id (prepareCell m c) = gc_id c" by (simp add: prepareCell_def)
  obtain added col where a: "coll_add [prepareCell m c] None True (gm_coll m) = (added, col)" by fastforce
  note s = coll_add_ok [OF ok a]
  have new: "gc_id c \<notin> gc_id ` cells_of m" using False coll_has_iff [OF ok] by (simp add: cells_of_def)
  have "added = [prepareCell m c]"
    using a False pid by (auto simp: coll_add_def Let_def split: prod.splits)
  then have set: "set (col_cells col) = insert (prepareCell m c) (cells_of m)" using s by (simp add: cells_of_def)
  have "indexed (set added \<union> cells_of m) (addCell c m) \<and> gm_coll (addCell c m) = col"
    using indexed_fold_added [of "cells_of m" "m\<lparr>gm_coll := col\<rparr>" added] assms False a
    by (simp add: addCell_def model_ok_indexed)
  then show ?thesis using s set new \<open>added = [prepareCell m c]\<close> by (simp add: model_ok_indexed cells_of_def)
qed

lemma onReset_ok: "coll_ok (gm_coll m) \<Longrightarrow> model_ok (onReset (col_cells (gm_coll m)) m)"
proof -
  assume ok: "coll_ok (gm_coll m)"
  let ?m = "m\<lparr>gm_nodes := [], gm_edges := [], gm_out := Map.empty, gm_in := Map.empty\<rparr>"
  have "indexed {} ?m" by (simp add: indexed_def ref_rel_def edges_at_def)
  from indexed_fold_added [OF this, of "col_cells (gm_coll m)"] show ?thesis
    using ok by (simp add: onReset_def model_ok_indexed cells_of_def)
qed

lemma resetCells_ok:
  assumes "coll_ok (gm_coll m)"
  shows "model_ok (resetCells cs diff m) \<and> gc_id ` cells_of (resetCells cs diff m) =
    gc_id ` set cs \<union> (if diff then gc_id ` cells_of m else {})"
proof -
  obtain added col where a: "coll_reset (map (prepareCell m) cs) diff (gm_coll m) = (added, col)" by fastforce
  note s = coll_reset_ok [OF assms a]
  have "gc_id (prepareCell m c) = gc_id c" for c by (simp add: prepareCell_def)
  then have ids: "gc_id ` prepareCell m ` X = gc_id ` X" for X by (simp add: image_image)
  have eq: "resetCells cs diff m = onReset (col_cells col) (m\<lparr>gm_coll := col\<rparr>)" by (simp add: resetCells_def a)
  have coll: "gm_coll (resetCells cs diff m) = col"
    unfolding eq onReset_def
    using indexed_fold_added [of "{}" "m\<lparr>gm_coll := col, gm_nodes := [], gm_edges := [], gm_out := Map.empty, gm_in := Map.empty\<rparr>" "col_cells col"]
    by (simp add: indexed_def ref_rel_def edges_at_def)
  have "model_ok (resetCells cs diff m)" unfolding eq using onReset_ok [of "m\<lparr>gm_coll := col\<rparr>"] s by simp
  then show ?thesis using s ids coll by (simp add: cells_of_def)
qed

end
