(* ===== verification/Graph_Removal.thy ===== *)
theory Graph_Removal
  imports Graph_Model
begin

text \<open>
  What removing a cell of the graph model does: the cell goes, and with it the edges attached to it,
  the edges attached to those, and nothing else; no edge is left pointing to a removed cell, and
  the edge indexes describe the remaining cells.
\<close>

section \<open>Taking one cell out\<close>

lemma cells_inj: "model_ok m \<Longrightarrow> inj_on gc_id (cells_of m)"
  by (simp add: model_ok_def cells_of_def coll_ok_inj)

lemma image_remove_inj: "inj_on gc_id S \<Longrightarrow> c \<in> S \<Longrightarrow> gc_id ` {d \<in> S - {c}. P d} = gc_id ` {d \<in> S. P d} - {gc_id c}"
  by (auto simp: inj_on_def)

lemma remove_one_unindex:
  assumes ok: "model_ok m" and r: "coll_remove_one i (gm_coll m) = (Some c, col)"
  defines "m' \<equiv> unindex_cell c (m\<lparr>gm_coll := col\<rparr>)"
  shows "model_ok m' \<and> cells_of m' = cells_of m - {c} \<and> c \<in> cells_of m \<and> gc_id c = i \<and>
    length (getCells m') < length (getCells m)"
proof -
  have cok: "coll_ok (gm_coll m)" and ix: "indexed (cells_of m) m" using ok by (auto simp: model_ok_indexed)
  note sp = coll_remove_one_spec [OF cok, of i, unfolded r fst_conv snd_conv]
  have "coll_get i (gm_coll m) = Some c" using sp by simp
  then have c: "c \<in> cells_of m" "gc_id c = i" using coll_get_Some [OF cok] by (simp_all add: cells_of_def)
  have inj: "inj_on gc_id (cells_of m)" by (rule cells_inj [OF ok])
  have cells: "set (col_cells col) = cells_of m - {c}"
    using sp c inj by (auto simp: cells_of_def inj_on_def)
  have coll: "gm_coll m' = col" by (simp add: m'_def unindex_cell_def)
  have "indexed (cells_of m - {c}) m'"
  proof (cases "gc_edge c")
    case True
    then have "{d \<in> cells_of m - {c}. \<not> gc_edge d} = {d \<in> cells_of m. \<not> gc_edge d}" by auto
    then show ?thesis
      using ix True image_remove_inj [OF inj c(1), of gc_edge] edges_at_remove [OF inj c(1)]
      by (auto simp: m'_def unindex_cell_def indexed_def key_del_def intro: ref_rel_drop split: option.splits)
  next
    case False
    then have "{d \<in> cells_of m - {c}. gc_edge d} = {d \<in> cells_of m. gc_edge d}" by auto
    then show ?thesis
      using ix False image_remove_inj [OF inj c(1), of "\<lambda>d. \<not> gc_edge d"] edges_at_remove [OF inj c(1)]
      by (auto simp: m'_def unindex_cell_def indexed_def key_del_def split: option.splits)
  qed
  moreover have "length (getCells m') < length (getCells m)"
    unfolding getCells_def coll using sp c
    by (metis (mono_tags, lifting) cells_of_def length_filter_less snd_conv)
  ultimately show ?thesis using sp c cells coll by (simp add: model_ok_indexed cells_of_def)
qed

lemma remove_one_absent:
  assumes "model_ok m"
  shows "fst (coll_remove_one i (gm_coll m)) = None \<longleftrightarrow> i \<notin> gc_id ` cells_of m"
proof -
  have ok: "coll_ok (gm_coll m)" using assms by (simp add: model_ok_def)
  show ?thesis
    using coll_remove_one_spec [OF ok, of i] coll_has_iff [OF ok, of i] unfolding coll_has_def cells_of_def by metis
qed

section \<open>Connected edges\<close>

lemma fold_collect:
  "set (fold (\<lambda>e r. if gc_id e \<in> gc_id ` set r then r else r @ [e]) es r) \<subseteq> set es \<union> set r \<and>
   gc_id ` set (fold (\<lambda>e r. if gc_id e \<in> gc_id ` set r then r else r @ [e]) es r) = gc_id ` (set es \<union> set r)"
proof (induction es arbitrary: r)
  case (Cons e es)
  show ?case using Cons.IH [of "if gc_id e \<in> gc_id ` set r then r else r @ [e]"] by (auto split: if_splits)
qed simp

definition touches :: "string \<Rightarrow> gcell \<Rightarrow> bool" where
  "touches i e \<longleftrightarrow> gc_edge e \<and> i \<noteq> [] \<and> (gc_source e = Some i \<or> gc_target e = Some i)"

lemma set_map_filter: "set (List.map_filter f xs) = {y. \<exists>x \<in> set xs. f x = Some y}"
  by (induction xs) (auto simp: List.map_filter_simps split: option.splits)

lemma cached_edges_set:
  assumes ok: "model_ok m" and ref: "ref_rel ref (edges_at f (cells_of m))"
  shows "(case cached_edges ref i m of None \<Rightarrow> {} | Some es \<Rightarrow> set es) =
    {e \<in> cells_of m. gc_edge e \<and> f e = Some i \<and> i \<noteq> []}"
proof -
  have get: "getCell j m = Some c \<longleftrightarrow> c \<in> cells_of m \<and> gc_id c = j" for j c
    using ok by (simp add: model_ok_def getCell_def cells_of_def coll_get_Some)
  have inj: "inj_on gc_id (cells_of m)" by (rule cells_inj [OF ok])
  show ?thesis
  proof (cases "ref i")
    case None
    then show ?thesis using ref_relD(1) [OF ref None] by (auto simp: cached_edges_def edges_at_def)
  next
    case (Some l)
    then have "set l = edges_at f (cells_of m) i" using ref_relD(2) [OF ref] by blast
    moreover have "set (filter gc_edge (List.map_filter (\<lambda>i. getCell i m) l)) =
        {e \<in> cells_of m. gc_edge e \<and> gc_id e \<in> set l}"
      by (auto simp: set_map_filter get)
    ultimately show ?thesis
      using Some inj by (auto simp: cached_edges_def edges_at_def inj_on_def)
  qed
qed

lemma getConnectedEdges_set:
  assumes "model_ok m"
  shows "set (getConnectedEdges i True True m) = {e \<in> cells_of m. touches i e}"
proof -
  have inj: "inj_on gc_id (cells_of m)" by (rule cells_inj [OF assms])
  have o: "(case getOutgoingEdges i m of None \<Rightarrow> {} | Some es \<Rightarrow> set es) =
      {e \<in> cells_of m. gc_edge e \<and> gc_source e = Some i \<and> i \<noteq> []}"
    unfolding getOutgoingEdges_def by (rule cached_edges_set [OF assms]) (use assms in \<open>simp add: model_ok_def\<close>)
  have n: "(case getIncomingEdges i m of None \<Rightarrow> {} | Some es \<Rightarrow> set es) =
      {e \<in> cells_of m. gc_edge e \<and> gc_target e = Some i \<and> i \<noteq> []}"
    unfolding getIncomingEdges_def by (rule cached_edges_set [OF assms]) (use assms in \<open>simp add: model_ok_def\<close>)
  have col: "set (collect_edges es r) \<subseteq> (case es of None \<Rightarrow> {} | Some es \<Rightarrow> set es) \<union> set r \<and>
      gc_id ` set (collect_edges es r) = gc_id ` ((case es of None \<Rightarrow> {} | Some es \<Rightarrow> set es) \<union> set r)" for es r
    using fold_collect by (cases es) (auto simp: collect_edges_def)
  let ?r = "collect_edges (getOutgoingEdges i m) []"
  let ?s = "getConnectedEdges i True True m"
  have s: "?s = collect_edges (getIncomingEdges i m) ?r" by (simp add: getConnectedEdges_def)
  let ?T = "{e \<in> cells_of m. touches i e}"
  have T: "?T = {e \<in> cells_of m. gc_edge e \<and> gc_source e = Some i \<and> i \<noteq> []} \<union>
      {e \<in> cells_of m. gc_edge e \<and> gc_target e = Some i \<and> i \<noteq> []}"
    by (auto simp: touches_def)
  let ?A = "{e \<in> cells_of m. gc_edge e \<and> gc_source e = Some i \<and> i \<noteq> []}"
  let ?B = "{e \<in> cells_of m. gc_edge e \<and> gc_target e = Some i \<and> i \<noteq> []}"
  have r1: "set ?r \<subseteq> ?A" "gc_id ` set ?r = gc_id ` ?A"
    using col [of "getOutgoingEdges i m" "[]"] unfolding o by simp_all
  have s1: "set ?s \<subseteq> ?B \<union> set ?r" "gc_id ` set ?s = gc_id ` (?B \<union> set ?r)"
    using col [of "getIncomingEdges i m" ?r] unfolding s n by simp_all
  have sub: "set ?s \<subseteq> ?T" unfolding T using r1(1) s1(1) by blast
  have im: "gc_id ` set ?s = gc_id ` ?T" unfolding T s1(2) image_Un r1(2) by (rule Un_commute)
  show ?thesis
  proof
    show "set ?s \<subseteq> ?T" by (rule sub)
    show "?T \<subseteq> set ?s"
    proof
      fix e assume e: "e \<in> ?T"
      then obtain d where d: "d \<in> set ?s" "gc_id d = gc_id e" using im by (metis (no_types, lifting) imageE imageI)
      then have "d = e" using e sub inj unfolding inj_on_def by blast
      then show "e \<in> set ?s" using d(1) by simp
    qed
  qed
qed

section \<open>The removal and its cascade\<close>

text \<open>The ids an edge points to without a cell of that id in the graph.\<close>

definition dangling :: "gcell set \<Rightarrow> string set" where
  "dangling S = {i. \<exists>e \<in> S. touches i e \<and> i \<notin> gc_id ` S}"

inductive attached :: "gcell set \<Rightarrow> string \<Rightarrow> string \<Rightarrow> bool" for S i where
  attached_self: "attached S i i"
| attached_edge: "attached S i j \<Longrightarrow> e \<in> S \<Longrightarrow> touches j e \<Longrightarrow> attached S i (gc_id e)"

lemma attached_mono: "attached S i j \<Longrightarrow> S \<subseteq> T \<Longrightarrow> attached T i j"
  by (induction rule: attached.induct) (auto intro: attached.intros)

lemma attached_trans: "attached S j k \<Longrightarrow> attached S i j \<Longrightarrow> attached S i k"
  by (induction rule: attached.induct) (auto intro: attached.intros)

lemma removeCell_cascade:
  assumes "model_ok m" "length (getCells m) \<le> fuel"
  shows "model_ok (removeCell_fuel fuel False i m) \<and>
    cells_of (removeCell_fuel fuel False i m) \<subseteq> cells_of m \<and>
    length (getCells (removeCell_fuel fuel False i m)) \<le> length (getCells m) \<and>
    i \<notin> gc_id ` cells_of (removeCell_fuel fuel False i m) \<and>
    dangling (cells_of (removeCell_fuel fuel False i m)) \<subseteq> dangling (cells_of m) \<and>
    (\<forall>c \<in> cells_of m - cells_of (removeCell_fuel fuel False i m). attached (cells_of m) i (gc_id c))"
  using assms
proof (induction fuel arbitrary: i m)
  case 0
  then have "cells_of m = {}" by (simp add: cells_of_def getCells_def)
  moreover have "removeCell_fuel 0 False i m = m"
    by (simp add: removeCell_fuel.simps split: prod.splits option.splits)
  ultimately show ?case using 0 by simp
next
  case (Suc n)
  show ?case
  proof (cases "i \<in> gc_id ` cells_of m")
    case False
    then have "fst (coll_remove_one i (gm_coll m)) = None" using remove_one_absent [OF Suc.prems(1)] by simp
    then have "removeCell_fuel (Suc n) False i m = m"
      by (cases "coll_remove_one i (gm_coll m)") (simp add: removeCell_fuel.simps)
    then show ?thesis using Suc.prems False by simp
  next
    case True
    then obtain c col where r: "coll_remove_one i (gm_coll m) = (Some c, col)"
      using remove_one_absent [OF Suc.prems(1), of i] by (cases "coll_remove_one i (gm_coll m)") auto
    define m1 where "m1 = unindex_cell c (m\<lparr>gm_coll := col\<rparr>)"
    have m1: "model_ok m1" "cells_of m1 = cells_of m - {c}" "c \<in> cells_of m" "gc_id c = i"
        "length (getCells m1) < length (getCells m)"
      using remove_one_unindex [OF Suc.prems(1) r] by (auto simp: m1_def)
    let ?S = "cells_of m1"
    define es where "es = getConnectedEdges i True True m1"
    have es: "set es = {e \<in> ?S. touches i e}" using getConnectedEdges_set [OF m1(1)] by (simp add: es_def)
    have run: "set ds \<subseteq> set es \<Longrightarrow>
        (let m' = fold (\<lambda>e. removeCell_fuel n False (gc_id e)) ds m1
         in model_ok m' \<and> cells_of m' \<subseteq> ?S \<and> length (getCells m') \<le> length (getCells m1) \<and>
            (\<forall>e \<in> set ds. gc_id e \<notin> gc_id ` cells_of m') \<and> dangling (cells_of m') \<subseteq> dangling ?S \<and>
            (\<forall>d \<in> ?S - cells_of m'. \<exists>e \<in> set es. attached ?S (gc_id e) (gc_id d)))" for ds
    proof (induction ds rule: rev_induct)
      case Nil
      then show ?case using m1(1) by simp
    next
      case (snoc e ds)
      let ?m = "fold (\<lambda>e. removeCell_fuel n False (gc_id e)) ds m1"
      have ih: "model_ok ?m" "cells_of ?m \<subseteq> ?S" "length (getCells ?m) \<le> length (getCells m1)"
          "\<forall>e \<in> set ds. gc_id e \<notin> gc_id ` cells_of ?m" "dangling (cells_of ?m) \<subseteq> dangling ?S"
          "\<forall>d \<in> ?S - cells_of ?m. \<exists>e \<in> set es. attached ?S (gc_id e) (gc_id d)"
        using snoc by (auto simp: Let_def)
      have "length (getCells ?m) \<le> n" using ih(3) m1(5) Suc.prems(2) by linarith
      note s = Suc.IH [OF ih(1) this, of "gc_id e"]
      let ?m2 = "removeCell_fuel n False (gc_id e) ?m"
      have "\<exists>e \<in> set es. attached ?S (gc_id e) (gc_id d)" if d: "d \<in> ?S - cells_of ?m2" for d
      proof (cases "d \<in> cells_of ?m")
        case True
        then have "attached (cells_of ?m) (gc_id e) (gc_id d)" using s d by blast
        then have "attached ?S (gc_id e) (gc_id d)" using attached_mono ih(2) by blast
        then show ?thesis using snoc.prems by auto
      next
        case False
        then show ?thesis using ih(6) d by blast
      qed
      moreover have "\<forall>x \<in> set (ds @ [e]). gc_id x \<notin> gc_id ` cells_of ?m2" using s ih(4) by auto
      ultimately show ?case using s ih by (auto simp: Let_def)
    qed
    define m' where "m' = fold (\<lambda>e. removeCell_fuel n False (gc_id e)) es m1"
    have f: "model_ok m'" "cells_of m' \<subseteq> ?S" "length (getCells m') \<le> length (getCells m1)"
        "\<forall>e \<in> set es. gc_id e \<notin> gc_id ` cells_of m'" "dangling (cells_of m') \<subseteq> dangling ?S"
        "\<forall>d \<in> ?S - cells_of m'. \<exists>e \<in> set es. attached ?S (gc_id e) (gc_id d)"
      using run [of es] by (auto simp: Let_def m'_def)
    have eq: "removeCell_fuel (Suc n) False i m = m'"
      by (simp add: removeCell_fuel.simps [of "Suc n"] r Let_def m'_def es_def m1_def)
    have "dangling (cells_of m') \<subseteq> dangling (cells_of m)"
    proof
      fix j assume j: "j \<in> dangling (cells_of m')"
      have "j \<noteq> i"
      proof
        assume "j = i"
        then obtain e where "e \<in> cells_of m'" "touches i e" using j by (auto simp: dangling_def)
        then have "e \<in> set es" "e \<in> cells_of m'" using es f(2) by auto
        then show False using f(4) by blast
      qed
      then show "j \<in> dangling (cells_of m)" using j f(5) m1(2,4) by (auto simp: dangling_def)
    qed
    moreover have "attached (cells_of m) i (gc_id d)" if d: "d \<in> cells_of m - cells_of m'" for d
    proof (cases "d = c")
      case True
      then show ?thesis using m1(4) attached_self by simp
    next
      case False
      then obtain e where e: "e \<in> set es" "attached ?S (gc_id e) (gc_id d)" using f(6) d m1(2) by blast
      have "attached (cells_of m) i (gc_id e)"
        using e(1) es m1(2) attached_edge [OF attached_self] by blast
      then show ?thesis using attached_trans attached_mono [OF e(2), of "cells_of m"] m1(2) by blast
    qed
    moreover have "i \<notin> gc_id ` cells_of m'"
      using f(2) m1(2-4) cells_inj [OF Suc.prems(1)] by (auto simp: inj_on_def)
    ultimately show ?thesis using f m1 eq by auto
  qed
qed

lemma removeCell_attached:
  assumes ok: "model_ok m" and i: "i \<in> gc_id ` cells_of m"
  shows "model_ok (removeCell False i m) \<and>
    cells_of (removeCell False i m) = {c \<in> cells_of m. \<not> attached (cells_of m) i (gc_id c)} \<and>
    dangling (cells_of (removeCell False i m)) \<subseteq> dangling (cells_of m)"
proof -
  let ?S = "cells_of m"
  let ?T = "cells_of (removeCell False i m)"
  have r: "model_ok (removeCell False i m)" "?T \<subseteq> ?S" "i \<notin> gc_id ` ?T" "dangling ?T \<subseteq> dangling ?S"
      "\<forall>c \<in> ?S - ?T. attached ?S i (gc_id c)"
    using removeCell_cascade [OF ok order_refl, of i] by (auto simp: removeCell_def)
  have gone: "attached ?S i j \<Longrightarrow> j \<in> gc_id ` ?S \<and> j \<notin> gc_id ` ?T" for j
  proof (induction rule: attached.induct)
    case attached_self
    show ?case using i r(3) by blast
  next
    case (attached_edge j e)
    have "e \<notin> ?T"
    proof
      assume "e \<in> ?T"
      then have "j \<in> dangling ?T" using attached_edge by (auto simp: dangling_def)
      then have "j \<in> dangling ?S" using r(4) by blast
      then show False using attached_edge.IH by (auto simp: dangling_def)
    qed
    then show ?case using attached_edge(2) r(2) cells_inj [OF ok] unfolding inj_on_def by blast
  qed
  have "?T = {c \<in> ?S. \<not> attached ?S i (gc_id c)}" using gone r(2,5) by blast
  then show ?thesis using r by blast
qed

section \<open>Every operation keeps the indexes\<close>

lemma edges_at_replace:
  assumes inj: "inj_on gc_id S" and c: "c \<in> S" "gc_id d = gc_id c" "gc_edge d = gc_edge c" "f d = f c"
  shows "edges_at f (insert d (S - {c})) = edges_at f S"
proof
  fix i
  have "gc_id x = gc_id c \<longleftrightarrow> x = c" if "x \<in> S" for x using inj c(1) that by (auto simp: inj_on_def)
  then show "edges_at f (insert d (S - {c})) i = edges_at f S i" using c unfolding edges_at_def by auto metis
qed

lemma kinds_replace:
  assumes "c \<in> S" "gc_id d = gc_id c" "P d = P c" "inj_on gc_id S"
  shows "gc_id ` {x \<in> insert d (S - {c}). P x} = gc_id ` {x \<in> S. P x}"
  using assms by (auto simp: inj_on_def image_iff) metis+

lemma coll_update_cells:
  assumes "coll_ok col" "c \<in> set (col_cells col)"
  shows "set (col_cells (coll_update (gc_id c) f col)) = insert (f c) (set (col_cells col) - {c})"
proof -
  have "gc_id x = gc_id c \<longleftrightarrow> x = c" if "x \<in> set (col_cells col)" for x
    using coll_ok_inj [OF assms(1)] assms(2) that by (auto simp: inj_on_def)
  then show ?thesis using assms(2) by (auto simp: coll_update_def image_iff)
qed

lemma edges_at_reconnect:
  assumes inj: "inj_on gc_id S" and c: "c \<in> S" "gc_edge c" "gc_id d = gc_id c" "gc_edge d"
    and rel: "ref_rel ref (edges_at f S)"
  shows "ref_rel (onEdgeTerminalChanged (gc_id c) (f c) (f d) ref) (edges_at f (insert d (S - {c})))"
proof -
  have drop: "ref_rel (case f c of Some k \<Rightarrow> if k \<noteq> [] then cache_drop k (gc_id c) ref else ref | None \<Rightarrow> ref)
      (edges_at f (S - {c}))"
    unfolding edges_at_remove [OF inj c(1)] using rel c(2) by (auto intro: ref_rel_drop split: option.splits)
  show ?thesis
    unfolding edges_at_insert onEdgeTerminalChanged_def Let_def
    using ref_rel_push [OF drop, of _ "gc_id c"] drop c(3,4)
    by (cases "f d") simp_all
qed

lemma setSource_ok:
  assumes "model_ok m"
  shows "model_ok (setSource e t m)"
proof (cases "\<exists>c. getCell e m = Some c \<and> gc_edge c \<and> gc_source c \<noteq> t")
  case False
  then show ?thesis using assms by (auto simp: setSource_def split: option.splits)
next
  case True
  then obtain c where c: "getCell e m = Some c" "gc_edge c" "gc_source c \<noteq> t" by blast
  have cok: "coll_ok (gm_coll m)" using assms by (simp add: model_ok_def)
  have cm: "c \<in> cells_of m" "gc_id c = e" using c(1) coll_get_Some [OF cok] by (simp_all add: getCell_def cells_of_def)
  define d where "d = c\<lparr>gc_source := t\<rparr>"
  have inj: "inj_on gc_id (cells_of m)" by (rule cells_inj [OF assms])
  define m' where "m' = setSource e t m"
  have m': "m' = m\<lparr>gm_coll := coll_update e (\<lambda>c. c\<lparr>gc_source := t\<rparr>) (gm_coll m),
      gm_out := onEdgeTerminalChanged e (gc_source c) t (gm_out m)\<rparr>"
    using c by (simp add: m'_def setSource_def)
  have cells: "cells_of m' = insert d (cells_of m - {c})"
    using coll_update_cells [OF cok, of c "\<lambda>c. c\<lparr>gc_source := t\<rparr>"] cm by (simp add: m' cells_of_def d_def)
  have coll: "coll_ok (gm_coll m')" using coll_update_ok [OF cok] by (simp add: m')
  have rel: "ref_rel (gm_out m) (edges_at gc_source (cells_of m))" using assms by (simp add: model_ok_def)
  have out: "ref_rel (gm_out m') (edges_at gc_source (cells_of m'))"
    unfolding cells using edges_at_reconnect [OF inj cm(1) c(2), of d, OF _ _ rel] c(2) cm(2) by (simp add: m' d_def)
  show ?thesis
    using assms coll out edges_at_replace [OF inj cm(1), of d gc_target]
      kinds_replace [OF cm(1), of d gc_edge] kinds_replace [OF cm(1), of d "\<lambda>x. \<not> gc_edge x"] inj
    unfolding m'_def [symmetric] model_ok_def cells
    by (simp add: m' d_def)
qed

lemma setTarget_ok:
  assumes "model_ok m"
  shows "model_ok (setTarget e t m)"
proof (cases "\<exists>c. getCell e m = Some c \<and> gc_edge c \<and> gc_target c \<noteq> t")
  case False
  then show ?thesis using assms by (auto simp: setTarget_def split: option.splits)
next
  case True
  then obtain c where c: "getCell e m = Some c" "gc_edge c" "gc_target c \<noteq> t" by blast
  have cok: "coll_ok (gm_coll m)" using assms by (simp add: model_ok_def)
  have cm: "c \<in> cells_of m" "gc_id c = e" using c(1) coll_get_Some [OF cok] by (simp_all add: getCell_def cells_of_def)
  define d where "d = c\<lparr>gc_target := t\<rparr>"
  have inj: "inj_on gc_id (cells_of m)" by (rule cells_inj [OF assms])
  define m' where "m' = setTarget e t m"
  have m': "m' = m\<lparr>gm_coll := coll_update e (\<lambda>c. c\<lparr>gc_target := t\<rparr>) (gm_coll m),
      gm_in := onEdgeTerminalChanged e (gc_target c) t (gm_in m)\<rparr>"
    using c by (simp add: m'_def setTarget_def)
  have cells: "cells_of m' = insert d (cells_of m - {c})"
    using coll_update_cells [OF cok, of c "\<lambda>c. c\<lparr>gc_target := t\<rparr>"] cm by (simp add: m' cells_of_def d_def)
  have coll: "coll_ok (gm_coll m')" using coll_update_ok [OF cok] by (simp add: m')
  have rel: "ref_rel (gm_in m) (edges_at gc_target (cells_of m))" using assms by (simp add: model_ok_def)
  have inn: "ref_rel (gm_in m') (edges_at gc_target (cells_of m'))"
    unfolding cells using edges_at_reconnect [OF inj cm(1) c(2), of d, OF _ _ rel] c(2) cm(2) by (simp add: m' d_def)
  show ?thesis
    using assms coll inn edges_at_replace [OF inj cm(1), of d gc_source]
      kinds_replace [OF cm(1), of d gc_edge] kinds_replace [OF cm(1), of d "\<lambda>x. \<not> gc_edge x"] inj
    unfolding m'_def [symmetric] model_ok_def cells
    by (simp add: m' d_def)
qed

lemma fold_inv: "P s \<Longrightarrow> (\<And>x s. P s \<Longrightarrow> P (f x s)) \<Longrightarrow> P (fold f xs s)"
  by (induction xs arbitrary: s) auto

lemma disconnect_ok: "model_ok m \<Longrightarrow> model_ok (disconnectConnectedEdges i m)"
  unfolding disconnectConnectedEdges_def
  by (rule fold_inv) (auto simp: Let_def setSource_ok setTarget_ok)

lemma remove_plain_ok: "model_ok m \<Longrightarrow> model_ok (remove_plain i m)"
  using remove_one_unindex [of m i] by (auto simp: remove_plain_def split: prod.splits option.splits)

lemma removeCell_ok:
  assumes "model_ok m"
  shows "model_ok (removeCell disconnect i m)"
proof (cases disconnect)
  case False
  then show ?thesis using removeCell_cascade [OF assms order_refl, of i] by (simp add: removeCell_def)
next
  case True
  show ?thesis
  proof (cases "coll_remove_one i (gm_coll m)")
    case (Pair c col)
    then show ?thesis
      using assms True remove_one_unindex [OF assms] disconnect_ok
      by (auto simp: removeCell_def removeCell_fuel.simps Let_def split: option.splits nat.splits)
  qed
qed

lemma batch_ok [simp]: "model_ok (startBatch b m) = model_ok m" "model_ok (stopBatch b m) = model_ok m"
  by (simp_all add: model_ok_def startBatch_def stopBatch_def cells_of_def)

lemma batchUpdate_count:
  assumes "\<And>m. batch_count b (f m) = batch_count b m"
  shows "batch_count b (batchUpdate b f m) = batch_count b m"
  using assms [of "startBatch b m"] by (simp add: batchUpdate_def startBatch_def stopBatch_def batch_count_def)

lemma clear_ok:
  assumes "model_ok m"
  shows "model_ok (clear_model m) \<and> cells_of (clear_model m) = {}"
proof -
  have run: "model_ok m' \<Longrightarrow> model_ok (fold (\<lambda>c. remove_plain (gc_id c)) cs m') \<and>
      cells_of (fold (\<lambda>c. remove_plain (gc_id c)) cs m') \<subseteq> {c \<in> cells_of m'. gc_id c \<notin> gc_id ` set cs}" for cs m'
  proof (induction cs arbitrary: m')
    case (Cons c cs)
    have "cells_of (remove_plain (gc_id c) m') \<subseteq> {d \<in> cells_of m'. gc_id d \<noteq> gc_id c}"
    proof (cases "coll_remove_one (gc_id c) (gm_coll m')")
      case (Pair r col)
      show ?thesis
      proof (cases r)
        case None
        then have "gc_id c \<notin> gc_id ` cells_of m'" using remove_one_absent [OF Cons.prems, of "gc_id c"] Pair by simp
        then have "gc_id d \<noteq> gc_id c" if "d \<in> cells_of m'" for d using that by (metis imageI)
        then show ?thesis using Pair None by (auto simp: remove_plain_def)
      next
        case (Some d)
        then show ?thesis
          using remove_one_unindex [OF Cons.prems, of "gc_id c" d col] Pair cells_inj [OF Cons.prems]
          by (auto simp: remove_plain_def inj_on_def)
      qed
    qed
    then show ?case using Cons.IH [OF remove_plain_ok [OF Cons.prems], of "gc_id c"] by auto
  qed simp
  from run [OF assms, of "sort_key (\<lambda>c. if gc_edge c then 1 else (2 :: nat)) (getCells m)"]
  have "model_ok (clear_model m)" "cells_of (clear_model m) \<subseteq> {c \<in> cells_of m. gc_id c \<notin> gc_id ` cells_of m}"
    by (simp_all add: clear_model_def getCells_def cells_of_def)
  then show ?thesis by blast
qed

text \<open>The operations the editor performs on the model, in any order and number.\<close>

datatype model_op =
    OpAdd gcell
  | OpAddMany "gcell list"
  | OpRemove bool string
  | OpRemoveMany bool "string list"
  | OpReset "gcell list" bool
  | OpFromJSON "gcell list" "gcell list" bool
  | OpSource string "string option"
  | OpTarget string "string option"
  | OpClear

fun run_op :: "model_op \<Rightarrow> gmodel \<Rightarrow> gmodel" where
  "run_op (OpAdd c) m = addCell c m"
| "run_op (OpAddMany cs) m = addCells cs m"
| "run_op (OpRemove d i) m = removeCell d i m"
| "run_op (OpRemoveMany d is) m = removeCells d is m"
| "run_op (OpReset cs diff) m = resetCells cs diff m"
| "run_op (OpFromJSON ns es diff) m = fromJSON_cells ns es diff m"
| "run_op (OpSource e t) m = setSource e t m"
| "run_op (OpTarget e t) m = setTarget e t m"
| "run_op OpClear m = clear_model m"

lemma run_op_ok: "model_ok m \<Longrightarrow> model_ok (run_op op m)"
proof (cases op)
  case (OpAddMany cs)
  then show "model_ok m \<Longrightarrow> model_ok (run_op op m)"
    by (auto simp: addCells_def intro!: fold_inv [of model_ok] addCell_ok [THEN conjunct1])
next
  case (OpRemoveMany d ks)
  then show "model_ok m \<Longrightarrow> model_ok (run_op op m)"
    by (auto simp: removeCells_def batchUpdate_def intro!: fold_inv [of model_ok] removeCell_ok)
qed (auto simp: addCell_ok removeCell_ok resetCells_ok fromJSON_cells_def setSource_ok setTarget_ok clear_ok
    dest: model_ok_indexed [THEN iffD1])

lemma reachable_model_ok: "model_ok (fold run_op ops newModel)"
  by (rule fold_inv [of model_ok]) (auto simp: model_ok_new run_op_ok)

section \<open>The properties\<close>

text \<open>C4: Whatever sequence of additions, removals, resets, reconnections and clears the graph model goes
  through, its ids are distinct, the collection's array, map and length agree, the sets of node and
  edge ids are exactly those of the cells, and the outgoing and incoming lists of every cell are
  exactly the edges whose source or target it is.\<close>

theorem graph_indexes_exact:
  "let m = fold run_op ops newModel; S = set (getCells m)
   in distinct (map gc_id (getCells m)) \<and> col_length (gm_coll m) = int (length (getCells m)) \<and>
      (\<forall>i c. getCell i m = Some c \<longleftrightarrow> c \<in> S \<and> gc_id c = i) \<and>
      set (gm_nodes m) = gc_id ` {c \<in> S. \<not> gc_edge c} \<and> set (gm_edges m) = gc_id ` {c \<in> S. gc_edge c} \<and>
      (\<forall>i. (case gm_out m i of None \<Rightarrow> {} | Some l \<Rightarrow> set l) =
         {gc_id e | e. e \<in> S \<and> gc_edge e \<and> gc_source e = Some i \<and> i \<noteq> []}) \<and>
      (\<forall>i. (case gm_in m i of None \<Rightarrow> {} | Some l \<Rightarrow> set l) =
         {gc_id e | e. e \<in> S \<and> gc_edge e \<and> gc_target e = Some i \<and> i \<noteq> []})"
proof -
  define m where "m = fold run_op ops newModel"
  have ok: "model_ok m" unfolding m_def by (rule reachable_model_ok)
  then have cok: "coll_ok (gm_coll m)" by (simp add: model_ok_def)
  have rel: "ref_rel ref R \<Longrightarrow> (case ref i of None \<Rightarrow> {} | Some l \<Rightarrow> set l) = R i" for ref R i
    by (cases "ref i") (auto dest: ref_relD)
  have out: "(case gm_out m i of None \<Rightarrow> {} | Some l \<Rightarrow> set l) = edges_at gc_source (cells_of m) i" for i
    by (rule rel) (use ok in \<open>simp add: model_ok_def\<close>)
  have inn: "(case gm_in m i of None \<Rightarrow> {} | Some l \<Rightarrow> set l) = edges_at gc_target (cells_of m) i" for i
    by (rule rel) (use ok in \<open>simp add: model_ok_def\<close>)
  show ?thesis
    unfolding m_def [symmetric] Let_def
    using ok cok out inn coll_get_Some [OF cok]
    by (simp add: model_ok_def coll_ok_def cells_of_def getCells_def getCell_def edges_at_def)
qed

text \<open>C20: Removing a cell of the graph removes exactly the cells attached to it (the cell, the edges that
  start or end at it, the edges at those edges, and so on), leaves every other cell as it is, and
  creates no edge whose end is missing.\<close>

theorem removeCell_exact:
  assumes "model_ok m" "i \<in> gc_id ` cells_of m"
  shows "model_ok (removeCell False i m) \<and>
    cells_of (removeCell False i m) = {c \<in> cells_of m. \<not> attached (cells_of m) i (gc_id c)} \<and>
    dangling (cells_of (removeCell False i m)) \<subseteq> dangling (cells_of m)"
  by (rule removeCell_attached [OF assms])

definition ex_cell :: "string \<Rightarrow> (string \<times> string) option \<Rightarrow> gcell" where
  "ex_cell i t = \<lparr>gc_id = i, gc_edge = (t \<noteq> None), gc_source = map_option fst t, gc_target = map_option snd t,
     gc_z = None, gc_props = []\<rparr>"

definition ex_graph :: gmodel where
  "ex_graph = fold run_op [OpAdd (ex_cell ''1'' None), OpAdd (ex_cell ''2'' None),
     OpAdd (ex_cell ''e'' (Some (''1'', ''2''))), OpAdd (ex_cell ''f'' (Some (''2'', ''e'')))] newModel"

lemma ex_graph_cells: "map gc_id (getCells ex_graph) = [''1'', ''2'', ''e'', ''f'']"
  by code_simp

lemma removeCell_exact_witness:
  "model_ok (removeCell False ''1'' ex_graph) \<and>
   cells_of (removeCell False ''1'' ex_graph) = {c \<in> cells_of ex_graph. \<not> attached (cells_of ex_graph) ''1'' (gc_id c)}"
proof -
  have "''1'' \<in> gc_id ` cells_of ex_graph"
    using ex_graph_cells by (metis cells_of_def getCells_def list.set_intros(1) set_map)
  moreover have "model_ok ex_graph" unfolding ex_graph_def by (rule reachable_model_ok)
  ultimately show ?thesis using removeCell_exact [of ex_graph "''1''"] by blast
qed

lemma removeCell_example: "map gc_id (getCells (removeCell False ''1'' ex_graph)) = [''2'']"
  by code_simp

end
