(* ===== verification/Priority_Queue.thy ===== *)
theory Priority_Queue
  imports Prelude "HOL-Library.Multiset"
begin

text \<open>
  The binary heap of the graph editor (class \<open>PriorityQueue\<close> of x6's algorithm/priorityqueue.js in
  web/static/cyeditor.common.js): an array of items kept in heap order, and an index from item ids
  to array positions that \<open>updatePriority\<close> uses. The comparator is a parameter, as in the code;
  a result \<open>None\<close> of \<open>updatePriority\<close> is the error it throws for an unknown id. Positions are
  far below 2^31, so the code's shifts are the multiplication and division by two written here.
\<close>

section \<open>State and operations\<close>

record ('p, 'v) item =
  priority :: 'p
  value_of :: 'v
  id_of :: "string option"

record ('p, 'v) pqueue =
  pq_data :: "('p, 'v) item list"
  pq_index :: "string \<rightharpoonup> nat"

text \<open>
  Numbers as the queue's callers use them: integers and \<open>Infinity\<close>. A comparator answers with a
  number; the difference of two infinities is \<open>NaN\<close>, which is neither below nor above zero.
\<close>

datatype jnum = Num int | Infinity

datatype cmpval = CNum int | CPosInf | CNegInf | CNaN

fun cmp_neg :: "cmpval \<Rightarrow> bool" where
  "cmp_neg (CNum n) = (n < 0)"
| "cmp_neg CNegInf = True"
| "cmp_neg _ = False"

fun cmp_pos :: "cmpval \<Rightarrow> bool" where
  "cmp_pos (CNum n) = (n > 0)"
| "cmp_pos CPosInf = True"
| "cmp_pos _ = False"

type_synonym 'p comparator = "'p \<Rightarrow> 'p \<Rightarrow> cmpval"

fun DefaultComparator :: "jnum comparator" where
  "DefaultComparator (Num a) (Num b) = CNum (a - b)"
| "DefaultComparator (Num a) Infinity = CNegInf"
| "DefaultComparator Infinity (Num b) = CPosInf"
| "DefaultComparator Infinity Infinity = CNaN"

definition isEmpty :: "('p, 'v) pqueue \<Rightarrow> bool" where
  "isEmpty q \<longleftrightarrow> length (pq_data q) = 0"

definition index_put :: "string option \<Rightarrow> nat \<Rightarrow> (string \<rightharpoonup> nat) \<Rightarrow> (string \<rightharpoonup> nat)" where
  "index_put i n m = (case i of None \<Rightarrow> m | Some k \<Rightarrow> m(k \<mapsto> n))"

text \<open>The exchange of two heap positions that both loops perform, with their index entries.\<close>

definition pq_swap :: "nat \<Rightarrow> nat \<Rightarrow> ('p, 'v) pqueue \<Rightarrow> ('p, 'v) pqueue" where
  "pq_swap a b q =
     (let d = pq_data q
      in \<lparr>pq_data = swap_at d a b,
          pq_index = index_put (id_of (d ! a)) b (index_put (id_of (d ! b)) a (pq_index q))\<rparr>)"

function bubbleUp :: "'p comparator \<Rightarrow> nat \<Rightarrow> ('p, 'v) pqueue \<Rightarrow> ('p, 'v) pqueue" where
  "bubbleUp cmp current q =
     (if current > 0
      then (let parent = (current - 1) div 2
            in if cmp_neg (cmp (priority (pq_data q ! current)) (priority (pq_data q ! parent)))
               then bubbleUp cmp parent (pq_swap parent current q)
               else q)
      else q)"
  by pat_completeness auto
termination
  by (relation "measure (\<lambda>(cmp, current, q). current)") auto

text \<open>The position \<open>bubbleDown\<close> exchanges with: the smallest of the node and its children.\<close>

definition minIndex :: "'p comparator \<Rightarrow> ('p, 'v) item list \<Rightarrow> nat \<Rightarrow> nat" where
  "minIndex cmp d current =
     (let left = 2 * current + 1; right = left + 1;
          m = (if left < length d \<and> cmp_neg (cmp (priority (d ! left)) (priority (d ! current)))
               then left else current)
      in if right < length d \<and> cmp_neg (cmp (priority (d ! right)) (priority (d ! m))) then right else m)"

lemma minIndex_cases:
  "minIndex cmp d c = c \<or>
   minIndex cmp d c \<in> {2 * c + 1, 2 * c + 2} \<and> minIndex cmp d c < length d"
  by (auto simp: minIndex_def Let_def)

function bubbleDown :: "'p comparator \<Rightarrow> nat \<Rightarrow> ('p, 'v) pqueue \<Rightarrow> ('p, 'v) pqueue" where
  "bubbleDown cmp current q =
     (let m = minIndex cmp (pq_data q) current
      in if m \<noteq> current then bubbleDown cmp m (pq_swap m current q) else q)"
  by pat_completeness auto
termination
proof (relation "measure (\<lambda>(cmp, current, q). length (pq_data q) - current)", simp)
  fix cmp :: "'p comparator" and c m and q :: "('p, 'v) pqueue"
  assume "m = minIndex cmp (pq_data q) c" "m \<noteq> c"
  then show "((cmp, m, pq_swap m c q), cmp, c, q) \<in> measure (\<lambda>(cmp, c, q). length (pq_data q) - c)"
    using minIndex_cases [of cmp "pq_data q" c] by (auto simp: pq_swap_def Let_def)
qed

declare bubbleUp.simps [simp del] bubbleDown.simps [simp del]

definition heapify :: "'p comparator \<Rightarrow> ('p, 'v) pqueue \<Rightarrow> ('p, 'v) pqueue" where
  "heapify cmp q = fold (bubbleUp cmp) [0..<length (pq_data q)] q"

definition newPriorityQueue :: "'p comparator \<Rightarrow> ('p, 'v) item list \<Rightarrow> ('p, 'v) pqueue" where
  "newPriorityQueue cmp d = heapify cmp \<lparr>pq_data = d, pq_index = Map.empty\<rparr>"

text \<open>An absent or empty id is falsy: the item gets none.\<close>

definition insert_pq ::
  "'p comparator \<Rightarrow> 'p \<Rightarrow> 'v \<Rightarrow> string \<Rightarrow> ('p, 'v) pqueue \<Rightarrow> ('p, 'v) pqueue" where
  "insert_pq cmp p v i q =
     (let index = length (pq_data q);
          i' = (if i \<noteq> [] then Some i else None)
      in bubbleUp cmp index
           \<lparr>pq_data = pq_data q @ [\<lparr>priority = p, value_of = v, id_of = i'\<rparr>],
            pq_index = index_put i' index (pq_index q)\<rparr>)"

definition peek :: "('p, 'v) pqueue \<Rightarrow> 'v option" where
  "peek q = (case pq_data q of [] \<Rightarrow> None | x # _ \<Rightarrow> Some (value_of x))"

definition peekPriority :: "('p, 'v) pqueue \<Rightarrow> 'p option" where
  "peekPriority q = (case pq_data q of [] \<Rightarrow> None | x # _ \<Rightarrow> Some (priority x))"

definition updatePriority :: "'p comparator \<Rightarrow> string \<Rightarrow> 'p \<Rightarrow> ('p, 'v) pqueue \<Rightarrow> ('p, 'v) pqueue option" where
  "updatePriority cmp i p q =
     (case pq_index q i of
        None \<Rightarrow> None
      | Some index \<Rightarrow>
          (let d = pq_data q;
               comp = cmp p (priority (d ! index));
               q' = q\<lparr>pq_data := d[index := (d ! index)\<lparr>priority := p\<rparr>]\<rparr>
           in Some (if cmp_neg comp then bubbleUp cmp index q'
                    else if cmp_pos comp then bubbleDown cmp index q'
                    else q)))"

definition remove :: "'p comparator \<Rightarrow> ('p, 'v) pqueue \<Rightarrow> 'v option \<times> ('p, 'v) pqueue" where
  "remove cmp q =
     (case pq_data q of
        [] \<Rightarrow> (None, q)
      | x # _ \<Rightarrow>
          (let lst = last (pq_data q); d = butlast (pq_data q);
               idx = (case id_of x of None \<Rightarrow> pq_index q | Some k \<Rightarrow> (pq_index q)(k := None))
           in (Some (value_of x),
               if length d > 0
               then bubbleDown cmp 0 \<lparr>pq_data = d[0 := lst], pq_index = index_put (id_of lst) 0 idx\<rparr>
               else \<lparr>pq_data = d, pq_index = idx\<rparr>)))"

section \<open>Exchanges keep the items and the index\<close>

definition index_ok :: "('p, 'v) pqueue \<Rightarrow> bool" where
  "index_ok q \<longleftrightarrow> (\<forall>k i. pq_index q k = Some i \<longleftrightarrow> i < length (pq_data q) \<and> id_of (pq_data q ! i) = Some k)"

lemma length_pq_swap [simp]: "length (pq_data (pq_swap a b q)) = length (pq_data q)"
  by (simp add: pq_swap_def Let_def)

lemma data_pq_swap [simp]: "pq_data (pq_swap a b q) = swap_at (pq_data q) a b"
  by (simp add: pq_swap_def Let_def)

lemma mset_swap_at: "a < length xs \<Longrightarrow> b < length xs \<Longrightarrow> mset (swap_at xs a b) = mset xs"
  by (simp add: swap_at_def mset_swap)

lemma index_ok_inj:
  "index_ok q \<Longrightarrow> i < length (pq_data q) \<Longrightarrow> j < length (pq_data q) \<Longrightarrow>
   id_of (pq_data q ! i) = Some k \<Longrightarrow> id_of (pq_data q ! j) = Some k \<Longrightarrow> i = j"
  unfolding index_ok_def by (metis option.inject)

lemma index_ok_swap:
  assumes ok: "index_ok q" and "a < length (pq_data q)" "b < length (pq_data q)" "a \<noteq> b"
  shows "index_ok (pq_swap a b q)"
proof -
  let ?d = "pq_data q"
  have q: "pq_index q k = Some i \<longleftrightarrow> i < length ?d \<and> id_of (?d ! i) = Some k" for k i
    using ok by (simp add: index_ok_def)
  have uniq: "id_of (?d ! i) = Some k \<Longrightarrow> id_of (?d ! j) = Some k \<Longrightarrow> i < length ?d \<Longrightarrow> j < length ?d \<Longrightarrow> i = j"
    for i j k using index_ok_inj [OF ok] by blast
  have new: "pq_index (pq_swap a b q) k =
      (if id_of (?d ! a) = Some k then Some b else if id_of (?d ! b) = Some k then Some a else pq_index q k)" for k
    by (auto simp: pq_swap_def Let_def index_put_def split: option.splits)
  show ?thesis
    unfolding index_ok_def
  proof (intro allI)
    fix k i
    consider "id_of (?d ! a) = Some k" | "id_of (?d ! b) = Some k" "id_of (?d ! a) \<noteq> Some k"
      | "id_of (?d ! a) \<noteq> Some k" "id_of (?d ! b) \<noteq> Some k" by blast
    then show "pq_index (pq_swap a b q) k = Some i \<longleftrightarrow>
        i < length (pq_data (pq_swap a b q)) \<and> id_of (pq_data (pq_swap a b q) ! i) = Some k"
    proof cases
      case 1
      then have "\<And>j. j < length ?d \<Longrightarrow> id_of (?d ! j) = Some k \<longleftrightarrow> j = a"
        using uniq [OF _ 1] assms(2) by blast
      then show ?thesis using 1 assms(2-4) by (auto simp: new nth_swap_at cong: conj_cong)
    next
      case 2
      then have "\<And>j. j < length ?d \<Longrightarrow> id_of (?d ! j) = Some k \<longleftrightarrow> j = b"
        using uniq [OF _ 2(1)] assms(3) by blast
      then show ?thesis using 2 assms(2-4) by (auto simp: new nth_swap_at cong: conj_cong)
    next
      case 3
      then show ?thesis using assms(2-4) by (auto simp: new q nth_swap_at cong: conj_cong)
    qed
  qed
qed

lemma bubbleUp_frame:
  assumes "c < length (pq_data q)"
  shows "mset (pq_data (bubbleUp cmp c q)) = mset (pq_data q) \<and> length (pq_data (bubbleUp cmp c q)) = length (pq_data q) \<and>
    (index_ok q \<longrightarrow> index_ok (bubbleUp cmp c q)) \<and> (\<forall>i > c. pq_data (bubbleUp cmp c q) ! i = pq_data q ! i)"
  using assms
proof (induction cmp c q rule: bubbleUp.induct)
  case (1 cmp c q)
  let ?p = "(c - 1) div 2"
  show ?case
  proof (cases "c > 0 \<and> cmp_neg (cmp (priority (pq_data q ! c)) (priority (pq_data q ! ?p)))")
    case True
    then have p: "?p < c" "?p < length (pq_data q)" using "1.prems" by auto
    have "\<forall>i > c. swap_at (pq_data q) ?p c ! i = pq_data q ! i" using p by (auto simp: swap_at_def)
    then show ?thesis
      using "1.IH" [OF _ refl] True p "1.prems" index_ok_swap [of q ?p c]
      by (simp add: bubbleUp.simps [of cmp c q] Let_def mset_swap_at)
  next
    case False
    then show ?thesis by (auto simp: bubbleUp.simps [of cmp c q] Let_def)
  qed
qed

lemma bubbleDown_frame:
  assumes "c < length (pq_data q)"
  shows "mset (pq_data (bubbleDown cmp c q)) = mset (pq_data q) \<and>
    (index_ok q \<longrightarrow> index_ok (bubbleDown cmp c q))"
  using assms
proof (induction cmp c q rule: bubbleDown.induct)
  case (1 cmp c q)
  let ?m = "minIndex cmp (pq_data q) c"
  show ?case
  proof (cases "?m = c")
    case False
    then have m: "?m < length (pq_data q)" using minIndex_cases [of cmp "pq_data q" c] "1.prems" by auto
    then show ?thesis
      using "1.IH" [OF refl False] "1.prems" False index_ok_swap [of q ?m c]
      by (simp add: bubbleDown.simps [of cmp c q] Let_def mset_swap_at)
  next
    case True
    then show ?thesis by (simp add: bubbleDown.simps [of cmp c q] Let_def)
  qed
qed

section \<open>Heap order\<close>

lemma parent_less: "0 < (k :: nat) \<Longrightarrow> (k - 1) div 2 < k"
  by simp

text \<open>
  The contract of a comparator: the sign of its answer orders the priorities totally up to ties.
\<close>

locale comparator =
  fixes cmp :: "'p comparator"
  assumes cmp_asym: "cmp_neg (cmp a b) \<Longrightarrow> \<not> cmp_neg (cmp b a)"
    and cmp_trans: "\<not> cmp_neg (cmp b a) \<Longrightarrow> \<not> cmp_neg (cmp c b) \<Longrightarrow> \<not> cmp_neg (cmp c a)"
    and cmp_flip: "cmp_pos (cmp a b) = cmp_neg (cmp b a)"

definition no_later :: "'p comparator \<Rightarrow> ('p, 'v) item \<Rightarrow> ('p, 'v) item \<Rightarrow> bool" where
  "no_later cmp x y \<longleftrightarrow> \<not> cmp_neg (cmp (priority y) (priority x))"

text \<open>
  \<open>heap_but n d X Y\<close>: among the first \<open>n\<close> positions, every node outside \<open>X\<close> whose parent is outside
  \<open>Y\<close> is in order with its parent, and the children of the exceptional nodes are in order with
  their grandparents. A heap is the case without exceptions.
\<close>

definition heap_but :: "'p comparator \<Rightarrow> nat \<Rightarrow> ('p, 'v) item list \<Rightarrow> nat set \<Rightarrow> nat set \<Rightarrow> bool" where
  "heap_but cmp n d X Y \<longleftrightarrow>
     (\<forall>i. 0 < i \<and> i < n \<and> i \<notin> X \<and> (i - 1) div 2 \<notin> Y \<longrightarrow> no_later cmp (d ! ((i - 1) div 2)) (d ! i)) \<and>
     (\<forall>i. 0 < i \<and> i < n \<and> (i - 1) div 2 \<in> X \<union> Y \<and> 0 < (i - 1) div 2 \<longrightarrow>
        no_later cmp (d ! (((i - 1) div 2 - 1) div 2)) (d ! i))"

definition heap_ok :: "'p comparator \<Rightarrow> ('p, 'v) item list \<Rightarrow> bool" where
  "heap_ok cmp d \<longleftrightarrow> heap_but cmp (length d) d {} {}"

context comparator
begin

lemma no_later_refl [simp]: "no_later cmp x x"
  using cmp_asym by (auto simp: no_later_def)

lemma no_later_trans: "no_later cmp x y \<Longrightarrow> no_later cmp y z \<Longrightarrow> no_later cmp x z"
  using cmp_trans by (auto simp: no_later_def)

lemma no_later_if: "cmp_neg (cmp (priority x) (priority y)) \<Longrightarrow> no_later cmp x y"
  using cmp_asym by (auto simp: no_later_def)

lemma heap_but_up_swap:
  assumes h: "heap_but cmp n d {c} {}" and c: "0 < c" "c < n" "n \<le> length d"
    and lt: "cmp_neg (cmp (priority (d ! c)) (priority (d ! ((c - 1) div 2))))"
  shows "heap_but cmp n (swap_at d ((c - 1) div 2) c) {(c - 1) div 2} {}"
proof -
  let ?p = "(c - 1) div 2" and ?d = "swap_at d ((c - 1) div 2) c"
  have p: "?p < c" using c by auto
  have le: "no_later cmp (d ! c) (d ! ?p)" using lt no_later_if by blast
  have nth: "?d ! k = (if k = c then d ! ?p else if k = ?p then d ! c else d ! k)" if "k < n" for k
    using that p c by (simp add: nth_swap_at)
  have h1: "no_later cmp (d ! ((i - 1) div 2)) (d ! i)" if "0 < i" "i < n" "i \<noteq> c" for i
    using h that by (simp add: heap_but_def)
  have h2: "no_later cmp (d ! ?p) (d ! i)" if "0 < i" "i < n" "(i - 1) div 2 = c" for i
    using h that c by (auto simp: heap_but_def)
  have one: "no_later cmp (?d ! ((i - 1) div 2)) (?d ! i)" if i: "0 < i" "i < n" "i \<noteq> ?p" for i
  proof -
    have pi: "(i - 1) div 2 < i" "(i - 1) div 2 < n" using i by auto
    consider "i = c" | "i \<noteq> c" "(i - 1) div 2 = c" | "i \<noteq> c" "(i - 1) div 2 = ?p"
      | "i \<noteq> c" "(i - 1) div 2 \<noteq> c" "(i - 1) div 2 \<noteq> ?p" by blast
    then show ?thesis
    proof cases
      case 1
      then show ?thesis using le nth [OF i(2)] nth [OF pi(2)] p by simp
    next
      case 2
      then show ?thesis using h2 [OF i(1,2) 2(2)] nth [OF i(2)] nth [OF pi(2)] i by simp
    next
      case 3
      then have "no_later cmp (d ! ?p) (d ! i)" using h1 [OF i(1,2)] by simp
      then show ?thesis using 3 le no_later_trans nth [OF i(2)] nth [OF pi(2)] p i by simp
    next
      case 4
      then show ?thesis using h1 [OF i(1,2)] nth [OF i(2)] nth [OF pi(2)] i by simp
    qed
  qed
  have two: "no_later cmp (?d ! ((?p - 1) div 2)) (?d ! i)" if i: "0 < i" "i < n" "(i - 1) div 2 = ?p" "0 < ?p" for i
  proof -
    have g: "(?p - 1) div 2 < ?p" by (rule parent_less [OF i(4)])
    have pn: "?p < n" using p c by simp
    have gp: "no_later cmp (d ! ((?p - 1) div 2)) (d ! ?p)" using h1 [of ?p] i p c by simp
    show ?thesis
    proof (cases "i = c")
      case True
      then show ?thesis using gp g p c nth by simp
    next
      case False
      then have "no_later cmp (d ! ?p) (d ! i)" using h1 [OF i(1,2)] i by simp
      moreover have "i \<noteq> ?p" using i by simp
      ultimately show ?thesis using gp no_later_trans False g p c nth i by simp
    qed
  qed
  show ?thesis using one two unfolding heap_but_def by (auto simp del: One_nat_def)
qed

lemma heap_but_up_done:
  assumes "heap_but cmp n d {c} {}"
    and "c = 0 \<or> \<not> cmp_neg (cmp (priority (d ! c)) (priority (d ! ((c - 1) div 2))))"
  shows "heap_but cmp n d {} {}"
  using assms unfolding heap_but_def no_later_def by auto

lemma bubbleUp_heap:
  assumes "heap_but cmp n (pq_data q) {c} {}" "c < n" "n \<le> length (pq_data q)"
  shows "heap_but cmp n (pq_data (bubbleUp cmp c q)) {} {}"
  using assms
proof (induction c arbitrary: q rule: less_induct)
  case (less c)
  let ?p = "(c - 1) div 2"
  show ?case
  proof (cases "c > 0 \<and> cmp_neg (cmp (priority (pq_data q ! c)) (priority (pq_data q ! ?p)))")
    case True
    then have "?p < c" by auto
    then show ?thesis
      using less heap_but_up_swap [of n "pq_data q" c] True
      by (simp add: bubbleUp.simps [of cmp c q] Let_def)
  next
    case False
    then show ?thesis
      using heap_but_up_done [OF less.prems(1)] by (auto simp: bubbleUp.simps [of cmp c q] Let_def)
  qed
qed

lemma minIndex_min:
  assumes "c < length d"
  shows "no_later cmp (d ! minIndex cmp d c) (d ! c) \<and>
    (\<forall>i < length d. 0 < i \<and> (i - 1) div 2 = c \<longrightarrow> no_later cmp (d ! minIndex cmp d c) (d ! i))"
proof -
  define l r where "l = 2 * c + 1" and "r = 2 * c + 2"
  have kids: "0 < i \<and> (i - 1) div 2 = c \<longleftrightarrow> i = l \<or> i = r" for i unfolding l_def r_def by auto
  let ?lt = "\<lambda>i j. cmp_neg (cmp (priority (d ! i)) (priority (d ! j)))"
  define m where "m = (if l < length d \<and> ?lt l c then l else c)"
  have mi: "minIndex cmp d c = (if r < length d \<and> ?lt r m then r else m)"
    by (simp add: minIndex_def Let_def m_def l_def r_def)
  have m1: "no_later cmp (d ! m) (d ! c)" "l < length d \<Longrightarrow> no_later cmp (d ! m) (d ! l)"
    unfolding m_def using no_later_if by (auto simp: no_later_def dest: cmp_asym)
  have m2: "no_later cmp (d ! minIndex cmp d c) (d ! m)" "r < length d \<Longrightarrow> no_later cmp (d ! minIndex cmp d c) (d ! r)"
    unfolding mi using no_later_if by (auto simp: no_later_def dest: cmp_asym)
  show ?thesis
    using no_later_trans [OF m2(1) m1(1)] no_later_trans [OF m2(1) m1(2)] m2(2) kids by metis
qed

lemma heap_but_down_swap:
  fixes d :: "('p, 'v) item list"
  defines "n \<equiv> length d"
  assumes h: "heap_but cmp n d {} {c}" and c: "c < n" and m: "minIndex cmp d c \<noteq> c"
  shows "heap_but cmp n (swap_at d (minIndex cmp d c) c) {} {minIndex cmp d c}"
proof -
  let ?m = "minIndex cmp d c"
  let ?d = "swap_at d ?m c"
  have mk: "(?m - 1) div 2 = c" "0 < ?m" "?m < n" "c < ?m"
    using minIndex_cases [of cmp d c] m by (auto simp: n_def)
  have min: "no_later cmp (d ! ?m) (d ! c)"
    and kid: "\<And>i. i < n \<Longrightarrow> 0 < i \<Longrightarrow> (i - 1) div 2 = c \<Longrightarrow> no_later cmp (d ! ?m) (d ! i)"
    using minIndex_min [of c d] c by (auto simp: n_def)
  have nth: "?d ! k = (if k = c then d ! ?m else if k = ?m then d ! c else d ! k)" if "k < n" for k
    using that mk c by (simp add: nth_swap_at n_def)
  have h1: "no_later cmp (d ! ((i - 1) div 2)) (d ! i)" if "0 < i" "i < n" "(i - 1) div 2 \<noteq> c" for i
    using h that by (simp add: heap_but_def)
  have h2: "no_later cmp (d ! ((c - 1) div 2)) (d ! i)" if "0 < i" "i < n" "(i - 1) div 2 = c" "0 < c" for i
    using h that by (auto simp: heap_but_def)
  have one: "no_later cmp (?d ! ((i - 1) div 2)) (?d ! i)" if i: "0 < i" "i < n" "(i - 1) div 2 \<noteq> ?m" for i
  proof -
    have pi: "(i - 1) div 2 < i" "(i - 1) div 2 < n" using parent_less [OF i(1)] i by linarith+
    consider "i = ?m" | "i \<noteq> ?m" "(i - 1) div 2 = c" | "i = c" | "i \<noteq> ?m" "i \<noteq> c" "(i - 1) div 2 \<noteq> c" by blast
    then show ?thesis
    proof cases
      case 1
      then show ?thesis using min mk nth [OF i(2)] nth [OF c] by simp
    next
      case 2
      then show ?thesis using kid [OF i(2,1) 2(2)] nth [OF i(2)] nth [OF c] mk pi by simp
    next
      case 3
      then show ?thesis using h2 [OF mk(2,3,1)] nth [OF c] nth [OF pi(2)] i(1,3) pi(1) by simp
    next
      case 4
      then show ?thesis using h1 [OF i(1,2)] nth [OF i(2)] nth [OF pi(2)] i(3) by simp
    qed
  qed
  have two: "no_later cmp (?d ! ((?m - 1) div 2)) (?d ! i)" if i: "0 < i" "i < n" "(i - 1) div 2 = ?m" for i
  proof -
    have "?m < i" using parent_less [OF i(1)] i(3) by simp
    then have "i \<noteq> c" "i \<noteq> ?m" using mk by auto
    then show ?thesis using h1 [OF i(1,2)] i(3) m mk nth [OF i(2)] nth [OF c] by simp
  qed
  show ?thesis using one two unfolding heap_but_def by (auto simp del: One_nat_def)
qed

lemma heap_but_down_done:
  assumes "heap_but cmp (length d) d {} {c}" and "c < length d" and "minIndex cmp d c = c"
  shows "heap_ok cmp d"
  using assms minIndex_min [of c d] unfolding heap_but_def heap_ok_def by auto

lemma bubbleDown_heap:
  assumes "heap_but cmp (length (pq_data q)) (pq_data q) {} {c}" "c < length (pq_data q)"
  shows "heap_ok cmp (pq_data (bubbleDown cmp c q))"
  using assms
proof (induction "length (pq_data q) - c" arbitrary: c q rule: less_induct)
  case less
  let ?m = "minIndex cmp (pq_data q) c"
  show ?case
  proof (cases "?m = c")
    case False
    then have m: "c < ?m" "?m < length (pq_data q)"
      using minIndex_cases [of cmp "pq_data q" c] by auto
    have "heap_ok cmp (pq_data (bubbleDown cmp ?m (pq_swap ?m c q)))"
    proof (rule less.hyps)
      show "length (pq_data (pq_swap ?m c q)) - ?m < length (pq_data q) - c" using m by simp
      show "heap_but cmp (length (pq_data (pq_swap ?m c q))) (pq_data (pq_swap ?m c q)) {} {?m}"
        using heap_but_down_swap [OF less.prems] False by simp
    qed (use m in simp)
    then show ?thesis using False by (simp add: bubbleDown.simps [of cmp c q] Let_def)
  next
    case True
    then show ?thesis
      using heap_but_down_done [OF less.prems] by (simp add: bubbleDown.simps [of cmp c q] Let_def)
  qed
qed

lemma heap_root:
  assumes "heap_ok cmp d" "i < length d"
  shows "no_later cmp (d ! 0) (d ! i)"
  using assms(2)
proof (induction i rule: less_induct)
  case (less i)
  show ?case
  proof (cases "i = 0")
    case False
    then have p: "(i - 1) div 2 < i" by simp
    then have "no_later cmp (d ! 0) (d ! ((i - 1) div 2))" using less by simp
    moreover have "no_later cmp (d ! ((i - 1) div 2)) (d ! i)"
      using assms(1) less.prems False by (simp add: heap_ok_def heap_but_def)
    ultimately show ?thesis by (rule no_later_trans)
  qed simp
qed

lemma heap_but_grow:
  "heap_but cmp k d {} {} \<Longrightarrow> heap_but cmp (Suc k) d {k} {}"
  unfolding heap_but_def by (fastforce simp: less_Suc_eq)

lemma bubbleUp_length [simp]:
  "c < length (pq_data q) \<Longrightarrow> length (pq_data (bubbleUp cmp c q)) = length (pq_data q)"
  using bubbleUp_frame by blast

lemma heapify_heap: "heap_ok cmp (pq_data (heapify cmp q))"
  and heapify_mset: "mset (pq_data (heapify cmp q)) = mset (pq_data q)"
proof -
  let ?n = "length (pq_data q)"
  let ?f = "\<lambda>k. fold (bubbleUp cmp) [0..<k] q"
  have inv: "k \<le> ?n \<Longrightarrow> length (pq_data (?f k)) = ?n \<and> mset (pq_data (?f k)) = mset (pq_data q) \<and>
      heap_but cmp k (pq_data (?f k)) {} {}" for k
  proof (induction k)
    case 0
    show ?case by (simp add: heap_but_def)
  next
    case (Suc k)
    then have "heap_but cmp (Suc k) (pq_data (?f k)) {k} {}" by (intro heap_but_grow) simp
    then show ?case using Suc bubbleUp_heap [of "Suc k" "?f k" k] bubbleUp_frame [of k "?f k" cmp] by simp
  qed
  show "heap_ok cmp (pq_data (heapify cmp q))" "mset (pq_data (heapify cmp q)) = mset (pq_data q)"
    using inv [of ?n] by (simp_all add: heapify_def heap_ok_def)
qed

lemma insert_heap:
  assumes "heap_ok cmp (pq_data q)"
  shows "heap_ok cmp (pq_data (insert_pq cmp p v i q))"
proof -
  let ?n = "length (pq_data q)"
  let ?d = "pq_data q @ [\<lparr>priority = p, value_of = v, id_of = (if i \<noteq> [] then Some i else None)\<rparr>]"
  have "heap_but cmp ?n ?d {} {}"
    using assms unfolding heap_ok_def heap_but_def by (auto simp: nth_append)
  then have "heap_but cmp (Suc ?n) ?d {?n} {}" by (rule heap_but_grow)
  then show ?thesis
    using bubbleUp_heap [of "Suc ?n" "\<lparr>pq_data = ?d, pq_index = index_put (if i \<noteq> [] then Some i else None) ?n (pq_index q)\<rparr>" ?n]
      bubbleUp_length [of ?n "\<lparr>pq_data = ?d, pq_index = index_put (if i \<noteq> [] then Some i else None) ?n (pq_index q)\<rparr>"]
    by (simp add: insert_pq_def heap_ok_def Let_def)
qed

lemma heap_but_replace_root:
  assumes "heap_ok cmp (d @ [x])" "d \<noteq> []"
  shows "heap_but cmp (length d) (d[0 := y]) {} {0}"
proof -
  have "no_later cmp (d ! ((i - 1) div 2)) (d ! i)" if "0 < i" "i < length d" for i
  proof -
    have "(i - 1) div 2 < length d" using that by auto
    then show ?thesis using assms that unfolding heap_ok_def heap_but_def by (auto simp: nth_append)
  qed
  then show ?thesis unfolding heap_but_def by auto
qed

lemma remove_heap:
  assumes "heap_ok cmp (pq_data q)"
  shows "heap_ok cmp (pq_data (snd (remove cmp q)))"
proof (cases "pq_data q" rule: rev_cases)
  case Nil
  then show ?thesis using assms by (simp add: remove_def)
next
  case (snoc d x)
  show ?thesis
  proof (cases "d = []")
    case True
    then show ?thesis using snoc by (simp add: remove_def heap_ok_def heap_but_def)
  next
    case False
    then obtain y ys where d: "d = y # ys" by (cases d) auto
    show ?thesis
      using heap_but_replace_root [of d x x] assms snoc d
      by (auto simp: remove_def Let_def intro!: bubbleDown_heap)
  qed
qed

lemma heap_ok_parent:
  "heap_ok cmp d \<Longrightarrow> 0 < j \<Longrightarrow> j < length d \<Longrightarrow> no_later cmp (d ! ((j - 1) div 2)) (d ! j)"
  by (simp add: heap_ok_def heap_but_def)

lemma heap_ok_grandparent:
  assumes "heap_ok cmp d" "0 < j" "j < length d" "0 < (j - 1) div 2"
  shows "no_later cmp (d ! (((j - 1) div 2 - 1) div 2)) (d ! j)"
proof -
  have "(j - 1) div 2 < length d" using assms parent_less [of j] by linarith
  then show ?thesis
    using heap_ok_parent [OF assms(1,4)] heap_ok_parent [OF assms(1-3)] no_later_trans by blast
qed

lemma heap_but_replace_up:
  assumes "heap_ok cmp d" "c < length d" "no_later cmp x (d ! c)"
  shows "heap_but cmp (length d) (d[c := x]) {c} {}"
proof -
  have one: "no_later cmp (d[c := x] ! ((i - 1) div 2)) (d[c := x] ! i)" if i: "0 < i" "i < length d" "i \<noteq> c" for i
    using heap_ok_parent [OF assms(1) i(1,2)] no_later_trans [OF assms(3)] assms(2) i(3)
    by (cases "(i - 1) div 2 = c") auto
  have two: "no_later cmp (d[c := x] ! ((c - 1) div 2)) (d[c := x] ! i)"
    if i: "0 < i" "i < length d" "(i - 1) div 2 = c" "0 < c" for i
  proof -
    have "i \<noteq> c" "(c - 1) div 2 \<noteq> c" using parent_less [OF i(1)] parent_less [OF i(4)] i(3) by linarith+
    then show ?thesis using heap_ok_grandparent [OF assms(1) i(1,2)] i(3,4) by simp
  qed
  show ?thesis unfolding heap_but_def using one two by blast
qed

lemma heap_but_replace_down:
  assumes "heap_ok cmp d" "c < length d" "no_later cmp (d ! c) x"
  shows "heap_but cmp (length d) (d[c := x]) {} {c}"
proof -
  have one: "no_later cmp (d[c := x] ! ((i - 1) div 2)) (d[c := x] ! i)"
    if i: "0 < i" "i < length d" "(i - 1) div 2 \<noteq> c" for i
    using heap_ok_parent [OF assms(1) i(1,2)] no_later_trans [OF _ assms(3)] assms(2) i(3)
    by (cases "i = c") auto
  have two: "no_later cmp (d[c := x] ! ((c - 1) div 2)) (d[c := x] ! i)"
    if i: "0 < i" "i < length d" "(i - 1) div 2 = c" "0 < c" for i
  proof -
    have "i \<noteq> c" "(c - 1) div 2 \<noteq> c" using parent_less [OF i(1)] parent_less [OF i(4)] i(3) by linarith+
    then show ?thesis using heap_ok_grandparent [OF assms(1) i(1,2)] i(3,4) by simp
  qed
  show ?thesis unfolding heap_but_def using one two by blast
qed

lemma updatePriority_heap:
  assumes h: "heap_ok cmp (pq_data q)" and i: "index_ok q" and u: "updatePriority cmp k p q = Some q'"
  shows "heap_ok cmp (pq_data q')"
proof -
  obtain c where c: "pq_index q k = Some c" using u by (auto simp: updatePriority_def split: option.splits)
  let ?d = "pq_data q" and ?n = "length (pq_data q)"
  let ?x = "(pq_data q ! c)\<lparr>priority := p\<rparr>"
  let ?q = "q\<lparr>pq_data := ?d[c := ?x]\<rparr>"
  have cn: "c < ?n" using i c by (simp add: index_ok_def)
  show ?thesis
  proof (cases "cmp_neg (cmp p (priority (?d ! c)))")
    case True
    then have le: "no_later cmp ?x (?d ! c)" using no_later_if [of ?x "?d ! c"] by simp
    have "heap_but cmp ?n (?d[c := ?x]) {c} {}"
      by (rule heap_but_replace_up [OF h cn le])
    then have "heap_ok cmp (pq_data (bubbleUp cmp c ?q))"
      using bubbleUp_heap [of ?n ?q c] cn by (simp add: heap_ok_def)
    then show ?thesis using u c True by (simp add: updatePriority_def Let_def)
  next
    case False
    then have le: "no_later cmp (?d ! c) ?x" by (simp add: no_later_def)
    have "heap_but cmp ?n (?d[c := ?x]) {} {c}"
      by (rule heap_but_replace_down [OF h cn le])
    then have "heap_ok cmp (pq_data (bubbleDown cmp c ?q))"
      using bubbleDown_heap [of ?q c] cn by simp
    then show ?thesis using u c False h by (auto simp: updatePriority_def Let_def split: if_splits)
  qed
qed

end

section \<open>The queue as a map from ids to priorities\<close>

definition prio_of :: "('p, 'v) pqueue \<Rightarrow> string \<rightharpoonup> 'p" where
  "prio_of q k = map_option (\<lambda>i. priority (pq_data q ! i)) (pq_index q k)"

definition keyed :: "('p, string) pqueue \<Rightarrow> bool" where
  "keyed q \<longleftrightarrow> (\<forall>x \<in> set (pq_data q). id_of x = Some (value_of x))"

lemma prio_of_iff:
  assumes "index_ok q"
  shows "prio_of q k = Some p \<longleftrightarrow> (\<exists>x \<in> set (pq_data q). id_of x = Some k \<and> priority x = p)"
proof (cases "pq_index q k")
  case None
  then have "id_of (pq_data q ! i) \<noteq> Some k" if "i < length (pq_data q)" for i
    using assms that unfolding index_ok_def by (metis option.distinct(1))
  then show ?thesis using None by (auto simp: prio_of_def in_set_conv_nth)
next
  case (Some i)
  then have i: "i < length (pq_data q)" "id_of (pq_data q ! i) = Some k"
    using assms unfolding index_ok_def by blast+
  then have "x = pq_data q ! i" if x: "x \<in> set (pq_data q)" "id_of x = Some k" for x
  proof -
    obtain j where j: "j < length (pq_data q)" "x = pq_data q ! j" using x(1) by (auto simp: in_set_conv_nth)
    have "id_of (pq_data q ! j) = Some k" using x(2) j(2) by simp
    then have "j = i" by (rule index_ok_inj [OF assms j(1) i(1) _ i(2)])
    then show ?thesis using j(2) by simp
  qed
  then show ?thesis using Some i by (force simp: prio_of_def)
qed

lemma prio_of_cong:
  assumes "index_ok q" "index_ok q'" "mset (pq_data q') = mset (pq_data q)"
  shows "prio_of q' = prio_of q"
proof
  fix k
  have "prio_of q' k = Some p \<longleftrightarrow> prio_of q k = Some p" for p
    using prio_of_iff [OF assms(1)] prio_of_iff [OF assms(2)] mset_eq_setD [OF assms(3)] by simp
  then show "prio_of q' k = prio_of q k" by (metis not_None_eq)
qed

lemma keyed_cong: "mset (pq_data q') = mset (pq_data q) \<Longrightarrow> keyed q' = keyed q"
  unfolding keyed_def by (metis mset_eq_setD)

lemma bubbleUp_abs:
  assumes "c < length (pq_data q)" "index_ok q"
  shows "index_ok (bubbleUp cmp c q) \<and> prio_of (bubbleUp cmp c q) = prio_of q"
  using bubbleUp_frame [OF assms(1)] assms(2) prio_of_cong by blast

lemma bubbleDown_abs:
  assumes "c < length (pq_data q)" "index_ok q"
  shows "index_ok (bubbleDown cmp c q) \<and> prio_of (bubbleDown cmp c q) = prio_of q"
  using bubbleDown_frame [OF assms(1)] assms(2) prio_of_cong by blast

lemma insert_abs:
  assumes ok: "index_ok q" and k: "k \<noteq> []" "prio_of q k = None"
  shows "index_ok (insert_pq cmp p v k q) \<and> prio_of (insert_pq cmp p v k q) = (prio_of q)(k \<mapsto> p) \<and>
    set (pq_data (insert_pq cmp p v k q)) = insert \<lparr>priority = p, value_of = v, id_of = Some k\<rparr> (set (pq_data q))"
proof -
  let ?n = "length (pq_data q)"
  let ?q = "\<lparr>pq_data = pq_data q @ [\<lparr>priority = p, value_of = v, id_of = Some k\<rparr>], pq_index = (pq_index q)(k \<mapsto> ?n)\<rparr>"
  have none: "id_of (pq_data q ! i) \<noteq> Some k" if "i < ?n" for i
  proof -
    have "pq_index q k = None" using k(2) by (simp add: prio_of_def)
    then show ?thesis using ok that unfolding index_ok_def by (metis option.distinct(1))
  qed
  have ix: "pq_index q j = Some i \<longleftrightarrow> i < ?n \<and> id_of (pq_data q ! i) = Some j" for i j
    using ok by (simp add: index_ok_def)
  have "index_ok ?q"
    unfolding index_ok_def using ix none by (auto simp: nth_append less_Suc_eq)
  moreover have "prio_of ?q = (prio_of q)(k \<mapsto> p)"
  proof
    fix j
    show "prio_of ?q j = ((prio_of q)(k \<mapsto> p)) j"
      using ix [of j] by (cases "pq_index q j") (auto simp: prio_of_def nth_append)
  qed
  moreover have "mset (pq_data (bubbleUp cmp ?n ?q)) = mset (pq_data ?q)"
    using bubbleUp_frame [of ?n ?q cmp] by simp
  moreover have "insert_pq cmp p v k q = bubbleUp cmp ?n ?q"
    using k(1) by (simp add: insert_pq_def index_put_def Let_def)
  ultimately show ?thesis
    using bubbleUp_abs [of ?n ?q cmp] mset_eq_setD [of "pq_data (bubbleUp cmp ?n ?q)" "pq_data ?q"] by auto
qed

text \<open>The state in which \<open>remove\<close> starts to sift down: the last item in the place of the first.\<close>

lemma remove_abs:
  assumes ok: "index_ok q" and d: "pq_data q = x # ys" and x: "id_of x = Some u"
  shows "fst (remove cmp q) = Some (value_of x) \<and> index_ok (snd (remove cmp q)) \<and>
    prio_of (snd (remove cmp q)) = (prio_of q)(u := None) \<and>
    set (pq_data (snd (remove cmp q))) = set ys"
proof -
  let ?n = "length (pq_data q)"
  let ?idx = "(pq_index q)(u := None)"
  have ix: "pq_index q j = Some i \<longleftrightarrow> i < ?n \<and> id_of (pq_data q ! i) = Some j" for i j
    using ok by (simp add: index_ok_def)
  have u0: "id_of (pq_data q ! i) = Some u \<Longrightarrow> i < ?n \<Longrightarrow> i = 0" for i
    using index_ok_inj [OF ok, of i 0 u] d x by simp
  show ?thesis
  proof (cases ys rule: rev_cases)
    case Nil
    have "pq_index q j \<noteq> Some i" if "j \<noteq> u" for j i
      using d x Nil that by (cases i) (simp_all add: ix)
    then have "pq_index q j = None" if "j \<noteq> u" for j using that by (metis not_None_eq)
    then show ?thesis using Nil d x by (auto simp: remove_def index_ok_def prio_of_def fun_eq_iff)
  next
    case (snoc zs l)
    let ?q = "\<lparr>pq_data = l # zs, pq_index = index_put (id_of l) 0 ?idx\<rparr>"
    have nq: "pq_data q = x # zs @ [l]" using d snoc by simp
    have last: "id_of l = Some j \<Longrightarrow> id_of (pq_data q ! i) = Some j \<Longrightarrow> i < ?n \<Longrightarrow> i = Suc (length zs)" for i j
      using index_ok_inj [OF ok, of i "Suc (length zs)" j] nq by simp
    have nth: "i < length zs \<Longrightarrow> pq_data q ! Suc i = zs ! i" for i using nq by (simp add: nth_append)
    have zs: "id_of (zs ! j) \<noteq> Some u" if "j < length zs" for j
      using u0 [of "Suc j"] nth [OF that] that nq by auto
    have zl: "id_of l \<noteq> Some u" using u0 [of "Suc (length zs)"] nq by (auto simp: nth_append)
    have lz: "id_of (zs ! j) \<noteq> id_of l" if "j < length zs" "id_of l \<noteq> None" for j
      using last [of _ "Suc j"] nth [OF that(1)] that nq by auto
    have idx: "pq_index ?q k = (if id_of l = Some k then Some 0 else if k = u then None else pq_index q k)" for k
      by (auto simp: index_put_def split: option.splits)
    have ixk: "pq_index q k = Some i \<longleftrightarrow> (\<exists>j < length zs. i = Suc j \<and> id_of (zs ! j) = Some k)"
      if "id_of l \<noteq> Some k" "k \<noteq> u" for i k
    proof (cases i)
      case 0
      then show ?thesis using ix [of k 0] that d x by simp
    next
      case (Suc j)
      then show ?thesis using ix [of k i] that nq nth [of j] by (auto simp: nth_append less_Suc_eq)
    qed
    have okq: "index_ok ?q"
      unfolding index_ok_def
    proof (intro allI)
      fix k i
      consider "id_of l = Some k" | "id_of l \<noteq> Some k" "k = u" | "id_of l \<noteq> Some k" "k \<noteq> u" by blast
      then show "(pq_index ?q k = Some i) = (i < length (pq_data ?q) \<and> id_of (pq_data ?q ! i) = Some k)"
      proof cases
        case 1
        then show ?thesis unfolding idx using lz by (cases i) auto
      next
        case 2
        then show ?thesis unfolding idx using zs by (cases i) auto
      next
        case 3
        then show ?thesis unfolding idx by (cases i) (auto simp: ixk)
      qed
    qed
    have set: "set ys = set (pq_data ?q)" using snoc by auto
    have pr: "prio_of ?q = (prio_of q)(u := None)"
    proof
      fix k
      have "prio_of ?q k = Some p \<longleftrightarrow> ((prio_of q)(u := None)) k = Some p" for p
      proof (cases "k = u")
        case True
        then show ?thesis using prio_of_iff [OF okq, of u p] zs zl by (auto simp: in_set_conv_nth)
      next
        case False
        then show ?thesis using prio_of_iff [OF okq, of k p] prio_of_iff [OF ok, of k p] x d set by auto
      qed
      then show "prio_of ?q k = ((prio_of q)(u := None)) k" by (metis not_None_eq)
    qed
    have rem: "remove cmp q = (Some (value_of x), bubbleDown cmp 0 ?q)"
      using nq x by (simp add: remove_def Let_def butlast_append)
    show ?thesis
      using bubbleDown_frame [of 0 ?q cmp] bubbleDown_abs [of 0 ?q cmp] okq pr set
        mset_eq_setD [of "pq_data (bubbleDown cmp 0 ?q)" "pq_data ?q"] by (simp add: rem)
  qed
qed

text \<open>
  A new priority that compares equal to the old one is not stored; every other one is, wherever the
  item then moves.
\<close>

lemma updatePriority_abs:
  assumes ok: "index_ok q" and k: "prio_of q k = Some p0"
  shows "\<exists>q'. updatePriority cmp k p q = Some q' \<and> index_ok q' \<and>
    prio_of q' = (if cmp_neg (cmp p p0) \<or> cmp_pos (cmp p p0) then (prio_of q)(k \<mapsto> p) else prio_of q) \<and>
    (keyed q \<longrightarrow> keyed q')"
proof -
  obtain c where c: "pq_index q k = Some c" and p0: "priority (pq_data q ! c) = p0"
    using k by (auto simp: prio_of_def)
  let ?d = "pq_data q"
  let ?q = "q\<lparr>pq_data := ?d[c := (?d ! c)\<lparr>priority := p\<rparr>]\<rparr>"
  have cn: "c < length ?d" and idc: "id_of (?d ! c) = Some k" using ok c unfolding index_ok_def by blast+
  have ids: "id_of (pq_data ?q ! i) = id_of (?d ! i)" for i
    using cn by (cases "i = c") auto
  have ok': "index_ok ?q" using ok ids unfolding index_ok_def by simp
  have pr: "prio_of ?q = (prio_of q)(k \<mapsto> p)"
  proof
    fix j
    show "prio_of ?q j = ((prio_of q)(k \<mapsto> p)) j"
    proof (cases "j = k")
      case True
      then show ?thesis using c cn by (simp add: prio_of_def)
    next
      case False
      then have "pq_index q j \<noteq> Some c" using idc ok unfolding index_ok_def by auto
      then show ?thesis using False by (cases "pq_index q j") (auto simp: prio_of_def)
    qed
  qed
  have ky: "keyed q \<Longrightarrow> keyed ?q"
    using cn unfolding keyed_def by (auto simp: set_conv_nth nth_list_update)
  have up: "index_ok (bubbleUp cmp c ?q) \<and> prio_of (bubbleUp cmp c ?q) = (prio_of q)(k \<mapsto> p) \<and>
      (keyed q \<longrightarrow> keyed (bubbleUp cmp c ?q))"
    using bubbleUp_abs [of c ?q cmp] bubbleUp_frame [of c ?q cmp] cn ok' pr ky
      keyed_cong [of "bubbleUp cmp c ?q" ?q] by simp
  have down: "index_ok (bubbleDown cmp c ?q) \<and> prio_of (bubbleDown cmp c ?q) = (prio_of q)(k \<mapsto> p) \<and>
      (keyed q \<longrightarrow> keyed (bubbleDown cmp c ?q))"
    using bubbleDown_abs [of c ?q cmp] bubbleDown_frame [of c ?q cmp] cn ok' pr ky
      keyed_cong [of "bubbleDown cmp c ?q" ?q] by simp
  have "updatePriority cmp k p q = Some (if cmp_neg (cmp p p0) then bubbleUp cmp c ?q
      else if cmp_pos (cmp p p0) then bubbleDown cmp c ?q else q)"
    using c p0 by (simp add: updatePriority_def Let_def)
  then show ?thesis using up down ok by simp
qed

section \<open>The interface of an addressable priority queue\<close>

locale addressable_queue =
  fixes before :: "'p \<Rightarrow> 'p \<Rightarrow> bool"
    and inv :: "'q \<Rightarrow> bool"
    and prio :: "'q \<Rightarrow> string \<rightharpoonup> 'p"
    and isE :: "'q \<Rightarrow> bool"
    and ins :: "'p \<Rightarrow> string \<Rightarrow> 'q \<Rightarrow> 'q"
    and rem :: "'q \<Rightarrow> string option \<times> 'q"
    and upd :: "string \<Rightarrow> 'p \<Rightarrow> 'q \<Rightarrow> 'q option"
  assumes finite_prio: "inv q \<Longrightarrow> finite (dom (prio q))"
    and isE_iff: "inv q \<Longrightarrow> isE q \<longleftrightarrow> dom (prio q) = {}"
    and ins_law: "inv q \<Longrightarrow> k \<noteq> [] \<Longrightarrow> prio q k = None \<Longrightarrow>
      inv (ins p k q) \<and> prio (ins p k q) = (prio q)(k \<mapsto> p)"
    and rem_law: "inv q \<Longrightarrow> \<not> isE q \<Longrightarrow>
      \<exists>u p q'. rem q = (Some u, q') \<and> prio q u = Some p \<and>
        (\<forall>k p'. prio q k = Some p' \<longrightarrow> \<not> before p' p) \<and> inv q' \<and> prio q' = (prio q)(u := None)"
    and upd_law: "inv q \<Longrightarrow> prio q k = Some p0 \<Longrightarrow>
      \<exists>q'. upd k p q = Some q' \<and> inv q' \<and> prio q' = (prio q)(k \<mapsto> p)"
    and upd_unknown: "inv q \<Longrightarrow> prio q k = None \<Longrightarrow> upd k p q = None"

definition queue_ok :: "'p comparator \<Rightarrow> ('p, string) pqueue \<Rightarrow> bool" where
  "queue_ok cmp q \<longleftrightarrow> heap_ok cmp (pq_data q) \<and> index_ok q \<and> keyed q"

lemma prio_of_dom: "index_ok q \<Longrightarrow> keyed q \<Longrightarrow> dom (prio_of q) = value_of ` set (pq_data q)"
  using prio_of_iff [of q] unfolding keyed_def dom_def by fastforce

context comparator
begin

lemma queue_ok_insert:
  assumes "queue_ok cmp q" "k \<noteq> []" "prio_of q k = None"
  shows "queue_ok cmp (insert_pq cmp p k k q) \<and> prio_of (insert_pq cmp p k k q) = (prio_of q)(k \<mapsto> p)"
  using assms insert_abs [of q k cmp p k] insert_heap [of q p k k] unfolding queue_ok_def keyed_def by auto

lemma queue_ok_remove:
  assumes "queue_ok cmp q" "\<not> isEmpty q"
  shows "\<exists>u p q'. remove cmp q = (Some u, q') \<and> prio_of q u = Some p \<and>
    (\<forall>k p'. prio_of q k = Some p' \<longrightarrow> \<not> cmp_neg (cmp p' p)) \<and> queue_ok cmp q' \<and> prio_of q' = (prio_of q)(u := None)"
proof -
  have h: "heap_ok cmp (pq_data q)" and ok: "index_ok q" and ky: "keyed q"
    using assms(1) by (auto simp: queue_ok_def)
  obtain x ys where d: "pq_data q = x # ys" using assms(2) by (cases "pq_data q") (auto simp: isEmpty_def)
  have x: "id_of x = Some (value_of x)" using ky d by (simp add: keyed_def)
  have px: "prio_of q (value_of x) = Some (priority x)" using prio_of_iff [OF ok] x d by auto
  have min: "\<not> cmp_neg (cmp p' (priority x))" if p': "prio_of q k = Some p'" for k p'
  proof -
    obtain y where y: "y \<in> set (pq_data q)" "priority y = p'" using p' by (auto simp: prio_of_iff [OF ok])
    then obtain i where i: "i < length (pq_data q)" "pq_data q ! i = y" by (auto simp: in_set_conv_nth)
    then show ?thesis using heap_root [OF h i(1)] d y(2) by (simp add: no_later_def)
  qed
  note ab = remove_abs [OF ok d x, of cmp]
  have "queue_ok cmp (snd (remove cmp q))"
    using remove_heap [OF h] ab ky d by (simp add: queue_ok_def keyed_def)
  then show ?thesis using ab px min by (cases "remove cmp q") auto
qed

lemma queue_ok_update:
  assumes "queue_ok cmp q" "prio_of q k = Some p0"
  shows "\<exists>q'. updatePriority cmp k p q = Some q' \<and> queue_ok cmp q' \<and>
    prio_of q' = (if cmp_neg (cmp p p0) \<or> cmp_pos (cmp p p0) then (prio_of q)(k \<mapsto> p) else prio_of q)"
  using updatePriority_abs [of q k p0 cmp p] updatePriority_heap [of q k p] assms unfolding queue_ok_def by blast

end

interpretation default: comparator DefaultComparator
proof
  show "cmp_neg (DefaultComparator a b) \<Longrightarrow> \<not> cmp_neg (DefaultComparator b a)" for a b
    by (cases a; cases b) auto
  show "\<not> cmp_neg (DefaultComparator b a) \<Longrightarrow> \<not> cmp_neg (DefaultComparator c b) \<Longrightarrow>
      \<not> cmp_neg (DefaultComparator c a)" for a b c
    by (cases a; cases b; cases c) auto
  show "cmp_pos (DefaultComparator a b) = cmp_neg (DefaultComparator b a)" for a b
    by (cases a; cases b) auto
qed

interpretation heap: addressable_queue "\<lambda>a b. cmp_neg (DefaultComparator a b)" "queue_ok DefaultComparator"
  prio_of isEmpty "\<lambda>p k. insert_pq DefaultComparator p k k" "remove DefaultComparator"
  "updatePriority DefaultComparator"
proof
  fix q :: "(jnum, string) pqueue" and k p p0
  assume q: "queue_ok DefaultComparator q"
  then have d: "dom (prio_of q) = value_of ` set (pq_data q)" by (simp add: queue_ok_def prio_of_dom)
  show "finite (dom (prio_of q))" using d by simp
  show "isEmpty q \<longleftrightarrow> dom (prio_of q) = {}" using d by (simp add: isEmpty_def)
  show "prio_of q k = None \<Longrightarrow> updatePriority DefaultComparator k p q = None"
    by (simp add: prio_of_def updatePriority_def)
  show "k \<noteq> [] \<Longrightarrow> prio_of q k = None \<Longrightarrow> queue_ok DefaultComparator (insert_pq DefaultComparator p k k q) \<and>
      prio_of (insert_pq DefaultComparator p k k q) = (prio_of q)(k \<mapsto> p)"
    using default.queue_ok_insert [OF q] .
  show "\<not> isEmpty q \<Longrightarrow> \<exists>u p q'. remove DefaultComparator q = (Some u, q') \<and> prio_of q u = Some p \<and>
      (\<forall>k p'. prio_of q k = Some p' \<longrightarrow> \<not> cmp_neg (DefaultComparator p' p)) \<and>
      queue_ok DefaultComparator q' \<and> prio_of q' = (prio_of q)(u := None)"
    using default.queue_ok_remove [OF q] .
  have tie: "\<not> cmp_neg (DefaultComparator p p0) \<Longrightarrow> \<not> cmp_pos (DefaultComparator p p0) \<Longrightarrow> p = p0"
    by (cases p; cases p0) auto
  show "prio_of q k = Some p0 \<Longrightarrow>
      \<exists>q'. updatePriority DefaultComparator k p q = Some q' \<and> queue_ok DefaultComparator q' \<and>
        prio_of q' = (prio_of q)(k \<mapsto> p)"
    using default.queue_ok_update [OF q, of k p0 p] tie by (auto simp: map_upd_triv split: if_splits)
qed

end
