(* ===== verification/Dijkstra.thy ===== *)
theory Dijkstra
  imports Priority_Queue
begin

text \<open>
  The shortest-path routine \<open>dijkstra\<close> of x6's algorithm/dijkstra.js, on the heap of
  \<open>Priority_Queue\<close>. The adjacency object is an association list from node ids to neighbour lists, the
  weight function is a parameter, as in the code. \<open>None\<close> is a thrown error: \<open>updatePriority\<close> on an
  unknown id, or the neighbours of a node that has no entry. The main loop is written over the
  queue operations it calls, and takes as fuel the number of nodes, each turn removing one item.
\<close>

section \<open>Distances\<close>

instantiation jnum :: linorder
begin

fun less_eq_jnum :: "jnum \<Rightarrow> jnum \<Rightarrow> bool" where
  "less_eq_jnum x Infinity = True"
| "less_eq_jnum Infinity (Num n) = False"
| "less_eq_jnum (Num m) (Num n) = (m \<le> n)"

definition less_jnum :: "jnum \<Rightarrow> jnum \<Rightarrow> bool" where
  "less_jnum x y \<longleftrightarrow> x \<le> y \<and> \<not> y \<le> (x :: jnum)"

instance
proof
  fix x y z :: jnum
  show "x < y \<longleftrightarrow> x \<le> y \<and> \<not> y \<le> x" by (rule less_jnum_def)
  show "x \<le> x" by (cases x) auto
  show "x \<le> y \<Longrightarrow> y \<le> z \<Longrightarrow> x \<le> z" by (cases x; cases y; cases z) auto
  show "x \<le> y \<Longrightarrow> y \<le> x \<Longrightarrow> x = y" by (cases x; cases y) auto
  show "x \<le> y \<or> y \<le> x" by (cases x; cases y) auto
qed

end

lemma less_jnum_simps [simp]:
  "Num a < Num b \<longleftrightarrow> a < b" "Num a < Infinity" "\<not> Infinity < x"
  by (cases x; auto simp: less_jnum_def)+

lemma cmp_neg_default: "cmp_neg (DefaultComparator a b) \<longleftrightarrow> a < b"
  by (cases a; cases b) auto

fun jadd :: "jnum \<Rightarrow> int \<Rightarrow> jnum" where
  "jadd (Num a) n = Num (a + n)"
| "jadd Infinity n = Infinity"

lemma jadd_mono: "0 \<le> n \<Longrightarrow> x \<le> y \<Longrightarrow> x \<le> jadd y n"
  by (cases x; cases y) auto

lemma jadd_mono2: "x \<le> y \<Longrightarrow> jadd x n \<le> jadd y n"
  by (cases x; cases y) auto

section \<open>The routine\<close>

record 'q dstate =
  d_dist :: "string \<rightharpoonup> jnum"
  d_prev :: "string \<rightharpoonup> string"
  d_scanned :: "string set"
  d_queue :: 'q

text \<open>One neighbour \<open>v\<close> of the scanned node \<open>u\<close>. A comparison with an undefined distance is false.\<close>

definition relax ::
  "(string \<Rightarrow> jnum \<Rightarrow> 'q \<Rightarrow> 'q option) \<Rightarrow> (string \<Rightarrow> string \<Rightarrow> int) \<Rightarrow> string \<Rightarrow> string \<Rightarrow> 'q dstate \<Rightarrow> 'q dstate option" where
  "relax upd weight u v st =
     (if v \<notin> d_scanned st
      then (case (d_dist st u, d_dist st v) of
              (Some du, Some dv) \<Rightarrow>
                (let alt = jadd du (weight u v)
                 in if alt < dv
                    then map_option (\<lambda>q. st\<lparr>d_dist := (d_dist st)(v \<mapsto> alt), d_prev := (d_prev st)(v \<mapsto> u), d_queue := q\<rparr>)
                           (upd v alt (d_queue st))
                    else Some st)
            | _ \<Rightarrow> Some st)
      else Some st)"

fun dijkstra_loop ::
  "('q \<Rightarrow> bool) \<Rightarrow> ('q \<Rightarrow> string option \<times> 'q) \<Rightarrow> (string \<Rightarrow> jnum \<Rightarrow> 'q \<Rightarrow> 'q option) \<Rightarrow>
   (string \<times> string list) list \<Rightarrow> (string \<Rightarrow> string \<Rightarrow> int) \<Rightarrow> nat \<Rightarrow> 'q dstate \<Rightarrow> 'q dstate option" where
  "dijkstra_loop isE rem upd adj weight fuel st =
     (if isE (d_queue st) then Some st
      else (case fuel of
              0 \<Rightarrow> None
            | Suc fuel' \<Rightarrow>
                (case rem (d_queue st) of
                   (None, q) \<Rightarrow> None
                 | (Some u, q) \<Rightarrow>
                     (case map_of adj u of
                        None \<Rightarrow> None
                      | Some neighbours \<Rightarrow>
                          Option.bind
                            (foldM (relax upd weight u) neighbours
                               (st\<lparr>d_queue := q, d_scanned := insert u (d_scanned st)\<rparr>))
                            (dijkstra_loop isE rem upd adj weight fuel')))))"

declare dijkstra_loop.simps [simp del]

definition dijkstra_init ::
  "(jnum \<Rightarrow> string \<Rightarrow> 'q \<Rightarrow> 'q) \<Rightarrow> 'q \<Rightarrow> string list \<Rightarrow> string \<Rightarrow> 'q dstate" where
  "dijkstra_init ins queue ks source =
     fold (\<lambda>v st.
         (let dist = (if v \<noteq> source then (d_dist st)(v \<mapsto> Infinity) else d_dist st)
          in st\<lparr>d_dist := dist, d_queue := ins (the (dist v)) v (d_queue st)\<rparr>))
       ks \<lparr>d_dist = [source \<mapsto> Num 0], d_prev = Map.empty, d_scanned = {}, d_queue = queue\<rparr>"

definition dijkstra ::
  "(string \<times> string list) list \<Rightarrow> string \<Rightarrow> (string \<Rightarrow> string \<Rightarrow> int) \<Rightarrow> (string \<rightharpoonup> string) option" where
  "dijkstra adj source weight =
     map_option d_prev
       (dijkstra_loop isEmpty (remove DefaultComparator) (updatePriority DefaultComparator)
          adj weight (length adj)
          (dijkstra_init (\<lambda>p v. insert_pq DefaultComparator p v v) (newPriorityQueue DefaultComparator [])
             (map fst adj) source))"

section \<open>Walks\<close>

definition edge :: "(string \<times> string list) list \<Rightarrow> string \<Rightarrow> string \<Rightarrow> bool" where
  "edge adj u v \<longleftrightarrow> v \<in> fst ` set adj \<and> (case map_of adj u of None \<Rightarrow> False | Some ns \<Rightarrow> v \<in> set ns)"

inductive walk :: "(string \<times> string list) list \<Rightarrow> (string \<Rightarrow> string \<Rightarrow> int) \<Rightarrow> string \<Rightarrow> string \<Rightarrow> int \<Rightarrow> bool"
  for adj weight s where
  walk_start: "walk adj weight s s 0"
| walk_step: "walk adj weight s u c \<Longrightarrow> edge adj u v \<Longrightarrow> walk adj weight s v (c + weight u v)"

text \<open>The walk that the table of predecessors describes, followed back from a node to the source.\<close>

inductive back_walk ::
  "(string \<times> string list) list \<Rightarrow> (string \<Rightarrow> string \<Rightarrow> int) \<Rightarrow> string \<Rightarrow> (string \<rightharpoonup> string) \<Rightarrow> string \<Rightarrow> int \<Rightarrow> bool"
  for adj weight s prev where
  back_start: "back_walk adj weight s prev s 0"
| back_step: "prev v = Some u \<Longrightarrow> back_walk adj weight s prev u c \<Longrightarrow> edge adj u v \<Longrightarrow>
    back_walk adj weight s prev v (c + weight u v)"

lemma back_walk_walk: "back_walk adj weight s prev v c \<Longrightarrow> walk adj weight s v c"
  by (induction rule: back_walk.induct) (auto intro: walk.intros)

lemma back_walk_update:
  assumes "back_walk adj weight s prev x c" and "x \<noteq> v" and "v \<notin> S" and "\<forall>x y. prev x = Some y \<longrightarrow> y \<in> S"
  shows "back_walk adj weight s (prev(v \<mapsto> u)) x c"
  using assms(1,2)
proof (induction rule: back_walk.induct)
  case back_start
  show ?case by (rule back_walk.back_start)
next
  case (back_step x y c)
  then have "y \<in> S" using assms(4) by blast
  then have "y \<noteq> v" using assms(3) by blast
  then have "back_walk adj weight s (prev(v \<mapsto> u)) y c" by (rule back_step.IH)
  moreover have "(prev(v \<mapsto> u)) x = Some y" using back_step by simp
  ultimately show ?case using back_step(3) back_walk.back_step by metis
qed

definition dijkstra_ready :: "(string \<times> string list) list \<Rightarrow> string \<Rightarrow> (string \<Rightarrow> string \<Rightarrow> int) \<Rightarrow> bool" where
  "dijkstra_ready adj s weight \<longleftrightarrow>
     distinct (map fst adj) \<and> [] \<notin> fst ` set adj \<and> s \<in> fst ` set adj \<and>
     (\<forall>(u, ns) \<in> set adj. \<forall>v \<in> set ns. 0 \<le> weight u v)"

lemma ready_keys:
  "dijkstra_ready adj s weight \<Longrightarrow> distinct (map fst adj) \<and> [] \<notin> fst ` set adj \<and> s \<in> fst ` set adj"
  by (simp add: dijkstra_ready_def)

lemma ready_weight: "dijkstra_ready adj s weight \<Longrightarrow> edge adj u v \<Longrightarrow> 0 \<le> weight u v"
  by (auto simp: dijkstra_ready_def edge_def split: option.splits dest!: map_of_SomeD)

section \<open>Correctness over any addressable queue\<close>

text \<open>
  \<open>tree_inv\<close> is what holds between any two steps, relaxation steps included: distances are lengths of
  walks along the predecessors, which are scanned, and no scanned node is farther than an
  unscanned one. \<open>relaxed\<close> adds that the edges leaving scanned nodes cannot shorten a distance.
\<close>

locale dijkstra_run = addressable_queue "\<lambda>a b. a < b" inv prio isE ins rem upd
  for inv :: "'q \<Rightarrow> bool" and prio :: "'q \<Rightarrow> string \<rightharpoonup> jnum" and isE ins rem upd
begin

definition tree_inv ::
  "(string \<times> string list) list \<Rightarrow> (string \<Rightarrow> string \<Rightarrow> int) \<Rightarrow> string \<Rightarrow> 'q dstate \<Rightarrow> bool" where
  "tree_inv adj weight s st \<longleftrightarrow>
     inv (d_queue st) \<and> d_scanned st \<subseteq> fst ` set adj \<and> dom (d_dist st) = fst ` set adj \<and>
     (\<forall>v. prio (d_queue st) v = (if v \<in> d_scanned st then None else d_dist st v)) \<and>
     d_dist st s = Some (Num 0) \<and> d_prev st s = None \<and> (\<forall>v d. d_dist st v = Some d \<longrightarrow> Num 0 \<le> d) \<and>
     (\<forall>v c. d_dist st v = Some (Num c) \<longrightarrow> back_walk adj weight s (d_prev st) v c) \<and>
     (\<forall>v u. d_prev st v = Some u \<longrightarrow> u \<in> d_scanned st \<and> (\<exists>c. d_dist st v = Some (Num c))) \<and>
     (\<forall>u v du dv. u \<in> d_scanned st \<longrightarrow> v \<notin> d_scanned st \<longrightarrow> d_dist st u = Some du \<longrightarrow>
        d_dist st v = Some dv \<longrightarrow> du \<le> dv)"

definition relaxed :: "(string \<Rightarrow> string \<Rightarrow> int) \<Rightarrow> 'q dstate \<Rightarrow> string \<Rightarrow> string \<Rightarrow> bool" where
  "relaxed weight st u v \<longleftrightarrow>
     (\<forall>du dv. d_dist st u = Some du \<longrightarrow> d_dist st v = Some dv \<longrightarrow> dv \<le> jadd du (weight u v))"

definition nearest :: "'q dstate \<Rightarrow> string \<Rightarrow> bool" where
  "nearest st u \<longleftrightarrow> (\<forall>x dx du. x \<in> d_scanned st \<longrightarrow> d_dist st x = Some dx \<longrightarrow> d_dist st u = Some du \<longrightarrow> dx \<le> du)"

lemma relax_keeps:
  assumes g: "dijkstra_ready adj s weight"
    and i: "tree_inv adj weight s st" and u: "u \<in> d_scanned st" "nearest st u" and e: "v \<in> set ns" "map_of adj u = Some ns"
    and rlx: "\<And>x y. x \<in> d_scanned st \<Longrightarrow> (x, y) \<in> R \<Longrightarrow> relaxed weight st x y"
  shows "\<exists>st'. relax upd weight u v st = Some st' \<and> tree_inv adj weight s st' \<and> nearest st' u \<and>
    d_scanned st' = d_scanned st \<and> (\<forall>x y. x \<in> d_scanned st \<longrightarrow> (x, y) \<in> insert (u, v) R \<longrightarrow> relaxed weight st' x y)"
proof -
  note inv = i [unfolded tree_inv_def]
  obtain du where du: "d_dist st u = Some du" using inv u(1) by (metis domD subsetD)
  show ?thesis
  proof (cases "v \<notin> d_scanned st \<and> (\<exists>dv. d_dist st v = Some dv \<and> jadd du (weight u v) < dv)")
    case False
    have "relaxed weight st u v"
      unfolding relaxed_def
    proof (intro allI impI)
      fix du' dv assume d: "d_dist st u = Some du'" "d_dist st v = Some dv"
      show "dv \<le> jadd du' (weight u v)"
      proof (cases "v \<in> d_scanned st")
        case True
        have "v \<in> fst ` set adj" using d(2) inv by blast
        then have "edge adj u v" using e by (simp add: edge_def)
        moreover have "dv \<le> du'" using u(2) True d by (auto simp: nearest_def)
        ultimately show ?thesis using ready_weight [OF g] jadd_mono by blast
      next
        case out: False
        then show ?thesis using False d du by auto
      qed
    qed
    moreover have "relax upd weight u v st = Some st"
      using False du by (auto simp: relax_def Let_def split: option.splits)
    ultimately show ?thesis using i u(2) rlx by auto
  next
    case True
    then obtain dv where v: "v \<notin> d_scanned st" "d_dist st v = Some dv" and lt: "jadd du (weight u v) < dv" by blast
    let ?alt = "jadd du (weight u v)"
    obtain cu where cu: "du = Num cu" using lt by (cases du) auto
    have key: "v \<in> fst ` set adj" using v(2) inv by blast
    have ed: "edge adj u v" using e key by (simp add: edge_def)
    have w: "0 \<le> weight u v" using ready_weight [OF g ed] .
    have du0: "Num 0 \<le> du" using inv du by blast
    have vs: "v \<noteq> s" using inv v(2) lt du0 w cu by auto
    have uv: "u \<noteq> v" using u(1) v(1) by blast
    obtain q' where q': "upd v ?alt (d_queue st) = Some q'" "inv q'" "prio q' = (prio (d_queue st))(v \<mapsto> ?alt)"
      using upd_law [of "d_queue st" v dv ?alt] inv v by auto
    define st' where "st' = st\<lparr>d_dist := (d_dist st)(v \<mapsto> ?alt), d_prev := (d_prev st)(v \<mapsto> u), d_queue := q'\<rparr>"
    have r: "relax upd weight u v st = Some st'"
      using v lt du q'(1) by (simp add: relax_def Let_def st'_def)
    have dist: "d_dist st' x = (if x = v then Some ?alt else d_dist st x)" for x by (simp add: st'_def)
    have sc: "d_scanned st' = d_scanned st" by (simp add: st'_def)
    have near: "dx \<le> du" if "x \<in> d_scanned st" "d_dist st x = Some dx" for x dx
      using u(2) that du by (auto simp: nearest_def)
    have alt_ge: "du \<le> ?alt" using jadd_mono [OF w, of du du] by simp
    have bw: "back_walk adj weight s (d_prev st') x c" if x: "d_dist st' x = Some (Num c)" for x c
    proof (cases "x = v")
      case True
      then have "c = cu + weight u v" using x dist cu by simp
      moreover have "back_walk adj weight s (d_prev st) u cu" using inv du cu by blast
      then have "back_walk adj weight s (d_prev st') u cu"
        using back_walk_update [OF _ uv v(1)] inv by (auto simp: st'_def)
      ultimately show ?thesis using True ed by (auto simp: st'_def intro: back_walk.back_step)
    next
      case False
      then have "back_walk adj weight s (d_prev st) x c" using inv x dist by simp
      then show ?thesis using back_walk_update [OF _ False v(1)] inv by (auto simp: st'_def)
    qed
    have "tree_inv adj weight s st'"
      unfolding tree_inv_def
    proof (intro conjI)
      show "inv (d_queue st')" using q'(2) by (simp add: st'_def)
      show "d_scanned st' \<subseteq> fst ` set adj" using inv sc by simp
      show "dom (d_dist st') = fst ` set adj" using inv key by (auto simp: st'_def)
      show "\<forall>x. prio (d_queue st') x = (if x \<in> d_scanned st' then None else d_dist st' x)"
        using inv q'(3) v(1) by (simp add: st'_def)
      show "d_dist st' s = Some (Num 0)" using inv vs dist by simp
      show "d_prev st' s = None" using inv vs by (simp add: st'_def)
      show "\<forall>x d. d_dist st' x = Some d \<longrightarrow> Num 0 \<le> d" using inv dist du0 alt_ge by auto
      show "\<forall>x c. d_dist st' x = Some (Num c) \<longrightarrow> back_walk adj weight s (d_prev st') x c" using bw by blast
      show "\<forall>x y. d_prev st' x = Some y \<longrightarrow> y \<in> d_scanned st' \<and> (\<exists>c. d_dist st' x = Some (Num c))"
        using inv u(1) cu by (auto simp: st'_def)
      show "\<forall>x y dx dy. x \<in> d_scanned st' \<longrightarrow> y \<notin> d_scanned st' \<longrightarrow> d_dist st' x = Some dx \<longrightarrow>
          d_dist st' y = Some dy \<longrightarrow> dx \<le> dy"
      proof (intro allI impI)
        fix x y dx dy
        assume a: "x \<in> d_scanned st'" "y \<notin> d_scanned st'" "d_dist st' x = Some dx" "d_dist st' y = Some dy"
        have x: "x \<in> d_scanned st" "d_dist st x = Some dx" using a sc dist v(1) by (auto split: if_splits)
        show "dx \<le> dy"
        proof (cases "y = v")
          case True
          then show ?thesis using near [OF x] alt_ge a(4) dist by auto
        next
          case False
          then show ?thesis using inv x a(2,4) sc dist by auto
        qed
      qed
    qed
    moreover have "nearest st' u" using near du dist sc v(1) uv by (auto simp: nearest_def)
    moreover have "relaxed weight st' x y" if "x \<in> d_scanned st" "(x, y) \<in> insert (u, v) R" for x y
    proof (cases "x = u \<and> y = v")
      case True
      then show ?thesis using dist du uv by (simp add: relaxed_def)
    next
      case False
      then have "relaxed weight st x y" using rlx that by blast
      then show ?thesis using that(1) v lt dist by (auto simp: relaxed_def)
    qed
    ultimately show ?thesis using r sc by blast
  qed
qed

lemma relax_all:
  assumes "dijkstra_ready adj s weight"
    and "tree_inv adj weight s st" "u \<in> d_scanned st" "nearest st u" "set vs \<subseteq> set ns" "map_of adj u = Some ns"
    and "\<And>x y. x \<in> d_scanned st \<Longrightarrow> (x, y) \<in> R \<Longrightarrow> relaxed weight st x y"
  shows "\<exists>st'. foldM (relax upd weight u) vs st = Some st' \<and> tree_inv adj weight s st' \<and> d_scanned st' = d_scanned st \<and>
    (\<forall>x y. x \<in> d_scanned st \<longrightarrow> (x, y) \<in> R \<union> {u} \<times> set vs \<longrightarrow> relaxed weight st' x y)"
  using assms
proof (induction vs arbitrary: st R)
  case (Cons v vs)
  then have v: "v \<in> set ns" by simp
  obtain st1 where st1: "relax upd weight u v st = Some st1" "tree_inv adj weight s st1" "nearest st1 u"
      "d_scanned st1 = d_scanned st"
    and r1: "\<And>x y. x \<in> d_scanned st1 \<Longrightarrow> (x, y) \<in> insert (u, v) R \<Longrightarrow> relaxed weight st1 x y"
    using relax_keeps [OF Cons.prems(1-4) v Cons.prems(6,7)] by metis
  obtain st2 where st2: "foldM (relax upd weight u) vs st1 = Some st2" "tree_inv adj weight s st2" "d_scanned st2 = d_scanned st1"
      "\<forall>x y. x \<in> d_scanned st1 \<longrightarrow> (x, y) \<in> insert (u, v) R \<union> {u} \<times> set vs \<longrightarrow> relaxed weight st2 x y"
    using Cons.IH [of st1 "insert (u, v) R"] st1 r1 Cons.prems(1,3,5,6) by auto
  then show ?case using st1 by auto
qed simp

definition all_relaxed ::
  "(string \<times> string list) list \<Rightarrow> (string \<Rightarrow> string \<Rightarrow> int) \<Rightarrow> 'q dstate \<Rightarrow> bool" where
  "all_relaxed adj weight st \<longleftrightarrow> (\<forall>x y. x \<in> d_scanned st \<longrightarrow> edge adj x y \<longrightarrow> relaxed weight st x y)"

lemma scan_next:
  assumes g: "dijkstra_ready adj s weight"
    and i: "tree_inv adj weight s st" and a: "all_relaxed adj weight st" and e: "\<not> isE (d_queue st)"
  shows "\<exists>u q ns st'. rem (d_queue st) = (Some u, q) \<and> map_of adj u = Some ns \<and>
    foldM (relax upd weight u) ns (st\<lparr>d_queue := q, d_scanned := insert u (d_scanned st)\<rparr>) = Some st' \<and>
    tree_inv adj weight s st' \<and> all_relaxed adj weight st' \<and> u \<in> fst ` set adj - d_scanned st \<and> d_scanned st' = insert u (d_scanned st)"
proof -
  note inv = i [unfolded tree_inv_def]
  obtain u p q where u: "rem (d_queue st) = (Some u, q)" "prio (d_queue st) u = Some p"
      "\<forall>k p'. prio (d_queue st) k = Some p' \<longrightarrow> p \<le> p'" "inv q" "prio q = (prio (d_queue st))(u := None)"
    using rem_law [of "d_queue st"] inv e by (auto simp: not_less)
  have pu: "u \<notin> d_scanned st" "d_dist st u = Some p" using inv u(2) by (auto split: if_splits)
  then have key: "u \<in> fst ` set adj" using inv by blast
  then obtain ns where ns: "map_of adj u = Some ns" by (metis map_of_eq_None_iff not_None_eq)
  define st1 where "st1 = st\<lparr>d_queue := q, d_scanned := insert u (d_scanned st)\<rparr>"
  have pr: "prio (d_queue st) y = d_dist st y" if "y \<notin> d_scanned st" for y using inv that by simp
  have far: "p \<le> d" if "d_dist st y = Some d" "y \<notin> d_scanned st" for y d
    using u(3) pr [OF that(2)] that(1) by metis
  have t1: "tree_inv adj weight s st1"
    unfolding tree_inv_def
  proof (intro conjI)
    show "\<forall>x y dx dy. x \<in> d_scanned st1 \<longrightarrow> y \<notin> d_scanned st1 \<longrightarrow> d_dist st1 x = Some dx \<longrightarrow>
        d_dist st1 y = Some dy \<longrightarrow> dx \<le> dy"
    proof (intro allI impI)
      fix x y dx dy
      assume a: "x \<in> d_scanned st1" "y \<notin> d_scanned st1" "d_dist st1 x = Some dx" "d_dist st1 y = Some dy"
      then show "dx \<le> dy" using far pu inv by (cases "x = u") (auto simp: st1_def)
    qed
  qed (use inv u key in \<open>auto simp: st1_def\<close>)
  have n1: "nearest st1 u" using inv pu by (auto simp: nearest_def st1_def)
  define R where "R = {(x, y). x \<in> d_scanned st \<and> edge adj x y}"
  have r1: "x \<in> d_scanned st1 \<Longrightarrow> (x, y) \<in> R \<Longrightarrow> relaxed weight st1 x y" for x y
    using a by (auto simp: all_relaxed_def relaxed_def st1_def R_def)
  have u1: "u \<in> d_scanned st1" by (simp add: st1_def)
  obtain st' where st': "foldM (relax upd weight u) ns st1 = Some st'" "tree_inv adj weight s st'" "d_scanned st' = d_scanned st1"
      "\<forall>x y. x \<in> d_scanned st1 \<longrightarrow> (x, y) \<in> R \<union> {u} \<times> set ns \<longrightarrow> relaxed weight st' x y"
    using relax_all [OF g t1 u1 n1 subset_refl ns r1] by blast
  have "all_relaxed adj weight st'"
    using st'(3,4) ns unfolding all_relaxed_def R_def by (auto simp: edge_def st1_def)
  then show ?thesis using u(1) ns st' pu(1) key by (auto simp: st1_def)
qed

lemma loop_correct:
  assumes "dijkstra_ready adj s weight"
    and "tree_inv adj weight s st" "all_relaxed adj weight st" "card (fst ` set adj - d_scanned st) \<le> fuel"
  shows "\<exists>st'. dijkstra_loop isE rem upd adj weight fuel st = Some st' \<and> tree_inv adj weight s st' \<and> all_relaxed adj weight st' \<and>
    d_scanned st' = fst ` set adj"
  using assms
proof (induction fuel arbitrary: st)
  case 0
  then have "fst ` set adj \<subseteq> d_scanned st" by simp
  then have sc: "d_scanned st = fst ` set adj" using "0.prems"(2) by (auto simp: tree_inv_def)
  have "prio (d_queue st) v = None" for v
    using "0.prems"(2) sc by (cases "v \<in> d_scanned st") (auto simp: tree_inv_def)
  then have "dom (prio (d_queue st)) = {}" by auto
  then have "isE (d_queue st)" using isE_iff "0.prems"(2) by (simp add: tree_inv_def)
  then show ?case using "0.prems" sc by (simp add: dijkstra_loop.simps)
next
  case (Suc fuel)
  show ?case
  proof (cases "isE (d_queue st)")
    case True
    then have "prio (d_queue st) v = None" for v using isE_iff Suc.prems(2) by (auto simp: tree_inv_def dom_def)
    then have "fst ` set adj \<subseteq> d_scanned st"
      using Suc.prems(2) unfolding tree_inv_def by (metis domIff subsetI)
    then have "d_scanned st = fst ` set adj" using Suc.prems(2) by (auto simp: tree_inv_def)
    then show ?thesis using True Suc.prems by (simp add: dijkstra_loop.simps [of _ _ _ _ _ "Suc fuel"])
  next
    case False
    obtain u q ns st1 where st1: "rem (d_queue st) = (Some u, q)" "map_of adj u = Some ns"
        "foldM (relax upd weight u) ns (st\<lparr>d_queue := q, d_scanned := insert u (d_scanned st)\<rparr>) = Some st1"
        "tree_inv adj weight s st1" "all_relaxed adj weight st1" "u \<in> fst ` set adj - d_scanned st" "d_scanned st1 = insert u (d_scanned st)"
      using scan_next [OF Suc.prems(1-3) False] by blast
    have "card (fst ` set adj - d_scanned st1) < card (fst ` set adj - d_scanned st)"
      by (rule psubset_card_mono) (use st1 in auto)
    then show ?thesis
      using Suc.IH [of st1] Suc.prems(1,4) st1 False by (simp add: dijkstra_loop.simps [of _ _ _ _ _ "Suc fuel"])
  qed
qed

lemma init_correct:
  assumes g: "dijkstra_ready adj s weight"
    and emp: "inv emp" "prio emp = Map.empty"
  shows "tree_inv adj weight s (dijkstra_init ins emp (map fst adj) s)" "all_relaxed adj weight (dijkstra_init ins emp (map fst adj) s)"
proof -
  define f :: "string \<Rightarrow> 'q dstate \<Rightarrow> 'q dstate" where
    "f = (\<lambda>v st. (let dist = (if v \<noteq> s then (d_dist st)(v \<mapsto> Infinity) else d_dist st)
          in st\<lparr>d_dist := dist, d_queue := ins (the (dist v)) v (d_queue st)\<rparr>))"
  define s0 where "s0 = \<lparr>d_dist = [s \<mapsto> Num 0], d_prev = Map.empty, d_scanned = {}, d_queue = emp\<rparr>"
  have init: "dijkstra_init ins emp (map fst adj) s = fold f (map fst adj) s0"
    by (simp add: dijkstra_init_def f_def s0_def)
  have f: "d_dist (f v st) = (if v \<noteq> s then (d_dist st)(v \<mapsto> Infinity) else d_dist st)"
      "d_queue (f v st) = ins (the (d_dist (f v st) v)) v (d_queue st)"
      "d_prev (f v st) = d_prev st" "d_scanned (f v st) = d_scanned st" for v st
    by (simp_all add: f_def Let_def)
  have run: "distinct ks \<Longrightarrow> [] \<notin> set ks \<Longrightarrow>
      d_dist (fold f ks s0) = (\<lambda>v. if v = s then Some (Num 0) else if v \<in> set ks then Some Infinity else None) \<and>
      d_prev (fold f ks s0) = Map.empty \<and> d_scanned (fold f ks s0) = {} \<and> inv (d_queue (fold f ks s0)) \<and>
      prio (d_queue (fold f ks s0)) = (\<lambda>v. if v \<in> set ks then d_dist (fold f ks s0) v else None)" for ks
  proof (induction ks rule: rev_induct)
    case Nil
    show ?case using emp by (auto simp: s0_def)
  next
    case (snoc k ks)
    let ?st = "fold f ks s0"
    have IH: "d_dist ?st = (\<lambda>v. if v = s then Some (Num 0) else if v \<in> set ks then Some Infinity else None)"
        "d_prev ?st = Map.empty" "d_scanned ?st = {}" "inv (d_queue ?st)"
        "prio (d_queue ?st) = (\<lambda>v. if v \<in> set ks then d_dist ?st v else None)"
      using snoc by auto
    have "prio (d_queue ?st) k = None" "k \<noteq> []" using IH(5) snoc.prems by auto
    from ins_law [OF IH(4) this(2,1)]
    show ?case using IH snoc.prems by (auto simp: f fun_eq_iff)
  qed
  have fin: "d_dist (dijkstra_init ins emp (map fst adj) s) =
        (\<lambda>v. if v = s then Some (Num 0) else if v \<in> fst ` set adj then Some Infinity else None)"
      "d_prev (dijkstra_init ins emp (map fst adj) s) = Map.empty"
      "d_scanned (dijkstra_init ins emp (map fst adj) s) = {}"
      "inv (d_queue (dijkstra_init ins emp (map fst adj) s))"
      "prio (d_queue (dijkstra_init ins emp (map fst adj) s)) =
        (\<lambda>v. if v \<in> fst ` set adj then d_dist (dijkstra_init ins emp (map fst adj) s) v else None)"
    using run [of "map fst adj"] ready_keys [OF g] unfolding init set_map by simp_all
  define K where "K = fst ` set adj"
  have sK: "s \<in> K" using ready_keys [OF g] by (simp add: K_def)
  show "tree_inv adj weight s (dijkstra_init ins emp (map fst adj) s)"
    unfolding tree_inv_def fin(2-) unfolding fin(1) K_def [symmetric]
    using fin(4) sK by (auto split: if_splits intro: back_walk.back_start)
  show "all_relaxed adj weight (dijkstra_init ins emp (map fst adj) s)" using fin by (simp add: all_relaxed_def)
qed

lemma walk_bound:
  assumes "tree_inv adj weight s st" "all_relaxed adj weight st" "d_scanned st = fst ` set adj" and "walk adj weight s v c"
  shows "\<exists>d. d_dist st v = Some (Num d) \<and> d \<le> c"
  using assms(4)
proof (induction rule: walk.induct)
  case walk_start
  show ?case using assms(1) by (simp add: tree_inv_def)
next
  case (walk_step u c v)
  then obtain d where d: "d_dist st u = Some (Num d)" "d \<le> c" by blast
  have "u \<in> d_scanned st" "v \<in> dom (d_dist st)"
    using d walk_step(2) assms(1,3) by (auto simp: tree_inv_def edge_def)
  then obtain dv where dv: "d_dist st v = Some dv" and "relaxed weight st u v"
    using assms(2) walk_step(2) by (auto simp: all_relaxed_def)
  then have "dv \<le> Num (d + weight u v)" using d by (auto simp: relaxed_def)
  then show ?case using dv d(2) by (cases dv) auto
qed

lemma dijkstra_correct_run:
  assumes g: "dijkstra_ready adj s weight"
    and emp: "inv emp" "prio emp = Map.empty"
  shows "\<exists>st. dijkstra_loop isE rem upd adj weight (length adj) (dijkstra_init ins emp (map fst adj) s) = Some st \<and>
    (\<forall>v. (\<exists>c. walk adj weight s v c) \<longrightarrow>
      (\<exists>d. back_walk adj weight s (d_prev st) v d \<and> (\<forall>c. walk adj weight s v c \<longrightarrow> d \<le> c))) \<and>
    (\<forall>v. d_prev st v \<noteq> None \<longrightarrow> (\<exists>c. walk adj weight s v c)) \<and> d_prev st s = None"
proof -
  have "card (fst ` set adj - X) \<le> length adj" for X
    by (rule order_trans [OF card_mono [of "fst ` set adj"]])
      (auto intro: order_trans [OF card_image_le card_length])
  then obtain st where st: "dijkstra_loop isE rem upd adj weight (length adj)
        (dijkstra_init ins emp (map fst adj) s) = Some st"
      "tree_inv adj weight s st" "all_relaxed adj weight st" "d_scanned st = fst ` set adj"
    using loop_correct [OF g init_correct [OF g emp]] by blast
  have bw: "\<And>v c. d_dist st v = Some (Num c) \<Longrightarrow> back_walk adj weight s (d_prev st) v c"
    and pv: "\<And>v u. d_prev st v = Some u \<Longrightarrow> \<exists>c. d_dist st v = Some (Num c)"
    using st(2) by (auto simp: tree_inv_def)
  have "\<exists>d. back_walk adj weight s (d_prev st) v d \<and> (\<forall>c. walk adj weight s v c \<longrightarrow> d \<le> c)"
    if w: "walk adj weight s v c0" for v c0
  proof -
    obtain d where d: "d_dist st v = Some (Num d)" using walk_bound [OF st(2-4) w] by blast
    then have "d \<le> c" if "walk adj weight s v c" for c using walk_bound [OF st(2-4) that] by simp
    then show ?thesis using bw [OF d] by blast
  qed
  moreover have "\<exists>c. walk adj weight s v c" if "d_prev st v \<noteq> None" for v
    using pv [of v] bw back_walk_walk that by blast
  moreover have "d_prev st s = None" using st(2) by (simp add: tree_inv_def)
  ultimately show ?thesis using st(1) by blast
qed

end

section \<open>The routine on the heap\<close>

interpretation heap_run: dijkstra_run "queue_ok DefaultComparator" prio_of isEmpty
  "\<lambda>p k. insert_pq DefaultComparator p k k" "remove DefaultComparator" "updatePriority DefaultComparator"
  using heap.addressable_queue_axioms by (simp add: dijkstra_run_def cmp_neg_default)

lemma newPriorityQueue_empty:
  "newPriorityQueue cmp [] = \<lparr>pq_data = [], pq_index = Map.empty\<rparr>"
  by (simp add: newPriorityQueue_def heapify_def)

lemma queue_ok_empty:
  "queue_ok DefaultComparator (newPriorityQueue DefaultComparator [])"
  "prio_of (newPriorityQueue DefaultComparator []) = Map.empty"
  by (auto simp: newPriorityQueue_empty queue_ok_def heap_ok_def heap_but_def index_ok_def keyed_def prio_of_def)

definition shortest_tree ::
  "(string \<times> string list) list \<Rightarrow> (string \<Rightarrow> string \<Rightarrow> int) \<Rightarrow> string \<Rightarrow> (string \<rightharpoonup> string) \<Rightarrow> bool" where
  "shortest_tree adj weight s prev \<longleftrightarrow>
     (\<forall>v. (\<exists>c. walk adj weight s v c) \<longrightarrow>
        (\<exists>d. back_walk adj weight s prev v d \<and> (\<forall>c. walk adj weight s v c \<longrightarrow> d \<le> c))) \<and>
     (\<forall>v. prev v \<noteq> None \<longrightarrow> (\<exists>c. walk adj weight s v c)) \<and> prev s = None"

lemma dijkstra_result:
  assumes "dijkstra_ready adj s weight"
  shows "\<exists>prev. dijkstra adj s weight = Some prev \<and> shortest_tree adj weight s prev"
proof -
  from heap_run.dijkstra_correct_run [OF assms queue_ok_empty]
  show ?thesis unfolding dijkstra_def shortest_tree_def by fastforce
qed

text \<open>C2: On a graph with distinct non-empty node ids, a source among them and non-negative edge
  weights, \<open>dijkstra\<close> returns (it neither runs out of turns nor throws), and its table of
  predecessors is a shortest-path tree: following it back from any reachable node gives a walk from
  the source of minimal length, only reachable nodes have a predecessor, and the source has none.\<close>

theorem dijkstra_correct:
  assumes "dijkstra_ready adj s weight"
  shows "\<exists>prev. dijkstra adj s weight = Some prev \<and> shortest_tree adj weight s prev"
  by (rule dijkstra_result [OF assms])

definition ex_adj :: "(string \<times> string list) list" where
  "ex_adj = [(''a'', [''b'', ''c'']), (''b'', [''c'']), (''c'', [''a''])]"

definition ex_weight :: "string \<Rightarrow> string \<Rightarrow> int" where
  "ex_weight u v = (if u = ''a'' \<and> v = ''c'' then 5 else 1)"

text \<open>In the triangle the direct edge to \<open>c\<close> costs 5, the way over \<open>b\<close> costs 2.\<close>

lemma dijkstra_correct_witness:
  "\<exists>prev. dijkstra ex_adj ''a'' ex_weight = Some prev \<and> shortest_tree ex_adj ex_weight ''a'' prev"
  by (rule dijkstra_correct) (simp add: dijkstra_ready_def ex_adj_def ex_weight_def)

lemma dijkstra_example: "map_option (\<lambda>prev. prev ''c'') (dijkstra ex_adj ''a'' ex_weight) = Some (Some ''b'')"
  by code_simp

text \<open>C1: The heap implements an addressable priority queue: whatever the reachable heap state,
  \<open>remove\<close> returns an item of least priority and takes exactly that id out, \<open>insert\<close> of a fresh id adds
  exactly that id, \<open>updatePriority\<close> gives a waiting id any new priority, smaller, equal or greater,
  changes exactly that id and throws only for an unknown one; heap order and the id index survive
  every operation.\<close>

theorem heap_refines_queue:
  assumes "queue_ok DefaultComparator q"
  shows "(\<not> isEmpty q \<longrightarrow> (\<exists>u p q'. remove DefaultComparator q = (Some u, q') \<and> prio_of q u = Some p \<and>
      (\<forall>k p'. prio_of q k = Some p' \<longrightarrow> p \<le> p') \<and> queue_ok DefaultComparator q' \<and>
      prio_of q' = (prio_of q)(u := None))) \<and>
    (\<forall>k p. k \<noteq> [] \<and> prio_of q k = None \<longrightarrow>
      queue_ok DefaultComparator (insert_pq DefaultComparator p k k q) \<and>
      prio_of (insert_pq DefaultComparator p k k q) = (prio_of q)(k \<mapsto> p)) \<and>
    (\<forall>k p p0. prio_of q k = Some p0 \<longrightarrow>
      (\<exists>q'. updatePriority DefaultComparator k p q = Some q' \<and> queue_ok DefaultComparator q' \<and>
        prio_of q' = (prio_of q)(k \<mapsto> p))) \<and>
    (\<forall>k p. prio_of q k = None \<longrightarrow> updatePriority DefaultComparator k p q = None)"
  using heap.rem_law [OF assms] heap.ins_law [OF assms] heap.upd_law [OF assms] heap.upd_unknown [OF assms]
  by (simp add: cmp_neg_default not_less)

definition ex_heap :: "(jnum, string) pqueue" where
  "ex_heap = insert_pq DefaultComparator (Num 1) ''b'' ''b''
     (insert_pq DefaultComparator (Num 2) ''a'' ''a'' (newPriorityQueue DefaultComparator []))"

lemma ex_heap_ok:
  "queue_ok DefaultComparator ex_heap \<and> \<not> isEmpty ex_heap \<and> prio_of ex_heap ''a'' = Some (Num 2) \<and>
   prio_of ex_heap ''b'' = Some (Num 1) \<and> prio_of ex_heap ''c'' = None"
proof -
  have "queue_ok DefaultComparator ex_heap"
    unfolding ex_heap_def
    by (intro conjunct1 [OF default.queue_ok_insert]) (simp_all add: queue_ok_empty default.queue_ok_insert)
  moreover have "\<not> isEmpty ex_heap \<and> prio_of ex_heap ''a'' = Some (Num 2) \<and>
      prio_of ex_heap ''b'' = Some (Num 1) \<and> prio_of ex_heap ''c'' = None" by code_simp
  ultimately show ?thesis by blast
qed

lemma heap_refines_queue_witness:
  "(\<exists>u p q'. remove DefaultComparator ex_heap = (Some u, q') \<and> prio_of ex_heap u = Some p \<and> p \<le> Num 2) \<and>
   (\<exists>q'. updatePriority DefaultComparator ''b'' (Num 9) ex_heap = Some q' \<and> queue_ok DefaultComparator q' \<and>
     prio_of q' ''b'' = Some (Num 9)) \<and>
   prio_of (insert_pq DefaultComparator (Num 4) ''c'' ''c'' ex_heap) ''c'' = Some (Num 4)"
proof -
  have ok: "queue_ok DefaultComparator ex_heap" using ex_heap_ok by simp
  note law = heap_refines_queue [OF ok]
  have "\<exists>u p q'. remove DefaultComparator ex_heap = (Some u, q') \<and> prio_of ex_heap u = Some p \<and> p \<le> Num 2"
    using law ex_heap_ok by blast
  moreover have "\<exists>q'. updatePriority DefaultComparator ''b'' (Num 9) ex_heap = Some q' \<and>
      queue_ok DefaultComparator q' \<and> prio_of q' = (prio_of ex_heap)(''b'' \<mapsto> Num 9)"
    using law ex_heap_ok by blast
  moreover have "prio_of (insert_pq DefaultComparator (Num 4) ''c'' ''c'' ex_heap) = (prio_of ex_heap)(''c'' \<mapsto> Num 4)"
    using law ex_heap_ok by simp
  ultimately show ?thesis by (metis fun_upd_same)
qed

end
