(* ===== verification/Graph_Search.thy ===== *)
theory Graph_Search
  imports Graph_Removal Dijkstra
begin

text \<open>
  The queries of the graph model that walk along edges (model/model.js of x6): neighbours, the
  breadth-first and depth-first \<open>search\<close> with the distances it reports, successors and
  predecessors, and \<open>getShortestPath\<close> on top of \<open>dijkstra\<close>. The iterator that \<open>search\<close> calls is a
  predicate: whether it wants the cell expanded.
\<close>

section \<open>Neighbours\<close>

definition getSourceCell :: "gcell \<Rightarrow> gmodel \<Rightarrow> gcell option" where
  "getSourceCell e m = (case gc_source e of Some i \<Rightarrow> if i \<noteq> [] then getCell i m else None | None \<Rightarrow> None)"

definition getTargetCell :: "gcell \<Rightarrow> gmodel \<Rightarrow> gcell option" where
  "getTargetCell e m = (case gc_target e of Some i \<Rightarrow> if i \<noteq> [] then getCell i m else None | None \<Rightarrow> None)"

definition hasLoop :: "gcell \<Rightarrow> bool" where
  "hasLoop e \<longleftrightarrow>
     (case (gc_source e, gc_target e) of
        (Some s, Some t) \<Rightarrow> s \<noteq> [] \<and> t \<noteq> [] \<and> s = t
      | _ \<Rightarrow> False)"

definition is_node :: "gcell option \<Rightarrow> bool" where
  "is_node c \<longleftrightarrow> (case c of None \<Rightarrow> False | Some c \<Rightarrow> \<not> gc_edge c)"

definition memo_cell :: "bool \<Rightarrow> gcell option \<Rightarrow> string list \<Rightarrow> string list" where
  "memo_cell b c memo =
     (case c of
        Some c \<Rightarrow> if b \<and> \<not> gc_edge c \<and> gc_id c \<notin> set memo then memo @ [gc_id c] else memo
      | None \<Rightarrow> memo)"

definition neighbor_step :: "gmodel \<Rightarrow> string \<Rightarrow> bool \<Rightarrow> bool \<Rightarrow> gcell \<Rightarrow> string list \<Rightarrow> string list" where
  "neighbor_step m i incoming outgoing e memo =
     (let s = getSourceCell e m; t = getTargetCell e m;
          memo = memo_cell (incoming \<and> (hasLoop e \<or> map_option gc_id s \<noteq> Some i)) s memo
      in memo_cell (outgoing \<and> (hasLoop e \<or> map_option gc_id t \<noteq> Some i)) t memo)"

text \<open>Absent options mean both directions.\<close>

definition getNeighbors :: "gcell \<Rightarrow> bool option \<Rightarrow> bool option \<Rightarrow> gmodel \<Rightarrow> string list" where
  "getNeighbors c inc out m =
     (let both = (inc = None \<and> out = None);
          incoming = (both \<or> inc = Some True); outgoing = (both \<or> out = Some True);
          memo = fold (neighbor_step m (gc_id c) incoming outgoing)
                   (getConnectedEdges (gc_id c) incoming outgoing m) [];
          memo = (if gc_edge c
                  then memo_cell outgoing (getTargetCell c m) (memo_cell incoming (getSourceCell c m) memo)
                  else memo)
      in key_order memo)"

definition isNeighbor :: "gcell \<Rightarrow> gcell \<Rightarrow> bool option \<Rightarrow> bool option \<Rightarrow> gmodel \<Rightarrow> bool" where
  "isNeighbor c1 c2 inc out m =
     (let both = (inc = None \<and> out = None);
          incoming = (both \<or> inc = Some True); outgoing = (both \<or> out = Some True)
      in list_ex (\<lambda>e. incoming \<and> map_option gc_id (getSourceCell e m) = Some (gc_id c2) \<or>
                      outgoing \<and> map_option gc_id (getTargetCell e m) = Some (gc_id c2))
           (getConnectedEdges (gc_id c1) incoming outgoing m))"

section \<open>Search\<close>

text \<open>
  Both searches run over cell ids with a function that lists neighbours; an id without a cell is
  skipped like the code's \<open>null\<close>. The result lists the visited cells, in order, with the distance
  passed to the iterator. A neighbour's distance is written every time it is seen.
\<close>

record search_state =
  ss_queue :: "string list"
  ss_visited :: "string list"
  ss_dist :: "string \<rightharpoonup> nat"
  ss_out :: "(string \<times> nat) list"

definition dist_of :: "(string \<rightharpoonup> nat) \<Rightarrow> string \<Rightarrow> nat" where
  "dist_of d i = (case d i of None \<Rightarrow> 0 | Some n \<Rightarrow> n)"

definition note_distances :: "string list \<Rightarrow> nat \<Rightarrow> (string \<rightharpoonup> nat) \<Rightarrow> (string \<rightharpoonup> nat)" where
  "note_distances ns d dist = fold (\<lambda>n f. f(n \<mapsto> d)) ns dist"

text \<open>One turn with a queue whose next element was taken: breadth first appends, depth first
  inserts each neighbour before the earlier ones at the end.\<close>

definition search_visit ::
  "bool \<Rightarrow> (string \<Rightarrow> string list) \<Rightarrow> (string \<Rightarrow> nat \<Rightarrow> bool) \<Rightarrow> string \<Rightarrow> string list \<Rightarrow> search_state \<Rightarrow> search_state" where
  "search_visit bf nbrs expand nxt q st =
     (let d = dist_of (ss_dist st) nxt;
          st = st\<lparr>ss_queue := q, ss_visited := ss_visited st @ [nxt], ss_out := ss_out st @ [(nxt, d)]\<rparr>
      in if expand nxt d
         then st\<lparr>ss_dist := note_distances (nbrs nxt) (d + 1) (ss_dist st),
                 ss_queue := (if bf then q @ nbrs nxt else q @ rev (nbrs nxt))\<rparr>
         else st)"

function search_loop ::
  "bool \<Rightarrow> string list \<Rightarrow> (string \<Rightarrow> string list) \<Rightarrow> (string \<Rightarrow> nat \<Rightarrow> bool) \<Rightarrow> search_state \<Rightarrow> search_state" where
  "search_loop bf cells nbrs expand st =
     (case ss_queue st of
        [] \<Rightarrow> st
      | x # xs \<Rightarrow>
          (let (nxt, q) = (if bf then (x, xs) else (last (x # xs), butlast (x # xs)))
           in if nxt \<notin> set cells \<or> nxt \<in> set (ss_visited st)
              then search_loop bf cells nbrs expand (st\<lparr>ss_queue := q\<rparr>)
              else search_loop bf cells nbrs expand (search_visit bf nbrs expand nxt q st)))"
  by pat_completeness auto
termination
proof (relation "measures [\<lambda>(bf, cells, nbrs, expand, st). card (set cells - set (ss_visited st)),
    \<lambda>(bf, cells, nbrs, expand, st). length (ss_queue st)]", simp)
  fix bf :: bool and cells q xs :: "string list" and nbrs :: "string \<Rightarrow> string list"
    and expand :: "string \<Rightarrow> nat \<Rightarrow> bool" and st :: search_state and x nxt :: string and z
  assume q: "ss_queue st = x # xs" "z = (if bf then (x, xs) else (last (x # xs), butlast (x # xs)))" "(nxt, q) = z"
  show "nxt \<notin> set cells \<or> nxt \<in> set (ss_visited st) \<Longrightarrow>
      ((bf, cells, nbrs, expand, st\<lparr>ss_queue := q\<rparr>), bf, cells, nbrs, expand, st)
        \<in> measures [\<lambda>(bf, cells, nbrs, expand, st). card (set cells - set (ss_visited st)),
          \<lambda>(bf, cells, nbrs, expand, st). length (ss_queue st)]"
    using q by (auto split: if_splits)
  assume "\<not> (nxt \<notin> set cells \<or> nxt \<in> set (ss_visited st))"
  then have n: "nxt \<in> set cells - set (ss_visited st)" by blast
  have "set cells - set (ss_visited (search_visit bf nbrs expand nxt q st)) = set cells - set (ss_visited st) - {nxt}"
    by (auto simp: search_visit_def Let_def)
  then have "card (set cells - set (ss_visited (search_visit bf nbrs expand nxt q st))) < card (set cells - set (ss_visited st))"
    using card_Diff1_less [OF _ n] by simp
  then show "((bf, cells, nbrs, expand, search_visit bf nbrs expand nxt q st), bf, cells, nbrs, expand, st)
      \<in> measures [\<lambda>(bf, cells, nbrs, expand, st). card (set cells - set (ss_visited st)),
          \<lambda>(bf, cells, nbrs, expand, st). length (ss_queue st)]"
    by simp
qed

declare search_loop.simps [simp del]

definition search_start :: "string \<Rightarrow> search_state" where
  "search_start i = \<lparr>ss_queue = [i], ss_visited = [], ss_dist = [i \<mapsto> 0], ss_out = []\<rparr>"

definition nbr_ids :: "bool option \<Rightarrow> bool option \<Rightarrow> gmodel \<Rightarrow> string \<Rightarrow> string list" where
  "nbr_ids inc out m i = (case getCell i m of None \<Rightarrow> [] | Some c \<Rightarrow> getNeighbors c inc out m)"

definition search :: "bool \<Rightarrow> string \<Rightarrow> (string \<Rightarrow> nat \<Rightarrow> bool) \<Rightarrow> bool option \<Rightarrow> bool option \<Rightarrow> gmodel \<Rightarrow> (string \<times> nat) list" where
  "search bf i expand inc out m =
     ss_out (search_loop bf (map gc_id (getCells m)) (nbr_ids inc out m) expand (search_start i))"

definition matchDistance :: "nat \<Rightarrow> nat list option \<Rightarrow> bool" where
  "matchDistance distance preset = (case preset of None \<Rightarrow> True | Some ds \<Rightarrow> distance \<in> set ds)"

definition getSuccessors :: "bool \<Rightarrow> nat list option \<Rightarrow> bool option \<Rightarrow> string \<Rightarrow> gmodel \<Rightarrow> string list" where
  "getSuccessors bf preset inc i m =
     map fst (filter (\<lambda>(j, d). j \<noteq> i \<and> matchDistance d preset) (search bf i (\<lambda>_ _. True) inc (Some True) m))"

definition getPredecessors :: "bool \<Rightarrow> nat list option \<Rightarrow> bool option \<Rightarrow> string \<Rightarrow> gmodel \<Rightarrow> string list" where
  "getPredecessors bf preset out i m =
     map fst (filter (\<lambda>(j, d). j \<noteq> i \<and> matchDistance d preset) (search bf i (\<lambda>_ _. True) (Some True) out m))"

definition isSuccessor :: "bool \<Rightarrow> nat list option \<Rightarrow> bool option \<Rightarrow> string \<Rightarrow> string \<Rightarrow> gmodel \<Rightarrow> bool" where
  "isSuccessor bf preset inc i k m =
     (let hit = (\<lambda>j d. j = k \<and> j \<noteq> i \<and> matchDistance d preset)
      in list_ex (\<lambda>(j, d). hit j d) (search bf i (\<lambda>j d. \<not> hit j d) inc (Some True) m))"

definition isPredecessor :: "bool \<Rightarrow> nat list option \<Rightarrow> bool option \<Rightarrow> string \<Rightarrow> string \<Rightarrow> gmodel \<Rightarrow> bool" where
  "isPredecessor bf preset out i k m =
     (let hit = (\<lambda>j d. j = k \<and> j \<noteq> i \<and> matchDistance d preset)
      in list_ex (\<lambda>(j, d). hit j d) (search bf i (\<lambda>j d. \<not> hit j d) (Some True) out m))"

section \<open>What a search visits\<close>

inductive steps_to :: "(string \<Rightarrow> string list) \<Rightarrow> string \<Rightarrow> string \<Rightarrow> nat \<Rightarrow> bool" for nbrs i where
  steps_start: "steps_to nbrs i i 0"
| steps_next: "steps_to nbrs i j d \<Longrightarrow> k \<in> set (nbrs j) \<Longrightarrow> steps_to nbrs i k (Suc d)"

definition search_inv :: "string list \<Rightarrow> (string \<Rightarrow> string list) \<Rightarrow> string \<Rightarrow> search_state \<Rightarrow> bool" where
  "search_inv cells nbrs i st \<longleftrightarrow>
     map fst (ss_out st) = ss_visited st \<and> distinct (ss_visited st) \<and> set (ss_visited st) \<subseteq> set cells \<and>
     (\<forall>(j, d) \<in> set (ss_out st). steps_to nbrs i j d) \<and>
     (\<forall>j d. ss_dist st j = Some d \<longrightarrow> steps_to nbrs i j d) \<and>
     (\<forall>j \<in> set (ss_queue st). ss_dist st j \<noteq> None) \<and>
     (\<forall>j \<in> set (ss_visited st). \<forall>k \<in> set (nbrs j). k \<in> set (ss_visited st) \<union> set (ss_queue st) \<or> k \<notin> set cells) \<and>
     (i \<in> set cells \<longrightarrow> i \<in> set (ss_visited st) \<union> set (ss_queue st))"

lemma note_distances_apply: "note_distances ns d f j = (if j \<in> set ns then Some d else f j)"
  unfolding note_distances_def by (induction ns arbitrary: f) auto

lemma search_inv_visit:
  assumes inv: "search_inv cells nbrs i st" and q: "set (ss_queue st) = insert nxt (set q)"
    and n: "nxt \<in> set cells" "nxt \<notin> set (ss_visited st)"
  shows "search_inv cells nbrs i (search_visit bf nbrs (\<lambda>_ _. True) nxt q st)"
proof -
  note v = inv [unfolded search_inv_def]
  let ?d = "dist_of (ss_dist st) nxt"
  let ?st = "search_visit bf nbrs (\<lambda>_ _. True) nxt q st"
  have f: "ss_out ?st = ss_out st @ [(nxt, ?d)]" "ss_visited ?st = ss_visited st @ [nxt]"
      "set (ss_queue ?st) = set q \<union> set (nbrs nxt)"
      "ss_dist ?st j = (if j \<in> set (nbrs nxt) then Some (?d + 1) else ss_dist st j)" for j
    by (simp_all add: search_visit_def Let_def note_distances_apply)
  obtain d where d: "ss_dist st nxt = Some d" using v q by auto
  have dd: "?d = d" using d by (simp add: dist_of_def)
  have sn: "steps_to nbrs i nxt ?d" using v d dd by blast
  then have sk: "steps_to nbrs i k (Suc ?d)" if "k \<in> set (nbrs nxt)" for k using that by (rule steps_next)
  show ?thesis
    unfolding search_inv_def
  proof (intro conjI)
    show "map fst (ss_out ?st) = ss_visited ?st" using v by (simp add: f)
    show "distinct (ss_visited ?st)" using v n by (simp add: f)
    show "set (ss_visited ?st) \<subseteq> set cells" using v n by (simp add: f)
    show "\<forall>(j, d) \<in> set (ss_out ?st). steps_to nbrs i j d" using v sn by (auto simp: f)
    show "\<forall>j d. ss_dist ?st j = Some d \<longrightarrow> steps_to nbrs i j d" using v sk by (auto simp: f)
    show "\<forall>j \<in> set (ss_queue ?st). ss_dist ?st j \<noteq> None" using v q by (auto simp: f)
    show "\<forall>j \<in> set (ss_visited ?st). \<forall>k \<in> set (nbrs j). k \<in> set (ss_visited ?st) \<union> set (ss_queue ?st) \<or> k \<notin> set cells"
    proof (intro ballI)
      fix j k assume j: "j \<in> set (ss_visited ?st)" and k: "k \<in> set (nbrs j)"
      show "k \<in> set (ss_visited ?st) \<union> set (ss_queue ?st) \<or> k \<notin> set cells"
      proof (cases "j = nxt")
        case True
        then show ?thesis using k by (simp add: f)
      next
        case False
        then have "k \<in> set (ss_visited st) \<union> set (ss_queue st) \<or> k \<notin> set cells" using v j k by (simp add: f)
        then show ?thesis using q by (auto simp: f)
      qed
    qed
    show "i \<in> set cells \<longrightarrow> i \<in> set (ss_visited ?st) \<union> set (ss_queue ?st)" using v q by (auto simp: f)
  qed
qed

lemma search_loop_inv:
  assumes "search_inv cells nbrs i st"
  shows "search_inv cells nbrs i (search_loop bf cells nbrs (\<lambda>_ _. True) st) \<and>
    ss_queue (search_loop bf cells nbrs (\<lambda>_ _. True) st) = []"
  using assms
proof (induction bf cells nbrs "\<lambda>(_ :: string) (_ :: nat). True" st rule: search_loop.induct)
  case (1 bf cells nbrs st)
  show ?case
  proof (cases "ss_queue st")
    case Nil
    then show ?thesis using 1 by (simp add: search_loop.simps [of bf cells nbrs _ st])
  next
    case (Cons x xs)
    define nxt where "nxt = (if bf then x else last (x # xs))"
    define q where "q = (if bf then xs else butlast (x # xs))"
    have nq: "(nxt, q) = (if bf then (x, xs) else (last (x # xs), butlast (x # xs)))" by (simp add: nxt_def q_def)
    have lb: "set ys = insert (last ys) (set (butlast ys))" if "ys \<noteq> []" for ys :: "string list"
      using that by (induction ys rule: rev_induct) auto
    have sq: "set (ss_queue st) = insert nxt (set q)"
      using lb [of "x # xs"] Cons unfolding nxt_def q_def by (cases bf) simp_all
    show ?thesis
    proof (cases "nxt \<notin> set cells \<or> nxt \<in> set (ss_visited st)")
      case True
      have "search_inv cells nbrs i (st\<lparr>ss_queue := q\<rparr>)"
        using "1.prems" True sq by (auto simp: search_inv_def)
      then show ?thesis
        using "1.hyps"(1) [OF Cons nq refl True] True
        by (simp add: search_loop.simps [of bf cells nbrs _ st] Cons nq [symmetric] Let_def)
    next
      case False
      then have "search_inv cells nbrs i (search_visit bf nbrs (\<lambda>_ _. True) nxt q st)"
        using search_inv_visit [OF "1.prems" sq] by blast
      then show ?thesis
        using "1.hyps"(2) [OF Cons nq refl False] False
        by (simp add: search_loop.simps [of bf cells nbrs _ st] Cons nq [symmetric] Let_def)
    qed
  qed
qed

lemma search_exact:
  assumes i: "i \<in> set cells" and closed: "\<And>j. j \<notin> set cells \<Longrightarrow> nbrs j = []"
  shows "let r = ss_out (search_loop bf cells nbrs (\<lambda>_ _. True) (search_start i))
    in distinct (map fst r) \<and> fst ` set r = {j \<in> set cells. \<exists>d. steps_to nbrs i j d} \<and>
       (\<forall>(j, d) \<in> set r. steps_to nbrs i j d)"
proof -
  let ?st = "search_loop bf cells nbrs (\<lambda>_ _. True) (search_start i)"
  have "search_inv cells nbrs i (search_start i)"
    by (auto simp: search_inv_def search_start_def intro: steps_start)
  from search_loop_inv [OF this, of bf]
  have si: "search_inv cells nbrs i ?st" and qe: "ss_queue ?st = []" by blast+
  note w = si [unfolded search_inv_def qe list.set Un_empty_right]
  have v: "map fst (ss_out ?st) = ss_visited ?st" "distinct (ss_visited ?st)" "set (ss_visited ?st) \<subseteq> set cells"
      "\<forall>(j, d) \<in> set (ss_out ?st). steps_to nbrs i j d"
    using w by simp_all
  have v5: "\<forall>j \<in> set (ss_visited ?st). \<forall>k \<in> set (nbrs j). k \<in> set (ss_visited ?st) \<or> k \<notin> set cells" using w by blast
  have v6: "i \<in> set (ss_visited ?st)" using w i by blast
  have fs: "fst ` set (ss_out ?st) = set (ss_visited ?st)" using v(1) by (metis set_map)
  have "steps_to nbrs i j d \<Longrightarrow> j \<in> set cells \<Longrightarrow> j \<in> set (ss_visited ?st)" for j d
  proof (induction rule: steps_to.induct)
    case (steps_next j d k)
    then have "j \<in> set cells" using closed [of j] by (cases "j \<in> set cells") simp_all
    then show ?case using steps_next v5 by blast
  qed (rule v6)
  then have "set (ss_visited ?st) = {j \<in> set cells. \<exists>d. steps_to nbrs i j d}"
    using v(3,4) fs by force
  then show ?thesis using v fs by (simp add: Let_def)
qed

text \<open>C21: A search from a cell, breadth or depth first and in any direction, ends, and visits every cell
  that can be reached along neighbours exactly once and no other; every distance it reports is the
  length of some walk from the start.\<close>

theorem search_visits_reachable:
  assumes "i \<in> gc_id ` set (getCells m)" and "model_ok m"
  shows "let r = search bf i (\<lambda>_ _. True) inc out m; n = nbr_ids inc out m
    in distinct (map fst r) \<and> fst ` set r = {j \<in> gc_id ` set (getCells m). \<exists>d. steps_to n i j d} \<and>
       (\<forall>(j, d) \<in> set r. steps_to n i j d)"
proof -
  have "nbr_ids inc out m j = []" if j: "j \<notin> set (map gc_id (getCells m))" for j
  proof -
    have "getCell j m = None"
      using j coll_has_iff [of "gm_coll m" j] assms(2) by (simp add: model_ok_def getCell_def getCells_def coll_has_def)
    then show ?thesis by (simp add: nbr_ids_def)
  qed
  then show ?thesis
    using search_exact [of i "map gc_id (getCells m)" "nbr_ids inc out m" bf] assms(1)
    by (simp add: search_def Let_def)
qed

definition ex_triangle :: gmodel where
  "ex_triangle = fold run_op [OpAdd (ex_cell ''a'' None), OpAdd (ex_cell ''b'' None), OpAdd (ex_cell ''c'' None),
     OpAdd (ex_cell ''e1'' (Some (''a'', ''b''))), OpAdd (ex_cell ''e2'' (Some (''a'', ''c''))),
     OpAdd (ex_cell ''e3'' (Some (''b'', ''c'')))] newModel"

lemma ex_triangle_search:
  "search True ''a'' (\<lambda>_ _. True) None (Some True) ex_triangle = [(''a'', 0), (''b'', 1), (''c'', 2)]"
  by code_simp

lemma ex_triangle_start: "''a'' \<in> gc_id ` set (getCells ex_triangle)"
proof -
  have "map gc_id (getCells ex_triangle) = [''a'', ''b'', ''c'', ''e1'', ''e2'', ''e3'']" by code_simp
  then show ?thesis by (metis list.set_intros(1) set_map)
qed

lemma search_visits_reachable_witness:
  "fst ` set (search True ''a'' (\<lambda>_ _. True) None (Some True) ex_triangle) =
   {j \<in> gc_id ` set (getCells ex_triangle). \<exists>d. steps_to (nbr_ids None (Some True) ex_triangle) ''a'' j d}"
proof -
  have "model_ok ex_triangle" unfolding ex_triangle_def by (rule reachable_model_ok)
  from search_visits_reachable [OF ex_triangle_start this, of True None "Some True"]
  show ?thesis unfolding Let_def by blast
qed

text \<open>The distances of a breadth-first search are not the least ones: a node that was queued at
  distance 1 is given distance 2 when a sibling is expanded before it is visited. In the triangle
  a to b, a to c, b to c the successors of a at distance 1 are b alone, although c is a neighbour
  of a.\<close>

lemma bfs_distance_overwritten:
  "getSuccessors True (Some [1]) None ''a'' ex_triangle = [''b''] \<and>
   ''c'' \<in> set (nbr_ids None (Some True) ex_triangle ''a'') \<and>
   (''c'', 2) \<in> set (search True ''a'' (\<lambda>_ _. True) None (Some True) ex_triangle)"
  by (intro conjI) code_simp+

section \<open>Shortest paths\<close>

definition adj_touch :: "string \<Rightarrow> (string \<times> string list) list \<Rightarrow> (string \<times> string list) list" where
  "adj_touch i adj = (if map_of adj i = None then map_put adj i [] else adj)"

definition adj_push :: "string \<Rightarrow> string \<Rightarrow> (string \<times> string list) list \<Rightarrow> (string \<times> string list) list" where
  "adj_push i j adj = map_put adj i (the (map_of adj i) @ [j])"

definition adjacency_step :: "bool \<Rightarrow> gcell \<Rightarrow> (string \<times> string list) list \<Rightarrow> (string \<times> string list) list" where
  "adjacency_step directed e adj =
     (case (gc_source e, gc_target e) of
        (Some s, Some t) \<Rightarrow>
          if s \<noteq> [] \<and> t \<noteq> []
          then (let adj = adj_push s t (adj_touch t (adj_touch s adj))
                in if directed then adj else adj_push t s adj)
          else adj
      | _ \<Rightarrow> adj)"

definition adjacencyList :: "bool \<Rightarrow> gmodel \<Rightarrow> (string \<times> string list) list" where
  "adjacencyList directed m =
     (let adj = fold (adjacency_step directed) (getEdges m) []
      in map (\<lambda>k. (k, the (map_of adj k))) (key_order (map fst adj)))"

text \<open>The walk back along the table of predecessors; the fuel is the number of nodes.\<close>

fun path_back :: "nat \<Rightarrow> (string \<rightharpoonup> string) \<Rightarrow> string \<Rightarrow> string list \<Rightarrow> string list option" where
  "path_back fuel previous target path =
     (case previous target of
        None \<Rightarrow> Some path
      | Some prev \<Rightarrow>
          if prev = [] then Some path
          else (case fuel of 0 \<Rightarrow> None | Suc n \<Rightarrow> path_back n previous prev (prev # path)))"

declare path_back.simps [simp del]

definition getShortestPath :: "string \<Rightarrow> string \<Rightarrow> bool \<Rightarrow> (string \<Rightarrow> string \<Rightarrow> int) \<Rightarrow> gmodel \<Rightarrow> string list option" where
  "getShortestPath source target directed weight m =
     (let adj = adjacencyList directed m
      in Option.bind (dijkstra adj source weight)
           (\<lambda>previous. path_back (length adj) previous target
              (case previous target of None \<Rightarrow> [] | Some p \<Rightarrow> if p = [] then [] else [target])))"

lemma shortest_path_example:
  "getShortestPath ''a'' ''c'' True (\<lambda>_ _. 1) ex_triangle = Some [''a'', ''c'']"
  by code_simp

end
