(* ===== verification/Graph_Paths.thy ===== *)
theory Graph_Paths
  imports Graph_Search
begin

text \<open>
  What \<open>getShortestPath\<close> of the graph model returns: the adjacency lists it collects from the edges, the
  shortest-path tree of \<open>Dijkstra\<close> over them, and the walk back along the tree give a route of least
  weight, or nothing when there is none.
\<close>

section \<open>Following predecessors\<close>

inductive trail :: "(string \<rightharpoonup> string) \<Rightarrow> string \<Rightarrow> string \<Rightarrow> string list \<Rightarrow> bool" for prev s where
  trail_start: "trail prev s s [s]"
| trail_step: "prev v = Some u \<Longrightarrow> trail prev s u xs \<Longrightarrow> trail prev s v (xs @ [v])"

lemma trail_ends: "trail prev s v xs \<Longrightarrow> xs \<noteq> [] \<and> hd xs = s \<and> last xs = v"
  by (induction rule: trail.induct) auto

lemma trail_unique:
  assumes "prev s = None" "trail prev s v xs" shows "trail prev s v ys \<Longrightarrow> ys = xs"
  using assms(2)
proof (induction arbitrary: ys rule: trail.induct)
  case trail_start
  then show ?case using assms(1) by (cases rule: trail.cases) auto
next
  case (trail_step v u xs)
  note IH = trail_step.IH and hyp = trail_step.hyps(1)
  from trail_step.prems show ?case
  proof (cases rule: trail.cases)
    case trail_start
    then show ?thesis using hyp assms(1) by simp
  next
    case (trail_step u' zs)
    then have "zs = xs" using hyp IH by simp
    then show ?thesis using trail_step by simp
  qed
qed

lemma trail_prefix:
  assumes "trail prev s v xs" "u \<in> set xs" shows "\<exists>ys. trail prev s u ys \<and> length ys \<le> length xs"
  using assms
proof (induction rule: trail.induct)
  case (trail_step v u' xs)
  then show ?case using trail.trail_step [OF trail_step.hyps] by fastforce
qed (auto intro: trail.trail_start)

lemma trail_distinct: "trail prev s v xs \<Longrightarrow> prev s = None \<Longrightarrow> distinct xs"
proof (induction rule: trail.induct)
  case (trail_step v u xs)
  have "v \<notin> set xs"
  proof
    assume "v \<in> set xs"
    then obtain ys where "trail prev s v ys" "length ys \<le> length xs"
      using trail_prefix trail_step.hyps(2) by blast
    moreover have "ys = xs @ [v]"
      by (rule trail_unique [OF trail_step.prems trail.trail_step [OF trail_step.hyps] \<open>trail prev s v ys\<close>])
    ultimately show False by simp
  qed
  then show ?case using trail_step by simp
qed simp

text \<open>The code's walk collects the trail.\<close>

lemma path_back_trail:
  assumes "prev s = None" "\<And>v. prev v \<noteq> Some []" "trail prev s v xs"
  shows "length xs \<le> Suc n \<Longrightarrow> path_back n prev v p = Some (butlast xs @ p)"
  using assms(3)
proof (induction arbitrary: n p rule: trail.induct)
  case trail_start
  then show ?case using assms(1) by (simp add: path_back.simps)
next
  case (trail_step v u xs)
  have xs: "xs \<noteq> []" "last xs = u" using trail_ends [OF trail_step.hyps(2)] by simp_all
  then have eq: "butlast xs @ u # p = xs @ p" using append_butlast_last_id [of xs] by (metis append_Cons append_Nil append_assoc)
  obtain k where k: "n = Suc k" using trail_step.prems xs by (cases n) auto
  have "u \<noteq> []" using assms(2) trail_step.hyps(1) by auto
  then have "path_back n prev v p = path_back k prev u (u # p)"
    using trail_step.hyps(1) by (simp add: path_back.simps [of "Suc k"] k)
  also have "\<dots> = Some (butlast xs @ u # p)" using trail_step.IH [of k "u # p"] trail_step.prems k by simp
  finally show ?case by (simp add: eq)
qed

section \<open>Routes\<close>

fun path_cost :: "(string \<Rightarrow> string \<Rightarrow> int) \<Rightarrow> string list \<Rightarrow> int" where
  "path_cost w (x # y # xs) = w x y + path_cost w (y # xs)"
| "path_cost w _ = 0"

lemma path_cost_snoc: "xs \<noteq> [] \<Longrightarrow> path_cost w (xs @ [v]) = path_cost w xs + w (last xs) v"
  by (induction xs rule: induct_list012) auto

definition route :: "(string \<Rightarrow> string \<Rightarrow> bool) \<Rightarrow> string \<Rightarrow> string \<Rightarrow> string list \<Rightarrow> bool" where
  "route L s t xs \<longleftrightarrow> xs \<noteq> [] \<and> hd xs = s \<and> last xs = t \<and> successively L xs"

lemma route_snoc: "route L s u xs \<Longrightarrow> L u v \<Longrightarrow> route L s v (xs @ [v])"
  by (auto simp: route_def successively_append_iff)

lemma walk_route: "walk adj w s v c \<Longrightarrow> \<exists>xs. route (edge adj) s v xs \<and> path_cost w xs = c"
proof (induction rule: walk.induct)
  case walk_start
  have "route (edge adj) s s [s]" by (simp add: route_def)
  then show ?case by force
next
  case (walk_step u c v)
  then obtain xs where xs: "route (edge adj) s u xs" "path_cost w xs = c" by blast
  then have "path_cost w (xs @ [v]) = c + w u v" by (simp add: route_def path_cost_snoc)
  then show ?case using route_snoc [OF xs(1) walk_step.hyps(2)] by blast
qed

lemma route_walk: "route (edge adj) s v xs \<Longrightarrow> walk adj w s v (path_cost w xs)"
proof (induction xs arbitrary: v rule: rev_induct)
  case (snoc x xs)
  show ?case
  proof (cases "xs = []")
    case True
    then show ?thesis using snoc.prems by (auto simp: route_def intro: walk.walk_start)
  next
    case False
    then have "route (edge adj) s (last xs) xs" "edge adj (last xs) x" "v = x"
      using snoc.prems by (auto simp: route_def successively_append_iff)
    then show ?thesis using snoc.IH [of "last xs"] walk.walk_step [of adj w s "last xs"] False
      by (simp add: path_cost_snoc)
  qed
qed (simp add: route_def)

lemma back_walk_trail:
  "back_walk adj w s prev v c \<Longrightarrow> \<exists>xs. trail prev s v xs \<and> route (edge adj) s v xs \<and> path_cost w xs = c"
proof (induction rule: back_walk.induct)
  case back_start
  have "route (edge adj) s s [s]" by (simp add: route_def)
  then show ?case using trail.trail_start by force
next
  case (back_step v u c)
  then obtain xs where xs: "trail prev s u xs" "route (edge adj) s u xs" "path_cost w xs = c" by blast
  then have "path_cost w (xs @ [v]) = c + w u v" by (simp add: route_def path_cost_snoc)
  then show ?case using trail.trail_step [OF back_step.hyps(1) xs(1)] route_snoc [OF xs(2) back_step.hyps(3)] by blast
qed

section \<open>The adjacency lists\<close>

definition joins :: "bool \<Rightarrow> gcell \<Rightarrow> string \<Rightarrow> string \<Rightarrow> bool" where
  "joins directed e u v \<longleftrightarrow> u \<noteq> [] \<and> v \<noteq> [] \<and>
     (gc_source e = Some u \<and> gc_target e = Some v \<or> \<not> directed \<and> gc_source e = Some v \<and> gc_target e = Some u)"

definition lists :: "(string \<times> string list) list \<Rightarrow> string \<Rightarrow> string set" where
  "lists adj u = (case map_of adj u of None \<Rightarrow> {} | Some ns \<Rightarrow> set ns)"

text \<open>Lists with distinct keys; both ends of what is listed are keys.\<close>

definition adj_ok :: "(string \<times> string list) list \<Rightarrow> (string \<Rightarrow> string \<Rightarrow> bool) \<Rightarrow> bool" where
  "adj_ok adj L \<longleftrightarrow> distinct (map fst adj) \<and> (\<forall>u v. v \<in> lists adj u \<longleftrightarrow> L u v) \<and>
     fst ` set adj = {u. \<exists>v. L u v \<or> L v u}"

lemma keys_iff: "u \<in> fst ` set adj \<longleftrightarrow> map_of adj u \<noteq> None"
  by (simp add: map_of_eq_None_iff)

lemma adjacency_step_ok:
  assumes "adj_ok adj L"
  shows "adj_ok (adjacency_step directed e adj) (\<lambda>u v. L u v \<or> joins directed e u v)"
proof (cases "\<exists>s t. gc_source e = Some s \<and> gc_target e = Some t \<and> s \<noteq> [] \<and> t \<noteq> []")
  case False
  then have "adjacency_step directed e adj = adj" "\<not> joins directed e u v" for u v
    by (auto simp: adjacency_step_def joins_def split: option.splits)
  then show ?thesis using assms by simp
next
  case True
  then obtain s t where e: "gc_source e = Some s" "gc_target e = Some t" "s \<noteq> []" "t \<noteq> []" by blast
  note A = assms[unfolded adj_ok_def]
  let ?a = "adj_touch t (adj_touch s adj)"
  have tch: "map_of (adj_touch i adj) u = (if map_of adj u = None \<and> u = i then Some [] else map_of adj u)" for i u adj
    by (simp add: adj_touch_def)
  have a: "map_of ?a u = (if map_of adj u = None \<and> (u = s \<or> u = t) then Some [] else map_of adj u)" for u
    by (auto simp: tch)
  have d: "distinct (map fst ?a)" using A by (simp add: adj_touch_def)
  let ?b = "adjacency_step directed e adj"
  have b: "?b = (if directed then adj_push s t ?a else adj_push t s (adj_push s t ?a))"
    using e by (simp add: adjacency_step_def Let_def)
  have mb: "map_of ?b u = (case map_of ?a u of None \<Rightarrow> None
      | Some ns \<Rightarrow> Some (ns @ (if u = s then [t] else []) @ (if u = t \<and> \<not> directed then [s] else [])))" for u
    unfolding b by (auto simp: adj_push_def tch split: option.splits)
  have "distinct (map fst ?b)" unfolding b using d by (simp add: adj_push_def)
  moreover have "v \<in> lists ?b u \<longleftrightarrow> L u v \<or> joins directed e u v" for u v
  proof -
    have "v \<in> lists ?b u \<longleftrightarrow> v \<in> lists adj u \<or> joins directed e u v"
      unfolding lists_def mb a using e by (auto simp: joins_def split: option.splits)
    then show ?thesis using A by blast
  qed
  moreover have "fst ` set ?b = {u. \<exists>v. (L u v \<or> joins directed e u v) \<or> (L v u \<or> joins directed e v u)}"
  proof -
    have k: "u \<in> fst ` set ?b \<longleftrightarrow> u \<in> fst ` set adj \<or> u = s \<or> u = t" for u
      unfolding keys_iff mb a by (auto split: option.splits)
    have j: "(\<exists>v. joins directed e u v \<or> joins directed e v u) \<longleftrightarrow> u = s \<or> u = t" for u
      using e by (auto simp: joins_def)
    have o: "u \<in> fst ` set adj \<longleftrightarrow> (\<exists>v. L u v \<or> L v u)" for u using A by simp
    show ?thesis
      by (rule set_eqI, unfold k o mem_Collect_eq, use j in blast)
  qed
  ultimately show ?thesis by (simp add: adj_ok_def)
qed

definition linked :: "bool \<Rightarrow> gmodel \<Rightarrow> string \<Rightarrow> string \<Rightarrow> bool" where
  "linked directed m u v \<longleftrightarrow> (\<exists>e \<in> set (getEdges m). joins directed e u v)"

lemma adjacencyList_ok: "adj_ok (adjacencyList directed m) (linked directed m)"
proof -
  have "adj_ok (fold (adjacency_step directed) es adj) (\<lambda>u v. L u v \<or> (\<exists>e \<in> set es. joins directed e u v))"
    if "adj_ok adj L" for es adj L
    using that
  proof (induction es arbitrary: adj L)
    case (Cons e es)
    from Cons.IH [OF adjacency_step_ok [OF Cons.prems, of directed e]] show ?case by (simp add: disj_assoc)
  qed simp
  from this [of "[]" "\<lambda>_ _. False" "getEdges m"]
  have F: "adj_ok (fold (adjacency_step directed) (getEdges m) []) (linked directed m)"
    by (simp add: adj_ok_def lists_def linked_def)
  let ?f = "fold (adjacency_step directed) (getEdges m) []"
  have k: "set (key_order (map fst ?f)) = fst ` set ?f" by simp
  have mo: "map_of (adjacencyList directed m) u = map_of ?f u" for u
  proof (cases "u \<in> fst ` set ?f")
    case True
    then obtain ns where "map_of ?f u = Some ns" by (cases "map_of ?f u") (simp_all add: keys_iff)
    then show ?thesis
      using True unfolding adjacencyList_def Let_def map_of_map_restrict by (simp add: restrict_map_def)
  next
    case False
    then have "map_of ?f u = None" by (simp add: map_of_eq_None_iff)
    moreover have "u \<notin> fst ` set (adjacencyList directed m)"
      using False by (simp add: adjacencyList_def Let_def image_image)
    ultimately show ?thesis by (metis map_of_eq_None_iff)
  qed
  have "distinct (map fst (adjacencyList directed m))"
    using F by (simp add: adjacencyList_def Let_def comp_def adj_ok_def)
  moreover have "lists (adjacencyList directed m) = lists ?f" by (simp add: lists_def [abs_def] mo)
  moreover have "fst ` set (adjacencyList directed m) = fst ` set ?f"
    by (simp add: adjacencyList_def Let_def image_image)
  ultimately show ?thesis using F by (simp add: adj_ok_def)
qed

lemma adjacencyList_edge: "edge (adjacencyList directed m) = linked directed m"
proof (intro ext)
  fix u v
  note A = adjacencyList_ok [of directed m, unfolded adj_ok_def]
  have "edge (adjacencyList directed m) u v \<longleftrightarrow>
      v \<in> lists (adjacencyList directed m) u \<and> v \<in> fst ` set (adjacencyList directed m)"
    by (auto simp: edge_def lists_def split: option.splits)
  then show "edge (adjacencyList directed m) u v = linked directed m u v" using A by blast
qed

section \<open>Shortest paths\<close>

text \<open>C3: For non-negative weights and a source at which an edge begins or ends, \<open>getShortestPath\<close>
  returns. The answer is empty exactly when the target is the source or cannot be reached; otherwise
  it is a route along edges of the model from the source to the target, and no route between them
  weighs less.\<close>

theorem shortest_path_exact:
  assumes "\<And>u v. linked directed m u v \<Longrightarrow> 0 \<le> w u v"
    and "\<exists>v. linked directed m s v \<or> linked directed m v s"
  shows "\<exists>p. getShortestPath s t directed w m = Some p \<and>
    (p = [] \<longleftrightarrow> t = s \<or> \<not> (\<exists>q. route (linked directed m) s t q)) \<and>
    (p \<noteq> [] \<longrightarrow> route (linked directed m) s t p \<and>
       (\<forall>q. route (linked directed m) s t q \<longrightarrow> path_cost w p \<le> path_cost w q))"
proof -
  let ?adj = "adjacencyList directed m"
  note A = adjacencyList_ok [of directed m, unfolded adj_ok_def]
  note E = adjacencyList_edge [of directed m]
  have ne: "u \<noteq> [] \<and> v \<noteq> []" if "linked directed m u v" for u v using that by (auto simp: linked_def joins_def)
  have "dijkstra_ready ?adj s w"
    unfolding dijkstra_ready_def
  proof (intro conjI)
    show "\<forall>(u, ns) \<in> set ?adj. \<forall>v \<in> set ns. 0 \<le> w u v"
    proof (clarify)
      fix u ns v assume "(u, ns) \<in> set ?adj" "v \<in> set ns"
      then have "v \<in> lists ?adj u" using A by (simp add: lists_def)
      then show "0 \<le> w u v" using A assms(1) by blast
    qed
    show "[] \<notin> fst ` set ?adj" using A ne by blast
  qed (use A assms(2) in blast)+
  then obtain prev where prev: "dijkstra ?adj s w = Some prev" "shortest_tree ?adj w s prev"
    using dijkstra_result by blast
  note T = prev(2)[unfolded shortest_tree_def]
  have s: "prev s = None" using T by blast
  have reach: "(\<exists>q. route (linked directed m) s v q) \<longleftrightarrow> (\<exists>c. walk ?adj w s v c)" for v
    using walk_route [of ?adj w s v] route_walk [of ?adj s v _ w] unfolding E by blast
  have tr: "\<exists>xs. trail prev s v xs \<and> route (linked directed m) s v xs \<and>
      (\<forall>q. route (linked directed m) s v q \<longrightarrow> path_cost w xs \<le> path_cost w q)" if "walk ?adj w s v c" for v c
  proof -
    have "\<exists>d. back_walk ?adj w s prev v d \<and> (\<forall>c. walk ?adj w s v c \<longrightarrow> d \<le> c)" using T that by blast
    then obtain d where d: "back_walk ?adj w s prev v d" "\<And>c. walk ?adj w s v c \<Longrightarrow> d \<le> c" by blast
    from back_walk_trail [OF d(1)] show ?thesis using d(2) route_walk [of ?adj s v _ w] unfolding E by metis
  qed
  have pn: "prev v \<noteq> Some []" for v
  proof
    assume v: "prev v = Some []"
    then obtain c where "walk ?adj w s v c" using T by auto
    then obtain xs where xs: "trail prev s v xs" "route (linked directed m) s v xs" using tr by blast
    from xs(1) show False
    proof (cases rule: trail.cases)
      case (trail_step u ys)
      then have "linked directed m (last ys) v" "last ys = u"
        using xs(2) trail_ends [of prev s u ys] by (auto simp: route_def successively_append_iff)
      then show False using v trail_step ne by auto
    qed (use s v in auto)
  qed
  let ?p0 = "case prev t of None \<Rightarrow> [] | Some p \<Rightarrow> if p = [] then [] else [t]"
  have g: "getShortestPath s t directed w m = path_back (length ?adj) prev t ?p0"
    by (simp add: getShortestPath_def prev(1))
  show ?thesis
  proof (cases "prev t")
    case None
    have "t = s \<or> \<not> (\<exists>q. route (linked directed m) s t q)"
    proof (rule ccontr)
      assume n: "\<not> ?thesis"
      then obtain c where "walk ?adj w s t c" using reach by blast
      then obtain xs where "trail prev s t xs" using tr by blast
      then show False using None n by (cases rule: trail.cases) auto
    qed
    then show ?thesis using None by (simp add: g path_back.simps)
  next
    case (Some u)
    then obtain c where c: "walk ?adj w s t c" using T by auto
    from tr [OF c] obtain xs where xs: "trail prev s t xs" "route (linked directed m) s t xs"
      "\<forall>q. route (linked directed m) s t q \<longrightarrow> path_cost w xs \<le> path_cost w q" by blast
    have "set xs \<subseteq> fst ` set ?adj"
    proof -
      have K: "trail prev s v ys \<Longrightarrow> route (linked directed m) s v ys \<Longrightarrow> set ys \<subseteq> {u. \<exists>v. linked directed m u v \<or> linked directed m v u}" for v ys
      proof (induction rule: trail.induct)
        case trail_start
        then show ?case using assms(2) by auto
      next
        case (trail_step v u ys)
        have y: "ys \<noteq> []" "last ys = u" "hd ys = s" using trail_ends [OF trail_step.hyps(2)] by auto
        then have "route (linked directed m) s u ys" "linked directed m u v"
          using trail_step.prems by (auto simp: route_def successively_append_iff)
        then show ?case using trail_step.IH by auto
      qed
      show ?thesis using K [OF xs(1,2)] A by simp
    qed
    moreover have "distinct xs" using trail_distinct [OF xs(1) s] .
    ultimately have "length xs \<le> length ?adj"
      by (metis card_image_le card_length card_mono distinct_card finite_imageI finite_set le_trans)
    moreover have "u \<noteq> []" using Some pn by auto
    ultimately have "getShortestPath s t directed w m = Some (butlast xs @ [t])"
      using path_back_trail [OF s pn xs(1), of "length ?adj" "[t]"] Some by (simp add: g)
    moreover have "butlast xs @ [t] = xs" using trail_ends [OF xs(1)] by (metis append_butlast_last_id)
    moreover have "xs \<noteq> []" using trail_ends [OF xs(1)] by simp
    moreover have "t \<noteq> s" using Some s by auto
    ultimately show ?thesis using xs by auto
  qed
qed

lemma shortest_path_exact_witness:
  "route (linked True ex_triangle) ''a'' ''c'' [''a'', ''c''] \<and>
   path_cost (\<lambda>_ _. 1) [''a'', ''c''] \<le> path_cost (\<lambda>_ _. 1) [''a'', ''b'', ''c'']"
proof -
  have L: "linked True ex_triangle ''a'' ''b''" "linked True ex_triangle ''b'' ''c''"
    unfolding linked_def by code_simp+
  then have "\<exists>v. linked True ex_triangle ''a'' v \<or> linked True ex_triangle v ''a''" by blast
  from shortest_path_exact [OF _ this, of "\<lambda>_ _. 1" "''c''"]
  have "route (linked True ex_triangle) ''a'' ''c'' [''a'', ''c'']"
    "\<And>q. route (linked True ex_triangle) ''a'' ''c'' q \<Longrightarrow> path_cost (\<lambda>_ _. 1) [''a'', ''c''] \<le> path_cost (\<lambda>_ _. 1) q"
    by (simp_all add: shortest_path_example)
  moreover have "route (linked True ex_triangle) ''a'' ''c'' [''a'', ''b'', ''c'']"
    using L by (simp add: route_def)
  ultimately show ?thesis by blast
qed

end
