(* ===== verification/Graph_Layout.thy ===== *)
theory Graph_Layout
  imports Prelude
begin

text \<open>
  The layouts of the editor (\<open>handleLayout\<close> of X6Editor.vue in web/static/cyeditor.common.js): the
  grid, and the layered layout that the toolbar calls DAG. A graph is its list of distinct node ids
  and its list of edges as source and target ids. The square root of a node count is exact enough
  for its ceiling to be the least number whose square is not smaller. Coordinates are integers:
  the total width of a layer is a multiple of 180. The circular layout (cosines) is left out.
\<close>

section \<open>Grid\<close>

function ceil_sqrt_from :: "nat \<Rightarrow> nat \<Rightarrow> nat" where
  "ceil_sqrt_from k n = (if n \<le> k * k then k else ceil_sqrt_from (k + 1) n)"
  by pat_completeness auto
termination
proof (relation "measure (\<lambda>(k, n). n - k)")
  fix k n :: nat
  assume "\<not> n \<le> k * k"
  then have "k < n" by (cases "k = 0") (auto simp: not_le intro: le_less_trans [of k "k * k"])
  then show "((k + 1, n), (k, n)) \<in> measure (\<lambda>(k, n). n - k)" by simp
qed simp

declare ceil_sqrt_from.simps [simp del]

definition grid_layout :: "string list \<Rightarrow> (string \<times> int \<times> int) list" where
  "grid_layout nodes =
     (let cols = ceil_sqrt_from 0 (length nodes); sep = 180
      in map (\<lambda>(i, node). (node, int (i mod cols) * sep + 50, int (i div cols) * sep + 50)) (enumerate 0 nodes))"

lemma ceil_sqrt_from_ge: "n \<le> ceil_sqrt_from k n * ceil_sqrt_from k n"
  by (induction k n rule: ceil_sqrt_from.induct) (simp add: ceil_sqrt_from.simps)

lemma ceil_sqrt_from_least: "(\<And>j. j < k \<Longrightarrow> j * j < n) \<Longrightarrow> j < ceil_sqrt_from k n \<Longrightarrow> j * j < n"
proof (induction k n rule: ceil_sqrt_from.induct)
  case (1 k n)
  show ?case
  proof (cases "n \<le> k * k")
    case True
    then show ?thesis using 1 by (simp add: ceil_sqrt_from.simps)
  next
    case False
    then have "\<And>j. j < k + 1 \<Longrightarrow> j * j < n" using "1.prems"(1) by (auto simp: less_Suc_eq)
    then show ?thesis using "1.IH" [OF False] "1.prems"(2) False by (simp add: ceil_sqrt_from.simps [of k n])
  qed
qed

lemma grid_cell_inj:
  assumes "i < n" "j < n" "i \<noteq> j"
  shows "(int (i mod ceil_sqrt_from 0 n) * 180 + 50, int (i div ceil_sqrt_from 0 n) * 180 + 50) \<noteq>
    (int (j mod ceil_sqrt_from 0 n) * 180 + 50, int (j div ceil_sqrt_from 0 n) * 180 + (50 :: int))"
  using assms by simp (metis div_mult_mod_eq)

lemma grid_row_bound:
  assumes "i < n"
  shows "i div ceil_sqrt_from 0 n < ceil_sqrt_from 0 n"
  using assms ceil_sqrt_from_ge [of n 0] by (metis less_le_trans less_mult_imp_div_less)

text \<open>The grid layout gives the nodes distinct cells of a square: columns and rows both range
  below the rounded-up root of the number of nodes, which is the smallest square that can hold
  them, so two nodes never overlap.\<close>

lemma grid_layout_square:
  "map fst (grid_layout nodes) = nodes \<and> distinct (map snd (grid_layout nodes)) \<and>
   (let c = ceil_sqrt_from 0 (length nodes)
    in c * c \<ge> length nodes \<and> (\<forall>k. k * k \<ge> length nodes \<longrightarrow> c \<le> k) \<and>
       snd ` set (grid_layout nodes) \<subseteq> (\<lambda>(a, b). (int a * 180 + 50, int b * 180 + 50)) ` ({..<c} \<times> {..<c}))"
proof -
  let ?n = "length nodes"
  let ?c = "ceil_sqrt_from 0 ?n"
  let ?p = "\<lambda>i. (int (i mod ?c) * 180 + 50, int (i div ?c) * 180 + (50 :: int))"
  have len: "length (grid_layout nodes) = ?n" by (simp add: grid_layout_def Let_def)
  have nth: "grid_layout nodes ! i = (nodes ! i, ?p i)" if "i < ?n" for i
    using that by (simp add: grid_layout_def Let_def nth_enumerate_eq)
  have "map fst (grid_layout nodes) = nodes" by (rule nth_equalityI) (simp_all add: len nth)
  moreover have "distinct (map snd (grid_layout nodes))"
    unfolding distinct_conv_nth using grid_cell_inj [of _ ?n] by (simp add: len nth)
  moreover have "c \<le> k" if "c = ?c" "k * k \<ge> ?n" for c k
    using ceil_sqrt_from_least [of 0 ?n k] that by (meson not_less not_less0)
  moreover have "snd ` set (grid_layout nodes) \<subseteq> (\<lambda>(a, b). (int a * 180 + 50, int b * 180 + 50)) ` ({..<?c} \<times> {..<?c})"
  proof
    fix x assume "x \<in> snd ` set (grid_layout nodes)"
    then obtain i where i: "i < ?n" "x = ?p i" by (auto simp: in_set_conv_nth len nth)
    then have "?c \<noteq> 0" using grid_row_bound [OF i(1)] by auto
    then show "x \<in> (\<lambda>(a, b). (int a * 180 + 50, int b * 180 + 50)) ` ({..<?c} \<times> {..<?c})"
      using i grid_row_bound [OF i(1)] by (auto intro!: image_eqI [of _ _ "(i mod ?c, i div ?c)"])
  qed
  ultimately show ?thesis using ceil_sqrt_from_ge [of ?n 0] by (simp add: Let_def)
qed

lemma grid_layout_square_witness:
  "distinct (map snd (grid_layout [''a'', ''b'', ''c''])) \<and> ceil_sqrt_from 0 (length [''a'', ''b'', ''c'']) \<le> 2"
proof -
  note l = grid_layout_square [of "[''a'', ''b'', ''c'']", unfolded Let_def]
  then have "length [''a'', ''b'', ''c''] \<le> k * k \<longrightarrow> ceil_sqrt_from 0 (length [''a'', ''b'', ''c'']) \<le> k" for k
    by blast
  from this [of 2] show ?thesis using l by simp
qed

section \<open>Layers by breadth-first search\<close>

type_synonym edges = "(string \<times> string) list"

text \<open>
  The nodes without incoming edges, with the first node instead when there is none. A visited node
  is never visited again; the \<open>Map\<close> of layers keeps the order in which the nodes were taken from the
  queue.
\<close>

definition layer_roots :: "string list \<Rightarrow> edges \<Rightarrow> string list" where
  "layer_roots nodes es =
     (let roots = filter (\<lambda>n. n \<notin> set (map snd es)) nodes
      in if roots = [] \<and> nodes \<noteq> [] then [hd nodes] else roots)"

fun visit_target :: "nat \<Rightarrow> string \<Rightarrow> string list \<times> (string \<times> nat) list \<Rightarrow> string list \<times> (string \<times> nat) list" where
  "visit_target level t (visited, queue) =
     (if t \<notin> set visited then (visited @ [t], queue @ [(t, level + 1)]) else (visited, queue))"

definition out_targets :: "edges \<Rightarrow> string \<Rightarrow> string list" where
  "out_targets es u = map snd (filter (\<lambda>e. fst e = u) es)"

lemma set_out_targets [simp]: "set (out_targets es u) = {v. (u, v) \<in> set es}"
  by (force simp: out_targets_def)

text \<open>What a round of visits adds: the unvisited targets, once each and in order.\<close>

fun fresh_targets :: "string list \<Rightarrow> string list \<Rightarrow> string list" where
  "fresh_targets visited [] = []"
| "fresh_targets visited (t # ts) =
     (if t \<in> set visited then fresh_targets visited ts else t # fresh_targets (visited @ [t]) ts)"

lemma fold_visit_target:
  "fold (visit_target level) ts (visited, queue) =
     (visited @ fresh_targets visited ts, queue @ map (\<lambda>t. (t, level + 1)) (fresh_targets visited ts))"
  by (induction ts arbitrary: visited queue) auto

lemma fresh_targets_set: "set (fresh_targets visited ts) = set ts - set visited"
  by (induction ts arbitrary: visited) auto

lemma fresh_targets_distinct: "distinct (fresh_targets visited ts)"
  by (induction ts arbitrary: visited) (auto simp: fresh_targets_set)

function bfs :: "edges \<Rightarrow> string list \<Rightarrow> (string \<times> nat) list \<Rightarrow> (string \<times> nat) list \<Rightarrow> string list \<times> (string \<times> nat) list" where
  "bfs es visited queue layers =
     (case queue of
        [] \<Rightarrow> (visited, layers)
      | (u, level) # rest \<Rightarrow>
          (let (visited', queue') = fold (visit_target level) (out_targets es u) (visited, rest)
           in bfs es visited' queue' (map_put layers u level)))"
  by pat_completeness auto
termination
proof (relation "measure (\<lambda>(es, visited, queue, layers). card (snd ` set es - set visited) + length queue)", simp)
  fix es :: edges and visited queue layers x rest u level z visited' queue'
  assume a: "queue = x # rest" "(u, level) = x"
    "z = fold (visit_target level) (out_targets es u) (visited, rest)" "(visited', queue') = z"
  let ?new = "fresh_targets visited (out_targets es u)"
  have v: "visited' = visited @ ?new" and q: "length queue' = length rest + length ?new"
    using a by (simp_all add: fold_visit_target)
  have sub: "set ?new \<subseteq> snd ` set es - set visited" by (force simp: fresh_targets_set)
  have "length ?new = card (set ?new)" by (simp add: distinct_card fresh_targets_distinct)
  moreover have "snd ` set es - set visited' = snd ` set es - set visited - set ?new" by (auto simp: v)
  ultimately have "card (snd ` set es - set visited') + length ?new = card (snd ` set es - set visited)"
    using sub by (simp add: card_Diff_subset card_mono)
  then show "((es, visited', queue', map_put layers u level), es, visited, queue, layers)
      \<in> measure (\<lambda>(es, visited, queue, layers). card (snd ` set es - set visited) + length queue)"
    using a(1) q by simp
qed

declare bfs.simps [simp del]

definition dagre_layers :: "string list \<Rightarrow> edges \<Rightarrow> (string \<times> nat) list" where
  "dagre_layers nodes es =
     (let roots = layer_roots nodes es;
          (visited, layers) = bfs es roots (map (\<lambda>n. (n, 0)) roots) []
      in fold (\<lambda>n m. if n \<notin> set visited then map_put m n 0 else m) nodes layers)"

definition level_groups :: "(string \<times> nat) list \<Rightarrow> (nat \<times> string list) list" where
  "level_groups layers =
     fold (\<lambda>(n, level) g. map_put g level ((case map_of g level of None \<Rightarrow> [] | Some ns \<Rightarrow> ns) @ [n])) layers []"

text \<open>The ids on the levels are those of nodes and of the ends of edges. The code looks each of them up
  and positions what it finds: an id of no cell is passed over, as here; an edge at whose end another
  edge hangs has no method \<open>position\<close> and would make the code throw, but the editor connects edges to
  nodes alone, so the ends that are not nodes are left out.\<close>

definition dagre_layout :: "string list \<Rightarrow> edges \<Rightarrow> (string \<times> int \<times> int) list" where
  "dagre_layout nodes es =
     concat (map (\<lambda>(level, ns).
         (let startX = 400 - 90 * int (length ns)
          in map (\<lambda>(i, n). (n, startX + int i * 180, int level * 150 + 50))
               (filter (\<lambda>(i, n). n \<in> set nodes) (enumerate 0 ns))))
       (level_groups (dagre_layers nodes es)))"

section \<open>The search computes distances\<close>

inductive path_from :: "string set \<Rightarrow> edges \<Rightarrow> string \<Rightarrow> nat \<Rightarrow> bool" for R es where
  path_root: "r \<in> R \<Longrightarrow> path_from R es r 0"
| path_edge: "path_from R es u k \<Longrightarrow> (u, v) \<in> set es \<Longrightarrow> path_from R es v (Suc k)"

definition bfs_inv :: "string list \<Rightarrow> edges \<Rightarrow> string list \<Rightarrow> (string \<times> nat) list \<Rightarrow> (string \<times> nat) list \<Rightarrow> bool" where
  "bfs_inv roots es visited queue layers \<longleftrightarrow>
     map fst (layers @ queue) = visited \<and> distinct visited \<and>
     sorted (map snd (layers @ queue)) \<and>
     (\<forall>(x, l) \<in> set queue. l \<le> snd (hd queue) + 1) \<and>
     (\<forall>(u, l) \<in> set layers. \<forall>v. (u, v) \<in> set es \<longrightarrow> (\<exists>m \<le> l + 1. (v, m) \<in> set (layers @ queue))) \<and>
     (\<forall>(v, m) \<in> set (layers @ queue). path_from (set roots) es v m) \<and>
     (\<forall>r \<in> set roots. (r, 0) \<in> set (layers @ queue))"

lemma sorted_map_const [simp]: "sorted (map (\<lambda>x. c) xs)"
  by (induction xs) auto

lemma bfs_inv_step:
  assumes "bfs_inv roots es visited ((u, level) # rest) layers"
    and "fold (visit_target level) (out_targets es u) (visited, rest) = (visited', queue')"
  shows "bfs_inv roots es visited' queue' (map_put layers u level)"
proof -
  note i = assms(1) [unfolded bfs_inv_def]
  let ?new = "fresh_targets visited (out_targets es u)"
  let ?add = "map (\<lambda>t. (t, level + 1)) ?new"
  have v: "visited' = visited @ ?new" and q: "queue' = rest @ ?add"
    using assms(2) by (simp_all add: fold_visit_target)
  have "distinct (map fst (layers @ (u, level) # rest))" using i by metis
  then have "u \<notin> fst ` set layers" by simp
  then have lay: "map_put layers u level = layers @ [(u, level)]" by (rule map_put_fresh)
  have all: "map_put layers u level @ queue' = (layers @ (u, level) # rest) @ ?add" by (simp add: lay q)
  have ids: "map fst ?add = ?new" by (simp add: comp_def)
  have le: "l \<le> level + 1" if "(x, l) \<in> set (layers @ (u, level) # rest)" for x l
    using that i by (fastforce simp: sorted_append)
  have seen: "\<exists>m \<le> level + 1. (w, m) \<in> set (map_put layers u level @ queue')" if e: "(u, w) \<in> set es" for w
  proof (cases "w \<in> set visited")
    case True
    then obtain m where "(w, m) \<in> set (layers @ (u, level) # rest)" using i by force
    then show ?thesis using le unfolding all by auto
  next
    case False
    then have "(w, level + 1) \<in> set ?add" using e by (auto simp: fresh_targets_set)
    then show ?thesis unfolding all by auto
  qed
  show ?thesis
    unfolding bfs_inv_def
  proof (intro conjI)
    show "map fst (map_put layers u level @ queue') = visited'" unfolding all v using i ids by simp
    show "distinct visited'" using i fresh_targets_distinct by (auto simp: v fresh_targets_set)
    show "sorted (map snd (map_put layers u level @ queue'))"
      unfolding all using i le by (auto simp: sorted_append comp_def)
    show "\<forall>(x, l) \<in> set queue'. l \<le> snd (hd queue') + 1"
    proof (cases rest)
      case Nil
      then show ?thesis by (cases ?new) (auto simp: q)
    next
      case (Cons y ys)
      have "level \<le> snd y" using i Cons by (auto simp: sorted_append)
      then show ?thesis using i Cons by (fastforce simp: q)
    qed
    show "\<forall>(x, l) \<in> set (map_put layers u level). \<forall>w. (x, w) \<in> set es \<longrightarrow>
        (\<exists>m \<le> l + 1. (w, m) \<in> set (map_put layers u level @ queue'))"
      using i seen unfolding all unfolding lay by fastforce
    have "path_from (set roots) es u level" using i by auto
    then have "path_from (set roots) es w (level + 1)" if "(u, w) \<in> set es" for w
      using that path_from.path_edge by fastforce
    then have "\<forall>(x, m) \<in> set ?add. path_from (set roots) es x m" by (auto simp: fresh_targets_set)
    then show "\<forall>(x, m) \<in> set (map_put layers u level @ queue'). path_from (set roots) es x m"
      unfolding all set_append using i by fastforce
    show "\<forall>r \<in> set roots. (r, 0) \<in> set (map_put layers u level @ queue')" unfolding all using i by auto
  qed
qed

lemma bfs_inv_run:
  assumes "bfs_inv roots es visited queue layers" and "bfs es visited queue layers = (visited', layers')"
  shows "bfs_inv roots es visited' [] layers'"
  using assms
proof (induction es visited queue layers rule: bfs.induct)
  case (1 es visited queue layers)
  show ?case
  proof (cases queue)
    case Nil
    then show ?thesis using "1.prems" by (simp add: bfs.simps [of es visited])
  next
    case (Cons x rest)
    obtain u level where x: "x = (u, level)" by (cases x)
    obtain vis q where step: "fold (visit_target level) (out_targets es u) (visited, rest) = (vis, q)"
      by (cases "fold (visit_target level) (out_targets es u) (visited, rest)")
    have "bfs_inv roots es vis q (map_put layers u level)"
      using bfs_inv_step [OF _ step] "1.prems"(1) Cons x by simp
    moreover have "bfs es vis q (map_put layers u level) = (visited', layers')"
      using "1.prems"(2) Cons x step by (simp add: bfs.simps [of es visited])
    ultimately show ?thesis using "1.IH" [OF Cons x [symmetric] step [symmetric] refl] by blast
  qed
qed

lemma bfs_done:
  assumes "bfs_inv roots es visited [] layers"
  shows "path_from (set roots) es v k \<Longrightarrow> \<exists>m \<le> k. (v, m) \<in> set layers"
proof (induction rule: path_from.induct)
  case (path_root r)
  then show ?case using assms by (auto simp: bfs_inv_def)
next
  case (path_edge u k v)
  then obtain m where m: "m \<le> k" "(u, m) \<in> set layers" by blast
  then obtain m' where "m' \<le> m + 1" "(v, m') \<in> set layers"
    using assms path_edge(2) unfolding bfs_inv_def by fastforce
  then show ?case using m by (auto intro: exI [of _ m'])
qed


lemma layer_roots_subset: "set (layer_roots nodes es) \<subseteq> set nodes"
  by (auto simp: layer_roots_def Let_def)

lemma bfs_result:
  assumes "distinct nodes" and "bfs es (layer_roots nodes es) (map (\<lambda>n. (n, 0)) (layer_roots nodes es)) [] = (visited, layers)"
  shows "bfs_inv (layer_roots nodes es) es visited [] layers"
proof (rule bfs_inv_run [OF _ assms(2)])
  have "distinct (layer_roots nodes es)" using assms(1) by (auto simp: layer_roots_def Let_def)
  moreover have "\<forall>n \<in> set (layer_roots nodes es). path_from (set (layer_roots nodes es)) es n 0"
    using path_from.path_root by blast
  ultimately show "bfs_inv (layer_roots nodes es) es (layer_roots nodes es) (map (\<lambda>n. (n, 0)) (layer_roots nodes es)) []"
    by (simp add: bfs_inv_def comp_def)
qed

lemma fold_default_layers:
  "distinct (map fst m) \<Longrightarrow> distinct (map fst (fold (\<lambda>n m. if n \<notin> V then map_put m n c else m) ns m))"
  "map_of (fold (\<lambda>n m. if n \<notin> V then map_put m n c else m) ns m) x =
     (if x \<in> set ns - V then Some c else map_of m x)"
  by (induction ns arbitrary: m) (auto simp: assoc.get_fold_put_if)

definition dagre_spec :: "string list \<Rightarrow> edges \<Rightarrow> bool" where
  "dagre_spec nodes es \<longleftrightarrow>
     (let R = set (layer_roots nodes es); m = dagre_layers nodes es
      in distinct (map fst m) \<and> (\<forall>n \<in> set nodes. map_of m n \<noteq> None) \<and>
         (\<forall>n k. path_from R es n k \<longrightarrow> (\<exists>d. map_of m n = Some d \<and> path_from R es n d \<and> d \<le> k)) \<and>
         (\<forall>n \<in> set nodes. (\<forall>k. \<not> path_from R es n k) \<longrightarrow> map_of m n = Some 0))"

lemma dagre_layers_spec:
  assumes "distinct nodes"
  shows "dagre_spec nodes es"
proof -
  let ?R = "layer_roots nodes es"
  obtain V L where b: "bfs es ?R (map (\<lambda>n. (n, 0)) ?R) [] = (V, L)" by fastforce
  note inv = bfs_result [OF assms b]
  have L: "map fst L = V" "distinct V" and P: "\<forall>(v, m) \<in> set L. path_from (set ?R) es v m"
    using inv by (auto simp: bfs_inv_def)
  let ?m = "fold (\<lambda>n m. if n \<notin> set V then map_put m n 0 else m) nodes L"
  have m: "dagre_layers nodes es = ?m" by (simp add: dagre_layers_def b Let_def)
  have f: "distinct (map fst ?m)" "\<And>x. map_of ?m x = (if x \<in> set nodes - set V then Some 0 else map_of L x)"
    using fold_default_layers [where V = "set V" and c = 0 and ns = nodes and m = L] L by simp_all
  have inL: "map_of L n = Some k \<longleftrightarrow> (n, k) \<in> set L" for n k using L map_of_eq_Some_iff by metis
  have vis: "n \<in> set V \<longleftrightarrow> (\<exists>k. (n, k) \<in> set L)" for n using L(1) by force
  have path: "\<exists>d. map_of ?m n = Some d \<and> path_from (set ?R) es n d \<and> d \<le> k" if p: "path_from (set ?R) es n k" for n k
  proof -
    obtain d where "d \<le> k" "(n, d) \<in> set L" using bfs_done [OF inv p] by blast
    then show ?thesis using f(2) vis inL P by auto
  qed
  have "map_of ?m n \<noteq> None" if "n \<in> set nodes" for n
    using that f(2) [of n] vis [of n] inL by auto
  moreover have "map_of ?m n = Some 0" if "n \<in> set nodes" "\<forall>k. \<not> path_from (set ?R) es n k" for n
  proof -
    have "n \<notin> set V" using that(2) vis P by blast
    then show ?thesis using that(1) f(2) by simp
  qed
  ultimately show ?thesis using f(1) path unfolding dagre_spec_def m Let_def by blast
qed

text \<open>C22: The layered layout terminates, gives every node a layer, and the layer of every node that can be
  reached from the roots is its distance from them (the length of a shortest path); nodes on
  unreachable cycles fall back to layer 0.\<close>

theorem dagre_layers_distance: "distinct nodes \<Longrightarrow> dagre_spec nodes es"
  by (rule dagre_layers_spec)

lemma dagre_layers_distance_witness: "dagre_spec [''a'', ''b'', ''c''] [(''a'', ''b''), (''b'', ''c''), (''a'', ''c'')]"
  by (rule dagre_layers_distance) simp

lemma dagre_layers_example:
  "dagre_layers [''a'', ''b'', ''c''] [(''a'', ''b''), (''b'', ''c''), (''a'', ''c'')] = [(''a'', 0), (''b'', 1), (''c'', 1)]"
  by code_simp

section \<open>Positions of the layers\<close>

lemma level_groups_members:
  "distinct (map fst (level_groups ls)) \<and>
   {n. (n, l) \<in> set ls} = (case map_of (level_groups ls) l of None \<Rightarrow> {} | Some ns \<Rightarrow> set ns)"
proof (induction ls rule: rev_induct)
  case Nil
  show ?case by (simp add: level_groups_def)
next
  case (snoc x ls)
  obtain n k where x: "x = (n, k)" by (cases x)
  have "level_groups (ls @ [x]) =
      map_put (level_groups ls) k ((case map_of (level_groups ls) k of None \<Rightarrow> [] | Some ns \<Rightarrow> ns) @ [n])"
    by (simp add: level_groups_def x)
  moreover have "{m. (m, l) \<in> set (ls @ [x])} = {m. (m, l) \<in> set ls} \<union> (if l = k then {n} else {})" by (auto simp: x)
  ultimately show ?case
    using snoc by (cases "l = k"; cases "map_of (level_groups ls) k") (simp_all del: map_of_eq_Some_iff set_append, simp)
qed

lemma dagre_layout_mem:
  "(n, x, y) \<in> set (dagre_layout nodes es) \<longleftrightarrow>
   (\<exists>l ns i. (l, ns) \<in> set (level_groups (dagre_layers nodes es)) \<and> i < length ns \<and> ns ! i = n \<and> n \<in> set nodes \<and>
      x = 400 - 90 * int (length ns) + int i * 180 \<and> y = int l * 150 + 50)"
  unfolding dagre_layout_def Let_def by (force simp: in_set_enumerate_eq)

text \<open>C23: The layered layout positions every node, and no two nodes at the same place.\<close>

theorem dagre_layout_no_overlap:
  assumes "distinct nodes"
  shows "fst ` set (dagre_layout nodes es) = set nodes \<and>
    (\<forall>n m p. (n, p) \<in> set (dagre_layout nodes es) \<and> (m, p) \<in> set (dagre_layout nodes es) \<longrightarrow> n = m)"
proof -
  let ?g = "level_groups (dagre_layers nodes es)"
  have dg: "distinct (map fst ?g)" using level_groups_members by blast
  have ex: "\<exists>p. (n, p) \<in> set (dagre_layout nodes es)" if n: "n \<in> set nodes" for n
  proof -
    obtain l where "map_of (dagre_layers nodes es) n = Some l"
      using dagre_layers_spec [OF assms, of es] n by (fastforce simp: dagre_spec_def Let_def)
    then have "(n, l) \<in> set (dagre_layers nodes es)" by (rule map_of_SomeD)
    then have "n \<in> (case map_of ?g l of None \<Rightarrow> {} | Some ns \<Rightarrow> set ns)"
      using level_groups_members [of "dagre_layers nodes es" l] by blast
    then obtain ns i where "(l, ns) \<in> set ?g" "i < length ns" "ns ! i = n"
      by (auto simp: in_set_conv_nth dest: map_of_SomeD split: option.splits)
    then have "(n, 400 - 90 * int (length ns) + int i * 180, int l * 150 + 50) \<in> set (dagre_layout nodes es)"
      unfolding dagre_layout_mem using n by blast
    then show ?thesis by blast
  qed
  have mem: "n \<in> set nodes" if "(n, p) \<in> set (dagre_layout nodes es)" for n p
    using that by (cases p) (auto simp: dagre_layout_mem)
  have uniq: "n = m" if np: "(n, p) \<in> set (dagre_layout nodes es)" "(m, p) \<in> set (dagre_layout nodes es)" for n m p
  proof -
    obtain x y where p: "p = (x, y)" by (cases p)
    obtain l ns i where a: "(l, ns) \<in> set ?g" "ns ! i = n" "x = 400 - 90 * int (length ns) + int i * 180" "y = int l * 150 + 50"
      using np(1) by (auto simp: p dagre_layout_mem)
    obtain l' ns' i' where b: "(l', ns') \<in> set ?g" "ns' ! i' = m" "x = 400 - 90 * int (length ns') + int i' * 180" "y = int l' * 150 + 50"
      using np(2) by (auto simp: p dagre_layout_mem)
    have "l = l'" using a(4) b(4) by simp
    then have "ns = ns'" using a(1) b(1) dg by (metis map_of_eq_Some_iff option.inject)
    then show ?thesis using a b by simp
  qed
  have "fst ` set (dagre_layout nodes es) = set nodes"
  proof
    show "fst ` set (dagre_layout nodes es) \<subseteq> set nodes" using mem by fastforce
    show "set nodes \<subseteq> fst ` set (dagre_layout nodes es)" using ex by force
  qed
  then show ?thesis using uniq by (intro conjI allI impI) (simp, elim conjE, rule uniq)
qed

lemma dagre_layout_no_overlap_witness:
  "fst ` set (dagre_layout [''a'', ''b'', ''c''] [(''a'', ''b''), (''a'', ''c'')]) = {''a'', ''b'', ''c''}"
  using dagre_layout_no_overlap [of "[''a'', ''b'', ''c'']" "[(''a'', ''b''), (''a'', ''c'')]"] by simp

end
