(* ===== verification/History.thy ===== *)
theory History
  imports Graph_Removal
begin

text \<open>
  The undo history of the editor (x6's plugin/history in web/static/cyeditor.common.js: util.js and
  class \<open>History\<close>). Commands are recorded from the model's events, singly or gathered in batches,
  and kept on an undo and a redo stack whose last element is the top. Executing a command acts on
  the graph model of \<open>Graph_Model\<close>. The commands in a batch are objects that later events update;
  here an update replaces the entry at its position. Recorded property values are the ends of
  edges, z indexes, or plain values; undefined is \<open>JUndef\<close>. Of a command's options only \<open>ui\<close> and
  \<open>dryrun\<close> matter to the history. Property names have no slash, and removing a cell does not take the
  cells embedded in it along, as \<open>Cell.remove\<close> does. The hooks \<open>beforeAddCommand\<close>, \<open>afterAddCommand\<close> and
  \<open>executeCommand\<close>, which the editor does not set, and changes of the model object itself, which no
  event carries, are left out.
\<close>

section \<open>Events and commands\<close>

datatype hevent = CellAdded | CellRemoved | CellChange string | OtherEvent string

definition isAddEvent :: "hevent option \<Rightarrow> bool" where
  "isAddEvent e \<longleftrightarrow> e = Some CellAdded"

definition isRemoveEvent :: "hevent option \<Rightarrow> bool" where
  "isRemoveEvent e \<longleftrightarrow> e = Some CellRemoved"

definition isChangeEvent :: "hevent option \<Rightarrow> bool" where
  "isChangeEvent e \<longleftrightarrow> (case e of Some (CellChange k) \<Rightarrow> True | _ \<Rightarrow> False)"

datatype pval = PEnd "string option" | PZ "int option" | PVal jv

record hcmd =
  hc_batch :: bool
  hc_event :: "hevent option"
  hc_id :: "string option"
  hc_cell :: "gcell option"
  hc_key :: string
  hc_prev :: pval
  hc_next :: pval
  hc_ui :: bool

datatype hentry = Single hcmd | Group "hcmd list"

definition createCommand :: "bool \<Rightarrow> hcmd" where
  "createCommand b = \<lparr>hc_batch = b, hc_event = None, hc_id = None, hc_cell = None, hc_key = [],
     hc_prev = PVal JUndef, hc_next = PVal JUndef, hc_ui = False\<rparr>"

section \<open>Reordering a batch\<close>

text \<open>
  An addition is moved to the place of the first earlier command on the same cell; the place is an
  index of the original list, used in the list built so far. The list built holds the commands
  themselves, which executing may update: here it is the list of their positions.
\<close>

definition sort_batch_step :: "hcmd list \<Rightarrow> nat \<Rightarrow> nat list \<Rightarrow> nat list" where
  "sort_batch_step cmds i results =
     (let cmd = cmds ! i;
          index = (if isAddEvent (hc_event cmd)
                   then index_of (\<lambda>c. hc_id c = hc_id cmd) (take i cmds) else -1)
      in if index \<ge> 0 then splice_insert index [i] results else results @ [i])"

definition sortBatchCommands :: "hcmd list \<Rightarrow> nat list" where
  "sortBatchCommands cmds = fold (sort_batch_step cmds) [0..<length cmds] []"

section \<open>Executing commands\<close>

definition cell_props_set :: "string \<Rightarrow> jv \<Rightarrow> gcell \<Rightarrow> gcell" where
  "cell_props_set key v c =
     (if nullish v then c\<lparr>gc_props := odel (gc_props c) key\<rparr> else c\<lparr>gc_props := oset (gc_props c) key v\<rparr>)"

text \<open>\<open>cell.prop(key, value)\<close>, with the re-sorting that a change of the z index triggers.\<close>

definition cell_prop :: "string \<Rightarrow> string \<Rightarrow> pval \<Rightarrow> gmodel \<Rightarrow> gmodel" where
  "cell_prop i key v m =
     (case v of
        PEnd t \<Rightarrow> if key = ''source'' then setSource i t m else if key = ''target'' then setTarget i t m else m
      | PZ z \<Rightarrow>
          (case getCell i m of
             None \<Rightarrow> m
           | Some c \<Rightarrow> if gc_z c = z then m
                       else m\<lparr>gm_coll := coll_sort (coll_update i (\<lambda>c. c\<lparr>gc_z := z\<rparr>) (gm_coll m))\<rparr>)
      | PVal v \<Rightarrow> m\<lparr>gm_coll := coll_update i (cell_props_set key v) (gm_coll m)\<rparr>)"

text \<open>
  Undefined entries for the attributes that the new value lacks, so that rendering removes them,
  and the flag that asks for it. The flag of a nested value replaces the one found so far; null counts
  as nested. An object compared with an array is left as it is.
\<close>

definition object_typed :: "jv \<Rightarrow> bool" where
  "object_typed v \<longleftrightarrow> (case v of JNull \<Rightarrow> True | JArr _ \<Rightarrow> True | JObj _ \<Rightarrow> True | _ \<Rightarrow> False)"

fun ensureUndefinedAttrs :: "jv \<Rightarrow> jv \<Rightarrow> jv \<times> bool"
  and ensure_keys :: "obj \<Rightarrow> obj \<Rightarrow> bool \<Rightarrow> obj \<times> bool"
  and ensure_elems :: "jv list \<Rightarrow> jv list \<Rightarrow> bool \<Rightarrow> jv list \<times> bool" where
  "ensureUndefinedAttrs newAttrs (JObj old) =
     (case newAttrs of
        JObj n \<Rightarrow> (let (n', flag) = ensure_keys old n False in (JObj n', flag))
      | _ \<Rightarrow> (newAttrs, False))"
| "ensureUndefinedAttrs newAttrs (JArr old) =
     (case newAttrs of
        JArr n \<Rightarrow> (let (n', flag) = ensure_elems old n False in (JArr n', flag))
      | _ \<Rightarrow> (newAttrs, False))"
| "ensureUndefinedAttrs newAttrs _ = (newAttrs, False)"
| "ensure_keys [] n flag = (n, flag)"
| "ensure_keys ((key, ov) # rest) n flag =
     (if oget n key = JUndef \<and> ov \<noteq> JUndef then ensure_keys rest (oset n key JUndef) True
      else if object_typed (oget n key) \<and> object_typed ov then
        (let (v, f) = ensureUndefinedAttrs (oget n key) ov in ensure_keys rest (oset n key v) f)
      else ensure_keys rest n flag)"
| "ensure_elems [] n flag = (n, flag)"
| "ensure_elems (ov # rest) [] flag =
     (let (vs, f) = ensure_elems rest [] (flag \<or> ov \<noteq> JUndef)
      in (if ov = JUndef \<and> vs = [] then [] else JUndef # vs, f))"
| "ensure_elems (ov # rest) (v # vs) flag =
     (if v = JUndef \<and> ov \<noteq> JUndef then (let (vs', f) = ensure_elems rest vs True in (v # vs', f))
      else if object_typed v \<and> object_typed ov then
        (let (v', f) = ensureUndefinedAttrs v ov; (vs', f') = ensure_elems rest vs f in (v' # vs', f'))
      else (let (vs', f) = ensure_elems rest vs flag in (v # vs', f)))"

text \<open>The flag is lost when a nested object comes after a removed attribute: the change from
  \<open>{a: 1, b: {}}\<close> to \<open>{b: {}}\<close> removes \<open>a\<close> and reports that nothing was removed.\<close>

lemma undefined_attr_flag_lost:
  "ensureUndefinedAttrs (JObj [(''b'', JObj [])]) (JObj [(''a'', JNum 1), (''b'', JObj [])]) =
     (JObj [(''b'', JObj []), (''a'', JUndef)], False)"
  by (simp add: object_typed_def)

text \<open>
  A change of the attributes first gives the value of the command those undefined entries; the value
  is the command's own object, which keeps them. The flag that asks for a new rendering is not part
  of the model, and it is left out here.
\<close>

definition command_value :: "hcmd \<Rightarrow> bool \<Rightarrow> pval" where
  "command_value cmd revert =
     (let value = (if revert then hc_prev cmd else hc_next cmd); old = (if revert then hc_next cmd else hc_prev cmd)
      in if hc_key cmd = ''attrs''
         then (case (value, old) of
                 (PVal v, PVal w) \<Rightarrow> PVal (fst (ensureUndefinedAttrs v w))
               | _ \<Rightarrow> value)
         else value)"

definition executeCommand :: "hcmd \<Rightarrow> bool \<Rightarrow> gmodel \<Rightarrow> hcmd \<times> gmodel" where
  "executeCommand cmd revert m =
     (let ev = hc_event cmd;
          cell = (case hc_id cmd of None \<Rightarrow> None | Some i \<Rightarrow> getCell i m)
      in if isAddEvent ev \<and> revert \<or> isRemoveEvent ev \<and> \<not> revert
         then (cmd, case cell of None \<Rightarrow> m | Some c \<Rightarrow> removeCell False (gc_id c) m)
         else if isAddEvent ev \<and> \<not> revert \<or> isRemoveEvent ev \<and> revert
         then (cmd, case hc_cell cmd of None \<Rightarrow> m | Some c \<Rightarrow> addCell c m)
         else if isChangeEvent ev
         then (case cell of
                 None \<Rightarrow> (cmd, m)
               | Some c \<Rightarrow>
                   if hc_key cmd = [] then (cmd, m)
                   else (let value = command_value cmd revert
                         in (if revert then cmd\<lparr>hc_prev := value\<rparr> else cmd\<lparr>hc_next := value\<rparr>,
                             cell_prop (gc_id c) (hc_key cmd) value m)))
         else (cmd, m))"

text \<open>The commands of an entry, in their order and back; the entry with the commands executed.\<close>

definition execute_at :: "bool \<Rightarrow> nat \<Rightarrow> hcmd list \<times> gmodel \<Rightarrow> hcmd list \<times> gmodel" where
  "execute_at revert i st =
     (case st of (cmds, m) \<Rightarrow>
        (case executeCommand (cmds ! i) revert m of (cmd, m') \<Rightarrow> (cmds[i := cmd], m')))"

definition revertCommand :: "hentry \<Rightarrow> gmodel \<Rightarrow> hentry \<times> gmodel" where
  "revertCommand e m =
     (case e of
        Single cmd \<Rightarrow> (case executeCommand cmd True m of (cmd, m') \<Rightarrow> (Single cmd, m'))
      | Group cmds \<Rightarrow>
          (case fold (execute_at True) (rev (sortBatchCommands cmds)) (cmds, m) of (cmds, m') \<Rightarrow> (Group cmds, m')))"

definition applyCommand :: "hentry \<Rightarrow> gmodel \<Rightarrow> hentry \<times> gmodel" where
  "applyCommand e m =
     (case e of
        Single cmd \<Rightarrow> (case executeCommand cmd False m of (cmd, m') \<Rightarrow> (Single cmd, m'))
      | Group cmds \<Rightarrow>
          (case fold (execute_at False) (sortBatchCommands cmds) (cmds, m) of (cmds, m') \<Rightarrow> (Group cmds, m')))"

section \<open>The stacks\<close>

record history =
  h_undo :: "hentry list"
  h_redo :: "hentry list"
  h_batch :: "hcmd list option"
  h_level :: int
  h_last :: int
  h_frozen :: bool
  h_enabled :: bool
  h_stackSize :: nat
  h_ignoreAdd :: bool
  h_ignoreRemove :: bool
  h_ignoreChange :: bool

definition newHistory :: "nat \<Rightarrow> bool \<Rightarrow> history" where
  "newHistory limit enabled =
     \<lparr>h_undo = [], h_redo = [], h_batch = None, h_level = 0, h_last = -1, h_frozen = False, h_enabled = enabled,
      h_stackSize = limit, h_ignoreAdd = False, h_ignoreRemove = False, h_ignoreChange = False\<rparr>"

definition isEnabled :: "history \<Rightarrow> bool" where
  "isEnabled h = h_enabled h"

definition enable :: "history \<Rightarrow> history" where
  "enable h = (if \<not> h_enabled h then h\<lparr>h_enabled := True\<rparr> else h)"

definition disable :: "history \<Rightarrow> history" where
  "disable h = (if h_enabled h then h\<lparr>h_enabled := False\<rparr> else h)"

definition toggleEnabled :: "bool option \<Rightarrow> history \<Rightarrow> history" where
  "toggleEnabled enabled h =
     (case enabled of
        Some b \<Rightarrow> if b \<noteq> isEnabled h then (if b then enable h else disable h) else h
      | None \<Rightarrow> if isEnabled h then disable h else enable h)"

definition undoStackPush :: "hentry \<Rightarrow> history \<Rightarrow> history" where
  "undoStackPush cmd h =
     (if h_stackSize h = 0 then h\<lparr>h_undo := h_undo h @ [cmd]\<rparr>
      else (let u = (if length (h_undo h) \<ge> h_stackSize h then tl (h_undo h) else h_undo h)
            in h\<lparr>h_undo := u @ [cmd]\<rparr>))"

definition undo :: "history \<Rightarrow> gmodel \<Rightarrow> history \<times> gmodel" where
  "undo h m =
     (if h_enabled h \<and> h_undo h \<noteq> []
      then (case revertCommand (last (h_undo h)) m of (cmd, m') \<Rightarrow>
              (h\<lparr>h_undo := butlast (h_undo h), h_redo := h_redo h @ [cmd], h_frozen := False\<rparr>, m'))
      else (h, m))"

definition redo :: "history \<Rightarrow> gmodel \<Rightarrow> history \<times> gmodel" where
  "redo h m =
     (if h_enabled h \<and> h_redo h \<noteq> []
      then (case applyCommand (last (h_redo h)) m of (cmd, m') \<Rightarrow>
              (undoStackPush cmd (h\<lparr>h_redo := butlast (h_redo h), h_frozen := False\<rparr>), m'))
      else (h, m))"

definition cancel :: "history \<Rightarrow> gmodel \<Rightarrow> history \<times> gmodel" where
  "cancel h m =
     (if h_enabled h \<and> h_undo h \<noteq> []
      then (h\<lparr>h_undo := butlast (h_undo h), h_redo := [], h_frozen := False\<rparr>, snd (revertCommand (last (h_undo h)) m))
      else (h, m))"

definition clean :: "history \<Rightarrow> history" where
  "clean h = h\<lparr>h_undo := [], h_redo := []\<rparr>"

definition canUndo :: "history \<Rightarrow> bool" where
  "canUndo h \<longleftrightarrow> h_enabled h \<and> length (h_undo h) > 0"

definition canRedo :: "history \<Rightarrow> bool" where
  "canRedo h \<longleftrightarrow> h_enabled h \<and> length (h_redo h) > 0"

definition getUndoRemainSize :: "history \<Rightarrow> int" where
  "getUndoRemainSize h = int (h_stackSize h) - int (length (h_undo h))"

text \<open>A move of a node by the user followed by its embedding becomes one step.\<close>

definition embed_group :: "hentry \<Rightarrow> bool" where
  "embed_group e =
     (case e of
        Single _ \<Rightarrow> False
      | Group cs \<Rightarrow>
          set (map hc_event cs) = {Some (CellChange ''parent''), Some (CellChange ''children'')} \<and>
          list_all (\<lambda>c. hc_batch c \<and> hc_ui c) cs)"

definition move_group :: "hentry \<Rightarrow> bool" where
  "move_group e =
     (case e of
        Group [c] \<Rightarrow> hc_event c = Some (CellChange ''position'') \<and> hc_ui c
      | _ \<Rightarrow> False)"

definition group_commands :: "hentry \<Rightarrow> hcmd list" where
  "group_commands e = (case e of Single c \<Rightarrow> [c] | Group cs \<Rightarrow> cs)"

definition consolidateCommands :: "history \<Rightarrow> history" where
  "consolidateCommands h =
     (let u = h_undo h; n = length u
      in if n \<ge> 2 \<and> embed_group (u ! (n - 1)) \<and> move_group (u ! (n - 2))
         then h\<lparr>h_undo := take (n - 2) u @
                 [Group (group_commands (u ! (n - 2)) @ group_commands (u ! (n - 1)))]\<rparr>
         else h)"

section \<open>Recording\<close>

definition history_push :: "hcmd \<Rightarrow> history \<Rightarrow> history" where
  "history_push cmd h =
     (let h = h\<lparr>h_redo := []\<rparr>
      in if hc_batch cmd then h\<lparr>h_last := max (h_last h) 0\<rparr>
         else consolidateCommands (undoStackPush (Single cmd) h))"

text \<open>What an event tells: the cell, the changed key with its previous and current value, the options.\<close>

record hargs =
  ha_cell :: gcell
  ha_prev :: pval
  ha_cur :: pval
  ha_ui :: bool
  ha_dryrun :: bool

text \<open>The command the event is recorded in: a new one, or an entry of the open batch.\<close>

definition batch_slot :: "hevent \<Rightarrow> string \<Rightarrow> hcmd list \<Rightarrow> int \<Rightarrow> hcmd list \<times> nat \<times> int" where
  "batch_slot ev i cmds lst =
     (let p = nat (max lst 0); cmd = cmds ! p
      in if lst \<ge> 0 \<and> (hc_id cmd \<noteq> Some i \<or> hc_event cmd \<noteq> Some ev)
         then (let index = index_of (\<lambda>c. hc_id c = Some i \<and> hc_event c = Some ev) cmds;
                   cmds = (if index < 0 \<or> isAddEvent (Some ev) \<or> isRemoveEvent (Some ev)
                           then cmds @ [createCommand True]
                           else splice_delete index cmds @ [cmds ! nat index])
               in (cmds, length cmds - 1, int (length cmds) - 1))
         else (cmds, p, lst))"

definition fill_command :: "hevent \<Rightarrow> hargs \<Rightarrow> hcmd \<Rightarrow> hcmd" where
  "fill_command ev a cmd =
     (case ev of
        CellChange k \<Rightarrow>
          (let cmd = (if \<not> hc_batch cmd \<or> hc_event cmd = None
                      then cmd\<lparr>hc_event := Some ev, hc_ui := ha_ui a, hc_key := k, hc_prev := ha_prev a,
                               hc_id := Some (gc_id (ha_cell a))\<rparr>
                      else cmd)
           in cmd\<lparr>hc_next := ha_cur a\<rparr>)
      | OtherEvent _ \<Rightarrow> cmd
      | _ \<Rightarrow> cmd\<lparr>hc_event := Some ev, hc_ui := ha_ui a, hc_id := Some (gc_id (ha_cell a)), hc_cell := Some (ha_cell a)\<rparr>)"

definition addCommand :: "hevent \<Rightarrow> hargs \<Rightarrow> history \<Rightarrow> history" where
  "addCommand ev a h =
     (if h_frozen h \<or> \<not> h_enabled h then h
      else if ha_dryrun a then h
      else if isAddEvent (Some ev) \<and> h_ignoreAdd h \<or> isRemoveEvent (Some ev) \<and> h_ignoreRemove h \<or>
              isChangeEvent (Some ev) \<and> h_ignoreChange h then h
      else (case h_batch h of
              Some cmds \<Rightarrow>
                (let (cmds, p, lst) = batch_slot ev (gc_id (ha_cell a)) cmds (h_last h);
                     cmd = fill_command ev a (cmds ! p)
                 in history_push cmd (h\<lparr>h_batch := Some (cmds[p := cmd]), h_last := lst\<rparr>))
            | None \<Rightarrow> history_push (fill_command ev a (createCommand False)) h))"

definition initBatchCommand :: "history \<Rightarrow> history" where
  "initBatchCommand h =
     (if h_frozen h then h
      else (case h_batch h of
              Some _ \<Rightarrow> h\<lparr>h_level := h_level h + 1\<rparr>
            | None \<Rightarrow> h\<lparr>h_batch := Some [createCommand True], h_level := 0, h_last := -1\<rparr>))"

lemma length_filter_take: "length (filter P (take k xs) @ drop k xs) \<le> length xs"
proof -
  have "length (filter P (take k xs)) \<le> length (take k xs)" by (rule length_filter_le)
  then have "length (filter P (take k xs) @ drop k xs) \<le> length (take k xs @ drop k xs)"
    unfolding length_append by (rule add_right_mono)
  then show ?thesis by (simp only: append_take_drop_id)
qed

lemma length_splice_delete: "length (splice_delete i xs) \<le> length xs"
  by (auto simp: splice_delete_def)

function filterBatchCommand :: "hcmd list \<Rightarrow> hcmd list" where
  "filterBatchCommand [] = []"
| "filterBatchCommand (cmd # cmds) =
     (case (hc_event cmd, hc_id cmd) of
        (Some evt, Some i) \<Rightarrow>
          (case evt of
             CellAdded \<Rightarrow>
               (let index = index_of (\<lambda>c. isRemoveEvent (hc_event c) \<and> hc_id c = Some i) cmds
                in if index \<ge> 0
                   then filterBatchCommand (filter (\<lambda>c. hc_id c \<noteq> Some i) (take (Suc (nat index)) cmds) @ drop (Suc (nat index)) cmds)
                   else cmd # filterBatchCommand cmds)
           | CellRemoved \<Rightarrow>
               (let index = index_of (\<lambda>c. isAddEvent (hc_event c) \<and> hc_id c = Some i) cmds
                in if index \<ge> 0 then filterBatchCommand (splice_delete index cmds)
                   else cmd # filterBatchCommand cmds)
           | CellChange k \<Rightarrow>
               if hc_prev cmd = hc_next cmd then filterBatchCommand cmds else cmd # filterBatchCommand cmds
           | OtherEvent _ \<Rightarrow> cmd # filterBatchCommand cmds)
      | _ \<Rightarrow> filterBatchCommand cmds)"
  by pat_completeness auto
termination
  by (relation "measure length")
    (simp_all add: le_imp_less_Suc length_filter_take length_splice_delete del: length_append)

definition storeBatchCommand :: "history \<Rightarrow> history" where
  "storeBatchCommand h =
     (if h_frozen h then h
      else (case h_batch h of
              None \<Rightarrow> h
            | Some batch \<Rightarrow>
                if h_level h \<le> 0
                then (let cmds = filterBatchCommand batch;
                          h = (if cmds \<noteq> []
                               then consolidateCommands (undoStackPush (Group cmds) (h\<lparr>h_redo := []\<rparr>))
                               else h)
                      in h\<lparr>h_batch := None, h_last := -1, h_level := 0\<rparr>)
                else h\<lparr>h_level := h_level h - 1\<rparr>))"

end
