(* ===== verification/History_Changes.thy ===== *)
theory History_Changes
  imports History
begin

text \<open>
  The commands of property changes and of added nodes: what executing them does to the graph model,
  singly and in an entry of several, and what a batch holds after a sequence of property changes. A
  change of the attributes is exact up to undefined entries, every other one is exact.
\<close>

section \<open>Values up to undefined entries\<close>

text \<open>The value with the entries of its objects that are undefined left out, and the undefined elements
  at the end of its arrays.\<close>

fun strip :: "jv \<Rightarrow> jv" and strip_obj :: "obj \<Rightarrow> obj" and strip_list :: "jv list \<Rightarrow> jv list" where
  "strip (JObj o') = JObj (strip_obj o')"
| "strip (JArr xs) = JArr (strip_list xs)"
| "strip v = v"
| "strip_obj [] = []"
| "strip_obj ((k, v) # o') = (if strip v = JUndef then strip_obj o' else (k, strip v) # strip_obj o')"
| "strip_list [] = []"
| "strip_list (v # vs) =
     (if strip v = JUndef \<and> strip_list vs = [] then [] else strip v # strip_list vs)"

lemma strip_undef [simp]: "strip v = JUndef \<longleftrightarrow> v = JUndef"
  by (cases v) simp_all

lemma strip_obj_oset: "strip v = strip (oget o' k) \<Longrightarrow> strip_obj (oset o' k v) = strip_obj o'"
  by (induction o') auto

lemma strip_ensure:
  "strip (fst (ensureUndefinedAttrs new old)) = strip new"
  "strip_obj (fst (ensure_keys old_obj new_obj flag)) = strip_obj new_obj"
  "strip_list (fst (ensure_elems old_list new_list flag)) = strip_list new_list"
proof (induction new old and old_obj new_obj flag and old_list new_list flag
    rule: ensureUndefinedAttrs_ensure_keys_ensure_elems.induct)
  case (1 newAttrs old)
  then show ?case by (cases newAttrs) (auto split: prod.splits)
next
  case (2 newAttrs old)
  then show ?case by (cases newAttrs) (auto split: prod.splits)
next
  case (5 key ov rest n flag)
  obtain v f where v: "ensureUndefinedAttrs (oget n key) ov = (v, f)" by fastforce
  then show ?case using 5 by (auto simp: strip_obj_oset)
next
  case (7 ov rest flag)
  then show ?case by (auto split: prod.splits)
next
  case (8 ov rest v vs flag)
  obtain v' f where v': "ensureUndefinedAttrs v ov = (v', f)" by fastforce
  consider "v = JUndef \<and> ov \<noteq> JUndef" | "\<not> (v = JUndef \<and> ov \<noteq> JUndef)" "object_typed v \<and> object_typed ov"
    | "\<not> (v = JUndef \<and> ov \<noteq> JUndef)" "\<not> (object_typed v \<and> object_typed ov)" by blast
  then show ?case
  proof cases
    case 1
    then have "fst (ensure_elems (ov # rest) (v # vs) flag) = v # fst (ensure_elems rest vs True)"
      by (simp add: split_def Let_def)
    then show ?thesis using 8(1)[OF 1] by simp
  next
    case 2
    then have e: "fst (ensure_elems (ov # rest) (v # vs) flag) = v' # fst (ensure_elems rest vs f)"
      unfolding ensure_elems.simps if_not_P[OF 2(1)] if_P[OF 2(2)] v' by (simp add: split_def Let_def)
    have "strip v' = strip v" using 8(2)[OF 2] v' by simp
    then show ?thesis using 8(3)[OF 2 v'[symmetric] refl] unfolding e by simp
  next
    case 3
    have e: "fst (ensure_elems (ov # rest) (v # vs) flag) = v # fst (ensure_elems rest vs flag)"
      unfolding ensure_elems.simps if_not_P[OF 3(1)] if_not_P[OF 3(2)] by (simp add: split_def Let_def)
    show ?thesis using 8(4)[OF 3] unfolding e by simp
  qed
qed simp_all

section \<open>Setting a property\<close>

lemma oset_odel_fresh: "k \<notin> fst ` set o' \<Longrightarrow> odel (oset o' k v) k = o'"
  by (induction o') (auto simp: odel_def)

lemma oset_oset_same: "oget o' k = p \<Longrightarrow> p \<noteq> JUndef \<Longrightarrow> oset (oset o' k v) k p = o'"
  by (induction o') auto

lemma oset_oset: "oset (oset o' k v) k w = oset o' k w"
  by (induction o') auto

lemma oset_commute:
  "k \<noteq> k' \<Longrightarrow> oget o' k \<noteq> JUndef \<Longrightarrow> oget o' k' \<noteq> JUndef \<Longrightarrow>
   oset (oset o' k v) k' w = oset (oset o' k' w) k v"
proof (induction o')
  case (Cons a o')
  have pres: "oget o' j \<noteq> JUndef \<Longrightarrow> \<exists>x. oget o' j = x" for j by simp
  show ?case
  proof (cases "fst a = k \<or> fst a = k'")
    case True
    then show ?thesis using Cons.prems by (cases a) auto
  next
    case False
    then show ?thesis using Cons by (cases a) auto
  qed
qed simp

text \<open>A property of a cell that a change and its reversal restore exactly: one that has a value, or is
  not there at all.\<close>

definition undoable_prop :: "obj \<Rightarrow> string \<Rightarrow> bool" where
  "undoable_prop o' k \<longleftrightarrow> k \<notin> fst ` set o' \<or> \<not> nullish (oget o' k)"

lemma oget_absent: "k \<notin> fst ` set o' \<Longrightarrow> oget o' k = JUndef"
  by (induction o') auto

lemma odel_absent: "k \<notin> fst ` set o' \<Longrightarrow> odel o' k = o'"
  by (induction o') (auto simp: odel_def)

lemma cell_props_set_frame [simp]:
  "gc_id (cell_props_set k v c) = gc_id c" "gc_edge (cell_props_set k v c) = gc_edge c"
  "gc_source (cell_props_set k v c) = gc_source c" "gc_target (cell_props_set k v c) = gc_target c"
  "gc_z (cell_props_set k v c) = gc_z c" "z_of (cell_props_set k v c) = z_of c"
  by (simp_all add: cell_props_set_def z_of_def)

lemma props_back:
  assumes "undoable_prop (gc_props c) k" "\<not> nullish v"
  shows "cell_props_set k (oget (gc_props c) k) (cell_props_set k v c) = c"
  using assms oset_odel_fresh [of k "gc_props c" v] oset_oset_same [of "gc_props c" k "oget (gc_props c) k" v]
    oget_absent [of k "gc_props c"]
  by (cases "k \<in> fst ` set (gc_props c)") (auto simp: cell_props_set_def undoable_prop_def nullish_def)

lemma props_over:
  assumes "undoable_prop (gc_props c) k" "\<not> nullish v" "\<not> nullish w \<or> k \<notin> fst ` set (gc_props c)"
  shows "cell_props_set k w (cell_props_set k v c) = cell_props_set k w c"
  using assms by (auto simp: cell_props_set_def oset_oset oset_odel_fresh odel_absent)

lemma coll_eqI: "coll_ok c \<Longrightarrow> coll_ok d \<Longrightarrow> col_cells c = col_cells d \<Longrightarrow> c = (d :: collection)"
  by (cases c, cases d) (auto simp: coll_ok_def)

lemma coll_update_comp:
  assumes ok: "coll_ok col" and c: "c \<in> set (col_cells col)"
    and id: "\<And>d. gc_id (f d) = gc_id d" "\<And>d. gc_id (g d) = gc_id d" "\<And>d. gc_id (h d) = gc_id d"
    and bk: "g (f c) = h c"
  shows "coll_update (gc_id c) g (coll_update (gc_id c) f col) = coll_update (gc_id c) h col"
proof (rule coll_eqI)
  show "coll_ok (coll_update (gc_id c) g (coll_update (gc_id c) f col))" "coll_ok (coll_update (gc_id c) h col)"
    by (intro coll_update_ok ok id)+
  have "d = c" if "d \<in> set (col_cells col)" "gc_id d = gc_id c" for d
    using coll_ok_inj [OF ok] c that by (auto simp: inj_on_def)
  then have "g (f d) = h d" if "d \<in> set (col_cells col)" "gc_id d = gc_id c" for d using that bk by blast
  then show "col_cells (coll_update (gc_id c) g (coll_update (gc_id c) f col)) = col_cells (coll_update (gc_id c) h col)"
    using id by (auto simp: coll_update_def)
qed

lemma coll_update_id: "coll_ok col \<Longrightarrow> c \<in> set (col_cells col) \<Longrightarrow> f c = c \<Longrightarrow> (\<And>d. gc_id (f d) = gc_id d) \<Longrightarrow>
    coll_update (gc_id c) f col = col"
proof -
  assume ok: "coll_ok col" and c: "c \<in> set (col_cells col)" and f: "f c = c" and id: "\<And>d. gc_id (f d) = gc_id d"
  have "d = c" if "d \<in> set (col_cells col)" "gc_id d = gc_id c" for d
    using coll_ok_inj [OF ok] c that by (auto simp: inj_on_def)
  then have "f d = d" if "d \<in> set (col_cells col)" "gc_id d = gc_id c" for d using that f by metis
  then have "col_cells (coll_update (gc_id c) f col) = col_cells col"
    by (auto simp: coll_update_def intro!: map_idI)
  then show ?thesis using coll_update_ok[OF ok id] ok by (intro coll_eqI)
qed

lemma coll_update_commute:
  assumes ok: "coll_ok col" and id: "\<And>d. gc_id (f d) = gc_id d" "\<And>d. gc_id (g d) = gc_id d"
    and bk: "\<And>c. i = j \<Longrightarrow> c \<in> set (col_cells col) \<Longrightarrow> gc_id c = i \<Longrightarrow> g (f c) = f (g c)"
  shows "coll_update j g (coll_update i f col) = coll_update i f (coll_update j g col)"
proof (rule coll_eqI)
  show "coll_ok (coll_update j g (coll_update i f col))" "coll_ok (coll_update i f (coll_update j g col))"
    by (intro coll_update_ok ok id)+
  show "col_cells (coll_update j g (coll_update i f col)) = col_cells (coll_update i f (coll_update j g col))"
    using id bk by (auto simp: coll_update_def)
qed

section \<open>Models whose cells keep their order\<close>

text \<open>A consistent model with its cells in the order of their z indexes, as adding and sorting leave them.\<close>

definition settled :: "gmodel \<Rightarrow> bool" where
  "settled m \<longleftrightarrow> model_ok m \<and> sorted (map z_of (getCells m))"

abbreviation set_prop :: "string \<Rightarrow> string \<Rightarrow> jv \<Rightarrow> gmodel \<Rightarrow> gmodel" where
  "set_prop i k v m \<equiv> cell_prop i k (PVal v) m"

definition prop_of :: "gmodel \<Rightarrow> string \<Rightarrow> string \<Rightarrow> jv" where
  "prop_of m i k = (case getCell i m of None \<Rightarrow> JUndef | Some c \<Rightarrow> oget (gc_props c) k)"

lemma set_prop_coll: "set_prop i k v m = m\<lparr>gm_coll := coll_update i (cell_props_set k v) (gm_coll m)\<rparr>"
  by (simp add: cell_prop_def)

lemma settled_coll: "settled m \<Longrightarrow> coll_ok (gm_coll m)"
  by (simp add: settled_def model_ok_def)

lemma edges_at_image:
  assumes "\<And>c. gc_id (f c) = gc_id c" "\<And>c. gc_edge (f c) = gc_edge c" "\<And>c. e (f c) = e c"
  shows "edges_at e (f ` S) = edges_at e S"
proof
  fix i
  have eq: "edges_at e S i = gc_id ` {c \<in> S. gc_edge c \<and> e c = Some i \<and> i \<noteq> []}" for S
    by (auto simp: edges_at_def)
  have "{c \<in> f ` S. gc_edge c \<and> e c = Some i \<and> i \<noteq> []} = f ` {c \<in> S. gc_edge c \<and> e c = Some i \<and> i \<noteq> []}"
    by (auto simp: assms)
  then show "edges_at e (f ` S) i = edges_at e S i" by (simp only: eq image_image assms(1))
qed

lemma settled_set_prop: "settled m \<Longrightarrow> settled (set_prop i k v m)"
proof -
  assume s: "settled m"
  let ?f = "\<lambda>c. if gc_id c = i then cell_props_set k v c else c"
  have cells: "cells_of (set_prop i k v m) = ?f ` cells_of m"
    by (simp add: set_prop_coll cells_of_def coll_update_def)
  have fr: "gc_id (?f c) = gc_id c" "gc_edge (?f c) = gc_edge c" "gc_source (?f c) = gc_source c"
      "gc_target (?f c) = gc_target c" for c by simp_all
  have im: "gc_id ` {c \<in> ?f ` S. P (gc_edge c)} = gc_id ` {c \<in> S. P (gc_edge c)}" for S :: "gcell set" and P
  proof -
    have "{c \<in> ?f ` S. P (gc_edge c)} = ?f ` {c \<in> S. P (gc_edge c)}" by (auto simp only: fr image_iff)
    then show ?thesis by (simp only: image_image fr)
  qed
  have "indexed (cells_of m) m" using s by (simp add: settled_def model_ok_indexed)
  then have "indexed (?f ` cells_of m) m"
    unfolding indexed_def using im[where P = Not and S = "cells_of m"] im[where P = "\<lambda>b. b" and S = "cells_of m"]
      edges_at_image[of ?f gc_source "cells_of m", OF fr(1-3)] edges_at_image[of ?f gc_target "cells_of m", OF fr(1,2,4)]
    by (simp only:)
  then have "indexed (cells_of (set_prop i k v m)) (set_prop i k v m)" unfolding cells[symmetric] by (simp add: set_prop_coll)
  moreover have "coll_ok (gm_coll (set_prop i k v m))"
    using coll_update_ok[OF settled_coll[OF s], of "cell_props_set k v" i] by (simp add: set_prop_coll)
  moreover have "map z_of (getCells (set_prop i k v m)) = map z_of (getCells m)"
    by (simp add: set_prop_coll getCells_def coll_update_def)
  ultimately show ?thesis using s by (simp add: settled_def model_ok_indexed)
qed

lemma getCell_set_prop:
  "getCell j (set_prop i k v m) = (if j = i then map_option (cell_props_set k v) (getCell i m) else getCell j m)"
  by (simp add: set_prop_coll getCell_def coll_get_def coll_update_def split: option.splits)

lemma prop_of_set_prop:
  "\<not> nullish v \<Longrightarrow> getCell i m \<noteq> None \<Longrightarrow>
   prop_of (set_prop i k v m) j l = (if j = i \<and> l = k then v else prop_of m j l)"
  by (auto simp: prop_of_def getCell_set_prop cell_props_set_def)

lemma settled_cell: "settled m \<Longrightarrow> getCell i m = Some c \<longleftrightarrow> c \<in> set (col_cells (gm_coll m)) \<and> gc_id c = i"
  by (simp add: getCell_def coll_get_Some settled_coll)

lemma set_prop_over:
  assumes s: "settled m" and c: "getCell i m = Some c" and u: "undoable_prop (gc_props c) k" and v: "\<not> nullish v"
    and w: "\<not> nullish w \<or> k \<notin> fst ` set (gc_props c)"
  shows "set_prop i k w (set_prop i k v m) = set_prop i k w m"
  using coll_update_comp[OF settled_coll[OF s], of c "cell_props_set k v" "cell_props_set k w" "cell_props_set k w"]
    settled_cell[OF s, of i c] c props_over[OF u v w] by (simp add: set_prop_coll)

lemma set_prop_back:
  assumes s: "settled m" and c: "getCell i m = Some c" and u: "undoable_prop (gc_props c) k" and v: "\<not> nullish v"
  shows "set_prop i k (oget (gc_props c) k) (set_prop i k v m) = m"
  using coll_update_comp[OF settled_coll[OF s], of c "cell_props_set k v" "cell_props_set k (oget (gc_props c) k)" "\<lambda>d. d"]
    coll_update_id[OF settled_coll[OF s], of c "\<lambda>d. d"]
    settled_cell[OF s, of i c] c props_back[OF u v] by (simp add: set_prop_coll)

lemma set_prop_same:
  assumes s: "settled m" and v: "\<not> nullish (prop_of m i k)"
  shows "set_prop i k (prop_of m i k) m = m"
proof -
  obtain c where c: "getCell i m = Some c" using v by (auto simp: prop_of_def nullish_def split: option.splits)
  then have "cell_props_set k (prop_of m i k) c = c"
    using v oset_same[of "gc_props c" k] by (simp add: cell_props_set_def prop_of_def nullish_def)
  then show ?thesis
    using coll_update_id[OF settled_coll[OF s], of c] settled_cell[OF s, of i c] c by (simp add: set_prop_coll)
qed

lemma set_prop_commute:
  assumes s: "settled m" and ne: "(i, k) \<noteq> (j, l)" and v: "\<not> nullish v" "\<not> nullish w"
    and p: "\<not> nullish (prop_of m i k)" "\<not> nullish (prop_of m j l)"
  shows "set_prop j l w (set_prop i k v m) = set_prop i k v (set_prop j l w m)"
proof -
  have "cell_props_set l w (cell_props_set k v c) = cell_props_set k v (cell_props_set l w c)"
    if "i = j" "c \<in> set (col_cells (gm_coll m))" "gc_id c = i" for c
  proof -
    have "getCell i m = Some c" using settled_cell[OF s] that by blast
    then have "oget (gc_props c) k \<noteq> JUndef" "oget (gc_props c) l \<noteq> JUndef"
      using p that(1) by (auto simp: prop_of_def nullish_def)
    then show ?thesis using oset_commute[of k l "gc_props c"] ne that(1) v by (auto simp: cell_props_set_def)
  qed
  then show ?thesis
    using coll_update_commute[OF settled_coll[OF s], of "cell_props_set k v" "cell_props_set l w" i j]
    by (simp add: set_prop_coll)
qed

section \<open>Entries of several commands\<close>

text \<open>Executing a list of commands in its order, or backwards from its end.\<close>

fun run_cmds :: "hcmd list \<Rightarrow> gmodel \<Rightarrow> hcmd list \<times> gmodel" where
  "run_cmds [] m = ([], m)"
| "run_cmds (c # cs) m =
     (case executeCommand c False m of (c', m1) \<Rightarrow> (case run_cmds cs m1 of (cs', m2) \<Rightarrow> (c' # cs', m2)))"

fun unrun_cmds :: "hcmd list \<Rightarrow> gmodel \<Rightarrow> hcmd list \<times> gmodel" where
  "unrun_cmds [] m = ([], m)"
| "unrun_cmds (c # cs) m =
     (case unrun_cmds cs m of (cs', m1) \<Rightarrow> (case executeCommand c True m1 of (c', m2) \<Rightarrow> (c' # cs', m2)))"

lemma execute_at_append: "execute_at r (length pre) (pre @ c # cs, m) =
    (case executeCommand c r m of (c', m') \<Rightarrow> (pre @ c' # cs, m'))"
  by (simp add: execute_at_def)

lemma fold_execute:
  "fold (execute_at False) [length pre..<length pre + length cs] (pre @ cs, m) =
     (case run_cmds cs m of (cs', m') \<Rightarrow> (pre @ cs', m'))"
proof (induction cs arbitrary: pre m)
  case (Cons c cs)
  obtain c' m1 where x: "executeCommand c False m = (c', m1)" by fastforce
  have u: "[length pre..<length pre + length (c # cs)] =
      length pre # [length (pre @ [c'])..<length (pre @ [c']) + length cs]"
    by (simp add: upt_conv_Cons del: upt_Suc)
  show ?case using Cons[of "pre @ [c']" m1] x unfolding u by (simp add: execute_at_append split_def del: upt_Suc)
qed simp

lemma fold_unexecute:
  "fold (execute_at True) (rev [length pre..<length pre + length cs]) (pre @ cs, m) =
     (case unrun_cmds cs m of (cs', m') \<Rightarrow> (pre @ cs', m'))"
proof (induction cs arbitrary: pre m)
  case (Cons c cs)
  have u: "rev [length pre..<length pre + length (c # cs)] =
      rev [length (pre @ [c])..<length (pre @ [c]) + length cs] @ [length pre]"
    by (simp add: upt_conv_Cons del: upt_Suc)
  show ?case using Cons[of "pre @ [c]" m] unfolding u
    by (simp add: execute_at_append split_def del: upt_Suc)
qed simp

lemma run_cmds_append: "run_cmds (xs @ ys) m =
    (case run_cmds xs m of (xs', m1) \<Rightarrow> (case run_cmds ys m1 of (ys', m2) \<Rightarrow> (xs' @ ys', m2)))"
  by (induction xs arbitrary: m) (simp_all split: prod.splits)

lemma unrun_cmds_append: "unrun_cmds (xs @ ys) m =
    (case unrun_cmds ys m of (ys', m1) \<Rightarrow> (case unrun_cmds xs m1 of (xs', m2) \<Rightarrow> (xs' @ ys', m2)))"
  by (induction xs arbitrary: m) (simp_all split: prod.splits)

lemma sort_no_add:
  assumes "\<forall>c \<in> set cs. \<not> isAddEvent (hc_event c)"
  shows "sortBatchCommands cs = [0..<length cs]"
proof -
  have "k \<le> length cs \<Longrightarrow> fold (sort_batch_step cs) [0..<k] [] = [0..<k]" for k
  proof (induction k)
    case (Suc k)
    then have "\<not> isAddEvent (hc_event (cs ! k))" using assms by simp
    then show ?case using Suc by (simp add: sort_batch_step_def Let_def)
  qed simp
  then show ?thesis by (simp add: sortBatchCommands_def)
qed

text \<open>An entry leads from one model to another, and back, and keeps its commands.\<close>

definition leads :: "hentry \<Rightarrow> gmodel \<Rightarrow> gmodel \<Rightarrow> bool" where
  "leads e m m' \<longleftrightarrow> applyCommand e m = (e, m') \<and> revertCommand e m' = (e, m)"

lemma leads_group:
  assumes "\<forall>c \<in> set cs. \<not> isAddEvent (hc_event c)"
  shows "leads (Group cs) m m' \<longleftrightarrow> run_cmds cs m = (cs, m') \<and> unrun_cmds cs m' = (cs, m)"
  using sort_no_add[OF assms] fold_execute[of "[]" cs m] fold_unexecute[of "[]" cs m']
  by (auto simp: leads_def applyCommand_def revertCommand_def split: prod.splits)

section \<open>Commands of property changes\<close>

text \<open>What the event of a property change tells, which the model raises when the value differs, and
  recording it.\<close>

definition change_args :: "gcell \<Rightarrow> string \<Rightarrow> jv \<Rightarrow> bool \<Rightarrow> hargs" where
  "change_args c k v ui =
     \<lparr>ha_cell = c, ha_prev = PVal (oget (gc_props c) k), ha_cur = PVal v, ha_ui = ui, ha_dryrun = False\<rparr>"

definition record_change :: "string \<times> string \<times> jv \<times> bool \<Rightarrow> history \<times> gmodel \<Rightarrow> history \<times> gmodel" where
  "record_change ch st =
     (case (ch, st) of ((i, k, v, ui), (h, m)) \<Rightarrow>
        (case getCell i m of
           None \<Rightarrow> (h, m)
         | Some c \<Rightarrow> if oget (gc_props c) k = v then (h, m)
                     else (addCommand (CellChange k) (change_args c k v ui) h, set_prop i k v m)))"

text \<open>The names of plain properties: the ends, the z index and the attributes have their own ways.\<close>

definition plain_key :: "string \<Rightarrow> bool" where
  "plain_key k \<longleftrightarrow> k \<noteq> [] \<and> CHR ''/'' \<notin> set k \<and> k \<notin> {''attrs'', ''source'', ''target'', ''zIndex''}"

lemma command_value_plain: "hc_key c \<noteq> ''attrs'' \<Longrightarrow> command_value c r = (if r then hc_prev c else hc_next c)"
  by (simp add: command_value_def)

lemma execute_change:
  assumes "hc_event c = Some (CellChange k)" "hc_id c = Some i" "hc_key c = k" "plain_key k"
    and "getCell i m = Some d" "gc_id d = i"
  shows "executeCommand c r m = (c, cell_prop i k (if r then hc_prev c else hc_next c) m)"
  using assms by (simp add: executeCommand_def isAddEvent_def isRemoveEvent_def isChangeEvent_def Let_def plain_key_def
      command_value_plain)

lemma filled_change:
  "fill_command (CellChange k) (change_args c k v ui) (createCommand b) =
     (createCommand b)\<lparr>hc_event := Some (CellChange k), hc_id := Some (gc_id c), hc_key := k, hc_ui := ui,
        hc_prev := PVal (oget (gc_props c) k), hc_next := PVal v\<rparr>"
  by (simp add: fill_command_def createCommand_def change_args_def Let_def)

lemma prop_change_leads:
  assumes s: "settled m" and c: "getCell i m = Some c" and key: "plain_key k" and u: "undoable_prop (gc_props c) k"
    and v: "\<not> nullish v"
  shows "leads (Single (fill_command (CellChange k) (change_args c k v ui) (createCommand False))) m (set_prop i k v m)"
proof -
  let ?cmd = "fill_command (CellChange k) (change_args c k v ui) (createCommand False)"
  have i: "gc_id c = i" using settled_cell[OF s] c by blast
  have f: "hc_event ?cmd = Some (CellChange k)" "hc_id ?cmd = Some i" "hc_key ?cmd = k"
      "hc_prev ?cmd = PVal (oget (gc_props c) k)" "hc_next ?cmd = PVal v"
    using i by (simp_all add: filled_change)
  have get: "getCell i (set_prop i k v m) = Some (cell_props_set k v c)" using c by (simp add: getCell_set_prop)
  show ?thesis
    using execute_change[OF f(1-3) key c i, of False] execute_change[OF f(1-3) key get, of True] i f(4,5)
      set_prop_back[OF s c u v]
    by (simp add: leads_def applyCommand_def revertCommand_def)
qed

text \<open>The same for the attributes: the values set are those of the change up to undefined entries.\<close>

lemma attrs_change_leads:
  assumes s: "settled m" and c: "getCell i m = Some c" and u: "undoable_prop (gc_props c) ''attrs''" and v: "\<not> nullish v"
  shows "\<exists>w w'. strip w = strip v \<and> strip w' = strip (oget (gc_props c) ''attrs'') \<and>
    snd (applyCommand (Single (fill_command (CellChange ''attrs'') (change_args c ''attrs'' v ui) (createCommand False))) m) =
      set_prop i ''attrs'' w m \<and>
    snd (revertCommand (Single (fill_command (CellChange ''attrs'') (change_args c ''attrs'' v ui) (createCommand False)))
      (set_prop i ''attrs'' v m)) = set_prop i ''attrs'' w' m"
proof -
  let ?p = "oget (gc_props c) ''attrs''"
  let ?cmd = "fill_command (CellChange ''attrs'') (change_args c ''attrs'' v ui) (createCommand False)"
  define w where "w = fst (ensureUndefinedAttrs v ?p)"
  define w' where "w' = fst (ensureUndefinedAttrs ?p v)"
  have i: "gc_id c = i" using settled_cell[OF s] c by blast
  have get: "getCell i (set_prop i ''attrs'' v m) = Some (cell_props_set ''attrs'' v c)" using c by (simp add: getCell_set_prop)
  have st: "strip w = strip v" "strip w' = strip ?p" by (simp_all add: w_def w'_def strip_ensure)
  have "\<not> nullish w' \<or> ''attrs'' \<notin> fst ` set (gc_props c)"
  proof (cases "''attrs'' \<in> fst ` set (gc_props c)")
    case True
    then have "\<not> nullish ?p" using u by (simp add: undoable_prop_def)
    then show ?thesis using st(2) by (cases ?p; cases w') (auto simp: nullish_def)
  qed simp
  then have over: "set_prop i ''attrs'' w' (set_prop i ''attrs'' v m) = set_prop i ''attrs'' w' m"
    by (rule set_prop_over[OF s c u v])
  have "snd (applyCommand (Single ?cmd) m) = set_prop i ''attrs'' w m"
    using c i by (simp add: applyCommand_def executeCommand_def isAddEvent_def isRemoveEvent_def isChangeEvent_def Let_def
        filled_change command_value_def w_def)
  moreover have "snd (revertCommand (Single ?cmd) (set_prop i ''attrs'' v m)) = set_prop i ''attrs'' w' m"
    using get i over by (simp add: revertCommand_def executeCommand_def isAddEvent_def isRemoveEvent_def isChangeEvent_def
        Let_def filled_change command_value_def w'_def)
  ultimately show ?thesis using st by blast
qed

section \<open>Batches of property changes\<close>

text \<open>A change in a batch: the cell and the key, the value before the batch and the last one, and the flag.\<close>

type_synonym slot = "string \<times> string \<times> jv \<times> jv \<times> bool"

definition slot_key :: "slot \<Rightarrow> string \<times> string" where
  "slot_key t = (case t of (i, k, _) \<Rightarrow> (i, k))"

definition slot_cmd :: "slot \<Rightarrow> hcmd" where
  "slot_cmd t = (case t of (i, k, p, v, ui) \<Rightarrow>
     (createCommand True)\<lparr>hc_event := Some (CellChange k), hc_id := Some i, hc_key := k, hc_ui := ui,
        hc_prev := PVal p, hc_next := PVal v\<rparr>)"

definition slot_next :: "slot \<Rightarrow> gmodel \<Rightarrow> gmodel" where
  "slot_next t = (case t of (i, k, p, v, ui) \<Rightarrow> set_prop i k v)"

definition slot_prev :: "slot \<Rightarrow> gmodel \<Rightarrow> gmodel" where
  "slot_prev t = (case t of (i, k, p, v, ui) \<Rightarrow> set_prop i k p)"

definition slot_ok :: "gmodel \<Rightarrow> slot \<Rightarrow> bool" where
  "slot_ok m t \<longleftrightarrow> (case t of (i, k, p, v, ui) \<Rightarrow>
     plain_key k \<and> \<not> nullish p \<and> \<not> nullish v \<and> prop_of m i k = p)"

lemma slot_ok_cell: "\<not> nullish (prop_of m i k) \<Longrightarrow> \<exists>c. getCell i m = Some c \<and> \<not> nullish (oget (gc_props c) k)"
  by (auto simp: prop_of_def nullish_def split: option.splits)

lemma slots_run:
  "settled m \<Longrightarrow> list_all (slot_ok m) ts \<Longrightarrow>
   settled (fold slot_next ts m) \<and>
   (\<forall>i k. (i, k) \<notin> slot_key ` set ts \<longrightarrow> prop_of (fold slot_next ts m) i k = prop_of m i k) \<and>
   (\<forall>i k. \<not> nullish (prop_of m i k) \<longrightarrow> \<not> nullish (prop_of (fold slot_next ts m) i k))"
proof (induction ts rule: rev_induct)
  case (snoc t ts)
  obtain i k p v ui where t: "t = (i, k, p, v, ui)" by (metis prod_cases5)
  let ?M = "fold slot_next ts m"
  have IH: "settled ?M" "\<And>i k. (i, k) \<notin> slot_key ` set ts \<Longrightarrow> prop_of ?M i k = prop_of m i k"
      "\<And>i k. \<not> nullish (prop_of m i k) \<Longrightarrow> \<not> nullish (prop_of ?M i k)"
    using snoc by auto
  have ok: "\<not> nullish p" "\<not> nullish v" "prop_of m i k = p" using snoc.prems(2) t by (simp_all add: slot_ok_def)
  then have "getCell i ?M \<noteq> None" using slot_ok_cell IH(3) by fastforce
  note P = prop_of_set_prop[OF ok(2) this]
  have N: "fold slot_next (ts @ [t]) m = set_prop i k v ?M" "slot_key ` set (ts @ [t]) = insert (i, k) (slot_key ` set ts)"
    using t by (simp_all add: slot_next_def slot_key_def)
  have "prop_of (set_prop i k v ?M) j l = prop_of m j l" if "(j, l) \<notin> insert (i, k) (slot_key ` set ts)" for j l
    using that IH(2)[of j l] by (auto simp: P)
  moreover have "\<not> nullish (prop_of (set_prop i k v ?M) j l)" if "\<not> nullish (prop_of m j l)" for j l
    using IH(3)[OF that] ok(2) by (simp add: P)
  ultimately show ?case unfolding N using settled_set_prop[OF IH(1)] by blast
qed simp

lemma slots_last:
  assumes s: "settled m" and ok: "list_all (slot_ok m) (ts @ [t])" and d: "distinct (map slot_key (ts @ [t]))"
    and t: "t = (i, k, p, v, ui)"
  defines "M \<equiv> fold slot_next ts m"
  shows "prop_of M i k = p" and "set_prop i k p (set_prop i k v M) = M" and "set_prop i k p M = M"
    and "\<exists>c. getCell i M = Some c" and "settled M"
proof -
  note R = slots_run[OF s, of ts]
  have tok: "\<not> nullish p" "\<not> nullish v" "prop_of m i k = p" using ok t by (simp_all add: slot_ok_def)
  have "(i, k) \<notin> slot_key ` set ts" using d t by (simp add: slot_key_def)
  then show pm: "prop_of M i k = p" using R ok tok by (simp add: M_def)
  show sM: "settled M" using R ok by (simp add: M_def)
  obtain c where c: "getCell i M = Some c" "\<not> nullish (oget (gc_props c) k)" using slot_ok_cell pm tok(1) by metis
  then show "\<exists>c. getCell i M = Some c" by blast
  have p: "oget (gc_props c) k = p" using c(1) pm by (simp add: prop_of_def)
  have "undoable_prop (gc_props c) k" using c(2) by (simp add: undoable_prop_def)
  from set_prop_back[OF sM c(1) this tok(2)] show "set_prop i k p (set_prop i k v M) = M" by (simp only: p)
  show "set_prop i k p M = M" using set_prop_same[OF sM, of i k] pm tok(1) by simp
qed

lemma slot_execute:
  assumes "t = (i, k, p, v, ui)" "plain_key k" "getCell i m = Some c" "settled m"
  shows "executeCommand (slot_cmd t) r m = (slot_cmd t, set_prop i k (if r then p else v) m)"
  using execute_change[of "slot_cmd t" k i m c r] settled_cell[of m i c] assms by (simp add: slot_cmd_def)

lemma slots_apply:
  assumes "settled m" "list_all (slot_ok m) ts" "distinct (map slot_key ts)"
  shows "run_cmds (map slot_cmd ts) m = (map slot_cmd ts, fold slot_next ts m)"
  using assms
proof (induction ts rule: rev_induct)
  case (snoc t ts)
  obtain i k p v ui where t: "t = (i, k, p, v, ui)" by (metis prod_cases5)
  note L = slots_last[OF snoc.prems t]
  obtain c where "getCell i (fold slot_next ts m) = Some c" using L(4) by blast
  then have "executeCommand (slot_cmd t) False (fold slot_next ts m) = (slot_cmd t, fold slot_next (ts @ [t]) m)"
    using slot_execute[OF t] snoc.prems(2) L(5) t by (simp add: slot_ok_def slot_next_def)
  then show ?case using snoc by (simp add: run_cmds_append)
qed simp

lemma slots_revert:
  assumes "settled m" "list_all (slot_ok m) ts" "distinct (map slot_key ts)"
  shows "unrun_cmds (map slot_cmd ts) (fold slot_next ts m) = (map slot_cmd ts, m)"
  using assms
proof (induction ts rule: rev_induct)
  case (snoc t ts)
  obtain i k p v ui where t: "t = (i, k, p, v, ui)" by (metis prod_cases5)
  let ?M = "fold slot_next ts m"
  note L = slots_last[OF snoc.prems t]
  have N: "fold slot_next (ts @ [t]) m = set_prop i k v ?M" using t by (simp add: slot_next_def)
  obtain c where "getCell i (set_prop i k v ?M) = Some c" using L(4) by (auto simp: getCell_set_prop)
  then have "executeCommand (slot_cmd t) True (set_prop i k v ?M) = (slot_cmd t, ?M)"
    using slot_execute[OF t, of "set_prop i k v ?M" c True] settled_set_prop[OF L(5)] snoc.prems(2) L(2) t
    by (simp add: slot_ok_def)
  then show ?case unfolding N using snoc by (simp add: unrun_cmds_append)
qed simp

text \<open>Leaving out changes that restore the value changes nothing.\<close>

definition changed_slot :: "slot \<Rightarrow> bool" where
  "changed_slot t \<longleftrightarrow> (case t of (i, k, p, v, ui) \<Rightarrow> p \<noteq> v)"

lemma slots_filter:
  assumes "settled m" "list_all (slot_ok m) ts" "distinct (map slot_key ts)"
  shows "fold slot_next (filter changed_slot ts) m = fold slot_next ts m"
  using assms
proof (induction ts rule: rev_induct)
  case (snoc t ts)
  obtain i k p v ui where t: "t = (i, k, p, v, ui)" by (metis prod_cases5)
  have IH: "fold slot_next (filter changed_slot ts) m = fold slot_next ts m" using snoc by simp
  have N: "slot_next t = set_prop i k v" "changed_slot t \<longleftrightarrow> p \<noteq> v" using t by (simp_all add: slot_next_def changed_slot_def)
  show ?case using slots_last(3)[OF snoc.prems t] by (cases "p = v") (simp_all add: N IH)
qed simp

lemma filter_slots: "filterBatchCommand (map slot_cmd ts) = map slot_cmd (filter changed_slot ts)"
proof (induction ts)
  case (Cons t ts)
  obtain i k p v ui where t: "t = (i, k, p, v, ui)" by (metis prod_cases5)
  then show ?case using Cons by (auto simp: slot_cmd_def changed_slot_def)
qed simp

lemma batch_leads:
  assumes s: "settled m" and ok: "list_all (slot_ok m) ts" and d: "distinct (map slot_key ts)"
  shows "leads (Group (filterBatchCommand (map slot_cmd ts))) m (fold slot_next ts m)"
proof -
  have ok': "list_all (slot_ok m) (filter changed_slot ts)" using ok by (auto simp: list_all_iff)
  have d': "distinct (map slot_key (filter changed_slot ts))" using d by (simp add: distinct_map_filter)
  have "\<forall>c \<in> set (map slot_cmd (filter changed_slot ts)). \<not> isAddEvent (hc_event c)"
    by (auto simp: slot_cmd_def isAddEvent_def)
  from leads_group[OF this] show ?thesis
    using slots_apply[OF s ok' d'] slots_revert[OF s ok' d'] by (simp only: filter_slots slots_filter[OF s ok d] simp_thms)
qed

end
