(* ===== verification/History_Laws.thy ===== *)
theory History_Laws
  imports History_Changes
begin

text \<open>
  What the undo history guarantees: the undo stack never outgrows its limit; in a session of property
  changes, added nodes, batches of property changes, undos, redos and cancels the entries of the two
  stacks connect the current model to its past and future, so that any number of undos followed by as
  many redos changes nothing; recording is correct for changes of plain properties and for added
  nodes, and up to undefined entries for the attributes.
\<close>

section \<open>The stack limit\<close>

datatype hist_op =
    HAdd hevent hargs | HInit | HStore | HUndo | HRedo | HCancel | HClean | HToggle "bool option"

fun run_hist :: "hist_op \<Rightarrow> history \<times> gmodel \<Rightarrow> history \<times> gmodel" where
  "run_hist (HAdd ev a) (h, m) = (addCommand ev a h, m)"
| "run_hist HInit (h, m) = (initBatchCommand h, m)"
| "run_hist HStore (h, m) = (storeBatchCommand h, m)"
| "run_hist HUndo (h, m) = undo h m"
| "run_hist HRedo (h, m) = redo h m"
| "run_hist HCancel (h, m) = cancel h m"
| "run_hist HClean (h, m) = (clean h, m)"
| "run_hist (HToggle b) (h, m) = (toggleEnabled b h, m)"

definition bounded :: "nat \<Rightarrow> history \<Rightarrow> bool" where
  "bounded n h \<longleftrightarrow> h_stackSize h = n \<and> (0 < n \<longrightarrow> length (h_undo h) \<le> n)"

lemma bounded_push: "bounded n h \<Longrightarrow> bounded n (undoStackPush e h)"
  by (auto simp: bounded_def undoStackPush_def Let_def)

lemma bounded_consolidate: "bounded n h \<Longrightarrow> bounded n (consolidateCommands h)"
  by (auto simp: bounded_def consolidateCommands_def Let_def min_def)

lemma bounded_fields [simp]:
  "bounded n (h\<lparr>h_redo := r\<rparr>) = bounded n h" "bounded n (h\<lparr>h_batch := b\<rparr>) = bounded n h"
  "bounded n (h\<lparr>h_level := l\<rparr>) = bounded n h" "bounded n (h\<lparr>h_last := i\<rparr>) = bounded n h"
  "bounded n (h\<lparr>h_frozen := f\<rparr>) = bounded n h" "bounded n (h\<lparr>h_enabled := e\<rparr>) = bounded n h"
  by (simp_all add: bounded_def)

lemma bounded_history_push: "bounded n h \<Longrightarrow> bounded n (history_push c h)"
  by (simp add: history_push_def Let_def bounded_push bounded_consolidate)

lemma bounded_addCommand: "bounded n h \<Longrightarrow> bounded n (addCommand ev a h)"
  by (auto simp: addCommand_def Let_def bounded_history_push split: option.splits prod.splits)

lemma bounded_run: "bounded n h \<Longrightarrow> bounded n (fst (run_hist op (h, m)))"
proof (cases op)
  case (HAdd ev a)
  then show "bounded n h \<Longrightarrow> ?thesis" by (simp add: bounded_addCommand)
next
  case HStore
  assume b: "bounded n h"
  then show ?thesis
    using HStore bounded_consolidate [OF bounded_push]
    by (auto simp: storeBatchCommand_def Let_def split: option.splits)
next
  case HUndo
  then show "bounded n h \<Longrightarrow> ?thesis" by (auto simp: undo_def split_def bounded_def)
next
  case HRedo
  then show "bounded n h \<Longrightarrow> ?thesis" by (auto simp: redo_def split_def bounded_push)
next
  case HCancel
  then show "bounded n h \<Longrightarrow> ?thesis" by (auto simp: cancel_def Let_def bounded_def)
qed (auto simp: initBatchCommand_def clean_def toggleEnabled_def enable_def disable_def bounded_def
    split: option.splits)

lemma bounded_runs: "bounded n (fst s) \<Longrightarrow> bounded n (fst (fold run_hist ops s))"
proof (induction ops arbitrary: s)
  case (Cons op ops)
  then show ?case using bounded_run [of n "fst s" op "snd s"] by simp
qed simp

section \<open>Entries connect the present with past and future\<close>

fun back_ok :: "hentry list \<Rightarrow> gmodel \<Rightarrow> bool" where
  "back_ok [] m = True"
| "back_ok (e # es) m = (\<exists>m0. settled m0 \<and> leads e m0 m \<and> back_ok es m0)"

fun fwd_ok :: "hentry list \<Rightarrow> gmodel \<Rightarrow> bool" where
  "fwd_ok [] m = True"
| "fwd_ok (e # es) m = (\<exists>m1. settled m1 \<and> leads e m m1 \<and> fwd_ok es m1)"

definition timeline :: "history \<Rightarrow> gmodel \<Rightarrow> bool" where
  "timeline h m \<longleftrightarrow> back_ok (rev (h_undo h)) m \<and> fwd_ok (rev (h_redo h)) m"

lemma back_ok_append: "back_ok (xs @ ys) m \<Longrightarrow> back_ok xs m"
  by (induction xs arbitrary: m) auto

lemma timeline_undo:
  assumes t: "timeline h m" and s: "settled m" and u: "undo h m = (h', m')"
  shows "timeline h' m' \<and> settled m'"
proof (cases "h_undo h" rule: rev_cases)
  case Nil
  then show ?thesis using t s u by (simp add: undo_def)
next
  case (snoc us e)
  then obtain m0 where m0: "settled m0" "leads e m0 m" "back_ok (rev us) m0" using t by (auto simp: timeline_def)
  then have r: "revertCommand e m = (e, m0)" by (simp add: leads_def)
  show ?thesis
  proof (cases "h_enabled h")
    case True
    then have "h' = h\<lparr>h_undo := us, h_redo := h_redo h @ [e], h_frozen := False\<rparr>" "m' = m0"
      using u snoc r by (simp_all add: undo_def)
    then show ?thesis using t m0 s by (auto simp: timeline_def)
  next
    case False
    then show ?thesis using t s u by (simp add: undo_def)
  qed
qed

lemma back_ok_push:
  assumes "back_ok (rev (h_undo h)) m" "leads e m m'" "settled m"
  shows "back_ok (rev (h_undo (undoStackPush e h))) m'"
proof -
  have "back_ok (rev (tl (h_undo h))) m" using assms(1) by (cases "h_undo h") (auto dest: back_ok_append)
  then show ?thesis using assms by (auto simp: undoStackPush_def Let_def)
qed

lemma undoStackPush_fields [simp]:
  "h_redo (undoStackPush e h) = h_redo h" "h_frozen (undoStackPush e h) = h_frozen h"
  "h_enabled (undoStackPush e h) = h_enabled h" "h_batch (undoStackPush e h) = h_batch h"
  by (simp_all add: undoStackPush_def Let_def)

lemma timeline_redo:
  assumes t: "timeline h m" and s: "settled m" and r: "redo h m = (h', m')"
  shows "timeline h' m' \<and> settled m'"
proof (cases "h_redo h" rule: rev_cases)
  case Nil
  then show ?thesis using t s r by (simp add: redo_def)
next
  case (snoc rs e)
  then obtain m1 where m1: "settled m1" "leads e m m1" "fwd_ok (rev rs) m1" using t by (auto simp: timeline_def)
  then have a: "applyCommand e m = (e, m1)" by (simp add: leads_def)
  show ?thesis
  proof (cases "h_enabled h")
    case True
    then have m': "m' = m1" "h' = undoStackPush e (h\<lparr>h_redo := rs, h_frozen := False\<rparr>)"
      using r snoc a by (simp_all add: redo_def)
    have "back_ok (rev (h_undo h')) m'"
      unfolding m' by (rule back_ok_push [of _ m]) (use t m1 s in \<open>simp_all add: timeline_def\<close>)
    then show ?thesis using m1 m' by (simp add: timeline_def)
  next
    case False
    then show ?thesis using t s r by (simp add: redo_def)
  qed
qed

lemma timeline_cancel:
  assumes t: "timeline h m" and s: "settled m" and c: "cancel h m = (h', m')"
  shows "timeline h' m' \<and> settled m'"
proof (cases "h_undo h" rule: rev_cases)
  case Nil
  then show ?thesis using t s c by (simp add: cancel_def)
next
  case (snoc us e)
  then obtain m0 where "settled m0" "leads e m0 m" "back_ok (rev us) m0" using t by (auto simp: timeline_def)
  then show ?thesis using t s c snoc by (auto simp: cancel_def timeline_def leads_def split: if_splits)
qed

section \<open>Merged entries\<close>

lemma leads_merged:
  assumes "embed_group e2" "move_group e1" "leads e1 m0 m1" "leads e2 m1 m2"
  shows "leads (Group (group_commands e1 @ group_commands e2)) m0 m2"
proof -
  obtain cs where e2: "e2 = Group cs"
      and cs: "set (map hc_event cs) = {Some (CellChange ''parent''), Some (CellChange ''children'')}"
    using assms(1) by (auto simp: embed_group_def split: hentry.splits)
  obtain c where e1: "e1 = Group [c]" and c: "hc_event c = Some (CellChange ''position'')"
    using assms(2) by (auto simp: move_group_def split: hentry.splits list.splits)
  have "hc_event d \<noteq> Some CellAdded" if "d \<in> set cs" for d
  proof -
    have "hc_event d \<in> {Some (CellChange ''parent''), Some (CellChange ''children'')}"
      using that cs by (metis imageI set_map)
    then show ?thesis by auto
  qed
  then have n: "\<forall>d \<in> set cs. \<not> isAddEvent (hc_event d)" "\<forall>d \<in> set [c]. \<not> isAddEvent (hc_event d)"
      "\<forall>d \<in> set ([c] @ cs). \<not> isAddEvent (hc_event d)"
    using c by (auto simp: isAddEvent_def)
  have "run_cmds ([c] @ cs) m0 = ([c] @ cs, m2)" "unrun_cmds ([c] @ cs) m2 = ([c] @ cs, m0)"
    using assms(3,4) unfolding e1 e2 leads_group[OF n(1)] leads_group[OF n(2)] run_cmds_append unrun_cmds_append by simp_all
  then show ?thesis unfolding e1 e2 group_commands_def hentry.case leads_group[OF n(3)] by blast
qed

lemma consolidate_back_ok:
  assumes "back_ok (rev (h_undo h)) m"
  shows "back_ok (rev (h_undo (consolidateCommands h))) m"
proof (cases "length (h_undo h) \<ge> 2 \<and> embed_group (h_undo h ! (length (h_undo h) - 1)) \<and>
    move_group (h_undo h ! (length (h_undo h) - 2))")
  case True
  then obtain us e1 e2 where u: "h_undo h = us @ [e1, e2]"
    by (metis (no_types, lifting) One_nat_def Suc_le_length_iff append.assoc append_Cons append_Nil numeral_2_eq_2
        rev_exhaust length_append_singleton le_zero_eq nat.distinct(1) list.size(3) not_less_eq_eq)
  have e: "embed_group e2" "move_group e1" using True by (simp_all add: u nth_append)
  show ?thesis
    using assms True leads_merged [OF e] by (fastforce simp: u consolidateCommands_def Let_def nth_append)
next
  case False
  then show ?thesis using assms by (auto simp: consolidateCommands_def Let_def)
qed

section \<open>Reachable states\<close>

text \<open>
  Sessions: the model starts in any consistent state, and changes by property changes, by added nodes
  and by batches of property changes, each recorded from its events, and by undo, redo and cancel.
\<close>

definition changeable :: "gmodel \<Rightarrow> string \<Rightarrow> string \<Rightarrow> jv \<Rightarrow> bool" where
  "changeable m i k v \<longleftrightarrow> plain_key k \<and> \<not> nullish v \<and>
     (case getCell i m of None \<Rightarrow> False | Some c \<Rightarrow> undoable_prop (gc_props c) k)"

definition addable :: "gmodel \<Rightarrow> gcell \<Rightarrow> bool" where
  "addable m c \<longleftrightarrow> \<not> gc_edge c \<and> gc_z c \<noteq> None \<and> gc_id c \<notin> gc_id ` cells_of m \<and>
     (\<forall>e \<in> cells_of m. \<not> touches (gc_id c) e) \<and>
     oget (gc_props c) ''parent'' = JUndef \<and> oget (gc_props c) ''children'' = JUndef"

definition add_args :: "gcell \<Rightarrow> bool \<Rightarrow> hargs" where
  "add_args c ui = \<lparr>ha_cell = c, ha_prev = PVal JUndef, ha_cur = PVal JUndef, ha_ui = ui, ha_dryrun = False\<rparr>"

text \<open>In a batch, a change is of a property that has a value.\<close>

definition batch_change_ok :: "gmodel \<Rightarrow> string \<times> string \<times> jv \<times> bool \<Rightarrow> bool" where
  "batch_change_ok m ch \<longleftrightarrow>
     (case ch of (i, k, v, ui) \<Rightarrow> plain_key k \<and> \<not> nullish v \<and> \<not> nullish (prop_of m i k))"

inductive edits :: "nat \<Rightarrow> history \<times> gmodel \<Rightarrow> bool" for limit where
  edits_start: "settled m \<Longrightarrow> edits limit (newHistory limit True, m)"
| edits_change: "edits limit (h, m) \<Longrightarrow> changeable m i k v \<Longrightarrow> edits limit (record_change (i, k, v, ui) (h, m))"
| edits_add: "edits limit (h, m) \<Longrightarrow> addable m c \<Longrightarrow> edits limit (addCommand CellAdded (add_args c ui) h, addCell c m)"
| edits_batch: "edits limit (h, m) \<Longrightarrow> list_all (batch_change_ok m) chs \<Longrightarrow>
    fold record_change chs (initBatchCommand h, m) = (h', m') \<Longrightarrow> edits limit (storeBatchCommand h', m')"
| edits_undo: "edits limit (h, m) \<Longrightarrow> edits limit (undo h m)"
| edits_redo: "edits limit (h, m) \<Longrightarrow> edits limit (redo h m)"
| edits_cancel: "edits limit (h, m) \<Longrightarrow> edits limit (cancel h m)"

definition ready :: "history \<Rightarrow> bool" where
  "ready h \<longleftrightarrow> \<not> h_frozen h \<and> h_enabled h \<and> \<not> h_ignoreAdd h \<and> \<not> h_ignoreRemove h \<and> \<not> h_ignoreChange h"

definition edit_inv :: "nat \<Rightarrow> history \<Rightarrow> gmodel \<Rightarrow> bool" where
  "edit_inv limit h m \<longleftrightarrow> bounded limit h \<and> timeline h m \<and> settled m \<and> ready h \<and> h_batch h = None"

lemma ready_fields [simp]:
  "ready (h\<lparr>h_redo := r\<rparr>) = ready h" "ready (h\<lparr>h_batch := b\<rparr>) = ready h" "ready (h\<lparr>h_level := l\<rparr>) = ready h"
  "ready (h\<lparr>h_last := i\<rparr>) = ready h" "ready (h\<lparr>h_undo := u\<rparr>) = ready h"
  by (simp_all add: ready_def)

lemma ready_unfreeze: "ready h \<Longrightarrow> ready (h\<lparr>h_frozen := False\<rparr>)"
  by (simp add: ready_def)

lemma ready_push [simp]: "ready (undoStackPush e h) = ready h" "ready (consolidateCommands h) = ready h"
  by (simp_all add: undoStackPush_def consolidateCommands_def Let_def)

lemma consolidate_fields [simp]:
  "h_redo (consolidateCommands h) = h_redo h" "h_batch (consolidateCommands h) = h_batch h"
  by (simp_all add: consolidateCommands_def Let_def)

lemma fill_command_batch [simp]: "hc_batch (fill_command ev a c) = hc_batch c"
  by (cases ev) (simp_all add: fill_command_def Let_def)

lemma timeline_recorded:
  assumes "timeline h m" "leads e m m'" "settled m"
  shows "timeline (consolidateCommands (undoStackPush e (h\<lparr>h_redo := []\<rparr>))) m'"
proof -
  have "back_ok (rev (h_undo (undoStackPush e (h\<lparr>h_redo := []\<rparr>)))) m'"
    by (rule back_ok_push [of _ m]) (use assms in \<open>auto simp: timeline_def\<close>)
  then show ?thesis by (simp add: timeline_def consolidate_back_ok)
qed

text \<open>While a batch of property changes is open, it holds the last change of each property.\<close>

definition slot_upd :: "string \<Rightarrow> string \<Rightarrow> jv \<Rightarrow> jv \<Rightarrow> bool \<Rightarrow> slot list \<Rightarrow> slot list" where
  "slot_upd i k cur v ui ts =
     (case find (\<lambda>t. slot_key t = (i, k)) ts of
        None \<Rightarrow> ts @ [(i, k, cur, v, ui)]
      | Some (_, _, p, _, u) \<Rightarrow> filter (\<lambda>t. slot_key t \<noteq> (i, k)) ts @ [(i, k, p, v, u)])"

lemma slot_split:
  assumes "distinct (map slot_key ts)"
  obtains "(i, k) \<notin> slot_key ` set ts" "\<And>cur v ui. slot_upd i k cur v ui ts = ts @ [(i, k, cur, v, ui)]"
  | xs p w u ys where "ts = xs @ (i, k, p, w, u) # ys" "(i, k) \<notin> slot_key ` set xs" "(i, k) \<notin> slot_key ` set ys"
    "\<And>cur v ui. slot_upd i k cur v ui ts = xs @ ys @ [(i, k, p, v, u)]"
proof (cases "find (\<lambda>t. slot_key t = (i, k)) ts")
  case None
  then have "slot_key t \<noteq> (i, k)" if "t \<in> set ts" for t using that unfolding find_None_iff by blast
  then have "(i, k) \<notin> slot_key ` set ts" by (metis imageE)
  moreover have "slot_upd i k cur v ui ts = ts @ [(i, k, cur, v, ui)]" for cur v ui using None by (simp add: slot_upd_def)
  ultimately show ?thesis by (rule that(1))
next
  case (Some t)
  then have t: "t \<in> set ts" "slot_key t = (i, k)" by (auto simp: find_Some_iff)
  obtain p w u where tt: "t = (i, k, p, w, u)" using t(2) by (cases t) (auto simp: slot_key_def)
  obtain xs ys where ts: "ts = xs @ t # ys" using t(1) by (meson split_list)
  have n: "(i, k) \<notin> slot_key ` set xs" "(i, k) \<notin> slot_key ` set ys" using assms t(2) ts by (auto simp: image_iff)
  then have "filter (\<lambda>t. slot_key t \<noteq> (i, k)) xs = xs" "filter (\<lambda>t. slot_key t \<noteq> (i, k)) ys = ys"
    unfolding filter_id_conv by (metis imageI)+
  then have "slot_upd i k cur v ui ts = xs @ ys @ [(i, k, p, v, u)]" for cur v ui
    using Some tt t(2) ts by (simp add: slot_upd_def)
  then show ?thesis using that(2) n ts tt by blast
qed

lemma slots_move:
  "settled m \<Longrightarrow> \<not> nullish w \<Longrightarrow> \<not> nullish (prop_of m i k) \<Longrightarrow> (i, k) \<notin> slot_key ` set ys \<Longrightarrow>
   (\<forall>(j, l, p, v, u) \<in> set ys. \<not> nullish v \<and> \<not> nullish (prop_of m j l)) \<Longrightarrow>
   fold slot_next ys (set_prop i k w m) = set_prop i k w (fold slot_next ys m)"
proof (induction ys arbitrary: m)
  case (Cons t ys)
  obtain j l p v u where t: "t = (j, l, p, v, u)" by (metis prod_cases5)
  have v: "\<not> nullish v" "\<not> nullish (prop_of m j l)" using Cons.prems(5) t by auto
  have c: "getCell j m \<noteq> None" using slot_ok_cell[OF v(2)] by auto
  have ne: "(i, k) \<noteq> (j, l)" using Cons.prems(4) t by (auto simp: slot_key_def)
  have pr: "\<not> nullish (prop_of m a b) \<Longrightarrow> \<not> nullish (prop_of (set_prop j l v m) a b)" for a b
    using prop_of_set_prop[OF v(1) c, of l a b] v(1) by (simp split: if_splits)
  have "fold slot_next ys (set_prop i k w (set_prop j l v m)) = set_prop i k w (fold slot_next ys (set_prop j l v m))"
    using Cons.prems pr by (intro Cons.IH settled_set_prop) auto
  then show ?case
    using set_prop_commute[OF Cons.prems(1) ne Cons.prems(2) v(1) Cons.prems(3) v(2)]
    by (simp add: t slot_next_def[of "(j, l, p, v, u)"])
qed simp

text \<open>Recording a change of the current model keeps the slots: they lead from the model at the start of the
  batch to the changed one.\<close>

lemma slot_upd_ok:
  fixes ui :: bool
  assumes s: "settled m0" and ok: "list_all (slot_ok m0) ts" and d: "distinct (map slot_key ts)"
    and k: "plain_key k" "\<not> nullish v" "\<not> nullish (prop_of m0 i k)"
  defines "m \<equiv> fold slot_next ts m0"
  defines "us \<equiv> slot_upd i k (prop_of m i k) v ui ts"
  shows "list_all (slot_ok m0) us \<and> distinct (map slot_key us) \<and> fold slot_next us m0 = set_prop i k v m"
  using d
proof (cases rule: slot_split[of ts i k])
  case 1
  have "prop_of m i k = prop_of m0 i k" using slots_run[OF s ok] 1(1) by (simp add: m_def)
  then show ?thesis using 1 ok d k by (auto simp: us_def slot_ok_def slot_key_def slot_next_def m_def)
next
  case (2 xs p w u ys)
  let ?M = "fold slot_next xs m0"
  have okx: "list_all (slot_ok m0) xs" "list_all (slot_ok m0) ys" "slot_ok m0 (i, k, p, w, u)"
    using ok 2(1) by simp_all
  note R = slots_run[OF s okx(1)]
  have w: "\<not> nullish w" "\<not> nullish p" "prop_of m0 i k = p" using okx(3) by (simp_all add: slot_ok_def)
  have sM: "settled M" if "M = fold slot_next (xs @ ys) m0" for M
    using slots_run[OF s, of "xs @ ys"] okx that by simp
  have y: "\<forall>(j, l, p, v, u) \<in> set ys. \<not> nullish v \<and> \<not> nullish (prop_of ?M j l)"
  proof (clarify)
    fix j l q x b assume "(j, l, q, x, b) \<in> set ys"
    then have "slot_ok m0 (j, l, q, x, b)" using okx(2) by (auto simp: list_all_iff)
    then show "\<not> nullish x \<and> \<not> nullish (prop_of ?M j l)" using R by (auto simp: slot_ok_def)
  qed
  have pM: "\<not> nullish (prop_of ?M i k)" using R k(3) by blast
  have "m = fold slot_next ys (set_prop i k w ?M)" using 2(1) by (simp add: m_def slot_next_def)
  also have "\<dots> = set_prop i k w (fold slot_next ys ?M)"
    by (rule slots_move[OF _ w(1) pM 2(3) y]) (use R in blast)
  finally have m: "m = set_prop i k w (fold slot_next (xs @ ys) m0)" by simp
  obtain c where c: "getCell i (fold slot_next (xs @ ys) m0) = Some c" "\<not> nullish (oget (gc_props c) k)"
    using slots_run[OF s, of "xs @ ys"] okx k(3) slot_ok_cell[of "fold slot_next (xs @ ys) m0" i k] by auto
  have "set_prop i k v m = set_prop i k v (fold slot_next (xs @ ys) m0)"
    unfolding m using set_prop_over[OF sM[OF refl] c(1) _ w(1), of k v] c(2) k(2) by (simp add: undoable_prop_def)
  then have "fold slot_next us m0 = set_prop i k v m" using 2(4) by (simp add: us_def slot_next_def)
  moreover have "list_all (slot_ok m0) us \<and> distinct (map slot_key us)"
    using 2 okx w k(1,2) d by (auto simp: us_def slot_ok_def slot_key_def)
  ultimately show ?thesis by blast
qed

lemma index_of_at: "\<forall>x \<in> set xs. \<not> P x \<Longrightarrow> P y \<Longrightarrow> index_of P (xs @ y # ys) = int (length xs)"
  by (induction xs) (simp_all add: Let_def)

lemma index_of_none: "\<forall>x \<in> set xs. \<not> P x \<Longrightarrow> index_of P xs = -1"
  by (induction xs) simp_all

lemma slot_cmd_is [simp]: "hc_id (slot_cmd t) = Some i \<and> hc_event (slot_cmd t) = Some (CellChange k) \<longleftrightarrow> slot_key t = (i, k)"
  by (cases t) (auto simp: slot_cmd_def slot_key_def)

lemma fill_slot: "fill_command (CellChange k) (change_args c k v ui) (slot_cmd (i, k, p, w, u)) = slot_cmd (i, k, p, v, u)"
  by (simp add: fill_command_def slot_cmd_def createCommand_def change_args_def Let_def)

lemma fill_new: "fill_command (CellChange k) (change_args c k v ui) (createCommand True) =
    slot_cmd (gc_id c, k, oget (gc_props c) k, v, ui)"
  by (simp add: filled_change slot_cmd_def)

definition slot_cmds :: "slot list \<Rightarrow> hcmd list" where
  "slot_cmds ts = (if ts = [] then [createCommand True] else map slot_cmd ts)"

lemma record_slot:
  assumes d: "distinct (map slot_key ts)" and i: "gc_id c = i"
    and b: "batch_slot (CellChange k) i (slot_cmds ts) (int (length ts) - 1) = (cs, p, lst)"
  shows "cs[p := fill_command (CellChange k) (change_args c k v ui) (cs ! p)] =
      slot_cmds (slot_upd i k (oget (gc_props c) k) v ui ts) \<and>
    max lst 0 = int (length (slot_upd i k (oget (gc_props c) k) v ui ts)) - 1 \<and>
    hc_batch (fill_command (CellChange k) (change_args c k v ui) (cs ! p)) \<and> slot_upd i k (oget (gc_props c) k) v ui ts \<noteq> []"
proof (cases ts rule: rev_cases)
  case Nil
  then have "cs = [createCommand True]" "p = 0" "lst = -1" using b by (simp_all add: batch_slot_def slot_cmds_def)
  then show ?thesis using Nil i by (simp add: slot_upd_def fill_new slot_cmds_def) (simp add: slot_cmd_def createCommand_def)
next
  case (snoc us t)
  have cm: "slot_cmds ts = map slot_cmd us @ [slot_cmd t]" using snoc by (simp add: slot_cmds_def)
  have n: "nat (max (int (length ts) - 1) 0) = length us" "(map slot_cmd us @ [slot_cmd t]) ! length us = slot_cmd t"
    using snoc by (simp_all add: nth_append)
  show ?thesis
  proof (cases "slot_key t = (i, k)")
    case True
    then obtain q w u where t: "t = (i, k, q, w, u)" by (cases t) (auto simp: slot_key_def)
    have e: "hc_id (slot_cmd t) = Some i \<and> hc_event (slot_cmd t) = Some (CellChange k)" using True by simp
    have "\<not> (int (length ts) - 1 \<ge> 0 \<and> (hc_id (slot_cmd t) \<noteq> Some i \<or> hc_event (slot_cmd t) \<noteq> Some (CellChange k)))"
      using e by blast
    then have "(cs, p, lst) = (map slot_cmd us @ [slot_cmd t], length us, int (length ts) - 1)"
      unfolding b[symmetric] batch_slot_def Let_def cm n by (rule if_not_P)
    then have r: "cs = map slot_cmd us @ [slot_cmd t]" "p = length us" "lst = int (length us)" using snoc by simp_all
    have up: "slot_upd i k cur v ui ts = us @ [(i, k, q, v, u)]" for cur
    proof -
      have "(i, k) \<notin> slot_key ` set us" using d snoc True by auto
      then have "find (\<lambda>t. slot_key t = (i, k)) us = None" "filter (\<lambda>t. slot_key t \<noteq> (i, k)) us = us"
        by (force simp: find_None_iff filter_id_conv)+
      moreover have "find P (as @ bs) = (case find P as of None \<Rightarrow> find P bs | Some x \<Rightarrow> Some x)" for P and as bs :: "slot list"
        by (induction as) auto
      ultimately show ?thesis using snoc True t by (simp add: slot_upd_def)
    qed
    show ?thesis unfolding r up
      by (simp add: t nth_append list_update_append fill_slot slot_cmds_def) (simp add: slot_cmd_def createCommand_def)
  next
    case False
    let ?P = "\<lambda>c. hc_id c = Some i \<and> hc_event c = Some (CellChange k)"
    let ?idx = "index_of ?P (slot_cmds ts)"
    define ds where "ds = (if ?idx < 0 \<or> isAddEvent (Some (CellChange k)) \<or> isRemoveEvent (Some (CellChange k))
        then slot_cmds ts @ [createCommand True] else splice_delete ?idx (slot_cmds ts) @ [slot_cmds ts ! nat ?idx])"
    have c: "int (length ts) - 1 \<ge> 0 \<and> (hc_id (slot_cmd t) \<noteq> Some i \<or> hc_event (slot_cmd t) \<noteq> Some (CellChange k))"
    proof -
      have "hc_id (slot_cmd t) \<noteq> Some i \<or> hc_event (slot_cmd t) \<noteq> Some (CellChange k)"
        using False slot_cmd_is[of t i k] by blast
      then show ?thesis using snoc by simp
    qed
    have c': "int (length ts) - 1 \<ge> 0 \<and> (hc_id (slot_cmds ts ! nat (max (int (length ts) - 1) 0)) \<noteq> Some i \<or>
        hc_event (slot_cmds ts ! nat (max (int (length ts) - 1) 0)) \<noteq> Some (CellChange k))"
      unfolding cm n by (rule c)
    have "(cs, p, lst) = (ds, length ds - 1, int (length ds) - 1)"
      unfolding b[symmetric] batch_slot_def Let_def ds_def using c' by (rule if_P)
    then have r: "cs = ds" "p = length ds - 1" "lst = int (length ds) - 1" by simp_all
    have ne: "slot_cmds ts = map slot_cmd ts" using snoc by (simp add: slot_cmds_def)
    show ?thesis
      using d
    proof (cases rule: slot_split[of ts i k])
      case 1
      then have "slot_key u \<noteq> (i, k)" if "u \<in> set ts" for u using that by (metis imageI)
      then have "\<forall>x \<in> set (map slot_cmd ts). \<not> ?P x" by (simp only: set_map ball_simps slot_cmd_is) blast
      then have "?idx = -1" unfolding ne by (rule index_of_none)
      then have ds: "ds = map slot_cmd ts @ [createCommand True]" unfolding ds_def ne by simp
      show ?thesis unfolding r ds 1(2) using i
        by (simp add: nth_append list_update_append fill_new slot_cmds_def) (simp add: slot_cmd_def createCommand_def)
    next
      case (2 xs q w u ys)
      have m: "map slot_cmd ts = map slot_cmd xs @ slot_cmd (i, k, q, w, u) # map slot_cmd ys" using 2(1) by simp
      have "slot_key t \<noteq> (i, k)" if "t \<in> set xs" for t using that 2(2) by (metis imageI)
      then have "\<forall>x \<in> set (map slot_cmd xs). \<not> ?P x" by (simp only: set_map ball_simps slot_cmd_is) blast
      moreover have "?P (slot_cmd (i, k, q, w, u))" unfolding slot_cmd_is by (simp add: slot_key_def)
      ultimately have idx: "index_of ?P (map slot_cmd ts) = int (length xs)" unfolding m
        using index_of_at[of "map slot_cmd xs" ?P "slot_cmd (i, k, q, w, u)" "map slot_cmd ys"] by simp
      have sp: "splice_at (int (length xs)) (map slot_cmd ts) = length xs" using 2(1) by (simp add: splice_at_def)
      have "ds = map slot_cmd (xs @ ys) @ [slot_cmd (i, k, q, w, u)]"
        unfolding ds_def ne unfolding idx splice_delete_def sp unfolding m by (simp add: isAddEvent_def isRemoveEvent_def nth_append)
      then show ?thesis unfolding r 2(4)
        by (simp add: nth_append list_update_append fill_slot slot_cmds_def) (simp add: slot_cmd_def createCommand_def)
    qed
  qed
qed

definition recording :: "history \<Rightarrow> gmodel \<Rightarrow> slot list \<Rightarrow> history \<Rightarrow> gmodel \<Rightarrow> bool" where
  "recording h0 m0 ts h m \<longleftrightarrow>
     ready h \<and> h_batch h = Some (slot_cmds ts) \<and> h_last h = int (length ts) - 1 \<and> h_level h = 0 \<and>
     h_undo h = h_undo h0 \<and> (h_redo h = h_redo h0 \<or> h_redo h = []) \<and> h_stackSize h = h_stackSize h0 \<and>
     list_all (slot_ok m0) ts \<and> distinct (map slot_key ts) \<and> m = fold slot_next ts m0"

lemma recording_step:
  assumes s: "settled m0" and r: "recording h0 m0 ts h m" and ch: "batch_change_ok m0 ch"
  shows "\<exists>us. case record_change ch (h, m) of (h', m') \<Rightarrow> recording h0 m0 us h' m'"
proof -
  obtain i k v ui where c: "ch = (i, k, v, ui)" by (metis prod_cases4)
  have k: "plain_key k" "\<not> nullish v" "\<not> nullish (prop_of m0 i k)" using ch c by (simp_all add: batch_change_ok_def)
  have ts: "list_all (slot_ok m0) ts" "distinct (map slot_key ts)" "m = fold slot_next ts m0"
    using r by (simp_all add: recording_def)
  have R: "settled m" "\<not> nullish (prop_of m i k)" using slots_run[OF s ts(1)] k(3) ts(3) by blast+
  obtain cell where cell: "getCell i m = Some cell" using slot_ok_cell[OF R(2)] by blast
  have id: "gc_id cell = i" "prop_of m i k = oget (gc_props cell) k"
    using settled_cell[OF R(1), of i cell] cell by (simp_all add: prop_of_def)
  show ?thesis
  proof (cases "oget (gc_props cell) k = v")
    case True
    then show ?thesis using r c cell by (auto simp: record_change_def)
  next
    case False
    obtain cs p lst where b: "batch_slot (CellChange k) i (slot_cmds ts) (int (length ts) - 1) = (cs, p, lst)"
      by (metis prod_cases3)
    let ?us = "slot_upd i k (oget (gc_props cell) k) v ui ts"
    have S: "cs[p := fill_command (CellChange k) (change_args cell k v ui) (cs ! p)] = slot_cmds ?us"
        "max lst 0 = int (length ?us) - 1" "hc_batch (fill_command (CellChange k) (change_args cell k v ui) (cs ! p))"
      using record_slot[OF ts(2) id(1) b, of v ui] by blast+
    have U: "list_all (slot_ok m0) ?us" "distinct (map slot_key ?us)" "fold slot_next ?us m0 = set_prop i k v m"
      using slot_upd_ok[OF s ts(1,2) k, of ui] ts(3) id(2) by simp_all
    have a: "ha_cell (change_args cell k v ui) = cell" "\<not> ha_dryrun (change_args cell k v ui)" by (simp_all add: change_args_def)
    have "recording h0 m0 ?us (addCommand (CellChange k) (change_args cell k v ui) h) (set_prop i k v m)"
      using r S U(1,2) b id(1) unfolding U(3)[symmetric]
      by (simp add: recording_def addCommand_def ready_def a history_push_def Let_def isAddEvent_def isRemoveEvent_def)
    then show ?thesis using c cell False by (auto simp: record_change_def)
  qed
qed

lemma recording_run:
  "settled m0 \<Longrightarrow> recording h0 m0 ts h m \<Longrightarrow> list_all (batch_change_ok m0) chs \<Longrightarrow>
   fold record_change chs (h, m) = (h', m') \<Longrightarrow> \<exists>us. recording h0 m0 us h' m'"
proof (induction chs arbitrary: ts h m)
  case (Cons ch chs)
  obtain h1 m1 where r: "record_change ch (h, m) = (h1, m1)" by fastforce
  obtain us where "recording h0 m0 us h1 m1" using recording_step[OF Cons.prems(1,2)] Cons.prems(3) r by fastforce
  then show ?case using Cons r by simp
qed auto

lemma recording_init: "ready h \<Longrightarrow> h_batch h = None \<Longrightarrow> recording h m [] (initBatchCommand h) m"
  by (simp add: recording_def initBatchCommand_def slot_cmds_def ready_def)

lemma add_node_leads:
  assumes s: "settled m" and c: "addable m c"
  shows "leads (Single (fill_command CellAdded (add_args c ui) (createCommand False))) m (addCell c m) \<and> settled (addCell c m)"
proof -
  have ok: "model_ok m" and sorted: "sorted (map z_of (getCells m))" using s by (simp_all add: settled_def)
  have c: "\<not> gc_edge c" "gc_z c \<noteq> None" "gc_id c \<notin> gc_id ` cells_of m" "\<forall>e \<in> cells_of m. \<not> touches (gc_id c) e"
    using c by (simp_all add: addable_def)
  have cok: "coll_ok (gm_coll m)" using ok by (simp add: model_ok_def)
  let ?i = "gc_id c" and ?m = "addCell c m"
  have pc: "prepareCell m c = c" using c(2) by (simp add: prepareCell_def)
  have new: "\<not> coll_has ?i (gm_coll m)" using c(3) coll_has_iff [OF cok] by (simp add: cells_of_def)
  have len: "col_length (gm_coll m) = int (length (col_cells (gm_coll m)))" using cok by (simp add: coll_ok_def)
  have cells: "col_cells (gm_coll ?m) = sort_key z_of (col_cells (gm_coll m) @ [c])"
      and rest: "gm_nodes ?m = key_add ?i (gm_nodes m)" "gm_edges ?m = gm_edges m" "gm_out ?m = gm_out m"
        "gm_in ?m = gm_in m" "gm_batches ?m = gm_batches m"
    using new c(1) len
    by (simp_all add: addCell_def pc coll_add_def coll_index_def splice_insert_def splice_at_def coll_sort_def reference_def
        onCellAdded_def Let_def)
  have ok': "model_ok ?m" "cells_of ?m = insert c (cells_of m)" using addCell_ok [OF ok, of c] c(3) pc by auto
  have cok': "coll_ok (gm_coll ?m)" using ok'(1) by (simp add: model_ok_def)
  have get: "getCell ?i ?m = Some c" using coll_get_Some [OF cok'] ok'(2) by (simp add: getCell_def cells_of_def)
  obtain col where r: "coll_remove_one ?i (gm_coll ?m) = (Some c, col)"
    using coll_remove_one_spec [OF cok', of ?i] get by (cases "coll_remove_one ?i (gm_coll ?m)") (simp add: getCell_def)
  have "?i \<notin> gc_id ` set (col_cells (gm_coll m))" using c(3) by (simp add: cells_of_def)
  then have "gc_id d \<noteq> ?i" if "d \<in> set (col_cells (gm_coll m))" for d using that by (metis imageI)
  then have keep: "filter (\<lambda>d. gc_id d \<noteq> ?i) (col_cells (gm_coll m)) = col_cells (gm_coll m)"
    by (simp add: filter_id_conv)
  have "col_cells col = filter (\<lambda>d. gc_id d \<noteq> ?i) (col_cells (gm_coll ?m))"
    using coll_remove_one_spec [OF cok', of ?i] r by simp
  also have "\<dots> = sort_key z_of (col_cells (gm_coll m))" unfolding cells filter_sort filter_append keep by simp
  also have "\<dots> = col_cells (gm_coll m)" using sorted by (simp add: sort_key_id_if_sorted getCells_def)
  finally have col: "col = gm_coll m"
    using coll_remove_one_spec [OF cok', of ?i] r cok by (intro coll_eqI) auto
  define m1 where "m1 = unindex_cell c (?m\<lparr>gm_coll := col\<rparr>)"
  have "?i \<notin> set (gm_nodes m)" using ok c(3) by (auto simp: model_ok_def)
  then have "key_del ?i (key_add ?i (gm_nodes m)) = gm_nodes m" by (auto simp: key_add_def key_del_def filter_id_conv)
  then have m1: "m1 = m" using c(1) rest col by (cases m, cases ?m) (simp add: m1_def unindex_cell_def)
  have "set (getConnectedEdges ?i True True m1) = {}" using getConnectedEdges_set [OF ok] c(4) by (auto simp: m1)
  then have none: "getConnectedEdges ?i True True m1 = []" by simp
  have "length (getCells ?m) = Suc (length (getCells m))" by (simp add: getCells_def cells)
  then have rm: "removeCell False ?i ?m = m"
    using none m1 by (simp add: removeCell_def removeCell_fuel.simps r Let_def m1_def)
  let ?cmd = "fill_command CellAdded (add_args c ui) (createCommand False)"
  have f: "hc_event ?cmd = Some CellAdded" "hc_id ?cmd = Some ?i" "hc_cell ?cmd = Some c"
    by (simp_all add: fill_command_def add_args_def)
  have "executeCommand ?cmd False m = (?cmd, ?m)" "executeCommand ?cmd True ?m = (?cmd, m)"
    using get rm by (simp_all add: executeCommand_def f Let_def isAddEvent_def isRemoveEvent_def)
  then have "leads (Single ?cmd) m ?m" by (simp add: leads_def applyCommand_def revertCommand_def)
  moreover have "settled ?m" using ok'(1) by (simp add: settled_def getCells_def cells)
  ultimately show ?thesis by blast
qed

lemma addCommand_single:
  assumes "edit_inv limit h m" "leads (Single (fill_command ev a (createCommand False))) m m'" "settled m'" "\<not> ha_dryrun a"
  shows "edit_inv limit (addCommand ev a h) m'"
proof -
  have i: "bounded limit h" "timeline h m" "settled m" "ready h" "h_batch h = None" using assms(1) by (simp_all add: edit_inv_def)
  let ?c = "fill_command ev a (createCommand False)"
  have "addCommand ev a h = consolidateCommands (undoStackPush (Single ?c) (h\<lparr>h_redo := []\<rparr>))"
    using i assms(4) by (simp add: addCommand_def history_push_def Let_def ready_def createCommand_def)
  then show ?thesis
    using i assms(3) timeline_recorded [OF i(2) assms(2) i(3)]
    by (simp add: edit_inv_def bounded_consolidate bounded_push)
qed

lemma store_batch:
  assumes i: "edit_inv limit h m" and r: "recording h m ts g m'"
  shows "edit_inv limit (storeBatchCommand g) m'"
proof -
  have i': "bounded limit h" "timeline h m" "settled m" "ready h" "h_batch h = None" using i by (simp_all add: edit_inv_def)
  have g: "ready g" "h_batch g = Some (slot_cmds ts)" "h_level g = 0" "h_undo g = h_undo h"
      "h_redo g = h_redo h \<or> h_redo g = []" "h_stackSize g = h_stackSize h"
    and ts: "list_all (slot_ok m) ts" "distinct (map slot_key ts)" "m' = fold slot_next ts m"
    using r by (simp_all add: recording_def)
  define b where "b = filterBatchCommand (slot_cmds ts)"
  have b: "b = filterBatchCommand (map slot_cmd ts)" by (simp add: b_def slot_cmds_def createCommand_def)
  have L: "leads (Group b) m m'" unfolding b ts(3) by (rule batch_leads[OF i'(3) ts(1,2)])
  have sm: "settled m'" using slots_run[OF i'(3) ts(1)] ts(3) by blast
  have gb: "bounded limit g" using i'(1) g by (simp add: bounded_def)
  show ?thesis
  proof (cases "b = []")
    case True
    then have "m' = m" using L by (simp add: leads_def applyCommand_def sortBatchCommands_def)
    moreover have "storeBatchCommand g = g\<lparr>h_batch := None, h_last := -1, h_level := 0\<rparr>"
      using g True b_def by (simp add: storeBatchCommand_def ready_def Let_def)
    moreover have "timeline g m" using i'(2) g by (auto simp: timeline_def)
    ultimately show ?thesis using g gb i'(3) by (simp add: edit_inv_def timeline_def)
  next
    case False
    have "timeline (g\<lparr>h_redo := []\<rparr>) m" using i'(2) g by (simp add: timeline_def)
    then have "timeline (consolidateCommands (undoStackPush (Group b) (g\<lparr>h_redo := []\<rparr>))) m'"
      using timeline_recorded [of "g\<lparr>h_redo := []\<rparr>" m, OF _ L i'(3)] by simp
    moreover have "storeBatchCommand g =
        (consolidateCommands (undoStackPush (Group b) (g\<lparr>h_redo := []\<rparr>)))\<lparr>h_batch := None, h_last := -1, h_level := 0\<rparr>"
      using g False b_def by (simp add: storeBatchCommand_def ready_def Let_def)
    ultimately show ?thesis
      using g gb sm by (simp add: edit_inv_def timeline_def bounded_consolidate bounded_push)
  qed
qed

lemma ready_step: "ready h \<Longrightarrow> ready (fst (undo h m)) \<and> ready (fst (redo h m)) \<and> ready (fst (cancel h m))"
  by (auto simp: undo_def redo_def cancel_def ready_unfreeze split_def)

lemma batch_step: "h_batch (fst (undo h m)) = h_batch h" "h_batch (fst (redo h m)) = h_batch h" "h_batch (fst (cancel h m)) = h_batch h"
  by (simp_all add: undo_def redo_def cancel_def split_def)

lemma edit_inv_step:
  assumes "edits limit s"
  shows "edit_inv limit (fst s) (snd s)"
  using assms
proof (induction rule: edits.induct)
  case (edits_start m)
  then show ?case by (simp add: edit_inv_def newHistory_def bounded_def timeline_def ready_def)
next
  case (edits_change h m i k v ui)
  then have e: "edit_inv limit h m" and s: "settled m" by (simp_all add: edit_inv_def)
  obtain c where c: "getCell i m = Some c" and k: "plain_key k" "\<not> nullish v" "undoable_prop (gc_props c) k"
    using edits_change(2) by (auto simp: changeable_def split: option.splits)
  have "edit_inv limit (addCommand (CellChange k) (change_args c k v ui) h) (set_prop i k v m)"
    by (rule addCommand_single[OF e prop_change_leads[OF s c k(1,3,2)] settled_set_prop[OF s]]) (simp add: change_args_def)
  then show ?case using e c by (simp add: record_change_def)
next
  case (edits_add h m c ui)
  then have e: "edit_inv limit h m" and s: "settled m" by (simp_all add: edit_inv_def)
  have "edit_inv limit (addCommand CellAdded (add_args c ui) h) (addCell c m)"
    using add_node_leads[OF s edits_add(2), of ui] by (intro addCommand_single[OF e]) (simp_all add: add_args_def)
  then show ?case by simp
next
  case (edits_batch h m chs h' m')
  then have e: "edit_inv limit h m" by simp
  then have i: "settled m" "recording h m [] (initBatchCommand h) m" by (auto simp: edit_inv_def intro: recording_init)
  show ?case using store_batch[OF e] recording_run[OF i edits_batch(2,3)] by auto
next
  case (edits_undo h m)
  obtain h' m' where u: "undo h m = (h', m')" by fastforce
  then show ?case
    using timeline_undo [of h m h' m'] edits_undo(2) ready_step[of h m] batch_step(1)[of h m] bounded_run[of limit h HUndo m]
    by (simp add: edit_inv_def)
next
  case (edits_redo h m)
  obtain h' m' where u: "redo h m = (h', m')" by fastforce
  then show ?case
    using timeline_redo [of h m h' m'] edits_redo(2) ready_step[of h m] batch_step(2)[of h m] bounded_run[of limit h HRedo m]
    by (simp add: edit_inv_def)
next
  case (edits_cancel h m)
  obtain h' m' where u: "cancel h m = (h', m')" by fastforce
  then show ?case
    using timeline_cancel [of h m h' m'] edits_cancel(2) ready_step[of h m] batch_step(3)[of h m] bounded_run[of limit h HCancel m]
    by (simp add: edit_inv_def)
qed

lemma undo_redo_once:
  assumes i: "edit_inv limit h m" and u: "h_undo h \<noteq> []"
  shows "(case undo h m of (h1, m1) \<Rightarrow> edit_inv limit h1 m1 \<and> redo h1 m1 = (h, m) \<and>
    length (h_undo h1) = length (h_undo h) - 1)"
proof -
  obtain us e where h: "h_undo h = us @ [e]" using u by (cases "h_undo h" rule: rev_cases) auto
  have t: "timeline h m" "settled m" using i by (simp_all add: edit_inv_def)
  then obtain m0 where m0: "leads e m0 m" using h by (auto simp: timeline_def)
  define h1 where "h1 = h\<lparr>h_undo := us, h_redo := h_redo h @ [e], h_frozen := False\<rparr>"
  have en: "h_enabled h" "\<not> h_frozen h" using i by (simp_all add: edit_inv_def ready_def)
  have undo: "undo h m = (h1, m0)" using h en m0 by (simp add: undo_def h1_def leads_def)
  have "h_stackSize h = 0 \<or> length us < h_stackSize h" using i h by (auto simp: edit_inv_def bounded_def)
  then have "redo h1 m0 = (h, m)"
    using en h m0 by (auto simp: redo_def h1_def undoStackPush_def leads_def)
  moreover have "edit_inv limit h1 m0"
    using i timeline_undo [OF t undo] h by (auto simp: edit_inv_def h1_def bounded_def ready_def)
  ultimately show ?thesis using undo h by (simp add: h1_def)
qed

lemma undo_redo_many:
  assumes "edit_inv limit h m" "k \<le> length (h_undo h)"
  shows "((\<lambda>(h, m). redo h m) ^^ k) (((\<lambda>(h, m). undo h m) ^^ k) (h, m)) = (h, m)"
  using assms
proof (induction k arbitrary: h m)
  case (Suc k)
  then have "h_undo h \<noteq> []" by auto
  obtain h1 m1 where u: "undo h m = (h1, m1)" by fastforce
  have o: "edit_inv limit h1 m1" "redo h1 m1 = (h, m)" "length (h_undo h1) = length (h_undo h) - 1"
    using undo_redo_once [OF Suc.prems(1) \<open>h_undo h \<noteq> []\<close>] u by auto
  have "((\<lambda>(h, m). redo h m) ^^ k) (((\<lambda>(h, m). undo h m) ^^ k) (h1, m1)) = (h1, m1)"
    using Suc.IH [OF o(1)] o(3) Suc.prems(2) by simp
  moreover have "((\<lambda>(h, m). undo h m) ^^ Suc k) (h, m) = ((\<lambda>(h, m). undo h m) ^^ k) (h1, m1)"
    by (simp only: funpow_Suc_right comp_apply prod.case u)
  ultimately show ?case by (simp only: funpow.simps comp_apply prod.case o(2))
qed simp

section \<open>The properties\<close>

text \<open>C25: The undo stack of a history with a limit never holds more entries than the limit, whatever
  events, batches, undos, redos, cancels and switches happen.\<close>

theorem undo_stack_bounded:
  "0 < limit \<Longrightarrow> length (h_undo (fst (fold run_hist ops (newHistory limit enabled, m)))) \<le> limit"
  using bounded_runs [of limit "(newHistory limit enabled, m)" ops] by (simp add: bounded_def newHistory_def)

lemma undo_stack_bounded_witness:
  "length (h_undo (fst (fold run_hist [HInit, HStore, HUndo] (newHistory 3 True, newModel)))) \<le> 3"
  by (rule undo_stack_bounded) simp

text \<open>C7: In a session that starts in a consistent model and goes on by changes of plain properties, by added
  nodes, by batches of such changes, by undos, redos and cancels, each edit recorded from its events,
  undoing any number of steps and redoing as many returns to exactly the same model and the same
  stacks. A changed property has a plain name (not the ends, the z index or the attributes), is set to
  a value and had one before, or outside a batch was not there; in a batch a property may change many
  times. An added node has a new id and a z index, and no edge, parent or child refers to it. The
  attributes are left out: undo leaves undefined entries in them (see below).\<close>

theorem undo_redo_inverse:
  assumes "edits limit (h, m)" "k \<le> length (h_undo h)"
  shows "((\<lambda>(h, m). redo h m) ^^ k) (((\<lambda>(h, m). undo h m) ^^ k) (h, m)) = (h, m)"
  using undo_redo_many [OF _ assms(2)] edit_inv_step [OF assms(1)] by simp

text \<open>C24: The command recorded for a change of a plain property (a position, a label, data) and for an
  added node is faithful: applying it makes the change, reverting it gives back exactly the model
  before, and neither alters the command. For a change of the attributes both hold up to entries
  that are undefined: the attributes set are those of the change, or those before it, after leaving
  out undefined entries.\<close>

theorem recorded_commands_faithful:
  assumes "settled m"
  shows "(\<forall>i c k v ui. getCell i m = Some c \<and> plain_key k \<and> undoable_prop (gc_props c) k \<and> \<not> nullish v \<longrightarrow>
      leads (Single (fill_command (CellChange k) (change_args c k v ui) (createCommand False))) m (cell_prop i k (PVal v) m)) \<and>
    (\<forall>c ui. addable m c \<longrightarrow>
      leads (Single (fill_command CellAdded (add_args c ui) (createCommand False))) m (addCell c m)) \<and>
    (\<forall>i c v ui. getCell i m = Some c \<and> undoable_prop (gc_props c) ''attrs'' \<and> \<not> nullish v \<longrightarrow>
      (let e = Single (fill_command (CellChange ''attrs'') (change_args c ''attrs'' v ui) (createCommand False))
       in \<exists>w w'. strip w = strip v \<and> strip w' = strip (oget (gc_props c) ''attrs'') \<and>
         snd (applyCommand e m) = cell_prop i ''attrs'' (PVal w) m \<and>
         snd (revertCommand e (cell_prop i ''attrs'' (PVal v) m)) = cell_prop i ''attrs'' (PVal w') m))"
  using prop_change_leads [OF assms] add_node_leads [OF assms] attrs_change_leads [OF assms] unfolding Let_def by blast

definition ex_node :: gcell where
  "ex_node = (ex_cell ''n'' None)\<lparr>gc_z := Some 1, gc_props := [(''x'', JNum 3), (''attrs'', JObj [(''fill'', JNum 1)])]\<rparr>"

definition ex_model :: gmodel where
  "ex_model = addCell ex_node newModel"

lemma ex_settled: "settled newModel" "addable newModel ex_node" "settled ex_model" "getCell ''n'' ex_model = Some ex_node"
proof -
  show s: "settled newModel" using model_ok_new by (simp add: settled_def newModel_def getCells_def coll_clean_def)
  show a: "addable newModel ex_node"
    by (simp add: addable_def ex_node_def ex_cell_def newModel_def cells_of_def coll_clean_def)
  show "settled ex_model" using add_node_leads[OF s a] by (simp add: ex_model_def)
  show "getCell ''n'' ex_model = Some ex_node" by code_simp
qed

lemma recorded_commands_faithful_witness:
  "leads (Single (fill_command (CellChange ''x'') (change_args ex_node ''x'' (JNum 5) False) (createCommand False)))
     ex_model (cell_prop ''n'' ''x'' (PVal (JNum 5)) ex_model)"
proof -
  have "getCell ''n'' ex_model = Some ex_node \<and> plain_key ''x'' \<and> undoable_prop (gc_props ex_node) ''x'' \<and> \<not> nullish (JNum 5)"
    using ex_settled(4) by (simp add: plain_key_def undoable_prop_def nullish_def ex_node_def)
  then show ?thesis using recorded_commands_faithful [OF ex_settled(3)] by blast
qed

text \<open>A node is added; a batch moves it twice; both are undone and redone.\<close>

definition ex_batch :: "history \<times> gmodel" where
  "ex_batch = (case fold record_change [(''n'', ''x'', JNum 4, True), (''n'', ''x'', JNum 5, True)]
       (initBatchCommand (addCommand CellAdded (add_args ex_node True) (newHistory 2 True)), ex_model) of
     (h, m) \<Rightarrow> (storeBatchCommand h, m))"

lemma ex_edits: "edits 2 ex_batch"
proof -
  have e: "edits 2 (addCommand CellAdded (add_args ex_node True) (newHistory 2 True), ex_model)"
    unfolding ex_model_def by (intro edits_add edits_start ex_settled)
  have "prop_of ex_model ''n'' ''x'' = JNum 3" using ex_settled(4) by (simp add: prop_of_def ex_node_def)
  then have "list_all (batch_change_ok ex_model) [(''n'', ''x'', JNum 4, True), (''n'', ''x'', JNum 5, True)]"
    by (simp add: batch_change_ok_def plain_key_def nullish_def)
  from edits_batch[OF e this] show ?thesis unfolding ex_batch_def by (simp split: prod.splits)
qed

lemma undo_redo_inverse_witness:
  "((\<lambda>(h, m). redo h m) ^^ 2) (((\<lambda>(h, m). undo h m) ^^ 2) (fst ex_batch, snd ex_batch)) = (fst ex_batch, snd ex_batch) \<and>
   prop_of (snd ex_batch) ''n'' ''x'' = JNum 5 \<and> prop_of (snd (undo (fst ex_batch) (snd ex_batch))) ''n'' ''x'' = JNum 3"
proof -
  have "edits 2 (fst ex_batch, snd ex_batch)" using ex_edits by simp
  moreover have "length (h_undo (fst ex_batch)) = 2" by code_simp
  ultimately have "((\<lambda>(h, m). redo h m) ^^ 2) (((\<lambda>(h, m). undo h m) ^^ 2) (fst ex_batch, snd ex_batch)) = (fst ex_batch, snd ex_batch)"
    by (intro undo_redo_inverse) simp_all
  moreover have "prop_of (snd ex_batch) ''n'' ''x'' = JNum 5" by code_simp
  moreover have "prop_of (snd (undo (fst ex_batch) (snd ex_batch))) ''n'' ''x'' = JNum 3" by code_simp
  ultimately show ?thesis by blast
qed

end
