(* ===== verification/Job_Queue.thy ===== *)
theory Job_Queue
  imports Prelude
begin

text \<open>The job queue of the renderer (renderer/queueJob.js). A job's callback is the sequence of
  calls it makes on the queue, so that a callback may queue further jobs, flush, clear or
  throw. Job objects live in a store (\<open>objs\<close>), because the queue and the map of pending jobs
  alias them. Calls of the code are run by a machine with an explicit stack of activations
  (\<open>frame\<close>); the browser's outstanding frame requests and the clock are part of the state.\<close>

unbundle bit_operations_syntax

section \<open>Jobs, callbacks and the queue's state\<close>

datatype qcmd = CEffect nat | CThrow | CQueueFlush | CQueueFlushSync | CClearJobs
  | CQueueJob string int "qcmd list"

datatype schedule_mode = Idle | Raf | Timeout

record qjob =
  job_id :: string
  job_priority :: int
  job_cb :: "qcmd list"

record jobq =
  isFlushing :: bool
  isFlushPending :: bool
  scheduleId :: nat
  scheduleMode :: "schedule_mode option"
  queue :: "nat list"
  pendingJobs :: "string \<Rightarrow> nat option"
  objs :: "qjob list"
  handles :: "nat list"
  next_handle :: nat
  ticks :: nat
  effects :: "nat list"

text \<open>What the code asks of the window: which scheduling functions it has, and the clock as
  it is read at the n-th reading.\<close>

record window =
  has_raf :: bool
  has_idle :: bool
  clock :: "nat \<Rightarrow> nat"

definition new_JobQueue :: jobq where
  "new_JobQueue = \<lparr>isFlushing = False, isFlushPending = False, scheduleId = 0,
     scheduleMode = None, queue = [], pendingJobs = Map.empty, objs = [], handles = [],
     next_handle = 1, ticks = 0, effects = []\<rparr>"

definition JOB_Update :: int where "JOB_Update = 2"
definition JOB_RenderEdge :: int where "JOB_RenderEdge = 4"
definition JOB_RenderNode :: int where "JOB_RenderNode = 8"
definition JOB_PRIOR :: int where "JOB_PRIOR = 1048576"

definition is_prior :: "int \<Rightarrow> bool" where
  "is_prior p = (p AND JOB_PRIOR \<noteq> 0)"

definition frameInterval :: nat where "frameInterval = 16"

definition obj_priority :: "jobq \<Rightarrow> nat \<Rightarrow> int" where
  "obj_priority q a = job_priority (objs q ! a)"

section \<open>Insertion\<close>

function insertion_loop :: "int list \<Rightarrow> int \<Rightarrow> int \<Rightarrow> int \<Rightarrow> int \<Rightarrow> int" where
  "insertion_loop ps priority left right ins =
    (if left \<le> right then
       let mid = (right - left) div 2 + left in
       if priority \<le> ps ! nat mid then insertion_loop ps priority (mid + 1) right ins
       else insertion_loop ps priority left (mid - 1) mid
     else ins)"
  by pat_completeness auto
termination by (relation "measure (\<lambda>(ps, p, l, r, i). nat (r - l + 1))") auto

declare insertion_loop.simps [simp del]

definition findInsertionIndex :: "jobq \<Rightarrow> nat \<Rightarrow> nat" where
  "findInsertionIndex q a =
    (let n = int (length (queue q)) in
     nat (insertion_loop (map (obj_priority q) (queue q)) (obj_priority q a) 0 (n - 1) n))"

definition splice_in :: "nat \<Rightarrow> 'a \<Rightarrow> 'a list \<Rightarrow> 'a list" where
  "splice_in i x xs = take i xs @ x # drop i xs"

text \<open>\<open>queueJob\<close> without the branch of prior jobs: an existing entry gets the new callback and
  priority and is moved when it is still queued; a new job is inserted and entered.\<close>

definition requeue :: "jobq \<Rightarrow> nat \<Rightarrow> int \<Rightarrow> qcmd list \<Rightarrow> jobq" where
  "requeue q a p cb =
    (let old = objs q ! a;
         q1 = q\<lparr>objs := (objs q)[a := old\<lparr>job_cb := cb\<rparr>]\<rparr> in
     if p \<noteq> job_priority old then
       let q2 = q1\<lparr>objs := (objs q1)[a := (objs q1 ! a)\<lparr>job_priority := p\<rparr>]\<rparr> in
       if a \<in> set (queue q2) then
         let q3 = q2\<lparr>queue := remove1 a (queue q2)\<rparr> in
         q3\<lparr>queue := splice_in (findInsertionIndex q3 a) a (queue q3)\<rparr>
       else q2
     else q1)"

definition enqueue_new :: "jobq \<Rightarrow> string \<Rightarrow> int \<Rightarrow> qcmd list \<Rightarrow> jobq" where
  "enqueue_new q i p cb =
    (let a = length (objs q);
         q1 = q\<lparr>objs := objs q @ [\<lparr>job_id = i, job_priority = p, job_cb = cb\<rparr>]\<rparr> in
     q1\<lparr>queue := splice_in (findInsertionIndex q1 a) a (queue q1),
        pendingJobs := (pendingJobs q1)(i \<mapsto> a)\<rparr>)"

definition queueJob :: "jobq \<Rightarrow> string \<Rightarrow> int \<Rightarrow> qcmd list \<Rightarrow> jobq" where
  "queueJob q i p cb =
    (case pendingJobs q i of Some a \<Rightarrow> requeue q a p cb | None \<Rightarrow> enqueue_new q i p cb)"

section \<open>Scheduling\<close>

definition cancelScheduleJob :: "jobq \<Rightarrow> jobq" where
  "cancelScheduleJob q =
    (if scheduleId q = 0 then q
     else q\<lparr>handles := removeAll (scheduleId q) (handles q), scheduleId := 0,
            scheduleMode := None\<rparr>)"

definition scheduleJob :: "window \<Rightarrow> jobq \<Rightarrow> jobq" where
  "scheduleJob w q =
    (let q1 = (if scheduleId q \<noteq> 0 then cancelScheduleJob q else q);
         md = (if has_raf w then Raf else if has_idle w then Idle else Timeout) in
     q1\<lparr>scheduleMode := Some md, scheduleId := next_handle q1,
        handles := next_handle q1 # handles q1, next_handle := next_handle q1 + 1\<rparr>)"

definition queueFlush :: "window \<Rightarrow> jobq \<Rightarrow> jobq" where
  "queueFlush w q =
    (if \<not> isFlushing q \<and> \<not> isFlushPending q then scheduleJob w (q\<lparr>isFlushPending := True\<rparr>)
     else q)"

definition clearJobs :: "jobq \<Rightarrow> jobq" where
  "clearJobs q =
     cancelScheduleJob (q\<lparr>queue := [], pendingJobs := Map.empty, isFlushing := False,
                          isFlushPending := False\<rparr>)"

section \<open>Running\<close>

text \<open>Activations: the rest of a callback, the code after \<open>job.cb()\<close> in \<open>flushJobs\<close>
  (with its start time and budget) and in \<open>flushJobsSync\<close>, and the two loops.\<close>

datatype frame = FCmds "qcmd list"
  | FAfter string nat nat | FAfterSync string
  | FLoop nat nat | FLoopSync

definition start_flush :: "jobq \<Rightarrow> jobq" where
  "start_flush q = q\<lparr>isFlushPending := False, isFlushing := True\<rparr>"

definition read_clock :: "window \<Rightarrow> jobq \<Rightarrow> nat \<times> jobq" where
  "read_clock w q = (clock w (ticks q), q\<lparr>ticks := ticks q + 1\<rparr>)"

text \<open>An exception leaves every activation up to the try block of \<open>flushJobsSync\<close>.\<close>

fun unwind :: "frame list \<Rightarrow> frame list" where
  "unwind [] = []"
| "unwind (FAfterSync i # st) = FAfterSync i # st"
| "unwind (f # st) = unwind st"

fun exec_cmd :: "window \<Rightarrow> qcmd \<Rightarrow> jobq \<Rightarrow> frame list \<Rightarrow> jobq \<times> frame list" where
  "exec_cmd w (CEffect n) q st = (q\<lparr>effects := effects q @ [n]\<rparr>, st)"
| "exec_cmd w CThrow q st = (q, unwind st)"
| "exec_cmd w CQueueFlush q st = (queueFlush w q, st)"
| "exec_cmd w CQueueFlushSync q st =
    (if \<not> isFlushing q \<and> \<not> isFlushPending q
     then (start_flush (q\<lparr>isFlushPending := True\<rparr>), FLoopSync # st) else (q, st))"
| "exec_cmd w CClearJobs q st = (clearJobs q, st)"
| "exec_cmd w (CQueueJob i p cb) q st =
    (if is_prior p then (q, FCmds cb # st) else (queueJob q i p cb, st))"

definition delete_pending :: "string \<Rightarrow> jobq \<Rightarrow> jobq" where
  "delete_pending i q = q\<lparr>pendingJobs := (pendingJobs q)(i := None)\<rparr>"

definition end_flush :: "window \<Rightarrow> jobq \<Rightarrow> jobq" where
  "end_flush w q =
    (let q1 = q\<lparr>isFlushing := False\<rparr> in
     if queue q1 \<noteq> [] then queueFlush w q1 else q1)"

fun step_frame :: "window \<Rightarrow> frame \<Rightarrow> jobq \<Rightarrow> frame list \<Rightarrow> jobq \<times> frame list" where
  "step_frame w (FCmds []) q st = (q, st)"
| "step_frame w (FCmds (c # cs)) q st = exec_cmd w c q (FCmds cs # st)"
| "step_frame w (FLoop t0 budget) q st =
    (case queue q of [] \<Rightarrow> (end_flush w q, st)
     | a # as \<Rightarrow> (q\<lparr>queue := as\<rparr>,
         FCmds (job_cb (objs q ! a)) # FAfter (job_id (objs q ! a)) t0 budget # st))"
| "step_frame w (FAfter i t0 budget) q st =
    (let (t, q1) = read_clock w (delete_pending i q) in
     if int t - int t0 \<ge> int budget then (end_flush w q1, st)
     else (q1, FLoop t0 budget # st))"
| "step_frame w FLoopSync q st =
    (case queue q of [] \<Rightarrow> (q\<lparr>isFlushing := False\<rparr>, st)
     | a # as \<Rightarrow> (q\<lparr>queue := as\<rparr>,
         FCmds (job_cb (objs q ! a)) # FAfterSync (job_id (objs q ! a)) # st))"
| "step_frame w (FAfterSync i) q st = (delete_pending i q, FLoopSync # st)"

fun cmd_weight :: "qcmd \<Rightarrow> nat" where
  "cmd_weight (CQueueJob i p cb) = 6 + sum_list (map cmd_weight cb)"
| "cmd_weight _ = 3"

definition cb_weight :: "qcmd list \<Rightarrow> nat" where
  "cb_weight cb = sum_list (map cmd_weight cb)"

fun frame_weight :: "frame \<Rightarrow> nat" where
  "frame_weight (FCmds cs) = 1 + cb_weight cs"
| "frame_weight (FAfter i t b) = 2"
| "frame_weight (FAfterSync i) = 2"
| "frame_weight (FLoop t b) = 1"
| "frame_weight FLoopSync = 1"

definition queue_weight :: "jobq \<Rightarrow> nat" where
  "queue_weight q = (\<Sum>a\<leftarrow>queue q. 3 + cb_weight (job_cb (objs q ! a)))"

definition machine_weight :: "jobq \<Rightarrow> frame list \<Rightarrow> nat" where
  "machine_weight q st = queue_weight q + sum_list (map frame_weight st)"

section \<open>Events\<close>

text \<open>The machine run for at most \<open>n\<close> steps; None means that the steps did not suffice.\<close>

fun run_frames :: "nat \<Rightarrow> window \<Rightarrow> jobq \<Rightarrow> frame list \<Rightarrow> jobq option" where
  "run_frames n w q [] = Some q"
| "run_frames 0 w q (f # st) = None"
| "run_frames (Suc n) w q (f # st) =
    (case step_frame w f q st of (q', st') \<Rightarrow> run_frames n w q' st')"

definition flushJobs :: "window \<Rightarrow> nat option \<Rightarrow> jobq \<Rightarrow> jobq \<times> frame list" where
  "flushJobs w deadline q =
    (let (t, q1) = read_clock w (start_flush q);
         budget = (case deadline of None \<Rightarrow> frameInterval
                   | Some remain \<Rightarrow> max 0 (min frameInterval remain)) in
     (q1, [FLoop t budget]))"

datatype jq_event = Call qcmd | Fire "nat option"

text \<open>The graph's code calls an operation, or the browser runs the outstanding request.\<close>

fun handle_event :: "window \<Rightarrow> jq_event \<Rightarrow> jobq \<Rightarrow> jobq option" where
  "handle_event w (Call c) q =
    run_frames (machine_weight q [FCmds [c]]) w q [FCmds [c]]"
| "handle_event w (Fire deadline) q =
    (case handles q of [] \<Rightarrow> Some q
     | h # hs \<Rightarrow>
       let (q1, st) = flushJobs w deadline (q\<lparr>handles := hs\<rparr>) in
       run_frames (machine_weight q1 st) w q1 st)"

inductive jq_reach :: "window \<Rightarrow> jobq \<Rightarrow> bool" for w where
  jq_init: "jq_reach w new_JobQueue"
| jq_step: "jq_reach w q \<Longrightarrow> handle_event w ev q = Some q' \<Longrightarrow> jq_reach w q'"

section \<open>The binary search\<close>

definition desc :: "int list \<Rightarrow> bool" where
  "desc ps = sorted_wrt (\<ge>) ps"

lemma desc_nth: "desc ps \<Longrightarrow> i \<le> j \<Longrightarrow> j < length ps \<Longrightarrow> ps ! j \<le> ps ! i"
  unfolding desc_def by (cases "i = j") (auto simp: sorted_wrt_iff_nth_less)

lemma insertion_loop_spec:
  assumes "desc ps" "0 \<le> l" "r < int (length ps)" "l \<le> r + 1" "ins = r + 1"
    and "\<And>j. int j < l \<Longrightarrow> p \<le> ps ! j"
    and "\<And>j. r < int j \<Longrightarrow> j < length ps \<Longrightarrow> ps ! j < p"
  shows "\<exists>k \<le> length ps. insertion_loop ps p l r ins = int k \<and>
           (\<forall>j < k. p \<le> ps ! j) \<and> (\<forall>j. k \<le> j \<longrightarrow> j < length ps \<longrightarrow> ps ! j < p)"
  using assms
proof (induction ps p l r ins rule: insertion_loop.induct)
  case (1 ps p l r ins)
  show ?case
  proof (cases "l \<le> r")
    case False
    then have e: "ins = l" using "1.prems"(4,5) by simp
    have "insertion_loop ps p l r ins = int (nat l)"
      using False e "1.prems"(2) by (simp add: insertion_loop.simps)
    moreover have "nat l \<le> length ps" using "1.prems"(2,3,4,5) e False by linarith
    moreover have "\<forall>j < nat l. p \<le> ps ! j" using "1.prems"(6) by auto
    moreover have "\<forall>j. nat l \<le> j \<longrightarrow> j < length ps \<longrightarrow> ps ! j < p"
      using "1.prems"(2,5,7) e by auto
    ultimately show ?thesis by blast
  next
    case True
    define mid where "mid = (r - l) div 2 + l"
    have mb: "l \<le> mid" "mid \<le> r" using True by (auto simp: mid_def)
    have mn: "nat mid < length ps" using mb "1.prems"(2,3) by linarith
    show ?thesis
    proof (cases "p \<le> ps ! nat mid")
      case le: True
      have lt: "p \<le> ps ! j" if j: "int j < mid + 1" for j
      proof -
        have "j \<le> nat mid" using j by linarith
        then show ?thesis by (rule order_trans[OF le desc_nth[OF "1.prems"(1) _ mn]])
      qed
      have "\<exists>k \<le> length ps. insertion_loop ps p (mid + 1) r ins = int k \<and>
           (\<forall>j < k. p \<le> ps ! j) \<and> (\<forall>j. k \<le> j \<longrightarrow> j < length ps \<longrightarrow> ps ! j < p)"
      proof (rule "1.IH"(1)[OF True mid_def le "1.prems"(1) _ "1.prems"(3) _ "1.prems"(5)])
        show "0 \<le> mid + 1" "mid + 1 \<le> r + 1" using mb "1.prems"(2) by linarith+
      qed (use lt "1.prems"(7) in blast)+
      then show ?thesis
        using True le by (subst insertion_loop.simps) (simp add: mid_def Let_def)
    next
      case gt: False
      have gtj: "ps ! j < p" if j: "mid - 1 < int j" "j < length ps" for j
      proof -
        have "nat mid \<le> j" using j by linarith
        then have "ps ! j \<le> ps ! nat mid" using desc_nth[OF "1.prems"(1) _ j(2)] by blast
        then show ?thesis using gt by simp
      qed
      have "\<exists>k \<le> length ps. insertion_loop ps p l (mid - 1) mid = int k \<and>
           (\<forall>j < k. p \<le> ps ! j) \<and> (\<forall>j. k \<le> j \<longrightarrow> j < length ps \<longrightarrow> ps ! j < p)"
      proof (rule "1.IH"(2)[OF True mid_def gt "1.prems"(1,2)])
        show "mid - 1 < int (length ps)" "l \<le> mid - 1 + 1" "mid = mid - 1 + 1"
          using mb "1.prems"(3) by linarith+
      qed (use gtj "1.prems"(6) in blast)+
      then show ?thesis
        using True gt by (subst insertion_loop.simps) (simp add: mid_def Let_def)
    qed
  qed
qed

lemma findInsertionIndex_spec:
  assumes "desc (map (obj_priority q) (queue q))"
  shows "findInsertionIndex q a \<le> length (queue q)"
    and "\<And>x. x \<in> set (take (findInsertionIndex q a) (queue q)) \<Longrightarrow> obj_priority q a \<le> obj_priority q x"
    and "\<And>x. x \<in> set (drop (findInsertionIndex q a) (queue q)) \<Longrightarrow> obj_priority q x < obj_priority q a"
proof -
  define ps where "ps = map (obj_priority q) (queue q)"
  define n where "n = int (length (queue q))"
  have "\<exists>k \<le> length ps. insertion_loop ps (obj_priority q a) 0 (n - 1) n = int k \<and>
     (\<forall>j < k. obj_priority q a \<le> ps ! j) \<and>
     (\<forall>j. k \<le> j \<longrightarrow> j < length ps \<longrightarrow> ps ! j < obj_priority q a)"
    by (rule insertion_loop_spec) (use assms in \<open>auto simp: ps_def n_def\<close>)
  then obtain k where k: "k \<le> length ps" "insertion_loop ps (obj_priority q a) 0 (n - 1) n = int k"
    "\<forall>j < k. obj_priority q a \<le> ps ! j"
    "\<forall>j. k \<le> j \<longrightarrow> j < length ps \<longrightarrow> ps ! j < obj_priority q a" by blast
  have f: "findInsertionIndex q a = k"
    using k(2) by (simp add: findInsertionIndex_def ps_def n_def Let_def)
  show "findInsertionIndex q a \<le> length (queue q)" using k(1) f by (simp add: ps_def)
  show "obj_priority q a \<le> obj_priority q x" if "x \<in> set (take (findInsertionIndex q a) (queue q))" for x
    using that k(1,3) f by (auto simp: in_set_conv_nth ps_def)
  show "obj_priority q x < obj_priority q a" if "x \<in> set (drop (findInsertionIndex q a) (queue q))" for x
  proof -
    obtain j where j: "j < length (queue q) - k" "x = queue q ! (k + j)"
      using \<open>x \<in> set (drop (findInsertionIndex q a) (queue q))\<close> f k(1)
      by (auto simp: in_set_conv_nth ps_def)
    have "k + j < length ps" using j(1) by (simp add: ps_def)
    then show ?thesis using k(4)[rule_format, of "k + j"] j by (simp add: ps_def)
  qed
qed

text \<open>Insertion puts a job behind those of at least its priority and before the others.\<close>

lemma splice_in_filter:
  assumes d: "desc (map (obj_priority q) (queue q))"
  shows "splice_in (findInsertionIndex q a) a (queue q) =
    filter (\<lambda>x. obj_priority q a \<le> obj_priority q x) (queue q) @ a #
    filter (\<lambda>x. obj_priority q x < obj_priority q a) (queue q)"
proof -
  define k where "k = findInsertionIndex q a"
  define P where "P = (\<lambda>x. obj_priority q a \<le> obj_priority q x)"
  have n: "(\<lambda>x. obj_priority q x < obj_priority q a) = (\<lambda>x. \<not> P x)" by (auto simp: P_def)
  have t1: "P x" if "x \<in> set (take k (queue q))" for x
    using findInsertionIndex_spec(2)[OF d that[unfolded k_def]] by (simp add: P_def)
  have t2: "\<not> P x" if "x \<in> set (drop k (queue q))" for x
    using findInsertionIndex_spec(3)[OF d that[unfolded k_def]] by (simp add: P_def)
  have "filter P (take k (queue q) @ drop k (queue q)) = take k (queue q)"
    using t1 t2 by (simp only: filter_append) (simp add: filter_empty_conv)
  moreover have "filter (\<lambda>x. \<not> P x) (take k (queue q) @ drop k (queue q)) = drop k (queue q)"
    using t1 t2 by (simp only: filter_append) (simp add: filter_empty_conv)
  ultimately show ?thesis unfolding splice_in_def k_def[symmetric] n by (simp add: P_def)
qed

lemma desc_insert:
  "desc (map pr xs) \<Longrightarrow>
   desc (map pr (filter (\<lambda>x. pr a \<le> pr x) xs @ a # filter (\<lambda>x. pr x < pr a) xs))"
  unfolding desc_def by (auto simp: sorted_wrt_append sorted_wrt_map sorted_wrt_filter)

section \<open>Invariant of the queue\<close>

text \<open>Addresses are valid and distinct, the queue is in descending order of priority, the map
  leads to jobs of the id looked up, and a flush is pending exactly when one request is
  outstanding, the one \<open>scheduleId\<close> names.\<close>

definition objs_ok :: "jobq \<Rightarrow> bool" where
  "objs_ok q \<longleftrightarrow> (\<forall>a \<in> set (queue q). a < length (objs q)) \<and> distinct (queue q) \<and>
     (\<forall>i a. pendingJobs q i = Some a \<longrightarrow> a < length (objs q) \<and> job_id (objs q ! a) = i) \<and>
     desc (map (obj_priority q) (queue q))"

definition sched_ok :: "jobq \<Rightarrow> bool" where
  "sched_ok q \<longleftrightarrow> (isFlushPending q \<longrightarrow> scheduleId q \<noteq> 0 \<and> handles q = [scheduleId q]) \<and>
     (\<not> isFlushPending q \<longrightarrow> handles q = []) \<and> 0 < next_handle q"

definition jq_ok :: "jobq \<Rightarrow> bool" where
  "jq_ok q \<longleftrightarrow> objs_ok q \<and> sched_ok q"

named_theorems jq_simps

lemma objs_okI:
  assumes "\<And>a. a \<in> set (queue q) \<Longrightarrow> a < length (objs q)" "distinct (queue q)"
    "\<And>i a. pendingJobs q i = Some a \<Longrightarrow> a < length (objs q) \<and> job_id (objs q ! a) = i"
    "desc (map (obj_priority q) (queue q))"
  shows "objs_ok q"
  using assms by (simp add: objs_ok_def)

lemma objs_okD:
  assumes "objs_ok q"
  shows "\<And>a. a \<in> set (queue q) \<Longrightarrow> a < length (objs q)" "distinct (queue q)"
    "\<And>i a. pendingJobs q i = Some a \<Longrightarrow> a < length (objs q)"
    "\<And>i a. pendingJobs q i = Some a \<Longrightarrow> job_id (objs q ! a) = i"
    "desc (map (obj_priority q) (queue q))"
  using assms by (auto simp: objs_ok_def)

lemma objs_ok_cong:
  "queue q' = queue q \<Longrightarrow> objs q' = objs q \<Longrightarrow> pendingJobs q' = pendingJobs q \<Longrightarrow>
   objs_ok q' = objs_ok q"
  by (simp add: objs_ok_def obj_priority_def[abs_def])

text \<open>Adding an address to a well-formed queue at the place the search finds.\<close>

lemma objs_ok_splice:
  assumes ok: "objs_ok q" and a: "a < length (objs q)" "a \<notin> set (queue q)"
  shows "objs_ok (q\<lparr>queue := splice_in (findInsertionIndex q a) a (queue q)\<rparr>)"
proof -
  note D = objs_okD[OF ok]
  note S = splice_in_filter[OF D(5), of a]
  have "desc (map (obj_priority q) (splice_in (findInsertionIndex q a) a (queue q)))"
    unfolding S by (rule desc_insert[OF D(5)])
  moreover have "distinct (splice_in (findInsertionIndex q a) a (queue q))"
    unfolding S using D(2) a(2) by (auto)
  moreover have "\<And>x. x \<in> set (splice_in (findInsertionIndex q a) a (queue q)) \<Longrightarrow> x < length (objs q)"
    unfolding S using D(1) a(1) by auto
  ultimately show ?thesis
    using D(3,4) by (intro objs_okI) (simp_all add: obj_priority_def[abs_def])
qed

lemma desc_remove1: "desc (map f xs) \<Longrightarrow> desc (map f (remove1 a xs))"
  unfolding desc_def
proof (induction xs)
  case (Cons x xs)
  then show ?case using set_remove1_subset[of a xs] by (auto simp: sorted_wrt_append)
qed simp

lemma nth_update_id:
  "job_id j = job_id (os ! a) \<Longrightarrow> job_id (os[a := j] ! b) = job_id (os ! b)"
  by (cases "a < length os") (auto simp: nth_list_update list_update_beyond)

lemma nth_update_priority:
  "job_priority j = job_priority (os ! a) \<Longrightarrow> job_priority (os[a := j] ! b) = job_priority (os ! b)"
  by (cases "a < length os") (auto simp: nth_list_update list_update_beyond)

text \<open>Changing a queued object without moving it: everything but the order at its own place.\<close>

lemma objs_ok_update:
  assumes ok: "objs_ok q" and i: "job_id j = job_id (objs q ! a)"
    and p: "a \<notin> set (queue q) \<or> job_priority j = job_priority (objs q ! a)"
  shows "objs_ok (q\<lparr>objs := (objs q)[a := j]\<rparr>)"
proof -
  note D = objs_okD[OF ok]
  have e: "map (obj_priority (q\<lparr>objs := (objs q)[a := j]\<rparr>)) (queue q) = map (obj_priority q) (queue q)"
    using p
  proof
    assume "a \<notin> set (queue q)"
    then have "a \<noteq> x" if "x \<in> set (queue q)" for x using that by auto
    then show ?thesis by (simp add: obj_priority_def)
  next
    assume "job_priority j = job_priority (objs q ! a)"
    then show ?thesis by (simp add: obj_priority_def nth_update_priority)
  qed
  have d: "desc (map (obj_priority (q\<lparr>objs := (objs q)[a := j]\<rparr>)) (queue q))"
    unfolding e by (rule D(5))
  show ?thesis
  proof (rule objs_okI)
    show "desc (map (obj_priority (q\<lparr>objs := (objs q)[a := j]\<rparr>)) (queue (q\<lparr>objs := (objs q)[a := j]\<rparr>)))"
      using d by simp
  qed (use D(1-4) in \<open>simp_all add: nth_update_id[OF i]\<close>)
qed

lemma objs_ok_remove1: "objs_ok q \<Longrightarrow> objs_ok (q\<lparr>queue := remove1 a (queue q)\<rparr>)"
  by (rule objs_okI)
     (auto dest: objs_okD notin_set_remove1 simp: distinct_remove1 desc_remove1
        objs_okD obj_priority_def[abs_def] dest!: set_remove1_subset[THEN subsetD])

lemma objs_ok_requeue:
  assumes ok: "objs_ok q" and a: "a < length (objs q)"
  shows "objs_ok (requeue q a p cb)"
proof -
  define j1 where "j1 = (objs q ! a)\<lparr>job_cb := cb\<rparr>"
  define j2 where "j2 = (objs q ! a)\<lparr>job_cb := cb, job_priority := p\<rparr>"
  have ok1: "objs_ok (q\<lparr>objs := (objs q)[a := j1]\<rparr>)"
    by (rule objs_ok_update[OF ok]) (auto simp: j1_def)
  show ?thesis
  proof (cases "p \<noteq> job_priority (objs q ! a) \<and> a \<in> set (queue q)")
    case True
    define q3 where "q3 = q\<lparr>objs := (objs q)[a := j2], queue := remove1 a (queue q)\<rparr>"
    have n: "a \<notin> set (remove1 a (queue q))" using objs_okD(2)[OF ok] by simp
    have "objs_ok ((q\<lparr>queue := remove1 a (queue q)\<rparr>)\<lparr>objs := (objs (q\<lparr>queue := remove1 a (queue q)\<rparr>))[a := j2]\<rparr>)"
      by (rule objs_ok_update[OF objs_ok_remove1[OF ok]]) (use n in \<open>auto simp: j2_def\<close>)
    then have ok3: "objs_ok q3" by (simp add: q3_def objs_ok_def obj_priority_def[abs_def])
    have "objs_ok (q3\<lparr>queue := splice_in (findInsertionIndex q3 a) a (queue q3)\<rparr>)"
      by (rule objs_ok_splice[OF ok3]) (use a n in \<open>auto simp: q3_def\<close>)
    moreover have "requeue q a p cb = q3\<lparr>queue := splice_in (findInsertionIndex q3 a) a (queue q3)\<rparr>"
      using True a by (simp add: requeue_def Let_def q3_def j2_def)
    ultimately show ?thesis by simp
  next
    case False
    show ?thesis
    proof (cases "p = job_priority (objs q ! a)")
      case True
      then show ?thesis using ok1 by (simp add: requeue_def Let_def j1_def)
    next
      case neq: False
      then have nq: "a \<notin> set (queue q)" using False by simp
      have "objs_ok (q\<lparr>objs := (objs q)[a := j2]\<rparr>)"
        by (rule objs_ok_update[OF ok]) (use nq in \<open>auto simp: j2_def\<close>)
      then show ?thesis using neq nq a by (simp add: requeue_def Let_def j2_def)
    qed
  qed
qed

lemma objs_ok_enqueue_new:
  assumes ok: "objs_ok q"
  shows "objs_ok (enqueue_new q i p cb)"
proof -
  define a where "a = length (objs q)"
  define q1 where "q1 = q\<lparr>objs := objs q @ [\<lparr>job_id = i, job_priority = p, job_cb = cb\<rparr>]\<rparr>"
  note D = objs_okD[OF ok]
  have ok1: "objs_ok q1"
  proof (rule objs_okI)
    have "map (obj_priority q1) (queue q1) = map (obj_priority q) (queue q)"
      using D(1) by (auto simp: q1_def obj_priority_def nth_append)
    then show "desc (map (obj_priority q1) (queue q1))" using D(5) by simp
    show "x < length (objs q1)" if "x \<in> set (queue q1)" for x
      using that D(1)[of x] by (simp add: q1_def)
    show "distinct (queue q1)" using D(2) by (simp add: q1_def)
    show "x < length (objs q1) \<and> job_id (objs q1 ! x) = k" if "pendingJobs q1 k = Some x" for k x
      using that D(3)[of k x] D(4)[of k x] by (simp add: q1_def nth_append)
  qed
  have nin: "a \<notin> set (queue q1)" using D(1) by (auto simp: a_def q1_def)
  have "objs_ok (q1\<lparr>queue := splice_in (findInsertionIndex q1 a) a (queue q1)\<rparr>)"
    by (rule objs_ok_splice[OF ok1 _ nin]) (simp add: a_def q1_def)
  note E = objs_okD[OF this]
  have "objs_ok (q1\<lparr>queue := splice_in (findInsertionIndex q1 a) a (queue q1),
                   pendingJobs := (pendingJobs q1)(i \<mapsto> a)\<rparr>)"
    using E by (intro objs_okI) (auto simp: obj_priority_def[abs_def] q1_def a_def split: if_splits)
  then show ?thesis by (simp add: enqueue_new_def Let_def a_def q1_def)
qed

lemma objs_ok_queueJob: "objs_ok q \<Longrightarrow> objs_ok (queueJob q i p cb)"
  by (auto simp: queueJob_def objs_ok_enqueue_new intro!: objs_ok_requeue dest: objs_okD split: option.splits)

lemma sched_ok_cong:
  "isFlushPending q' = isFlushPending q \<Longrightarrow> scheduleId q' = scheduleId q \<Longrightarrow>
   handles q' = handles q \<Longrightarrow> next_handle q' = next_handle q \<Longrightarrow> sched_ok q' = sched_ok q"
  by (simp add: sched_ok_def)

lemma queueJob_frame:
  "isFlushPending (queueJob q i p cb) = isFlushPending q"
  "isFlushing (queueJob q i p cb) = isFlushing q"
  "scheduleId (queueJob q i p cb) = scheduleId q"
  "handles (queueJob q i p cb) = handles q"
  "next_handle (queueJob q i p cb) = next_handle q"
  "effects (queueJob q i p cb) = effects q"
  by (simp_all add: queueJob_def requeue_def enqueue_new_def Let_def split: option.splits)

lemma jq_ok_queueJob: "jq_ok q \<Longrightarrow> jq_ok (queueJob q i p cb)"
  using objs_ok_queueJob sched_ok_cong[of "queueJob q i p cb" q]
  by (simp add: jq_ok_def queueJob_frame)

lemma queueFlush_frame:
  "queue (queueFlush w q) = queue q" "objs (queueFlush w q) = objs q"
  "pendingJobs (queueFlush w q) = pendingJobs q" "isFlushing (queueFlush w q) = isFlushing q"
  "effects (queueFlush w q) = effects q"
  by (simp_all add: queueFlush_def scheduleJob_def cancelScheduleJob_def Let_def)

lemma jq_ok_queueFlush: "jq_ok q \<Longrightarrow> jq_ok (queueFlush w q)"
  using objs_ok_cong[OF queueFlush_frame(1-3)[of w q]]
  by (auto simp: jq_ok_def sched_ok_def queueFlush_def scheduleJob_def cancelScheduleJob_def Let_def)

lemma jq_ok_clearJobs: "jq_ok q \<Longrightarrow> jq_ok (clearJobs q)"
  by (auto simp: jq_ok_def clearJobs_def cancelScheduleJob_def sched_ok_def objs_ok_def desc_def)

lemma jq_ok_flush_flags:
  "jq_ok q \<Longrightarrow> jq_ok (q\<lparr>isFlushing := b\<rparr>)"
  "jq_ok q \<Longrightarrow> jq_ok (q\<lparr>effects := es\<rparr>)"
  "jq_ok q \<Longrightarrow> jq_ok (q\<lparr>ticks := t\<rparr>)"
  by (simp_all add: jq_ok_def sched_ok_def objs_ok_def obj_priority_def[abs_def])

lemma jq_ok_delete_pending: "jq_ok q \<Longrightarrow> jq_ok (delete_pending i q)"
  by (simp add: jq_ok_def sched_ok_def objs_ok_def obj_priority_def[abs_def] delete_pending_def)

lemma jq_ok_tl: "jq_ok q \<Longrightarrow> queue q = a # as \<Longrightarrow> jq_ok (q\<lparr>queue := as\<rparr>)"
  by (simp add: jq_ok_def sched_ok_def objs_ok_def obj_priority_def[abs_def] desc_def)

lemma jq_ok_start_flush:
  "jq_ok q \<Longrightarrow> handles q = [] \<Longrightarrow> jq_ok (start_flush q)"
  "objs_ok q \<Longrightarrow> handles q = [] \<Longrightarrow> 0 < next_handle q \<Longrightarrow> jq_ok (start_flush q)"
  by (simp_all add: jq_ok_def sched_ok_def objs_ok_def obj_priority_def[abs_def] start_flush_def)

lemma jq_ok_end_flush: "jq_ok q \<Longrightarrow> jq_ok (end_flush w q)"
  by (simp add: end_flush_def Let_def jq_ok_queueFlush jq_ok_flush_flags)

lemma jq_ok_exec_cmd: "jq_ok q \<Longrightarrow> exec_cmd w c q st = (q', st') \<Longrightarrow> jq_ok q'"
proof (induction w c q st rule: exec_cmd.induct)
  case (4 w q st)
  then show ?case
    by (auto simp: jq_ok_def sched_ok_def objs_ok_def obj_priority_def[abs_def] start_flush_def
        split: if_splits)
qed (auto simp: jq_ok_flush_flags jq_ok_queueFlush jq_ok_clearJobs jq_ok_queueJob split: if_splits)

lemma jq_ok_step_frame: "jq_ok q \<Longrightarrow> step_frame w f q st = (q', st') \<Longrightarrow> jq_ok q'"
  by (induction w f q st rule: step_frame.induct)
     (auto simp: jq_ok_flush_flags jq_ok_tl jq_ok_end_flush jq_ok_delete_pending read_clock_def Let_def
       intro: jq_ok_exec_cmd split: list.splits if_splits)

lemma jq_ok_run_frames: "jq_ok q \<Longrightarrow> run_frames n w q st = Some q' \<Longrightarrow> jq_ok q'"
  by (induction n w q st rule: run_frames.induct)
     (auto split: prod.splits dest: jq_ok_step_frame)

lemma jq_ok_fire:
  assumes "jq_ok q" "handles q = h # hs" "flushJobs w d (q\<lparr>handles := hs\<rparr>) = (q1, st)"
  shows "jq_ok q1"
  using assms
  by (auto simp: flushJobs_def Let_def read_clock_def start_flush_def jq_ok_def sched_ok_def
      objs_ok_def obj_priority_def[abs_def] split: if_splits)

lemma jq_ok_handle_event: "jq_ok q \<Longrightarrow> handle_event w ev q = Some q' \<Longrightarrow> jq_ok q'"
  by (cases ev)
     (auto simp: Let_def dest: jq_ok_fire jq_ok_run_frames split: list.splits prod.splits)

lemma jq_ok_new: "jq_ok new_JobQueue"
  by (simp add: jq_ok_def objs_ok_def sched_ok_def new_JobQueue_def desc_def)

lemma jq_reach_ok: "jq_reach w q \<Longrightarrow> jq_ok q"
  by (induction rule: jq_reach.induct) (auto simp: jq_ok_new jq_ok_handle_event)

section \<open>Termination\<close>

text \<open>Every step takes weight out of the queue and the stack together.\<close>

lemma queue_weight_append:
  "(\<And>x. x \<in> set (queue q) \<Longrightarrow> x < length (objs q)) \<Longrightarrow>
   (\<Sum>a\<leftarrow>queue q. 3 + cb_weight (job_cb ((objs q @ [j]) ! a))) = queue_weight q"
  unfolding queue_weight_def by (intro arg_cong[of _ _ sum_list] map_cong) (auto simp: nth_append)

lemma sum_list_splice_in:
  "sum_list (map f (splice_in i x xs)) = (f x + sum_list (map f xs) :: nat)"
proof -
  have "sum_list (map f (take i xs @ drop i xs)) = sum_list (map f (take i xs)) + sum_list (map f (drop i xs))"
    by (simp only: map_append sum_list_append)
  then show ?thesis by (simp add: splice_in_def)
qed

lemma sum_list_update_le:
  "distinct xs \<Longrightarrow>
   (\<Sum>x\<leftarrow>xs. c + g (os[a := j] ! x)) \<le> (\<Sum>x\<leftarrow>xs. c + g (os ! x)) + (g j :: nat)"
  if "a < length os"
  using that
proof (induction xs)
  case (Cons x xs)
  show ?case
  proof (cases "x = a")
    case True
    then have "(\<Sum>x\<leftarrow>xs. c + g (os[a := j] ! x)) = (\<Sum>x\<leftarrow>xs. c + g (os ! x))"
      using Cons.prems by (intro arg_cong[of _ _ sum_list] map_cong) (auto simp: nth_list_update)
    then show ?thesis using True Cons.prems by simp
  next
    case False
    then show ?thesis using Cons by simp
  qed
qed simp

lemma sum_list_remove1:
  "a \<in> set xs \<Longrightarrow> sum_list (map f xs) = (f a + sum_list (map f (remove1 a xs)) :: nat)"
  by (induction xs) auto

lemma queue_weight_requeue:
  assumes ok: "objs_ok q" and a: "a < length (objs q)"
  shows "queue_weight (requeue q a p cb) \<le> queue_weight q + cb_weight cb"
proof -
  define g :: "qjob \<Rightarrow> nat" where "g = (\<lambda>j. cb_weight (job_cb j))"
  have le: "(\<Sum>x\<leftarrow>queue q. 3 + g ((objs q)[a := j] ! x)) \<le> queue_weight q + g j" for j
    unfolding queue_weight_def using sum_list_update_le[OF a objs_okD(2)[OF ok], of 3 g j]
    by (simp add: g_def)
  have r: "queue_weight (requeue q a p cb) = (\<Sum>x\<leftarrow>queue q. 3 + g ((objs q)[a := j] ! x))"
    if "objs (requeue q a p cb) = (objs q)[a := j]" for j
    using that sum_list_remove1[of a "queue q" "\<lambda>x. 3 + g ((objs q)[a := j] ! x)"]
    by (auto simp: requeue_def Let_def queue_weight_def g_def sum_list_splice_in)
  have "\<exists>j. objs (requeue q a p cb) = (objs q)[a := j] \<and> g j = cb_weight cb"
    using a by (auto simp: requeue_def Let_def g_def)
  then show ?thesis using r le by (metis order_refl)
qed

lemma queue_weight_queueJob:
  assumes ok: "objs_ok q"
  shows "queue_weight (queueJob q i p cb) \<le> queue_weight q + 3 + cb_weight cb"
proof (cases "pendingJobs q i")
  case None
  define a where "a = length (objs q)"
  have "queue_weight (enqueue_new q i p cb) = queue_weight q + 3 + cb_weight cb"
    using queue_weight_append[OF objs_okD(1)[OF ok], of "\<lparr>job_id = i, job_priority = p, job_cb = cb\<rparr>"]
    by (simp add: enqueue_new_def Let_def queue_weight_def sum_list_splice_in)
  then show ?thesis using None by (simp add: queueJob_def)
next
  case (Some a)
  then show ?thesis using queue_weight_requeue[OF ok objs_okD(3)[OF ok Some], of p cb]
    by (simp add: queueJob_def)
qed

lemma queue_weight_queueFlush: "queue_weight (queueFlush w q) = queue_weight q"
  by (simp add: queue_weight_def queueFlush_frame)

lemma unwind_weight: "sum_list (map frame_weight (unwind st)) \<le> sum_list (map frame_weight st)"
  by (induction st rule: unwind.induct) auto

lemma exec_cmd_weight:
  assumes "objs_ok q" "exec_cmd w c q st = (q', st')"
  shows "machine_weight q' st' < machine_weight q st + cmd_weight c"
  using assms
proof (induction w c q st rule: exec_cmd.induct)
  case (2 w q st)
  then show ?case using unwind_weight[of st] by (auto simp: machine_weight_def)
next
  case (6 w i p cb q st)
  then show ?case using queue_weight_queueJob[of q i p cb]
    by (auto simp: machine_weight_def cb_weight_def split: if_splits)
qed (auto simp: machine_weight_def queueFlush_frame queue_weight_def start_flush_def
       clearJobs_def cancelScheduleJob_def split: if_splits)

lemma step_frame_weight:
  assumes "objs_ok q" "step_frame w f q st = (q', st')"
  shows "machine_weight q' st' < machine_weight q (f # st)"
  using assms
proof (induction w f q st rule: step_frame.induct)
  case (2 w c cs q st)
  have "machine_weight q (FCmds cs # st) + cmd_weight c = machine_weight q (FCmds (c # cs) # st)"
    by (simp add: machine_weight_def cb_weight_def)
  then show ?case using exec_cmd_weight[OF "2.prems"(1)] "2.prems"(2) by fastforce
qed (auto simp: machine_weight_def queue_weight_queueFlush queue_weight_def start_flush_def
       end_flush_def queueFlush_frame read_clock_def delete_pending_def Let_def
       split: list.splits if_splits)

lemma run_frames_total:
  "jq_ok q \<Longrightarrow> machine_weight q st \<le> n \<Longrightarrow> \<exists>q'. run_frames n w q st = Some q'"
proof (induction n w q st rule: run_frames.induct)
  case (2 w q f st)
  obtain q' st' where s: "step_frame w f q st = (q', st')" by fastforce
  have "objs_ok q" using "2.prems" by (simp add: jq_ok_def)
  then show ?case using step_frame_weight[OF _ s] "2.prems"(2) by fastforce
next
  case (3 n w q f st)
  obtain q' st' where s: "step_frame w f q st = (q', st')" by fastforce
  have o: "objs_ok q" using "3.prems" by (simp add: jq_ok_def)
  show ?case
    using "3.IH"[of q' st'] jq_ok_step_frame[OF "3.prems"(1) s]
      step_frame_weight[OF o s] "3.prems"(2) s by simp
qed simp

text \<open>Every call and every frame request returns, whatever the callbacks do.\<close>

lemma handle_event_total: "jq_ok q \<Longrightarrow> \<exists>q'. handle_event w ev q = Some q'"
  by (cases ev)
     (auto simp: Let_def dest: jq_ok_fire split: list.splits prod.splits intro!: run_frames_total)

section \<open>Progress\<close>

text \<open>Callbacks without exceptions. Then \<open>isFlushing\<close> is set only while a loop is active, and
  the end of a flush leaves the queue empty or another flush pending.\<close>

fun calm_cmd :: "qcmd \<Rightarrow> bool" where
  "calm_cmd CThrow = False"
| "calm_cmd (CQueueJob i p cb) = list_all calm_cmd cb"
| "calm_cmd _ = True"

definition calm :: "jobq \<Rightarrow> bool" where
  "calm q = list_all (\<lambda>j. list_all calm_cmd (job_cb j)) (objs q)"

fun calm_frame :: "frame \<Rightarrow> bool" where
  "calm_frame (FCmds cs) = list_all calm_cmd cs"
| "calm_frame _ = True"

fun loop_frame :: "frame \<Rightarrow> bool" where
  "loop_frame (FCmds cs) = False"
| "loop_frame _ = True"

fun async_frame :: "frame \<Rightarrow> bool" where
  "async_frame (FLoop t b) = True"
| "async_frame (FAfter i t b) = True"
| "async_frame _ = False"

definition idle_ok :: "jobq \<Rightarrow> bool" where
  "idle_ok q \<longleftrightarrow> \<not> isFlushing q \<and> calm q"

definition busy_ok :: "jobq \<Rightarrow> frame list \<Rightarrow> bool" where
  "busy_ok q st \<longleftrightarrow> calm q \<and> list_all calm_frame st \<and> (isFlushing q \<longrightarrow> list_ex loop_frame st)"

text \<open>The activation at the bottom of a frame request is the asynchronous loop.\<close>

definition flush_bottom :: "jobq \<Rightarrow> frame list \<Rightarrow> bool" where
  "flush_bottom q st \<longleftrightarrow> (if st = [] then queue q = [] \<or> isFlushPending q else async_frame (last st))"

lemma calm_simps:
  "calm (q\<lparr>queue := xs\<rparr>) = calm q" "calm (q\<lparr>isFlushing := b\<rparr>) = calm q"
  "calm (q\<lparr>effects := es\<rparr>) = calm q" "calm (q\<lparr>ticks := t\<rparr>) = calm q"
  "calm (q\<lparr>handles := hs\<rparr>) = calm q" "calm (delete_pending i q) = calm q"
  "calm (queueFlush w q) = calm q" "calm (start_flush q) = calm q"
  "calm (q\<lparr>isFlushPending := b\<rparr>) = calm q"
  "calm (clearJobs q) = calm q" "calm (end_flush w q) = calm q"
  by (simp_all add: calm_def delete_pending_def queueFlush_frame start_flush_def clearJobs_def
      cancelScheduleJob_def end_flush_def Let_def)

lemma list_all_update: "list_all P xs \<Longrightarrow> P x \<Longrightarrow> list_all P (xs[i := x])"
  using set_update_subset_insert[of xs i x] by (auto simp: list_all_iff)

lemma calm_requeue: "calm q \<Longrightarrow> list_all calm_cmd cb \<Longrightarrow> calm (requeue q a p cb)"
  by (cases "a < length (objs q)") (simp_all add: calm_def requeue_def Let_def list_all_update list_update_beyond)

lemma calm_enqueue_new: "calm q \<Longrightarrow> list_all calm_cmd cb \<Longrightarrow> calm (enqueue_new q i p cb)"
  by (simp add: calm_def enqueue_new_def Let_def)

lemma calm_queueJob: "calm q \<Longrightarrow> list_all calm_cmd cb \<Longrightarrow> calm (queueJob q i p cb)"
  by (simp add: queueJob_def calm_requeue calm_enqueue_new split: option.splits)

lemma calm_nth: "calm q \<Longrightarrow> a < length (objs q) \<Longrightarrow> list_all calm_cmd (job_cb (objs q ! a))"
  by (auto simp: calm_def list_all_length)

lemma calm_head: "objs_ok q \<Longrightarrow> calm q \<Longrightarrow> queue q = a # as \<Longrightarrow> list_all calm_cmd (job_cb (objs q ! a))"
  by (rule calm_nth) (auto simp: objs_ok_def)

lemma isFlushing_simps:
  "isFlushing (clearJobs q) = False" "isFlushing (end_flush w q) = False"
  "isFlushing (delete_pending i q) = isFlushing q" "isFlushing (start_flush q) = True"
  by (simp_all add: clearJobs_def cancelScheduleJob_def end_flush_def queueFlush_frame
      delete_pending_def start_flush_def Let_def)

lemma flushJobs_frames: "\<exists>q1 t b. flushJobs w d q = (q1, [FLoop t b])"
  by (simp add: flushJobs_def read_clock_def Let_def)

lemma queue_end_flush: "\<not> isFlushPending (end_flush w q) \<Longrightarrow> queue (end_flush w q) = []"
  by (simp add: end_flush_def queueFlush_def scheduleJob_def cancelScheduleJob_def Let_def split: if_splits)

lemma busy_ok_exec_cmd:
  assumes "busy_ok q st" "calm_cmd c" "exec_cmd w c q st = (q', st')"
  shows "busy_ok q' st' \<and> (st \<noteq> [] \<longrightarrow> st' \<noteq> [] \<and> last st' = last st)"
  using assms
  by (cases c) (auto simp: busy_ok_def calm_simps calm_queueJob isFlushing_simps queueJob_frame
      queueFlush_frame split: if_splits)

lemma busy_ok_step:
  assumes ok: "objs_ok q" and b: "busy_ok q (f # st)" and s: "step_frame w f q st = (q', st')"
  shows "busy_ok q' st'"
proof (cases f)
  case (FCmds cs)
  show ?thesis
  proof (cases cs)
    case Nil
    then show ?thesis using b s FCmds by (auto simp: busy_ok_def)
  next
    case (Cons c cs')
    have "busy_ok q (FCmds cs' # st)" "calm_cmd c" using b FCmds Cons by (auto simp: busy_ok_def)
    then show ?thesis using busy_ok_exec_cmd s FCmds Cons by fastforce
  qed
qed (use assms in \<open>auto simp: busy_ok_def calm_simps isFlushing_simps read_clock_def Let_def
       calm_head split: list.splits if_splits\<close>)

lemma flush_bottom_step:
  assumes b: "busy_ok q (f # st)" "flush_bottom q (f # st)" and s: "step_frame w f q st = (q', st')"
  shows "flush_bottom q' st'"
proof (cases f)
  case (FCmds cs)
  then have st: "st \<noteq> []" "async_frame (last st)" using b(2) by (auto simp: flush_bottom_def split: if_splits)
  show ?thesis
  proof (cases cs)
    case Nil
    then show ?thesis using st s FCmds by (auto simp: flush_bottom_def)
  next
    case (Cons c cs')
    have "busy_ok q (FCmds cs' # st)" "calm_cmd c" using b FCmds Cons by (auto simp: busy_ok_def)
    then show ?thesis using busy_ok_exec_cmd[of q "FCmds cs' # st" c w q' st'] s FCmds Cons st
      by (auto simp: flush_bottom_def)
  qed
qed (use assms in \<open>auto simp: flush_bottom_def read_clock_def Let_def queue_end_flush
       split: list.splits if_splits\<close>)

lemma run_frames_busy:
  assumes "jq_ok q" "busy_ok q st" "run_frames n w q st = Some q'"
  shows "idle_ok q'" "flush_bottom q st \<Longrightarrow> queue q' = [] \<or> isFlushPending q'"
    "machine_weight q' [] \<le> machine_weight q st"
proof -
  have "idle_ok q' \<and> (flush_bottom q st \<longrightarrow> queue q' = [] \<or> isFlushPending q') \<and>
    machine_weight q' [] \<le> machine_weight q st"
    using assms
  proof (induction n w q st rule: run_frames.induct)
    case (1 n w q)
    then show ?case by (auto simp: idle_ok_def busy_ok_def flush_bottom_def)
  next
    case (3 n w q f st)
    obtain q1 st1 where s: "step_frame w f q st = (q1, st1)" by fastforce
    have o: "objs_ok q" using "3.prems" by (simp add: jq_ok_def)
    have r: "run_frames n w q1 st1 = Some q'" using "3.prems"(3) s by simp
    note I = "3.IH"[OF s[symmetric] jq_ok_step_frame[OF "3.prems"(1) s] busy_ok_step[OF o "3.prems"(2) s] r]
    show ?case using I flush_bottom_step[OF "3.prems"(2) _ s] step_frame_weight[OF o s] by auto
  qed simp
  then show "idle_ok q'" "flush_bottom q st \<Longrightarrow> queue q' = [] \<or> isFlushPending q'"
    "machine_weight q' [] \<le> machine_weight q st" by auto
qed

text \<open>One frame request of a calm queue: it takes weight out of the queue, and leaves it empty or
  asks for another.\<close>

lemma fire_progress:
  assumes ok: "jq_ok q" "idle_ok q" "handles q \<noteq> []" "queue q \<noteq> []"
    and e: "handle_event w (Fire d) q = Some q'"
  shows "idle_ok q'" "queue q' = [] \<or> isFlushPending q'" "queue_weight q' < queue_weight q"
proof -
  obtain h hs where h: "handles q = h # hs" using ok(3) by (cases "handles q") auto
  obtain q1 t b where f: "flushJobs w d (q\<lparr>handles := hs\<rparr>) = (q1, [FLoop t b])"
    using flushJobs_frames by blast
  have k1: "jq_ok q1" by (rule jq_ok_fire[OF ok(1) h f])
  have q1: "queue q1 = queue q" "objs q1 = objs q" "calm q1"
    using f ok(2) by (auto simp: flushJobs_def Let_def read_clock_def start_flush_def calm_def idle_ok_def)
  obtain n where r: "run_frames n w q1 [FLoop t b] = Some q'" using e h f by (auto simp: Let_def)
  have b1: "busy_ok q1 [FLoop t b]" using q1 by (simp add: busy_ok_def)
  show "idle_ok q'" by (rule run_frames_busy(1)[OF k1 b1 r])
  show "queue q' = [] \<or> isFlushPending q'"
    by (rule run_frames_busy(2)[OF k1 b1 r]) (simp add: flush_bottom_def)
  obtain m where n: "n = Suc m" using r by (cases n) auto
  obtain q2 st2 where s: "step_frame w (FLoop t b) q1 [] = (q2, st2)" by fastforce
  have st2: "st2 \<noteq> []" using s q1(1) ok(4) by (auto split: list.splits)
  then obtain g st3 where g: "st2 = g # st3" by (cases st2) auto
  have r2: "run_frames m w q2 st2 = Some q'" using r n s by simp
  obtain l where l: "m = Suc l" using r2 g by (cases m) auto
  obtain q4 st4 where s4: "step_frame w g q2 st3 = (q4, st4)" by fastforce
  have r4: "run_frames l w q4 st4 = Some q'" using r2 l s4 g by simp
  have k2: "jq_ok q2" "busy_ok q2 (g # st3)"
    using jq_ok_step_frame[OF k1 s] busy_ok_step[OF _ b1 s] k1 g by (auto simp: jq_ok_def)
  have k4: "jq_ok q4" "busy_ok q4 st4"
    using jq_ok_step_frame[OF k2(1) s4] busy_ok_step[OF _ k2(2) s4] k2(1) by (auto simp: jq_ok_def)
  have "machine_weight q' [] \<le> machine_weight q4 st4" by (rule run_frames_busy(3)[OF k4 r4])
  moreover have "machine_weight q4 st4 < machine_weight q2 st2"
    using step_frame_weight[OF _ s4] k2(1) g by (simp add: jq_ok_def)
  moreover have "machine_weight q2 st2 < machine_weight q1 [FLoop t b]"
    using step_frame_weight[OF _ s] k1 by (simp add: jq_ok_def)
  ultimately show "queue_weight q' < queue_weight q"
    using q1 by (simp add: machine_weight_def queue_weight_def)
qed

fun fire_times :: "window \<Rightarrow> (nat \<Rightarrow> nat option) \<Rightarrow> nat \<Rightarrow> jobq \<Rightarrow> jobq option" where
  "fire_times w d 0 q = Some q"
| "fire_times w d (Suc n) q =
    (case fire_times w d n q of None \<Rightarrow> None | Some q1 \<Rightarrow> handle_event w (Fire (d n)) q1)"

lemma fire_times_progress:
  assumes "jq_ok q" "idle_ok q" "isFlushPending q"
  shows "\<exists>q'. fire_times w d n q = Some q' \<and> jq_ok q' \<and> idle_ok q' \<and>
    ((\<exists>m \<le> n. \<exists>q1. fire_times w d m q = Some q1 \<and> queue q1 = []) \<or>
     isFlushPending q' \<and> queue_weight q' + n \<le> queue_weight q)"
  using assms
proof (induction n)
  case 0
  then show ?case by auto
next
  case (Suc n)
  obtain q1 where q1: "fire_times w d n q = Some q1" "jq_ok q1" "idle_ok q1"
    and c: "(\<exists>m \<le> n. \<exists>q2. fire_times w d m q = Some q2 \<and> queue q2 = []) \<or>
       isFlushPending q1 \<and> queue_weight q1 + n \<le> queue_weight q" using Suc by auto
  obtain q' where q': "handle_event w (Fire (d n)) q1 = Some q'" using handle_event_total[OF q1(2)] by blast
  have k: "jq_ok q'" by (rule jq_ok_handle_event[OF q1(2) q'])
  show ?case
  proof (cases "isFlushPending q1 \<and> queue_weight q1 + n \<le> queue_weight q \<and> queue q1 \<noteq> []")
    case True
    have h: "handles q1 \<noteq> []" using q1(2) True by (auto simp: jq_ok_def sched_ok_def)
    note P = fire_progress[OF q1(2,3) h _ q']
    show ?thesis using P True q1 q' k by (auto simp: intro!: exI[of _ "Suc n"])
  next
    case False
    then have e: "\<exists>m \<le> n. \<exists>q2. fire_times w d m q = Some q2 \<and> queue q2 = []" using c q1(1) by blast
    have "idle_ok q'"
    proof (cases "handles q1")
      case Nil
      then show ?thesis using q' q1(3) by simp
    next
      case (Cons h hs)
      obtain q3 t b where f: "flushJobs w (d n) (q1\<lparr>handles := hs\<rparr>) = (q3, [FLoop t b])"
        using flushJobs_frames by blast
      have "busy_ok q3 [FLoop t b]"
        using f q1(3) by (auto simp: flushJobs_def Let_def read_clock_def start_flush_def calm_def idle_ok_def busy_ok_def)
      then show ?thesis using q' Cons f run_frames_busy(1)[OF jq_ok_fire[OF q1(2) Cons f]] by (auto simp: Let_def)
    qed
    then show ?thesis using e q1 q' k by (auto intro: le_SucI)
  qed
qed

section \<open>Runs of events\<close>

fun run_events :: "window \<Rightarrow> jq_event list \<Rightarrow> jobq \<Rightarrow> jobq option" where
  "run_events w [] q = Some q"
| "run_events w (ev # evs) q =
    (case handle_event w ev q of None \<Rightarrow> None | Some q1 \<Rightarrow> run_events w evs q1)"

text \<open>Calls that leave the queue's flags as they are when a flush is believed to be running.\<close>

fun plain_event :: "jq_event \<Rightarrow> bool" where
  "plain_event (Call CQueueFlush) = True"
| "plain_event (Call CQueueFlushSync) = True"
| "plain_event (Call (CQueueJob i p cb)) = (\<not> is_prior p)"
| "plain_event (Call _) = False"
| "plain_event (Fire d) = True"

lemma run_frames_call:
  "exec_cmd w c q [FCmds []] = (q', [FCmds []]) \<Longrightarrow> 2 \<le> n \<Longrightarrow> run_frames n w q [FCmds [c]] = Some q'"
  by (cases n; cases "n - 1") (auto simp: numeral_2_eq_2)

lemma call_weight: "2 \<le> machine_weight q [FCmds [c]]"
  by (cases c) (simp_all add: machine_weight_def cb_weight_def)

lemma plain_event_stalled:
  assumes "jq_ok q" "isFlushing q" "\<not> isFlushPending q" "plain_event ev"
  shows "\<exists>q'. handle_event w ev q = Some q' \<and> isFlushing q' \<and> \<not> isFlushPending q' \<and>
     effects q' = effects q \<and> (queue q \<noteq> [] \<longrightarrow> queue q' \<noteq> [])"
proof (cases ev)
  case (Fire d)
  then show ?thesis using assms by (auto simp: jq_ok_def sched_ok_def)
next
  case (Call c)
  show ?thesis
  proof (cases c)
    case (CQueueJob i p cb)
    have "queue q \<noteq> [] \<longrightarrow> queue (queueJob q i p cb) \<noteq> []"
      by (auto simp: queueJob_def requeue_def enqueue_new_def splice_in_def Let_def split: option.splits)
    then show ?thesis
      using assms Call CQueueJob run_frames_call[OF _ call_weight, of w c q "queueJob q i p cb"]
      by (auto simp: queueJob_frame)
  qed (use assms Call run_frames_call[OF _ call_weight, of w c q q] in \<open>auto simp: queueFlush_def\<close>)
qed

lemma plain_events_stalled:
  "jq_ok q \<Longrightarrow> isFlushing q \<Longrightarrow> \<not> isFlushPending q \<Longrightarrow> queue q \<noteq> [] \<Longrightarrow> list_all plain_event evs \<Longrightarrow>
   \<exists>q'. run_events w evs q = Some q' \<and> effects q' = effects q \<and> queue q' \<noteq> []"
proof (induction evs arbitrary: q)
  case (Cons ev evs)
  obtain q1 where q1: "handle_event w ev q = Some q1" "isFlushing q1" "\<not> isFlushPending q1"
    "effects q1 = effects q" "queue q1 \<noteq> []"
    using plain_event_stalled[OF Cons.prems(1-3), of ev w] Cons.prems(4,5) by auto
  have "\<exists>q'. run_events w evs q1 = Some q' \<and> effects q' = effects q1 \<and> queue q' \<noteq> []"
    using Cons.IH[OF jq_ok_handle_event[OF Cons.prems(1) q1(1)] q1(2,3,5)] Cons.prems(5) by simp
  then show ?case using q1 by simp
qed simp

lemma queueJob_new_order:
  assumes "objs_ok q" "pendingJobs q i = None"
  shows "queue (queueJob q i p cb) =
     filter (\<lambda>x. p \<le> obj_priority q x) (queue q) @ length (objs q) # filter (\<lambda>x. obj_priority q x < p) (queue q)"
proof -
  define q1 where "q1 = q\<lparr>objs := objs q @ [\<lparr>job_id = i, job_priority = p, job_cb = cb\<rparr>]\<rparr>"
  have s: "obj_priority q1 x = obj_priority q x" if "x \<in> set (queue q)" for x
    using objs_okD(1)[OF assms(1) that] by (simp add: q1_def obj_priority_def nth_append)
  have m: "map (obj_priority q1) (queue q1) = map (obj_priority q) (queue q)"
    using s by (simp add: q1_def)
  have d: "desc (map (obj_priority q1) (queue q1))" unfolding m by (rule objs_okD(5)[OF assms(1)])
  have p: "obj_priority q1 (length (objs q)) = p" by (simp add: q1_def obj_priority_def)
  have qq: "queue q1 = queue q" by (simp add: q1_def)
  have "queue (queueJob q i p cb) = splice_in (findInsertionIndex q1 (length (objs q))) (length (objs q)) (queue q1)"
    using assms(2) by (simp add: queueJob_def enqueue_new_def Let_def q1_def)
  then show ?thesis using splice_in_filter[OF d, of "length (objs q)"] s p qq
    by (simp cong: filter_cong)
qed

lemma jq_reach_run: "jq_reach w q \<Longrightarrow> run_events w evs q = Some q' \<Longrightarrow> jq_reach w q'"
  by (induction evs arbitrary: q) (auto intro: jq_step split: option.splits)

section \<open>Properties\<close>

text \<open>C26: In every reachable state of the job queue the jobs wait in descending order of priority
  without duplicates, a flush is pending exactly when one browser request is outstanding, and a
  job queued under a new id is put behind all jobs of at least its priority and before all others.\<close>
theorem job_queue_order:
  assumes "jq_reach w q"
  shows "sorted_wrt (\<ge>) (map (obj_priority q) (queue q)) \<and> distinct (queue q) \<and>
    handles q = (if isFlushPending q then [scheduleId q] else []) \<and>
    (pendingJobs q i = None \<longrightarrow> queue (queueJob q i p cb) =
       filter (\<lambda>x. p \<le> obj_priority q x) (queue q) @ length (objs q) #
       filter (\<lambda>x. obj_priority q x < p) (queue q))"
  using jq_reach_ok[OF assms] queueJob_new_order[of q i p cb]
  by (auto simp: jq_ok_def objs_ok_def sched_ok_def desc_def)

definition sample_window :: window where
  "sample_window = \<lparr>has_raf = True, has_idle = True, clock = (\<lambda>n. 5 * n)\<rparr>"

lemma job_queue_order_witness:
  "queue (queueJob new_JobQueue ''a'' 2 []) = [0]"
  using job_queue_order[OF jq_init[of sample_window], of "''a''" 2 "[]"]
  by (simp add: new_JobQueue_def)



text \<open>C27: A callback that throws inside a frame request (where, unlike in \<open>flushJobsSync\<close>, no
  try block catches it) leaves \<open>isFlushing\<close> set: the jobs behind it stay queued, and no later
  sequence of \<open>queueJob\<close>, \<open>queueFlush\<close>, \<open>queueFlushSync\<close> and frame requests runs any of them.\<close>
theorem throwing_job_stalls_queue:
  "\<exists>q. run_events w [Call (CQueueJob ''a'' 8 [CThrow]), Call (CQueueJob ''b'' 4 [CEffect 1]),
          Call CQueueFlush, Fire None] new_JobQueue = Some q \<and>
     (\<forall>evs. list_all plain_event evs \<longrightarrow>
       (\<exists>q'. run_events w evs q = Some q' \<and> effects q' = [] \<and> queue q' \<noteq> []))"
proof -
  define evs0 where "evs0 = [Call (CQueueJob ''a'' 8 [CThrow]), Call (CQueueJob ''b'' 4 [CEffect 1]),
          Call CQueueFlush, Fire None]"
  have e: "case run_events w evs0 new_JobQueue of None \<Rightarrow> False | Some q \<Rightarrow>
      isFlushing q \<and> \<not> isFlushPending q \<and> queue q \<noteq> [] \<and> effects q = []"
    unfolding evs0_def by code_simp
  then obtain q where q: "run_events w evs0 new_JobQueue = Some q" "isFlushing q"
    "\<not> isFlushPending q" "queue q \<noteq> []" "effects q = []" by (auto split: option.splits)
  have "jq_ok q" by (rule jq_reach_ok[OF jq_reach_run[OF jq_init q(1)]])
  then show ?thesis using q plain_events_stalled[of q _ w] unfolding evs0_def by auto
qed

lemma throwing_job_stalls_queue_witness:
  "\<exists>q q'. run_events sample_window [Call (CQueueJob ''a'' 8 [CThrow]),
          Call (CQueueJob ''b'' 4 [CEffect 1]), Call CQueueFlush, Fire None] new_JobQueue = Some q \<and>
     run_events sample_window [Call CQueueFlush, Fire None, Call CQueueFlushSync] q = Some q' \<and>
     effects q' = []"
proof -
  obtain q where q: "run_events sample_window [Call (CQueueJob ''a'' 8 [CThrow]),
          Call (CQueueJob ''b'' 4 [CEffect 1]), Call CQueueFlush, Fire None] new_JobQueue = Some q"
    and all: "\<forall>evs. list_all plain_event evs \<longrightarrow>
       (\<exists>q'. run_events sample_window evs q = Some q' \<and> effects q' = [] \<and> queue q' \<noteq> [])"
    using throwing_job_stalls_queue[of sample_window] by blast
  show ?thesis
    using q all[rule_format, of "[Call CQueueFlush, Fire None, Call CQueueFlushSync]"] by auto
qed

text \<open>A job that queues itself again under its own id while it runs is lost: its entry is still in
  the map, so nothing is put into the queue, and the entry is deleted after the callback.\<close>
theorem self_requeue_lost:
  "\<exists>q. run_events \<lparr>has_raf = True, has_idle = True, clock = (\<lambda>n. n)\<rparr>
         [Call (CQueueJob ''a'' 2 [CEffect 1, CQueueJob ''a'' 2 [CEffect 7], CQueueFlush]),
          Call CQueueFlush, Fire None] new_JobQueue = Some q \<and>
     effects q = [1] \<and> queue q = [] \<and> \<not> isFlushPending q \<and> pendingJobs q ''a'' = None"
proof -
  define r where "r = run_events \<lparr>has_raf = True, has_idle = True, clock = (\<lambda>n. n)\<rparr>
         [Call (CQueueJob ''a'' 2 [CEffect 1, CQueueJob ''a'' 2 [CEffect 7], CQueueFlush]),
          Call CQueueFlush, Fire None] new_JobQueue"
  have "case r of None \<Rightarrow> False | Some q \<Rightarrow>
    effects q = [1] \<and> queue q = [] \<and> \<not> isFlushPending q \<and> pendingJobs q ''a'' = None"
    unfolding r_def by code_simp
  then show ?thesis unfolding r_def[symmetric] by (auto split: option.splits)
qed

end
