(* ===== verification/Editor.thy ===== *)
theory Editor
  imports Display_Merge Graph_Model Graph_Layout
begin

text \<open>
  The editor component (X6Editor.vue and ContextMenu.vue in web/static/cyeditor.common.js): what it
  renders from the network it is given, what it synchronises back, its context menu and its
  layouts. The graph is the model of \<open>Graph_Model\<close>, the synchronised network is computed by
  \<open>Display_Sync\<close>. Calls into the view (zoom, centering) are recorded in order; random
  coordinates, generated ids, the time, the cosines of the circular layout and the answer to a
  prompt are arguments. A TypeError is None.
\<close>

section \<open>State\<close>

record menu_item =
  mi_label :: string
  mi_action :: string
  mi_separator :: bool
  mi_disabled :: bool

datatype view_call = ZoomTo int | ZoomBy int | CenterContent | ZoomToFit int

record editor =
  ed_graph :: gmodel
  ed_loading :: bool
  ed_internal :: bool
  ed_menuVisible :: bool
  ed_menuPos :: "int \<times> int"
  ed_menuItems :: "menu_item list"
  ed_target :: "gcell option"
  ed_clickPos :: "(int \<times> int) option"
  ed_network :: jv
  ed_emitted :: "jv option"
  ed_selected :: "string option"
  ed_view :: "view_call list"

text \<open>\<open>data()\<close> with an empty graph and the network of the property.\<close>

definition editor_data :: "jv \<Rightarrow> editor" where
  "editor_data net = \<lparr>ed_graph = newModel, ed_loading = False, ed_internal = False,
     ed_menuVisible = False, ed_menuPos = (0, 0), ed_menuItems = [], ed_target = None,
     ed_clickPos = None, ed_network = net, ed_emitted = None, ed_selected = None, ed_view = []\<rparr>"

record surroundings =
  sr_random_pos :: "nat \<Rightarrow> jv \<times> jv"
  sr_rnd :: rnd
  sr_uuid :: string
  sr_now :: int
  sr_circle :: "nat \<Rightarrow> nat \<Rightarrow> jv \<times> jv"
  sr_prompt :: jv
  sr_toClient :: "int \<Rightarrow> int \<Rightarrow> int \<times> int"

section \<open>Cells as JSON\<close>

definition xy :: "jv \<Rightarrow> jv \<Rightarrow> jv" where
  "xy x y = JObj [(''x'', x), (''y'', y)]"

definition terminal_json :: "string option \<Rightarrow> jv" where
  "terminal_json t = (case t of Some i \<Rightarrow> JObj [(''cell'', JStr i)] | None \<Rightarrow> xy (JNum 0) (JNum 0))"

definition cell_toJSON :: "gcell \<Rightarrow> jv" where
  "cell_toJSON c =
     JObj (gc_props c @ [(''id'', JStr (gc_id c)), (''zIndex'', JNum (z_of c))] @
       (if gc_edge c then [(''source'', terminal_json (gc_source c)), (''target'', terminal_json (gc_target c))]
        else []))"

definition toJSON :: "gmodel \<Rightarrow> jv" where
  "toJSON m = JObj [(''cells'', JArr (map cell_toJSON (getCells m)))]"

section \<open>Synchronisation\<close>

definition triggerSync :: "surroundings \<Rightarrow> editor \<Rightarrow> editor option" where
  "triggerSync sr s =
     (if ed_loading s then Some s
      else do {
        net \<leftarrow> x6ToNetwork (sr_rnd sr) (toJSON (ed_graph s)) (ed_network s);
        Some (s\<lparr>ed_internal := True, ed_emitted := Some net\<rparr>)
      })"

section \<open>Layout\<close>

definition set_prop :: "string \<Rightarrow> jv \<Rightarrow> gcell \<Rightarrow> gcell" where
  "set_prop k v c = c\<lparr>gc_props := oset (gc_props c) k v\<rparr>"

definition place :: "string \<Rightarrow> jv \<Rightarrow> jv \<Rightarrow> gmodel \<Rightarrow> gmodel" where
  "place i x y m = m\<lparr>gm_coll := coll_update i (set_prop ''position'' (xy x y)) (gm_coll m)\<rparr>"

text \<open>\<open>getSourceCellId\<close> and \<open>getTargetCellId\<close>; no node has the empty id, which stands for none.\<close>

definition source_id :: "gcell \<Rightarrow> string" where
  "source_id e = (case gc_source e of None \<Rightarrow> [] | Some i \<Rightarrow> i)"

definition target_id :: "gcell \<Rightarrow> string" where
  "target_id e = (case gc_target e of None \<Rightarrow> [] | Some i \<Rightarrow> i)"

definition edge_pairs :: "gmodel \<Rightarrow> (string \<times> string) list" where
  "edge_pairs m = map (\<lambda>e. (source_id e, target_id e)) (getEdges m)"

definition layout_positions :: "surroundings \<Rightarrow> string \<Rightarrow> gmodel \<Rightarrow> (string \<times> jv \<times> jv) list" where
  "layout_positions sr type m =
     (let ids = map gc_id (getNodes m) in
      if type = ''grid'' then map (\<lambda>(i, x, y). (i, JNum x, JNum y)) (grid_layout ids)
      else if type = ''circular'' then map (\<lambda>(k, i). (i, sr_circle sr (length ids) k)) (enumerate 0 ids)
      else if type = ''dagre'' then map (\<lambda>(i, x, y). (i, JNum x, JNum y)) (dagre_layout ids (edge_pairs m))
      else [])"

definition handleLayout :: "surroundings \<Rightarrow> string \<Rightarrow> editor \<Rightarrow> editor option" where
  "handleLayout sr type s =
     (if getNodes (ed_graph s) = [] then Some s
      else triggerSync sr
        (s\<lparr>ed_graph := fold (\<lambda>(i, x, y). place i x y) (layout_positions sr type (ed_graph s)) (ed_graph s),
           ed_view := ed_view s @ [ZoomToFit 20], ed_loading := False\<rparr>))"

section \<open>Rendering\<close>

definition node_shape :: string where "node_shape = ''custom-vue-node''"

definition node_size :: jv where
  "node_size = JObj [(''width'', JNum 150), (''height'', JNum 80)]"

definition render_node :: "surroundings \<Rightarrow> nat \<times> jv \<Rightarrow> gcell option" where
  "render_node sr = (\<lambda>(i, node).
     do {
       d \<leftarrow> getp node ''display'';
       p \<leftarrow> (if truthy d then getp d ''position'' else Some d);
       x \<leftarrow> (if truthy d \<and> truthy p then getp p ''x'' else Some (fst (sr_random_pos sr i)));
       y \<leftarrow> (if truthy d \<and> truthy p then getp p ''y'' else Some (snd (sr_random_pos sr i)));
       nid \<leftarrow> getp node ''node_id'';
       nm \<leftarrow> getp node ''node_name'';
       let label = js_or nm (JStr (''Node '' @ js_string nid));
       let data = js_assign [(''label'', label), (''node_id'', nid)] node;
       Some \<lparr>gc_id = js_string nid, gc_edge = False, gc_source = None, gc_target = None, gc_z = None,
             gc_props = [(''shape'', JStr node_shape), (''position'', xy x y), (''size'', node_size),
                         (''data'', JObj data)]\<rparr>
     })"

definition render_edge :: "jv \<Rightarrow> gcell option" where
  "render_edge edge =
     do {
       eid \<leftarrow> getp edge ''edge_id'';
       src \<leftarrow> getp edge ''src_node_id'';
       dst \<leftarrow> getp edge ''dst_node_id'';
       sp \<leftarrow> getp edge ''src_port_id'';
       dp \<leftarrow> getp edge ''dst_port_id'';
       Some \<lparr>gc_id = ''edge-'' @ js_string eid, gc_edge = True, gc_source = Some (js_string src),
             gc_target = Some (js_string dst), gc_z = None,
             gc_props = [(''shape'', JStr ''edge''),
                         (''labels'', JArr [JStr (js_string sp @ '' -> '' @ js_string dp)])]\<rparr>
     }"

text \<open>\<open>network.nodes || []\<close> has to be an array for \<open>map\<close>.\<close>

fun list_or_empty :: "jv \<Rightarrow> jv list option" where
  "list_or_empty (JArr vs) = Some vs"
| "list_or_empty v = (if truthy v then None else Some [])"

definition renderNetwork :: "surroundings \<Rightarrow> jv \<Rightarrow> editor \<Rightarrow> editor option" where
  "renderNetwork sr network s =
     (if \<not> truthy network then Some s
      else do {
        let s = s\<lparr>ed_loading := True\<rparr>;
        nv \<leftarrow> getp network ''nodes'';
        ns \<leftarrow> list_or_empty nv;
        nodes \<leftarrow> mapM (render_node sr) (enumerate 0 ns);
        ev \<leftarrow> getp network ''edges'';
        es \<leftarrow> list_or_empty ev;
        edges \<leftarrow> mapM render_edge es;
        let s = s\<lparr>ed_graph := fromJSON_cells nodes edges False (ed_graph s)\<rparr>;
        s \<leftarrow> (case ns of [] \<Rightarrow> Some s
              | n # _ \<Rightarrow> do { d \<leftarrow> getp n ''display'';
                             if \<not> truthy d then handleLayout sr ''grid'' s else Some s });
        Some (s\<lparr>ed_loading := False\<rparr>)
      })"

text \<open>The parent gives the component a new network, and the watcher runs.\<close>

definition watch_network :: "surroundings \<Rightarrow> jv \<Rightarrow> editor \<Rightarrow> editor option" where
  "watch_network sr val s =
     (let s = s\<lparr>ed_network := val\<rparr> in
      if ed_internal s then Some (s\<lparr>ed_internal := False\<rparr>) else renderNetwork sr val s)"

definition initGraph :: "surroundings \<Rightarrow> editor \<Rightarrow> editor option" where
  "initGraph sr s =
     (let s = s\<lparr>ed_view := ed_view s @ [ZoomToFit 20]\<rparr> in
      if truthy (ed_network s) then renderNetwork sr (ed_network s) s else Some s)"

section \<open>Context menu\<close>

definition item :: "string \<Rightarrow> string \<Rightarrow> bool \<Rightarrow> menu_item" where
  "item l a sep = \<lparr>mi_label = l, mi_action = a, mi_separator = sep, mi_disabled = False\<rparr>"

definition node_menu :: "menu_item list" where
  "node_menu = [item ''Rename'' ''rename'' False, item ''Connect'' ''connect'' True,
                item ''Delete Node'' ''delete'' False]"

definition edge_menu :: "menu_item list" where
  "edge_menu = [item ''Delete Edge'' ''delete'' False]"

definition blank_menu :: "menu_item list" where
  "blank_menu = [item ''Add Node'' ''add-node'' False, item ''Reset Zoom'' ''reset-zoom'' True,
                 item ''Fit Content'' ''fit'' False]"

definition showMenu :: "surroundings \<Rightarrow> int \<Rightarrow> int \<Rightarrow> gcell option \<Rightarrow> editor \<Rightarrow> editor" where
  "showMenu sr x y cell s =
     (let s = s\<lparr>ed_menuPos := sr_toClient sr x y, ed_menuVisible := True\<rparr> in
      case cell of
        Some c \<Rightarrow> s\<lparr>ed_menuItems := (if gc_edge c then edge_menu else node_menu), ed_target := Some c\<rparr>
      | None \<Rightarrow> s\<lparr>ed_menuItems := blank_menu, ed_target := None, ed_clickPos := Some (x, y)\<rparr>)"

definition closeContextMenu :: "editor \<Rightarrow> editor" where
  "closeContextMenu s = s\<lparr>ed_menuVisible := False\<rparr>"

text \<open>\<open>handleClick\<close> of the menu component: whether the click is passed on to the editor.\<close>

definition menu_emits :: "menu_item \<Rightarrow> bool" where
  "menu_emits i = (\<not> (mi_disabled i \<or> mi_separator i))"

definition handleFit :: "editor \<Rightarrow> editor" where
  "handleFit s = s\<lparr>ed_view := ed_view s @ [ZoomToFit 20]\<rparr>"

definition handleZoomIn :: "editor \<Rightarrow> editor" where
  "handleZoomIn s = s\<lparr>ed_view := ed_view s @ [ZoomBy 1]\<rparr>"

definition handleZoomOut :: "editor \<Rightarrow> editor" where
  "handleZoomOut s = s\<lparr>ed_view := ed_view s @ [ZoomBy (- 1)]\<rparr>"

text \<open>The graph's \<open>cell:removed\<close>, \<open>cell:added\<close> and \<open>node:change:data\<close> events trigger a
  synchronisation. The events of one cascade are computed over the same base network and each
  replaces what the one before it emitted, so that the last one stands for all.\<close>

definition delete_cell :: "surroundings \<Rightarrow> gcell \<Rightarrow> editor \<Rightarrow> editor option" where
  "delete_cell sr c s =
     (case getCell (gc_id c) (ed_graph s) of
        None \<Rightarrow> Some s
      | Some _ \<Rightarrow> triggerSync sr (s\<lparr>ed_graph := removeCell False (gc_id c) (ed_graph s)\<rparr>))"

definition add_node :: "surroundings \<Rightarrow> editor \<Rightarrow> editor option" where
  "add_node sr s =
     (let (x, y) = (case ed_clickPos s of Some p \<Rightarrow> p | None \<Rightarrow> (0, 0));
          c = \<lparr>gc_id = sr_uuid sr, gc_edge = False, gc_source = None, gc_target = None, gc_z = None,
               gc_props = [(''shape'', JStr node_shape), (''position'', xy (JNum x) (JNum y)),
                           (''size'', node_size),
                           (''data'', JObj [(''label'', JStr ''New Node''), (''node_id'', JNum (sr_now sr))])]\<rparr>
      in triggerSync sr (s\<lparr>ed_graph := addCell c (ed_graph s)\<rparr>))"

definition getData :: "gcell \<Rightarrow> jv" where
  "getData c = oget (gc_props c) ''data''"

definition rename_cell :: "surroundings \<Rightarrow> gcell \<Rightarrow> editor \<Rightarrow> editor option" where
  "rename_cell sr c s =
     (case getCell (gc_id c) (ed_graph s) of
        None \<Rightarrow> Some s
      | Some c1 \<Rightarrow> do {
          _ \<leftarrow> getp (getData c1) ''label'';
          if \<not> truthy (sr_prompt sr) then Some s
          else (let data = JObj (js_assign [] (getData c1));
                    data' = JObj (oset (js_assign [] data) ''label'' (sr_prompt sr))
                in if data' = getData c1 then Some s
                   else triggerSync sr (s\<lparr>ed_graph := (ed_graph s)\<lparr>gm_coll :=
                     coll_update (gc_id c) (set_prop ''data'' data') (gm_coll (ed_graph s))\<rparr>\<rparr>))
        })"

definition handleContextMenuAction :: "surroundings \<Rightarrow> menu_item \<Rightarrow> editor \<Rightarrow> editor option" where
  "handleContextMenuAction sr i s =
     (let s = s\<lparr>ed_menuVisible := False\<rparr>; action = mi_action i in
      if action = ''delete'' \<and> ed_target s \<noteq> None then delete_cell sr (the (ed_target s)) s
      else if action = ''fit'' then Some (handleFit s)
      else if action = ''reset-zoom'' then Some (s\<lparr>ed_view := ed_view s @ [ZoomTo 1, CenterContent]\<rparr>)
      else if action = ''add-node'' then add_node sr s
      else if action = ''rename'' \<and> ed_target s \<noteq> None then rename_cell sr (the (ed_target s)) s
      else Some s)"

text \<open>A click on a menu item, through the menu component.\<close>

definition click_item :: "surroundings \<Rightarrow> nat \<Rightarrow> editor \<Rightarrow> editor option" where
  "click_item sr k s =
     (if k < length (ed_menuItems s) \<and> ed_menuVisible s \<and> menu_emits (ed_menuItems s ! k)
      then handleContextMenuAction sr (ed_menuItems s ! k) s else Some s)"

definition node_click :: "gcell \<Rightarrow> editor \<Rightarrow> editor" where
  "node_click c s = s\<lparr>ed_menuVisible := False, ed_selected := Some (gc_id c)\<rparr>"

definition blank_click :: "editor \<Rightarrow> editor" where
  "blank_click s = s\<lparr>ed_menuVisible := False, ed_selected := None\<rparr>"

section \<open>Sessions\<close>

text \<open>What can happen to the editor: the user's gestures, the surroundings of each step, and the
  parent, which either adopts the last network the editor emitted, once, or gives it another one.
  \<open>EvEdited g synced\<close> stands for every other gesture that changes the graph through the library (undo,
  redo, paste, connecting an edge, resizing, moving a vertex): the graph is \<open>g\<close> afterwards, whatever
  it is, and \<open>synced\<close> tells whether one of the events bound to \<open>triggerSync\<close> was among those fired; a
  gesture that fires several is a sequence of such events.\<close>

datatype editor_event =
    EvMenu int int "gcell option"
  | EvClickItem nat
  | EvCloseMenu
  | EvNodeClick gcell
  | EvBlankClick
  | EvLayout string
  | EvZoomIn | EvZoomOut | EvFit
  | EvMoved string jv jv
  | EvEdited gmodel bool
  | EvParentAdopts
  | EvParentSets jv

fun editor_step :: "surroundings \<Rightarrow> editor_event \<Rightarrow> editor \<Rightarrow> editor option" where
  "editor_step sr (EvMenu x y c) s = Some (showMenu sr x y c s)"
| "editor_step sr (EvClickItem k) s = click_item sr k s"
| "editor_step sr EvCloseMenu s = Some (closeContextMenu s)"
| "editor_step sr (EvNodeClick c) s = Some (node_click c s)"
| "editor_step sr EvBlankClick s = Some (blank_click s)"
| "editor_step sr (EvLayout t) s = handleLayout sr t s"
| "editor_step sr EvZoomIn s = Some (handleZoomIn s)"
| "editor_step sr EvZoomOut s = Some (handleZoomOut s)"
| "editor_step sr EvFit s = Some (handleFit s)"
| "editor_step sr (EvMoved i x y) s = triggerSync sr (s\<lparr>ed_graph := place i x y (ed_graph s)\<rparr>)"
| "editor_step sr (EvEdited g synced) s =
    (let s = s\<lparr>ed_graph := g\<rparr> in if synced then triggerSync sr s else Some s)"
| "editor_step sr EvParentAdopts s =
    (case ed_emitted s of None \<Rightarrow> Some s
     | Some net \<Rightarrow> watch_network sr net (s\<lparr>ed_emitted := None\<rparr>))"
| "editor_step sr (EvParentSets net) s = watch_network sr net s"

text \<open>A session: each event with the surroundings it happens in.\<close>

definition run_editor :: "(surroundings \<times> editor_event) list \<Rightarrow> editor \<Rightarrow> editor option" where
  "run_editor evs s = foldM (\<lambda>(sr, ev) s. editor_step sr ev s) evs s"

section \<open>What an operation leaves alone\<close>

lemma triggerSync_frame:
  assumes "triggerSync sr s = Some s'"
  shows "ed_graph s' = ed_graph s" "ed_menuItems s' = ed_menuItems s" "ed_view s' = ed_view s"
    "ed_network s' = ed_network s" "ed_loading s' = ed_loading s"
    "ed_internal s' \<longleftrightarrow> ed_internal s \<or> \<not> ed_loading s"
    "ed_emitted s' \<noteq> None \<longleftrightarrow> ed_emitted s \<noteq> None \<or> \<not> ed_loading s"
  using assms by (auto simp: triggerSync_def split: if_splits option.splits bind_splits)

lemma handleLayout_frame:
  assumes "handleLayout sr t s = Some s'"
  shows "ed_menuItems s' = ed_menuItems s" "set (ed_view s') \<subseteq> insert (ZoomToFit 20) (set (ed_view s))"
    "ed_network s' = ed_network s" "ed_loading s' \<longrightarrow> ed_loading s"
    "s' = s \<or> ed_internal s' \<and> ed_emitted s' \<noteq> None"
  using assms by (auto simp: handleLayout_def split: if_splits dest: triggerSync_frame)

lemma renderNetworkE:
  assumes "renderNetwork sr net s = Some s'"
  obtains (none) "\<not> truthy net" "s' = s"
  | (plain) g where "truthy net" "s' = s\<lparr>ed_graph := g, ed_loading := False\<rparr>"
  | (layout) g s1 where "truthy net" "handleLayout sr ''grid'' (s\<lparr>ed_loading := True, ed_graph := g\<rparr>) = Some s1"
      "s' = s1\<lparr>ed_loading := False\<rparr>"
  using assms by (auto simp: renderNetwork_def Let_def split: if_splits option.splits bind_splits list.splits)

lemma renderNetwork_frame:
  assumes "renderNetwork sr net s = Some s'"
  shows "ed_menuItems s' = ed_menuItems s" "set (ed_view s') \<subseteq> insert (ZoomToFit 20) (set (ed_view s))"
    "ed_network s' = ed_network s" "truthy net \<longrightarrow> \<not> ed_loading s'"
    "(ed_internal s' = ed_internal s \<and> ed_emitted s' = ed_emitted s) \<or> ed_internal s' \<and> ed_emitted s' \<noteq> None"
proof -
  have "ed_menuItems s' = ed_menuItems s \<and> set (ed_view s') \<subseteq> insert (ZoomToFit 20) (set (ed_view s)) \<and>
    ed_network s' = ed_network s \<and> (truthy net \<longrightarrow> \<not> ed_loading s') \<and>
    ((ed_internal s' = ed_internal s \<and> ed_emitted s' = ed_emitted s) \<or> ed_internal s' \<and> ed_emitted s' \<noteq> None)"
    using assms
  proof (cases rule: renderNetworkE)
    case (layout g s1)
    then show ?thesis using handleLayout_frame[OF layout(2)] by auto
  qed auto
  then show "ed_menuItems s' = ed_menuItems s" "set (ed_view s') \<subseteq> insert (ZoomToFit 20) (set (ed_view s))"
    "ed_network s' = ed_network s" "truthy net \<longrightarrow> \<not> ed_loading s'"
    "(ed_internal s' = ed_internal s \<and> ed_emitted s' = ed_emitted s) \<or> ed_internal s' \<and> ed_emitted s' \<noteq> None"
    by auto
qed

section \<open>The menu\<close>

lemma delete_cell_frame: "delete_cell sr c s = Some s' \<Longrightarrow> ed_menuItems s' = ed_menuItems s \<and> ed_view s' = ed_view s"
  by (auto simp: delete_cell_def split: option.splits dest: triggerSync_frame)

lemma add_node_frame: "add_node sr s = Some s' \<Longrightarrow> ed_menuItems s' = ed_menuItems s \<and> ed_view s' = ed_view s"
  by (auto simp: add_node_def Let_def split: option.splits prod.splits dest: triggerSync_frame)

lemma rename_cell_frame: "rename_cell sr c s = Some s' \<Longrightarrow> ed_menuItems s' = ed_menuItems s \<and> ed_view s' = ed_view s"
  by (auto simp: rename_cell_def Let_def split: option.splits bind_splits if_splits dest: triggerSync_frame)

definition menu_ok :: "editor \<Rightarrow> bool" where
  "menu_ok s \<longleftrightarrow> set (ed_menuItems s) \<subseteq> set node_menu \<union> set edge_menu \<union> set blank_menu \<and>
     set (ed_view s) \<subseteq> {ZoomToFit 20, ZoomBy 1, ZoomBy (- 1)}"

text \<open>The items that reach the editor.\<close>

lemma menu_emits_action:
  "i \<in> set node_menu \<union> set edge_menu \<union> set blank_menu \<Longrightarrow> menu_emits i \<Longrightarrow>
   mi_action i \<in> {''rename'', ''delete'', ''add-node'', ''fit''}"
  by (auto simp: node_menu_def edge_menu_def blank_menu_def item_def menu_emits_def)

lemma menu_ok_weaken:
  "menu_ok s \<Longrightarrow> ed_menuItems s' = ed_menuItems s \<Longrightarrow>
   set (ed_view s') \<subseteq> insert (ZoomToFit 20) (set (ed_view s)) \<Longrightarrow> menu_ok s'"
  unfolding menu_ok_def by auto

lemma menu_ok_sync: "menu_ok s \<Longrightarrow> triggerSync sr s = Some s' \<Longrightarrow> menu_ok s'"
  using menu_ok_weaken[of s s'] triggerSync_frame(2,3) by auto

lemma menu_ok_layout: "menu_ok s \<Longrightarrow> handleLayout sr t s = Some s' \<Longrightarrow> menu_ok s'"
  using menu_ok_weaken[of s s'] handleLayout_frame(1,2) by auto

lemma menu_ok_render: "menu_ok s \<Longrightarrow> renderNetwork sr net s = Some s' \<Longrightarrow> menu_ok s'"
  by (rule menu_ok_weaken[OF _ renderNetwork_frame(1,2)])

lemma menu_ok_simps:
  "menu_ok (s\<lparr>ed_graph := g\<rparr>) = menu_ok s" "menu_ok (s\<lparr>ed_network := net\<rparr>) = menu_ok s"
  "menu_ok (s\<lparr>ed_internal := b\<rparr>) = menu_ok s" "menu_ok (s\<lparr>ed_emitted := e\<rparr>) = menu_ok s"
  "menu_ok (s\<lparr>ed_menuVisible := b\<rparr>) = menu_ok s"
  by (simp_all add: menu_ok_def)

lemma menu_ok_action:
  assumes ok: "menu_ok s" and a: "mi_action i \<in> {''rename'', ''delete'', ''add-node'', ''fit''}"
    and h: "handleContextMenuAction sr i s = Some s'"
  shows "menu_ok s'"
proof (rule menu_ok_weaken[OF ok])
  show "ed_menuItems s' = ed_menuItems s" "set (ed_view s') \<subseteq> insert (ZoomToFit 20) (set (ed_view s))"
    using a h
    by (auto simp: handleContextMenuAction_def Let_def handleFit_def split: if_splits
        dest!: delete_cell_frame add_node_frame rename_cell_frame)
qed

lemma menu_ok_watch: "menu_ok s \<Longrightarrow> watch_network sr net s = Some s' \<Longrightarrow> menu_ok s'"
  by (auto simp: watch_network_def Let_def menu_ok_simps split: if_splits elim: menu_ok_render[rotated])

lemma menu_ok_showMenu: "menu_ok s \<Longrightarrow> menu_ok (showMenu sr x y c s)"
  by (auto simp: showMenu_def menu_ok_def Let_def split: option.splits)

lemma menu_ok_step: "menu_ok s \<Longrightarrow> editor_step sr ev s = Some s' \<Longrightarrow> menu_ok s'"
proof (cases ev)
  case (EvClickItem k)
  assume s: "menu_ok s" "editor_step sr ev s = Some s'"
  show ?thesis
  proof (cases "k < length (ed_menuItems s) \<and> ed_menuVisible s \<and> menu_emits (ed_menuItems s ! k)")
    case True
    then have "ed_menuItems s ! k \<in> set node_menu \<union> set edge_menu \<union> set blank_menu"
      using s(1) by (auto simp: menu_ok_def dest: nth_mem)
    then show ?thesis
      using menu_ok_action[OF s(1) menu_emits_action] True s(2) EvClickItem by (simp add: click_item_def)
  next
    case False
    then show ?thesis using s EvClickItem by (auto simp: click_item_def)
  qed
next
  case EvParentAdopts
  assume "menu_ok s" "editor_step sr ev s = Some s'"
  then show ?thesis using EvParentAdopts menu_ok_watch[of "s\<lparr>ed_emitted := None\<rparr>" sr _ s']
    by (auto simp: menu_ok_simps split: option.splits)
next
  case (EvMoved i x y)
  assume "menu_ok s" "editor_step sr ev s = Some s'"
  then show ?thesis using EvMoved menu_ok_sync[of "s\<lparr>ed_graph := place i x y (ed_graph s)\<rparr>" sr s']
    by (simp add: menu_ok_simps)
next
  case (EvEdited g b)
  assume "menu_ok s" "editor_step sr ev s = Some s'"
  then show ?thesis using EvEdited menu_ok_sync[of "s\<lparr>ed_graph := g\<rparr>" sr s']
    by (auto simp: menu_ok_simps Let_def split: if_splits)
next
  case (EvMenu x y c)
  assume "menu_ok s" "editor_step sr ev s = Some s'"
  then show ?thesis using EvMenu menu_ok_showMenu[of s sr x y c] by simp
next
  case (EvLayout t)
  assume "menu_ok s" "editor_step sr ev s = Some s'"
  then show ?thesis using EvLayout menu_ok_layout[of s sr t s'] by simp
next
  case (EvParentSets net)
  assume "menu_ok s" "editor_step sr ev s = Some s'"
  then show ?thesis using EvParentSets menu_ok_watch[of s sr net s'] by simp
qed (auto simp: closeContextMenu_def node_click_def blank_click_def handleZoomIn_def
       handleZoomOut_def handleFit_def menu_ok_def)

lemma menu_ok_run: "menu_ok s \<Longrightarrow> run_editor evs s = Some s' \<Longrightarrow> menu_ok s'"
  by (induction evs arbitrary: s) (auto simp: run_editor_def split: bind_splits prod.splits dest: menu_ok_step)

lemma menu_ok_init:
  assumes "initGraph sr (editor_data net) = Some s"
  shows "menu_ok s"
proof -
  have "menu_ok ((editor_data net)\<lparr>ed_view := ed_view (editor_data net) @ [ZoomToFit 20]\<rparr>)"
    by (simp add: menu_ok_def editor_data_def)
  then show ?thesis using assms by (auto simp: initGraph_def Let_def split: if_splits intro: menu_ok_render)
qed

section \<open>Adoption by the parent\<close>

definition parent_sets :: "editor_event \<Rightarrow> bool" where
  "parent_sets ev \<longleftrightarrow> (\<exists>net. ev = EvParentSets net)"

text \<open>Never loading between events; a network is awaiting adoption exactly when the next change of
  the property is taken for an internal one.\<close>

definition sync_ok :: "editor \<Rightarrow> bool" where
  "sync_ok s \<longleftrightarrow> \<not> ed_loading s \<and> (ed_internal s \<longleftrightarrow> ed_emitted s \<noteq> None)"

lemma sync_ok_sync: "\<not> ed_loading s \<Longrightarrow> triggerSync sr s = Some s' \<Longrightarrow> sync_ok s'"
  by (auto simp: sync_ok_def triggerSync_def split: bind_splits)

lemma sync_ok_layout: "sync_ok s \<Longrightarrow> handleLayout sr t s = Some s' \<Longrightarrow> sync_ok s'"
  by (auto simp: handleLayout_def split: if_splits elim!: sync_ok_sync[rotated])

lemma sync_ok_action:
  assumes "sync_ok s" "handleContextMenuAction sr i s = Some s'"
  shows "sync_ok s'"
proof -
  have l: "\<not> ed_loading s" using assms(1) by (simp add: sync_ok_def)
  have d: "sync_ok s'" if "sync_ok t" "delete_cell sr c t = Some s'" for c t
    using that by (auto simp: delete_cell_def sync_ok_def[of t] split: option.splits elim!: sync_ok_sync[rotated])
       (simp_all add: sync_ok_def)
  have n: "sync_ok s'" if "sync_ok t" "add_node sr t = Some s'" for t
    using that by (auto simp: add_node_def Let_def sync_ok_def[of t] split: option.splits prod.splits
        elim!: sync_ok_sync[rotated])
  have r: "sync_ok s'" if "sync_ok t" "rename_cell sr c t = Some s'" for c t
    using that by (auto simp: rename_cell_def Let_def sync_ok_def[of t] split: option.splits bind_splits if_splits
        elim!: sync_ok_sync[rotated]) (simp_all add: sync_ok_def)
  have "sync_ok (s\<lparr>ed_menuVisible := False\<rparr>)" using assms(1) by (simp add: sync_ok_def)
  then show ?thesis using assms d n r
    by (auto simp: handleContextMenuAction_def Let_def handleFit_def split: if_splits) (auto simp: sync_ok_def)
qed

lemma sync_ok_step:
  assumes "sync_ok s" "editor_step sr ev s = Some s'" "\<not> parent_sets ev"
  shows "sync_ok s'"
proof (cases ev)
  case (EvClickItem k)
  then show ?thesis using assms sync_ok_action by (auto simp: click_item_def split: if_splits)
next
  case (EvLayout t)
  then show ?thesis using assms sync_ok_layout by auto
next
  case (EvMoved i x y)
  then show ?thesis using assms by (auto simp: sync_ok_def[of s] elim!: sync_ok_sync[rotated])
next
  case (EvEdited g b)
  then show ?thesis
  proof (cases b)
    case True
    then show ?thesis using EvEdited assms sync_ok_sync[of "s\<lparr>ed_graph := g\<rparr>" sr s'] by (simp add: sync_ok_def[of s])
  next
    case False
    then have "s' = s\<lparr>ed_graph := g\<rparr>" using EvEdited assms(2) by simp
    then show ?thesis using assms(1) by (simp add: sync_ok_def)
  qed
qed (use assms in \<open>auto simp: sync_ok_def parent_sets_def showMenu_def Let_def closeContextMenu_def
       node_click_def blank_click_def handleZoomIn_def handleZoomOut_def handleFit_def watch_network_def
       split: option.splits if_splits\<close>)

lemma sync_ok_run:
  "sync_ok s \<Longrightarrow> run_editor evs s = Some s' \<Longrightarrow> list_all (\<lambda>(sr, ev). \<not> parent_sets ev) evs \<Longrightarrow> sync_ok s'"
  by (induction evs arbitrary: s) (auto simp: run_editor_def split: bind_splits prod.splits dest: sync_ok_step)

lemma sync_ok_render:
  assumes "sync_ok s" "renderNetwork sr net s = Some s'"
  shows "sync_ok s'"
  using assms(2)
proof (cases rule: renderNetworkE)
  case (layout g s1)
  show ?thesis using layout(2,3) assms(1)
    by (auto simp: handleLayout_def triggerSync_def sync_ok_def split: if_splits bind_splits)
qed (use assms(1) in \<open>auto simp: sync_ok_def\<close>)

lemma sync_ok_init:
  assumes "initGraph sr (editor_data net) = Some s"
  shows "sync_ok s"
proof -
  have "sync_ok ((editor_data net)\<lparr>ed_view := ed_view (editor_data net) @ [ZoomToFit 20]\<rparr>)"
    by (simp add: sync_ok_def editor_data_def)
  then show ?thesis using assms by (auto simp: initGraph_def Let_def split: if_splits intro: sync_ok_render)
qed

end
