(* ===== verification/Editor_Sync.thy ===== *)
theory Editor_Sync
  imports Editor
begin

text \<open>
  What the editor's synchronisation does to the network: the elements read off the graph, the ids
  of the emitted network, and the properties of sessions of the editor.
\<close>

section \<open>The cells after a reset\<close>

lemma coll_take_new_all:
  "distinct (map gc_id cs) \<Longrightarrow> (\<forall>c \<in> set cs. col_map col (gc_id c) = None) \<Longrightarrow>
   fst (coll_take_new cs col) = cs \<and> col_cells (snd (coll_take_new cs col)) = col_cells col"
proof (induction cs arbitrary: col)
  case (Cons c cs)
  have "fst (coll_take_new cs (reference c col)) = cs \<and>
    col_cells (snd (coll_take_new cs (reference c col))) = col_cells (reference c col)"
  proof (rule Cons.IH)
    show "distinct (map gc_id cs)" using Cons.prems(1) by simp
    have "gc_id d \<noteq> gc_id c" if "d \<in> set cs" for d
      using Cons.prems(1) imageI[OF that, of gc_id] by auto
    then show "\<forall>d \<in> set cs. col_map (reference c col) (gc_id d) = None"
      using Cons.prems(2) by (simp add: reference_def)
  qed
  moreover have "\<not> coll_has (gc_id c) col" using Cons.prems(2) by (simp add: coll_has_def coll_get_def)
  ultimately show ?case
    by (cases "coll_take_new cs (reference c col)") (simp add: reference_def)
qed simp

lemma fold_onCellAdded_coll: "gm_coll (fold onCellAdded cs m) = gm_coll m"
  by (induction cs arbitrary: m) (auto simp: onCellAdded_def)

lemma getCells_reset:
  assumes "distinct (map gc_id cs)"
  shows "getCells (resetCells cs False m) = sort_key z_of (map (prepareCell m) cs)"
proof -
  have d: "distinct (map gc_id (map (prepareCell m) cs))"
    using assms by (simp add: prepareCell_def comp_def if_distrib cong: if_cong)
  obtain added col where t: "coll_take_new (map (prepareCell m) cs) coll_clean = (added, col)" by fastforce
  have "added = map (prepareCell m) cs" "col_cells col = []"
    using coll_take_new_all[OF d, of coll_clean] t by (auto simp: coll_clean_def)
  then show ?thesis using t
    by (cases cs) (auto simp: resetCells_def coll_reset_def coll_add_def getCells_def onReset_def
        fold_onCellAdded_coll coll_sort_def splice_insert_def splice_at_def coll_index_def Let_def)
qed

section \<open>Cells as display elements\<close>

definition cell_ok :: "gcell \<Rightarrow> bool" where
  "cell_ok c \<longleftrightarrow> gc_id c \<noteq> [] \<and>
     {''id'', ''zIndex'', ''source'', ''target''} \<inter> fst ` set (gc_props c) = {} \<and>
     (gc_edge c \<longleftrightarrow> oget (gc_props c) ''shape'' = JStr ''edge'') \<and>
     ''id'' \<notin> fst ` set (js_entries (js_or (oget (gc_props c) ''data'') (JObj []))) \<and>
     (let p = oget (gc_props c) ''position'' in \<not> truthy p \<or> is_obj p)"

lemma oget_append: "k \<notin> fst ` set o1 \<Longrightarrow> oget (o1 @ o2) k = oget o2 k"
  by (induction o1) auto

lemma oget_append_in: "k \<in> fst ` set o1 \<Longrightarrow> oget (o1 @ o2) k = oget o1 k"
proof (induction o1)
  case (Cons kv o1)
  then show ?case by (cases kv) (simp; blast)
qed simp

lemma oget_append_undef: "k \<notin> fst ` set o2 \<Longrightarrow> oget (o1 @ o2) k = oget o1 k"
  by (cases "k \<in> fst ` set o1") (simp_all add: oget_append_in oget_append oget_notin)

lemma oget_foldl_oset:
  "k \<notin> fst ` set kvs \<Longrightarrow> oget (foldl (\<lambda>acc (k, w). oset acc k w) o' kvs) k = oget o' k"
  by (induction kvs arbitrary: o') (auto simp: oget_oset)

lemma oget_js_assign: "k \<notin> fst ` set (js_entries v) \<Longrightarrow> oget (js_assign o' v) k = oget o' k"
  by (simp add: js_assign_def oget_foldl_oset)

lemma keys_oset: "fst ` set (oset o' k v) = insert k (fst ` set o')"
proof (induction o')
  case (Cons kv o')
  then show ?case by (cases kv) (simp add: insert_commute)
qed simp

lemma keys_foldl_oset:
  "fst ` set (foldl (\<lambda>acc (k, w). oset acc k w) o' kvs) = fst ` set o' \<union> fst ` set kvs"
proof (induction kvs arbitrary: o')
  case (Cons kv kvs)
  then show ?case by (cases kv) (simp add: keys_oset)
qed simp

lemma keys_js_assign: "fst ` set (js_assign o' v) = fst ` set o' \<union> fst ` set (js_entries v)"
  by (simp add: js_assign_def keys_foldl_oset)

lemma terminal_total: "\<exists>v. terminal_id (terminal_json t) = Some v"
  by (cases t) (auto simp: terminal_json_def terminal_id_def xy_def js_or_def Let_def)

lemma truthy_terminal: "truthy (terminal_json t)"
  by (cases t) (simp_all add: terminal_json_def xy_def)

text \<open>An edge without data whose id names no ports.\<close>

definition bare_edge :: "gcell \<Rightarrow> bool" where
  "bare_edge c \<longleftrightarrow> gc_edge c \<and> oget (gc_props c) ''data'' = JUndef \<and> parseEdgeDisplayId (gc_id c) = None"

lemma x6_cell_elem:
  assumes "cell_ok c"
  shows "\<exists>e. x6_cell (cell_toJSON c) = Some (JObj e) \<and>
    oget e ''group'' = JStr (if gc_edge c then ''edges'' else ''nodes'') \<and>
    carried_id (JObj e) = JStr (gc_id c) \<and> (bare_edge c \<longrightarrow> portless (JObj e))"
proof -
  define P where "P = gc_props c"
  have k: "''id'' \<notin> fst ` set P" "''source'' \<notin> fst ` set P" "''target'' \<notin> fst ` set P"
    "''zIndex'' \<notin> fst ` set P"
    using assms by (auto simp: cell_ok_def P_def)
  have sh: "gc_edge c \<longleftrightarrow> oget P ''shape'' = JStr ''edge''" using assms by (simp add: cell_ok_def P_def)
  have di: "''id'' \<notin> fst ` set (js_entries (js_or (oget P ''data'') (JObj [])))"
    using assms by (simp add: cell_ok_def P_def)
  have pos: "\<not> truthy (oget P ''position'') \<or> is_obj (oget P ''position'')"
    using assms by (simp add: cell_ok_def P_def Let_def)
  have e1: "''id'' \<notin> fst ` set (js_assign [] (js_or (oget P ''data'') (JObj [])))"
    using di by (simp add: keys_js_assign)
  have J: "cell_toJSON c = JObj (P @ [(''id'', JStr (gc_id c)), (''zIndex'', JNum (z_of c))] @
       (if gc_edge c then [(''source'', terminal_json (gc_source c)), (''target'', terminal_json (gc_target c))]
        else []))"
    by (simp add: cell_toJSON_def P_def)
  have g: "getp (cell_toJSON c) ''id'' = Some (JStr (gc_id c))"
    "getp (cell_toJSON c) ''shape'' = Some (oget P ''shape'')"
    "getp (cell_toJSON c) ''data'' = Some (oget P ''data'')"
    "getp (cell_toJSON c) ''position'' = Some (oget P ''position'')"
    "getp (cell_toJSON c) ''source'' = Some (if gc_edge c then terminal_json (gc_source c) else JUndef)"
    "getp (cell_toJSON c) ''target'' = Some (if gc_edge c then terminal_json (gc_target c) else JUndef)"
    unfolding J using k by (simp_all add: oget_append oget_append_undef)
  obtain s t where st: "terminal_id (terminal_json (gc_source c)) = Some s"
    "terminal_id (terminal_json (gc_target c)) = Some t" using terminal_total by blast
  show ?thesis
  proof (cases "gc_edge c")
    case True
    define extra where "extra = js_assign [] (js_or (oget P ''data'') (JObj []))"
    define e where "e = [(''group'', JStr ''edges''),
      (''data'', JObj (js_assign [(''id'', JStr (gc_id c)), (''source'', s), (''target'', t)] (JObj extra)))]"
    have x: "x6_cell (cell_toJSON c) = Some (JObj e)"
      using True g sh st by (simp add: x6_cell_def Let_def e_def extra_def)
    have i: "carried_id (JObj e) = JStr (gc_id c)"
      using e1 by (simp add: e_def carried_id_def js_or_def oget_js_assign extra_def)
    have "portless (JObj e)" if "bare_edge c"
    proof -
      have "extra = []" using that by (simp add: extra_def bare_edge_def js_or_def js_assign_def P_def)
      then show ?thesis using that i assms
        by (simp add: portless_def Let_def e_def js_or_def js_assign_def nullish_def bare_edge_def cell_ok_def)
    qed
    then show ?thesis using x i True by (simp add: e_def)
  next
    case False
    obtain x y where xy: "(if truthy (oget P ''position'') then getp (oget P ''position'') ''x'' else Some (JNum 0)) = Some x"
      "(if truthy (oget P ''position'') then getp (oget P ''position'') ''y'' else Some (JNum 0)) = Some y"
      using pos by (auto dest!: is_objE)
    show ?thesis using False g sh e1 xy
      by (simp add: x6_cell_def Let_def carried_id_def js_or_def oget_js_assign bare_edge_def)
  qed
qed

section \<open>The elements of a graph\<close>

lemma mapM_all2:
  "(\<And>x. x \<in> set xs \<Longrightarrow> \<exists>y. f x = Some y \<and> P x y) \<Longrightarrow> \<exists>ys. mapM f xs = Some ys \<and> list_all2 P xs ys"
proof (induction xs)
  case (Cons x xs)
  obtain y where y: "f x = Some y" "P x y" using Cons.prems[of x] by auto
  obtain ys where ys: "mapM f xs = Some ys" "list_all2 P xs ys" using Cons by auto
  then show ?case using y by simp
qed simp

definition elem_of :: "gcell \<Rightarrow> jv \<Rightarrow> bool" where
  "elem_of c e \<longleftrightarrow> is_obj e \<and> field ''group'' e = JStr (if gc_edge c then ''edges'' else ''nodes'') \<and>
     carried_id e = JStr (gc_id c) \<and> gc_id c \<noteq> [] \<and> (bare_edge c \<longrightarrow> portless e)"

definition graph_ok :: "gmodel \<Rightarrow> bool" where
  "graph_ok g \<longleftrightarrow> (\<forall>c \<in> set (getCells g). cell_ok c)"

lemma has_group_elems:
  assumes "list_all2 elem_of cs es"
  shows "\<exists>gs. has_group g es = Some gs \<and>
     list_all2 elem_of (filter (\<lambda>c. (if gc_edge c then ''edges'' else ''nodes'') = g) cs) gs"
  using assms
proof (induction rule: list_all2_induct)
  case (Cons c cs e es)
  obtain gs where gs: "has_group g es = Some gs"
    "list_all2 elem_of (filter (\<lambda>c. (if gc_edge c then ''edges'' else ''nodes'') = g) cs) gs"
    using Cons.IH by blast
  obtain ks where ks: "mapM (\<lambda>e. getp e ''group'') es = Some ks"
    using gs(1) by (auto simp: has_group_def split: bind_splits)
  obtain o' where e: "e = JObj o'" using Cons.hyps(1) by (auto simp: elem_of_def dest: is_objE)
  then have g: "getp e ''group'' = Some (JStr (if gc_edge c then ''edges'' else ''nodes''))"
    using Cons.hyps(1) by (simp add: elem_of_def)
  have "has_group g (e # es) =
    Some (if (if gc_edge c then ''edges'' else ''nodes'') = g then e # gs else gs)"
    using gs(1) ks g by (auto simp: has_group_def)
  then show ?case using gs(2) Cons.hyps(1) by auto
qed (simp add: has_group_def)

lemma carried_set: "list_all2 elem_of cs es \<Longrightarrow> carried_id ` set es = (\<lambda>c. JStr (gc_id c)) ` set cs"
  by (induction rule: list_all2_induct) (auto simp: elem_of_def)

lemma elems_portless:
  "list_all2 elem_of cs es \<Longrightarrow> \<forall>c \<in> set cs. bare_edge c \<Longrightarrow> \<forall>e \<in> set es. portless e"
  by (induction rule: list_all2_induct) (auto simp: elem_of_def)

lemma elems_identified: "list_all2 elem_of cs es \<Longrightarrow> \<forall>e \<in> set es. identified e \<and> named e"
  by (induction rule: list_all2_induct) (auto simp: elem_of_def identified_def named_def)

definition node_cells :: "gmodel \<Rightarrow> gcell list" where
  "node_cells g = filter (\<lambda>c. \<not> gc_edge c) (getCells g)"

definition edge_cells :: "gmodel \<Rightarrow> gcell list" where
  "edge_cells g = filter gc_edge (getCells g)"

definition ids_of :: "gcell list \<Rightarrow> jv set" where
  "ids_of cs = (\<lambda>c. JStr (gc_id c)) ` set cs"

text \<open>Synchronising keeps the base ids and appends a number for every cell whose id is not the
  display id of a base element.\<close>

definition new_nodes :: "gmodel \<Rightarrow> jv \<Rightarrow> nat" where
  "new_nodes g net = card (ids_of (node_cells g) - base_display_id ` set (network_nodes (deepClone net)))"

definition new_edges :: "gmodel \<Rightarrow> jv \<Rightarrow> nat" where
  "new_edges g net = card (ids_of (edge_cells g) - base_edge_id ` set (network_edges (deepClone net)))"

lemma sync_ids:
  assumes g: "graph_ok g" and net: "wf_network net"
  shows "\<exists>net'. x6ToNetwork rnd (toJSON g) net = Some net' \<and>
     map (field ''node_id'') (network_nodes net') = map (field ''node_id'') (network_nodes net) @
       map JNum [next_node_id (network_nodes net) .. next_node_id (network_nodes net) + int (new_nodes g net) - 1] \<and>
     map (field ''edge_id'') (network_edges net') = map (field ''edge_id'') (network_edges net) @
       map JNum [next_edge_id (network_edges net) .. next_edge_id (network_edges net) + int (new_edges g net) - 1] \<and>
     ((\<forall>c \<in> set (edge_cells g). bare_edge c) \<longrightarrow>
       (\<forall>e \<in> set (drop (length (network_edges net)) (network_edges net')). zero_ports e))"
proof -
  have "\<exists>es. mapM (\<lambda>c. x6_cell (cell_toJSON c)) (getCells g) = Some es \<and> list_all2 elem_of (getCells g) es"
  proof (rule mapM_all2)
    fix c assume "c \<in> set (getCells g)"
    then have "cell_ok c" using g by (simp add: graph_ok_def)
    then show "\<exists>y. x6_cell (cell_toJSON c) = Some y \<and> elem_of c y"
      using x6_cell_elem[of c] by (auto simp: elem_of_def cell_ok_def)
  qed
  then obtain es where es: "mapM (\<lambda>c. x6_cell (cell_toJSON c)) (getCells g) = Some es"
    "list_all2 elem_of (getCells g) es" by blast
  have m: "mapM x6_cell (map cell_toJSON cs) = mapM (\<lambda>c. x6_cell (cell_toJSON c)) cs" for cs
    by (induction cs) auto
  define ds where "ds = JObj [(''elements'', JArr es), (''zoom'', JNum 1),
                   (''pan'', JObj [(''x'', JNum 0), (''y'', JNum 0)])]"
  have ds: "x6ToDisplayState (toJSON g) = Some ds"
    using es(1) by (simp add: x6ToDisplayState_def toJSON_def ensureArray_def m ds_def)
  have p: "(\<lambda>c. (if gc_edge c then ''edges'' else ''nodes'') = ''nodes'') = (\<lambda>c. \<not> gc_edge c)"
    "(\<lambda>c. (if gc_edge c then ''edges'' else ''nodes'') = ''edges'') = gc_edge" by auto
  obtain dns where dns: "has_group ''nodes'' es = Some dns" "list_all2 elem_of (node_cells g) dns"
    using has_group_elems[OF es(2), of "''nodes''"] by (auto simp: node_cells_def p)
  obtain des where des: "has_group ''edges'' es = Some des" "list_all2 elem_of (edge_cells g) des"
    using has_group_elems[OF es(2), of "''edges''"] by (auto simp: edge_cells_def p)
  have els: "split_elements (js_or (field ''elements'' ds) (JObj [])) = Some (dns, des)"
    using dns(1) des(1) by (simp add: ds_def js_or_def split_elements_def)
  have n: "net \<noteq> JUndef" using net by (auto simp: wf_network_def)
  have cnt: "new_node_count net dns = new_nodes g net" "new_edge_count net des = new_edges g net"
    using carried_set[OF dns(2)] carried_set[OF des(2)]
    by (simp_all add: new_node_count_def new_nodes_def new_edge_count_def new_edges_def ids_of_def)
  have od: "is_obj ds" by (simp add: ds_def)
  obtain net' where net': "displayToNetwork rnd ds net = Some net'"
     "map (field ''node_id'') (network_nodes net') = map (field ''node_id'') (network_nodes net) @
       map JNum [next_node_id (network_nodes net) .. next_node_id (network_nodes net) + int (new_nodes g net) - 1]"
     "map (field ''edge_id'') (network_edges net') = map (field ''edge_id'') (network_edges net) @
       map JNum [next_edge_id (network_edges net) .. next_edge_id (network_edges net) + int (new_edges g net) - 1]"
    using displayToNetwork_merge[OF net od els, of rnd] elems_identified[OF dns(2)] elems_identified[OF des(2)] cnt
    by auto
  have "x6ToNetwork rnd (toJSON g) net = Some net'" using ds n net'(1) by (simp add: x6ToNetwork_def js_default_def)
  then show ?thesis
    using net'(2,3) displayToNetwork_ports[OF net'(1) net od els] elems_portless[OF des(2)] by auto
qed

section \<open>Rendering\<close>

text \<open>Networks the editor renders: numbered, distinct nodes and edges, plain end points, no node
  with a field \<open>id\<close>, and object positions where there are any.\<close>

definition renderable :: "jv \<Rightarrow> bool" where
  "renderable net \<longleftrightarrow> wf_network net \<and>
     distinct (map (field ''node_id'') (network_nodes net)) \<and>
     distinct (map (field ''edge_id'') (network_edges net)) \<and>
     (\<forall>k \<in> {''nodes'', ''edges''}. \<exists>vs. field k net = JArr vs) \<and>
     (\<forall>n \<in> set (network_nodes net). ''id'' \<notin> fst ` set (js_entries n) \<and>
        (let d = field ''display'' n in truthy d \<longrightarrow> is_obj d \<and>
           (let p = field ''position'' d in truthy p \<longrightarrow> is_obj p)))"

lemma num_string_ne: "num_string n \<noteq> []"
  by (simp add: num_string_def)

lemma num_string_no_p: "CHR ''p'' \<notin> set (num_string n)"
proof -
  have "CHR ''p'' \<notin> set (nat_digits k)" for k by (rule nat_digits_free) simp
  then show ?thesis by (simp add: num_string_def)
qed

text \<open>A rendered edge is never found again: its id has no port.\<close>

lemma render_id_not_base: "JStr (''edge-'' @ num_string n) \<noteq> base_edge_id e" if o: "is_obj e"
proof
  assume "JStr (''edge-'' @ num_string n) = base_edge_id e"
  moreover obtain x y where "base_edge_id e = JStr (''edge-'' @ x @ CHR ''-'' # CHR ''p'' # y)"
    using is_objE[OF o] by (auto simp: base_edge_id_def buildEdgeDisplayId_def Let_def)
  ultimately have "num_string n = x @ CHR ''-'' # CHR ''p'' # y" by simp
  then show False using num_string_no_p[of n] by simp
qed

definition shows_node :: "jv \<Rightarrow> gcell \<Rightarrow> bool" where
  "shows_node n c \<longleftrightarrow> cell_ok c \<and> \<not> gc_edge c \<and> gc_id c = js_string (field ''node_id'' n)"

definition shows_edge :: "jv \<Rightarrow> gcell \<Rightarrow> bool" where
  "shows_edge e c \<longleftrightarrow> cell_ok c \<and> bare_edge c \<and> gc_id c = ''edge-'' @ js_string (field ''edge_id'' e)"

lemma bare_is_edge: "bare_edge c \<Longrightarrow> gc_edge c"
  by (simp add: bare_edge_def)

lemma render_id_no_ports: "parseEdgeDisplayId (''edge-'' @ num_string n) = None"
proof -
  have d: "CHR ''-'' \<notin> set (nat_digits k)" for k by (rule nat_digits_free) simp
  have "length (split_at_char (CHR ''-'') (num_string n)) \<le> 2"
    using split_at_char_free[OF d] split_at_char_append[of "CHR ''-''" "[]"] by (simp add: num_string_def)
  moreover have "split_at_char (CHR ''-'') (''edge-'' @ num_string n) = ''edge'' # split_at_char (CHR ''-'') (num_string n)"
    using split_at_char_append[of "CHR ''-''" "''edge''" "num_string n"] by simp
  ultimately show ?thesis by (simp add: parseEdgeDisplayId_def Let_def)
qed

lemma js_assign_obj: "js_entries (JObj (js_assign o' v)) = js_assign o' v"
  by simp

lemma render_node_ok:
  assumes "wf_base_node n" "''id'' \<notin> fst ` set (js_entries n)"
    and d: "let d = field ''display'' n in truthy d \<longrightarrow> is_obj d \<and>
           (let p = field ''position'' d in truthy p \<longrightarrow> is_obj p)"
  shows "\<exists>c. render_node sr (i, n) = Some c \<and> shows_node n c"
proof -
  obtain nb where n: "n = JObj nb" using assms(1) is_objE by (auto simp: wf_base_node_def)
  obtain k where k: "oget nb ''node_id'' = JNum k"
    using assms(1) is_numE[of "oget nb ''node_id''"] by (auto simp: wf_base_node_def n)
  define D where "D = oget nb ''display''"
  have D: "\<exists>p. (if truthy D then getp D ''position'' else Some D) = Some p \<and> (truthy D \<and> truthy p \<longrightarrow> is_obj p)"
    using d by (cases "truthy D") (auto simp: n D_def Let_def dest!: is_objE)
  then obtain p where p: "(if truthy D then getp D ''position'' else Some D) = Some p"
    "truthy D \<and> truthy p \<longrightarrow> is_obj p" by blast
  have px: "\<exists>v. (if truthy D \<and> truthy p then getp p k' else Some w) = Some v" for k' w
    using p(2) is_objE[of p] by (cases "truthy D \<and> truthy p") auto
  obtain x y where xy: "(if truthy D \<and> truthy p then getp p ''x'' else Some (fst (sr_random_pos sr i))) = Some x"
    "(if truthy D \<and> truthy p then getp p ''y'' else Some (snd (sr_random_pos sr i))) = Some y"
    using px[of "''x''"] px[of "''y''"] by blast
  have idf: "''id'' \<notin> fst ` set nb" using assms(2) by (simp add: n)
  define l where "l = js_or (oget nb ''node_name'') (JStr (''Node '' @ js_string (JNum k)))"
  define c where "c = \<lparr>gc_id = num_string k, gc_edge = False, gc_source = None, gc_target = None, gc_z = None,
             gc_props = [(''shape'', JStr node_shape), (''position'', xy x y), (''size'', node_size),
                         (''data'', JObj (js_assign [(''label'', l), (''node_id'', JNum k)] n))]\<rparr>"
  have "render_node sr (i, n) = Some c"
    using p(1) xy k unfolding render_node_def Let_def
    by (simp add: n D_def[symmetric] c_def l_def)
  moreover have "shows_node n c"
    using idf num_string_ne[of k]
    by (simp add: shows_node_def cell_ok_def c_def k n keys_js_assign js_or_def node_shape_def xy_def)
  ultimately show ?thesis by blast
qed

lemma render_edge_ok: "wf_base_edge e \<Longrightarrow> \<exists>c. render_edge e = Some c \<and> shows_edge e c"
  using render_id_no_ports
  by (auto simp: wf_base_edge_def render_edge_def shows_edge_def bare_edge_def cell_ok_def js_or_def
      dest!: is_objE is_numE)

lemma node_edge_id_differ: "num_string k \<noteq> ''edge-'' @ s"
proof
  assume e: "num_string k = ''edge-'' @ s"
  have "CHR ''e'' \<notin> set (nat_digits j)" for j by (rule nat_digits_free) simp
  then have "CHR ''e'' \<notin> set (num_string k)" by (simp add: num_string_def)
  then show False unfolding e by simp
qed

text \<open>A graph that shows a network.\<close>

definition displays :: "jv \<Rightarrow> gmodel \<Rightarrow> bool" where
  "displays net g \<longleftrightarrow> graph_ok g \<and> (\<forall>c \<in> set (edge_cells g). bare_edge c) \<and>
     ids_of (node_cells g) = (\<lambda>n. JStr (js_string (field ''node_id'' n))) ` set (network_nodes net) \<and>
     ids_of (edge_cells g) = (\<lambda>e. JStr (''edge-'' @ js_string (field ''edge_id'' e))) ` set (network_edges net)"

lemma getCells_place:
  "getCells (place i x y g) = map (\<lambda>c. if gc_id c = i then set_prop ''position'' (xy x y) c else c) (getCells g)"
  by (simp add: place_def getCells_def coll_update_def)

lemma cell_ok_position: "cell_ok c \<Longrightarrow> cell_ok (set_prop ''position'' (xy x y) c)"
  by (auto simp: cell_ok_def set_prop_def keys_oset xy_def Let_def)

lemma displays_place: "displays net g \<Longrightarrow> displays net (place i x y g)"
proof -
  assume d: "displays net g"
  let ?f = "\<lambda>c. if gc_id c = i then set_prop ''position'' (xy x y) c else c"
  have f: "gc_id (?f c) = gc_id c" "gc_edge (?f c) = gc_edge c" for c by (auto simp: set_prop_def)
  have "ids_of (filter P (map ?f cs)) = ids_of (filter P cs)" if "\<And>c. P (?f c) = P c" for P cs
    by (induction cs) (auto simp: ids_of_def f that simp del: if_split)
  then have "ids_of (node_cells (place i x y g)) = ids_of (node_cells g)"
    "ids_of (edge_cells (place i x y g)) = ids_of (edge_cells g)"
    unfolding node_cells_def edge_cells_def getCells_place by (simp_all add: f)
  moreover have "graph_ok (place i x y g)"
    using d by (auto simp: displays_def graph_ok_def getCells_place cell_ok_position)
  moreover have "\<forall>c \<in> set (edge_cells (place i x y g)). bare_edge c"
    using d by (auto simp: displays_def edge_cells_def getCells_place bare_edge_def set_prop_def)
  ultimately show ?thesis using d by (simp add: displays_def)
qed

lemma displays_fold_place: "displays net g \<Longrightarrow> displays net (fold (\<lambda>(i, x, y). place i x y) ps g)"
  by (induction ps arbitrary: g) (auto simp: displays_place split: prod.splits)

lemma ids_of_prepare: "ids_of (filter P (sort_key z_of (map (prepareCell m) cs))) = ids_of (filter P cs)"
  if "\<And>c z. P (c\<lparr>gc_z := z\<rparr>) = P c"
proof -
  have p: "P (prepareCell m c) = P c" "gc_id (prepareCell m c) = gc_id c" for c
    using that by (auto simp: prepareCell_def)
  have e: "set (filter P (sort_key z_of (map (prepareCell m) cs))) = prepareCell m ` set (filter P cs)"
    by (auto simp: p)
  show ?thesis unfolding ids_of_def e by (simp only: image_image p)
qed

lemma cell_ok_prepare: "cell_ok c \<Longrightarrow> cell_ok (prepareCell m c)"
  by (simp add: cell_ok_def prepareCell_def)

lemma render_displays:
  assumes r: "renderable net" and ns: "list_all2 (\<lambda>(i, n) c. shows_node n c) (enumerate 0 (network_nodes net)) nodes"
    and es: "list_all2 shows_edge (network_edges net) edges"
  shows "displays net (fromJSON_cells nodes edges False g)"
proof -
  have ns': "list_all2 shows_node (network_nodes net) nodes"
    using ns by (simp add: list_all2_conv_all_nth nth_enumerate_eq split: prod.splits)
  have wf: "wf_network net" using r by (simp add: renderable_def)
  have nid: "map gc_id nodes = map (\<lambda>n. js_string (field ''node_id'' n)) (network_nodes net)"
    using ns' by (auto simp: list_all2_conv_all_nth shows_node_def intro: nth_equalityI)
  have eid: "map gc_id edges = map (\<lambda>e. ''edge-'' @ js_string (field ''edge_id'' e)) (network_edges net)"
    using es by (auto simp: list_all2_conv_all_nth shows_edge_def intro: nth_equalityI)
  have inj: "js_string v = js_string w \<Longrightarrow> v = w" if "is_num v" "is_num w" for v w
    using is_numE[OF that(1)] is_numE[OF that(2)] num_string_inj by auto
  have nn: "is_num (field ''node_id'' n)" if "n \<in> set (network_nodes net)" for n
    using wf that by (simp add: wf_network_def wf_base_node_def)
  have en: "is_num (field ''edge_id'' e)" if "e \<in> set (network_edges net)" for e
    using wf that by (simp add: wf_network_def wf_base_edge_def)
  have dn: "distinct (map gc_id nodes)"
    using r nn inj unfolding nid renderable_def by (auto simp: distinct_map inj_on_def)
  have de: "distinct (map gc_id edges)"
    using r en inj unfolding eid renderable_def by (auto simp: distinct_map inj_on_def)
  have dis: "gc_id c \<noteq> gc_id d" if c: "c \<in> set nodes" and d: "d \<in> set edges" for c d
  proof -
    have "gc_id c \<in> set (map gc_id nodes)" "gc_id d \<in> set (map gc_id edges)" using c d by auto
    then obtain n e where "n \<in> set (network_nodes net)" "gc_id c = js_string (field ''node_id'' n)"
      "gc_id d = ''edge-'' @ js_string (field ''edge_id'' e)" unfolding nid eid by auto
    then show ?thesis using is_numE[OF nn[of n]] node_edge_id_differ by auto
  qed
  have all: "distinct (map gc_id (nodes @ edges))" using dn de dis by fastforce
  have G: "getCells (fromJSON_cells nodes edges False g) = sort_key z_of (map (prepareCell g) (nodes @ edges))"
    using getCells_reset[OF all, of g] by (simp add: fromJSON_cells_def)
  have no: "cell_ok c \<and> \<not> gc_edge c" if "c \<in> set nodes" for c
    using that ns' by (auto simp: list_all2_conv_all_nth in_set_conv_nth shows_node_def)
  have eo: "cell_ok c \<and> gc_edge c" if "c \<in> set edges" for c
    using that es bare_is_edge by (auto simp: list_all2_conv_all_nth in_set_conv_nth shows_edge_def)
  have be: "bare_edge c" if "c \<in> set edges" for c
    using that es by (auto simp: list_all2_conv_all_nth in_set_conv_nth shows_edge_def)
  have "filter (\<lambda>c. \<not> gc_edge c) (nodes @ edges) = nodes" "filter gc_edge (nodes @ edges) = edges"
    using no eo by (simp_all add: filter_empty_conv)
  then have ids: "ids_of (node_cells (fromJSON_cells nodes edges False g)) = ids_of nodes"
    "ids_of (edge_cells (fromJSON_cells nodes edges False g)) = ids_of edges"
    unfolding node_cells_def edge_cells_def G by (simp_all add: ids_of_prepare del: filter_append map_append)
  have "ids_of nodes = JStr ` set (map gc_id nodes)" "ids_of edges = JStr ` set (map gc_id edges)"
    by (auto simp: ids_of_def)
  moreover have "graph_ok (fromJSON_cells nodes edges False g)"
    unfolding graph_ok_def G using no eo cell_ok_prepare by auto
  moreover have "\<forall>c \<in> set (edge_cells (fromJSON_cells nodes edges False g)). bare_edge c"
    unfolding edge_cells_def G using no be by (auto simp: bare_edge_def prepareCell_def)
  ultimately show ?thesis unfolding displays_def ids nid eid by (simp add: image_image)
qed

text \<open>Against the network it shows, a graph has as many unknown edges as there are edges.\<close>

lemma displays_new_edges:
  assumes r: "renderable net" and d: "displays net g"
  shows "new_edges g net = length (network_edges net)"
proof -
  have wf: "wf_network net" using r by (simp add: renderable_def)
  let ?id = "\<lambda>e. JStr (''edge-'' @ js_string (field ''edge_id'' e))"
  have en: "\<exists>k. field ''edge_id'' e = JNum k" if "e \<in> set (network_edges net)" for e
    using wf that by (auto simp: wf_network_def wf_base_edge_def intro: is_numE)
  have "?id e \<notin> base_edge_id ` set (network_edges (deepClone net))" if "e \<in> set (network_edges net)" for e
    using en[OF that] wf_clone_edges(1)[OF wf] render_id_not_base by (auto simp: wf_base_edge_def)
  then have "ids_of (edge_cells g) - base_edge_id ` set (network_edges (deepClone net)) = ?id ` set (network_edges net)"
    using d by (auto simp: displays_def)
  moreover have "inj_on ?id (set (network_edges net))"
  proof (rule inj_onI)
    fix e f assume a: "e \<in> set (network_edges net)" "f \<in> set (network_edges net)" "?id e = ?id f"
    then have "field ''edge_id'' e = field ''edge_id'' f" using en[of e] en[of f] num_string_inj by auto
    then show "e = f" using r a(1,2) by (auto simp: renderable_def distinct_map inj_on_def)
  qed
  moreover have "distinct (network_edges net)" using r by (simp add: renderable_def distinct_map)
  ultimately show ?thesis by (simp add: new_edges_def card_image distinct_card)
qed

section \<open>Rendering and synchronising\<close>

lemma list_or_empty_field: "field k net = JArr vs \<Longrightarrow> list_or_empty (field k net) = Some vs"
  by simp

lemma renderable_parts:
  assumes "renderable net"
  obtains nb where "net = JObj nb" "oget nb ''nodes'' = JArr (network_nodes net)"
    "oget nb ''edges'' = JArr (network_edges net)"
proof -
  have "is_obj net" using assms by (simp add: renderable_def wf_network_def)
  then obtain nb where nb: "net = JObj nb" using is_objE by blast
  have f: "\<exists>vs. field k net = JArr vs" if "k \<in> {''nodes'', ''edges''}" for k
    using assms that by (auto simp: renderable_def)
  have "oget nb ''nodes'' = JArr (network_nodes net)" "oget nb ''edges'' = JArr (network_edges net)"
    using f[of "''nodes''"] f[of "''edges''"] by (auto simp: nb network_nodes_def network_edges_def ensureArray_def)
  then show ?thesis using that nb by blast
qed

text \<open>Rendering succeeds and leaves a graph that shows the network; a network whose first node has
  no display is laid out.\<close>

lemma renderNetwork_graph:
  assumes r: "renderable net" and i: "coll_ok (gm_coll (ed_graph s))"
  obtains g where "displays net g" "model_ok g" "gc_id ` cells_of g \<noteq> {} \<or> network_nodes net = []"
    "network_nodes net \<noteq> [] \<longrightarrow> getNodes g \<noteq> []"
    "renderNetwork sr net s =
       (if network_nodes net \<noteq> [] \<and> \<not> truthy (field ''display'' (hd (network_nodes net)))
        then map_option (\<lambda>s. s\<lparr>ed_loading := False\<rparr>)
               (handleLayout sr ''grid'' (s\<lparr>ed_loading := True, ed_graph := g\<rparr>))
        else Some (s\<lparr>ed_graph := g, ed_loading := False\<rparr>))"
proof -
  obtain nb where nb: "net = JObj nb" "oget nb ''nodes'' = JArr (network_nodes net)"
    "oget nb ''edges'' = JArr (network_edges net)" by (rule renderable_parts[OF r])
  have wf: "wf_network net" using r by (simp add: renderable_def)
  have "\<exists>nodes. mapM (render_node sr) (enumerate 0 (network_nodes net)) = Some nodes \<and>
      list_all2 (\<lambda>(i, n) c. shows_node n c) (enumerate 0 (network_nodes net)) nodes"
  proof (rule mapM_all2)
    fix x assume mem: "x \<in> set (enumerate 0 (network_nodes net))"
    obtain i n where x1: "x = (i, n)" by fastforce
    then have x: "x = (i, n)" "n \<in> set (network_nodes net)"
      using mem by (auto simp: in_set_enumerate_eq)
    then have "\<exists>c. render_node sr (i, n) = Some c \<and> shows_node n c"
      using r wf by (intro render_node_ok) (auto simp: renderable_def wf_network_def)
    then show "\<exists>c. render_node sr x = Some c \<and> (case x of (i, n) \<Rightarrow> \<lambda>c. shows_node n c) c" using x by simp
  qed
  then obtain nodes where nodes: "mapM (render_node sr) (enumerate 0 (network_nodes net)) = Some nodes"
    "list_all2 (\<lambda>(i, n) c. shows_node n c) (enumerate 0 (network_nodes net)) nodes" by blast
  have "\<exists>edges. mapM render_edge (network_edges net) = Some edges \<and> list_all2 shows_edge (network_edges net) edges"
    using wf by (intro mapM_all2 render_edge_ok) (simp add: wf_network_def)
  then obtain edges where edges: "mapM render_edge (network_edges net) = Some edges"
    "list_all2 shows_edge (network_edges net) edges" by blast
  define g where "g = fromJSON_cells nodes edges False (ed_graph s)"
  have d: "displays net g" unfolding g_def by (rule render_displays[OF r nodes(2) edges(2)])
  have m: "model_ok g" "gc_id ` cells_of g = gc_id ` set (nodes @ edges)"
    using resetCells_ok[OF i, of "nodes @ edges" False] by (simp_all add: g_def fromJSON_cells_def)
  have ne: "getNodes g \<noteq> []" if "network_nodes net \<noteq> []"
  proof -
    have "ids_of (node_cells g) \<noteq> {}" using d that by (simp add: displays_def)
    then obtain c where c: "c \<in> cells_of g" "\<not> gc_edge c"
      by (auto simp: ids_of_def node_cells_def cells_of_def getCells_def filter_empty_conv)
    then have "gc_id c \<in> set (gm_nodes g)" using m(1) by (auto simp: model_ok_def)
    moreover have "getCell (gc_id c) g = Some c"
      using m(1) c(1) by (auto simp: model_ok_def getCell_def coll_get_def coll_ok_def map_of_ids cells_of_def)
    ultimately have "c \<in> set (getNodes g)"
      by (auto simp: getNodes_def getCellsFromCache_def List.map_filter_def intro!: image_eqI[of _ _ "gc_id c"])
    then show ?thesis by auto
  qed
  have hd: "getp (hd (network_nodes net)) ''display'' = Some (field ''display'' (hd (network_nodes net)))"
    if "network_nodes net \<noteq> []"
  proof -
    have "is_obj (hd (network_nodes net))"
      using wf hd_in_set[OF that] by (simp add: wf_network_def wf_base_node_def)
    then show ?thesis by (auto dest: is_objE)
  qed
  show ?thesis
  proof (rule that[OF d m(1)])
    show "gc_id ` cells_of g \<noteq> {} \<or> network_nodes net = []"
      using m(2) nodes(2) by (cases "network_nodes net") (auto simp: list_all2_Cons1)
    show "network_nodes net \<noteq> [] \<longrightarrow> getNodes g \<noteq> []" using ne by simp
    show "renderNetwork sr net s =
       (if network_nodes net \<noteq> [] \<and> \<not> truthy (field ''display'' (hd (network_nodes net)))
        then map_option (\<lambda>s. s\<lparr>ed_loading := False\<rparr>)
               (handleLayout sr ''grid'' (s\<lparr>ed_loading := True, ed_graph := g\<rparr>))
        else Some (s\<lparr>ed_graph := g, ed_loading := False\<rparr>))"
      using nb nodes(1) edges(1) hd
      by (cases "network_nodes net")
         (auto simp: renderNetwork_def Let_def g_def map_option_case split: option.splits)
  qed
qed

text \<open>Behind the base edges one more edge for each of them, under a new number and without ports.\<close>

definition edges_appended :: "jv \<Rightarrow> jv \<Rightarrow> bool" where
  "edges_appended net net' \<longleftrightarrow>
     (\<exists>b. first_free (map (field ''edge_id'') (network_edges net)) b \<and>
        map (field ''edge_id'') (network_edges net') = map (field ''edge_id'') (network_edges net) @
          map JNum [b .. b + int (length (network_edges net)) - 1]) \<and>
     (\<forall>e \<in> set (drop (length (network_edges net)) (network_edges net')).
        field ''src_port_id'' e = JNum 0 \<and> field ''dst_port_id'' e = JNum 0)"

lemma sync_displayed:
  assumes r: "renderable (ed_network s)" and d: "displays (ed_network s) (ed_graph s)" and l: "\<not> ed_loading s"
  shows "\<exists>net'. triggerSync sr s = Some (s\<lparr>ed_internal := True, ed_emitted := Some net'\<rparr>) \<and>
     edges_appended (ed_network s) net'"
proof -
  have "graph_ok (ed_graph s)" "wf_network (ed_network s)"
    using r d by (simp_all add: displays_def renderable_def)
  from sync_ids[OF this, of "sr_rnd sr"] displays_new_edges[OF r d] l d
    first_free_next(2)[of "network_edges (ed_network s)"]
  show ?thesis by (auto simp: triggerSync_def edges_appended_def zero_ports_def displays_def)
qed

lemma layout_displayed:
  assumes r: "renderable (ed_network s)" and d: "displays (ed_network s) (ed_graph s)"
    and n: "getNodes (ed_graph s) \<noteq> []"
  shows "\<exists>s' net'. handleLayout sr t s = Some s' \<and> ed_emitted s' = Some net' \<and>
     edges_appended (ed_network s) net' \<and> displays (ed_network s) (ed_graph s') \<and>
     ed_network s' = ed_network s"
proof -
  let ?s = "s\<lparr>ed_graph := fold (\<lambda>(i, x, y). place i x y) (layout_positions sr t (ed_graph s)) (ed_graph s),
           ed_view := ed_view s @ [ZoomToFit 20], ed_loading := False\<rparr>"
  have d': "displays (ed_network ?s) (ed_graph ?s)" using displays_fold_place[OF d] by simp
  obtain net' where "triggerSync sr ?s = Some (?s\<lparr>ed_internal := True, ed_emitted := Some net'\<rparr>)"
    "edges_appended (ed_network ?s) net'"
    using sync_displayed[of ?s, OF _ d'] r by auto
  then show ?thesis using d' n by (simp add: handleLayout_def)
qed

lemma render_sync_doubles:
  assumes r: "renderable net" and s: "ed_network s = net" "coll_ok (gm_coll (ed_graph s))"
  shows "\<exists>s1 s2 net'. renderNetwork sr net s = Some s1 \<and> triggerSync sr' s1 = Some s2 \<and>
     ed_emitted s2 = Some net' \<and> edges_appended net net'"
    and "network_nodes net \<noteq> [] \<Longrightarrow> \<not> truthy (field ''display'' (hd (network_nodes net))) \<Longrightarrow>
      \<exists>s1 net'. renderNetwork sr net s = Some s1 \<and> ed_emitted s1 = Some net' \<and> edges_appended net net'"
proof -
  obtain g where g: "displays net g" "network_nodes net \<noteq> [] \<longrightarrow> getNodes g \<noteq> []"
    "renderNetwork sr net s =
       (if network_nodes net \<noteq> [] \<and> \<not> truthy (field ''display'' (hd (network_nodes net)))
        then map_option (\<lambda>s. s\<lparr>ed_loading := False\<rparr>)
               (handleLayout sr ''grid'' (s\<lparr>ed_loading := True, ed_graph := g\<rparr>))
        else Some (s\<lparr>ed_graph := g, ed_loading := False\<rparr>))"
    by (rule renderNetwork_graph[OF r s(2), of sr])
  let ?s = "s\<lparr>ed_loading := True, ed_graph := g\<rparr>"
  have lay: "\<exists>s1 net'. handleLayout sr ''grid'' ?s = Some s1 \<and> ed_emitted s1 = Some net' \<and>
     edges_appended net net' \<and> displays net (ed_graph s1) \<and> ed_network s1 = net"
    if "network_nodes net \<noteq> []"
    using layout_displayed[of ?s sr "''grid''"] r g(1,2) s(1) that by auto
  have "\<exists>s1. renderNetwork sr net s = Some s1 \<and> displays net (ed_graph s1) \<and> ed_network s1 = net \<and> \<not> ed_loading s1"
    using g(1,3) lay s(1) by auto
  then obtain s1 where s1: "renderNetwork sr net s = Some s1" "displays net (ed_graph s1)"
    "ed_network s1 = net" "\<not> ed_loading s1" by blast
  then show "\<exists>s1 s2 net'. renderNetwork sr net s = Some s1 \<and> triggerSync sr' s1 = Some s2 \<and>
     ed_emitted s2 = Some net' \<and> edges_appended net net'"
    using sync_displayed[of s1 sr'] r by auto
  show "\<exists>s1 net'. renderNetwork sr net s = Some s1 \<and> ed_emitted s1 = Some net' \<and> edges_appended net net'"
    if "network_nodes net \<noteq> []" "\<not> truthy (field ''display'' (hd (network_nodes net)))"
    using g(3) lay that by auto
qed

section \<open>Properties\<close>


definition ex_sr :: surroundings where
  "ex_sr = \<lparr>sr_random_pos = (\<lambda>i. (JNum (int i * 37 mod 800), JNum (int i * 53 mod 600))), sr_rnd = (\<lambda>_. ''r''),
     sr_uuid = ''0f6a'', sr_now = 1700000000000, sr_circle = (\<lambda>n k. (JNum (int k), JNum (int n))),
     sr_prompt = JStr ''x'', sr_toClient = (\<lambda>x y. (x, y))\<rparr>"

lemma renderable_ex_net: "renderable ex_net"
proof -
  have "\<forall>k \<in> {''nodes'', ''edges''}. \<exists>vs. field k ex_net = JArr vs" by (simp add: ex_net_def)
  then show ?thesis using wf_ex_net by (simp add: renderable_def)
qed

text \<open>An edge from port 2 to port 3: the edge that is added has neither.\<close>

definition ex_ports :: jv where
  "ex_ports = JObj [(''nodes'', JArr [JObj [(''node_id'', JNum 1)], JObj [(''node_id'', JNum 3)]]),
     (''edges'', JArr [JObj [(''edge_id'', JNum 1), (''src_node_id'', JNum 1), (''src_port_id'', JNum 2),
        (''dst_node_id'', JNum 3), (''dst_port_id'', JNum 3)]])]"

lemma ex_ports_parts [simp]:
  "network_nodes ex_ports = [JObj [(''node_id'', JNum 1)], JObj [(''node_id'', JNum 3)]]"
  "network_edges ex_ports = [JObj [(''edge_id'', JNum 1), (''src_node_id'', JNum 1), (''src_port_id'', JNum 2),
        (''dst_node_id'', JNum 3), (''dst_port_id'', JNum 3)]]"
  by (simp_all add: ex_ports_def network_nodes_def network_edges_def ensureArray_def)

lemma renderable_ex_ports: "renderable ex_ports"
proof -
  have "wf_network ex_ports"
    by (simp add: wf_network_def wf_base_node_def wf_base_edge_def) (simp add: ex_ports_def)
  moreover have "\<forall>k \<in> {''nodes'', ''edges''}. \<exists>vs. field k ex_ports = JArr vs" by (simp add: ex_ports_def)
  ultimately show ?thesis by (simp add: renderable_def)
qed


text \<open>C10: In a session whose parent only adopts what the editor emits, the network awaiting adoption
  and the flag that suppresses the next change go together, so that adopting a network never
  renders the graph again and clears the flag; the graph stays as the user left it.\<close>
theorem adoption_keeps_graph:
  assumes "initGraph sr0 (editor_data net) = Some s0"
    and "list_all (\<lambda>(sr, ev). \<not> parent_sets ev) evs" and "run_editor evs s0 = Some s"
  shows "(ed_internal s \<longleftrightarrow> ed_emitted s \<noteq> None) \<and> \<not> ed_loading s \<and>
     (\<exists>s'. editor_step sr EvParentAdopts s = Some s' \<and> ed_graph s' = ed_graph s \<and>
        ed_network s' = (case ed_emitted s of None \<Rightarrow> ed_network s | Some net' \<Rightarrow> net') \<and>
        \<not> ed_internal s' \<and> ed_emitted s' = None)"
proof -
  have "sync_ok s" using sync_ok_run[OF sync_ok_init[OF assms(1)] assms(3,2)] .
  then show ?thesis by (auto simp: sync_ok_def watch_network_def Let_def split: option.splits)
qed

lemma adoption_keeps_graph_witness:
  "\<exists>s0 s'. initGraph ex_sr (editor_data ex_net) = Some s0 \<and>
     editor_step ex_sr EvParentAdopts s0 = Some s' \<and> ed_graph s' = ed_graph s0 \<and> \<not> ed_internal s'"
proof -
  have c: "coll_ok (gm_coll (ed_graph ((editor_data ex_net)\<lparr>ed_view := [ZoomToFit 20]\<rparr>)))"
    using model_ok_new by (simp add: editor_data_def model_ok_def)
  obtain s0 where s0: "renderNetwork ex_sr ex_net ((editor_data ex_net)\<lparr>ed_view := [ZoomToFit 20]\<rparr>) = Some s0"
    using render_sync_doubles(1)[OF renderable_ex_net _ c, of ex_sr ex_sr] by (auto simp: editor_data_def)
  have "truthy ex_net" by (simp add: ex_net_def)
  then have "initGraph ex_sr (editor_data ex_net) = Some s0"
    using s0 by (simp add: initGraph_def editor_data_def)
  then show ?thesis using adoption_keeps_graph[of ex_sr ex_net s0 "[]" s0 ex_sr] by (auto simp: run_editor_def)
qed

text \<open>C29: When the parent answers a synchronisation with a network of its own instead of adopting the
  emitted one, the editor takes the change for its own and ignores it: after a node was moved the
  graph keeps showing the old cells whatever network the parent sets, and only the change after
  that is rendered.\<close>
theorem parent_update_dropped:
  assumes "\<not> ed_loading s" and "editor_step sr (EvMoved i x y) s = Some s1"
  shows "\<exists>s2. editor_step sr' (EvParentSets net) s1 = Some s2 \<and> ed_network s2 = net \<and>
     ed_graph s2 = place i x y (ed_graph s) \<and>
     editor_step sr' (EvParentSets net') s2 = renderNetwork sr' net' (s2\<lparr>ed_network := net'\<rparr>)"
  using assms triggerSync_frame[of sr "s\<lparr>ed_graph := place i x y (ed_graph s)\<rparr>" s1]
  by (simp add: watch_network_def)

lemma parent_update_dropped_witness:
  "\<exists>s1 s2. editor_step ex_sr (EvMoved ''1'' (JNum 5) (JNum 6)) (editor_data ex_net) = Some s1 \<and>
     editor_step ex_sr (EvParentSets (JObj [])) s1 = Some s2 \<and> ed_network s2 = JObj [] \<and>
     ed_graph s2 = place ''1'' (JNum 5) (JNum 6) newModel"
proof -
  have g: "graph_ok (place ''1'' (JNum 5) (JNum 6) newModel)"
    by (simp add: graph_ok_def getCells_place) (simp add: getCells_def newModel_def coll_clean_def)
  obtain s1 where s1: "editor_step ex_sr (EvMoved ''1'' (JNum 5) (JNum 6)) (editor_data ex_net) = Some s1"
    using sync_ids[OF g wf_ex_net, of "sr_rnd ex_sr"] by (auto simp: triggerSync_def editor_data_def)
  have "\<not> ed_loading (editor_data ex_net)" by (simp add: editor_data_def)
  from parent_update_dropped[OF this s1, of ex_sr "JObj []"] s1 show ?thesis by (auto simp: editor_data_def)
qed

text \<open>C30: No session of the editor, whatever is clicked, ever resets the zoom: the menu entries
  \<open>Reset Zoom\<close> and \<open>Connect\<close> are marked as separators, and the menu component passes on no click
  on a separator, although \<open>handleContextMenuAction\<close> has a branch for the action.\<close>
theorem reset_zoom_unreachable:
  assumes "initGraph sr (editor_data net) = Some s0" and "run_editor evs s0 = Some s"
  shows "ZoomTo 1 \<notin> set (ed_view s) \<and> CenterContent \<notin> set (ed_view s) \<and>
    (\<forall>i \<in> set (ed_menuItems s). menu_emits i \<longrightarrow>
       mi_action i \<in> {''rename'', ''delete'', ''add-node'', ''fit''})"
proof -
  have ok: "menu_ok s" using menu_ok_run[OF menu_ok_init[OF assms(1)] assms(2)] .
  then have "\<forall>i \<in> set (ed_menuItems s). i \<in> set node_menu \<union> set edge_menu \<union> set blank_menu"
    by (auto simp: menu_ok_def)
  then show ?thesis using ok menu_emits_action by (auto simp: menu_ok_def)
qed

lemma reset_zoom_unreachable_witness:
  "\<exists>s. run_editor [(ex_sr, EvMenu 3 4 None), (ex_sr, EvClickItem 1)] (editor_data JNull) = Some s \<and>
     ''reset-zoom'' \<in> mi_action ` set (ed_menuItems s) \<and> ZoomTo 1 \<notin> set (ed_view s)"
proof -
  define s0 where "s0 = (editor_data JNull)\<lparr>ed_view := [ZoomToFit 20]\<rparr>"
  have i: "initGraph ex_sr (editor_data JNull) = Some s0" by (simp add: initGraph_def editor_data_def s0_def)
  show ?thesis
    using reset_zoom_unreachable[OF i, of "[(ex_sr, EvMenu 3 4 None), (ex_sr, EvClickItem 1)]"]
    by (simp add: run_editor_def click_item_def showMenu_def menu_emits_def blank_menu_def item_def
        editor_data_def s0_def Let_def)
qed

end
