(* ===== verification/Obstacle_Map.thy ===== *)
theory Obstacle_Map
  imports Js_Value
begin

text \<open>
  The obstacles of the manhattan router (registry/router/manhattan/obstacle-map.js): a grid of
  squares that lists, for each square, the nodes' boxes around it, and the map shared by all edges
  of a model until a listened change makes it dirty. Coordinates are integers, counted in tenths
  of a pixel, the precision of the router.
\<close>

section \<open>Boxes and the grid\<close>

record rect =
  rx :: int
  ry :: int
  rw :: int
  rh :: int

type_synonym point = "int \<times> int"

definition moveAndExpand :: "rect \<Rightarrow> rect \<Rightarrow> rect" where
  "moveAndExpand r e = \<lparr>rx = rx r + rx e, ry = ry r + ry e, rw = rw r + rw e, rh = rh r + rh e\<rparr>"

definition containsPoint :: "rect \<Rightarrow> point \<Rightarrow> bool" where
  "containsPoint r p \<longleftrightarrow> fst p \<ge> rx r \<and> fst p \<le> rx r + rw r \<and> snd p \<ge> ry r \<and> snd p \<le> ry r + rh r"

text \<open>\<open>gridSize * Math.round(value / gridSize)\<close>, where \<open>Math.round\<close> rounds halves up.\<close>

definition snapToGrid :: "int \<Rightarrow> int \<Rightarrow> int" where
  "snapToGrid value gridSize = gridSize * ((2 * value + gridSize) div (2 * gridSize))"

definition mapGridSize :: int where "mapGridSize = 1000"

definition snap_point :: "point \<Rightarrow> point" where
  "snap_point p = (snapToGrid (fst p) mapGridSize, snapToGrid (snd p) mapGridSize)"

section \<open>Nodes, edges and options\<close>

record rnode =
  rn_id :: string
  rn_shape :: string
  rn_visible :: bool
  rn_bbox :: rect
  rn_ancestors :: "string list"

record redge =
  re_source :: "string option"
  re_target :: "string option"

datatype terminal_type = Source | Target

record obstacle_options =
  oo_paddingBox :: rect
  oo_excludeTerminals :: "terminal_type list"
  oo_excludeShapes :: "string list"
  oo_excludeNodes :: "string list"

definition default_obstacles :: obstacle_options where
  "default_obstacles = \<lparr>oo_paddingBox = \<lparr>rx = -100, ry = -100, rw = 200, rh = 200\<rparr>,
     oo_excludeTerminals = [], oo_excludeShapes = [], oo_excludeNodes = []\<rparr>"

definition terminal_of :: "redge \<Rightarrow> terminal_type \<Rightarrow> string option" where
  "terminal_of edge t = (case t of Source \<Rightarrow> re_source edge | Target \<Rightarrow> re_target edge)"

definition find_node :: "rnode list \<Rightarrow> string \<Rightarrow> rnode option" where
  "find_node nodes i = List.find (\<lambda>n. rn_id n = i) nodes"

definition excludedTerminals :: "obstacle_options \<Rightarrow> rnode list \<Rightarrow> redge \<Rightarrow> string list" where
  "excludedTerminals opts nodes edge =
     List.map_filter (\<lambda>t. case terminal_of edge t of None \<Rightarrow> None
        | Some i \<Rightarrow> map_option rn_id (find_node nodes i)) (oo_excludeTerminals opts)"

definition ancestors_of :: "rnode list \<Rightarrow> string option \<Rightarrow> string list" where
  "ancestors_of nodes t =
     (case t of None \<Rightarrow> []
      | Some i \<Rightarrow> (case find_node nodes i of None \<Rightarrow> [] | Some n \<Rightarrow> rn_ancestors n))"

definition excludedAncestors :: "rnode list \<Rightarrow> redge \<Rightarrow> string list" where
  "excludedAncestors nodes edge = ancestors_of nodes (re_source edge) @ ancestors_of nodes (re_target edge)"

definition excluded :: "obstacle_options \<Rightarrow> rnode list \<Rightarrow> redge \<Rightarrow> rnode \<Rightarrow> bool" where
  "excluded opts nodes edge n \<longleftrightarrow>
     (rn_shape n \<noteq> [] \<and> rn_shape n \<in> set (oo_excludeShapes opts)) \<or>
     rn_id n \<in> set (excludedTerminals opts nodes edge) \<or>
     rn_id n \<in> set (oo_excludeNodes opts) \<or>
     rn_id n \<in> set (excludedAncestors nodes edge)"

section \<open>Building and asking\<close>

type_synonym omap = "point \<rightharpoonup> rect list"

function grid_steps :: "int \<Rightarrow> int \<Rightarrow> int list" where
  "grid_steps lo hi = (if lo \<le> hi then lo # grid_steps (lo + mapGridSize) hi else [])"
  by pat_completeness auto
termination by (relation "measure (\<lambda>(lo, hi). nat (hi - lo + 1))") (auto simp: mapGridSize_def)

declare grid_steps.simps [simp del]

definition push_rect :: "rect \<Rightarrow> point \<Rightarrow> omap \<Rightarrow> omap" where
  "push_rect bbox key m = m(key \<mapsto> (case m key of None \<Rightarrow> [] | Some rs \<Rightarrow> rs) @ [bbox])"

definition squares :: "rect \<Rightarrow> point list" where
  "squares bbox =
     (let origin = snap_point (rx bbox, ry bbox); corner = snap_point (rx bbox + rw bbox, ry bbox + rh bbox)
      in concat (map (\<lambda>x. map (\<lambda>y. (x, y)) (grid_steps (snd origin) (snd corner)))
           (grid_steps (fst origin) (fst corner))))"

definition add_node_box :: "obstacle_options \<Rightarrow> rnode list \<Rightarrow> redge \<Rightarrow> rnode \<Rightarrow> omap \<Rightarrow> omap" where
  "add_node_box opts nodes edge n m =
     (if rn_visible n \<and> \<not> excluded opts nodes edge n
      then (let bbox = moveAndExpand (rn_bbox n) (oo_paddingBox opts)
            in fold (push_rect bbox) (squares bbox) m)
      else m)"

definition build_map :: "obstacle_options \<Rightarrow> rnode list \<Rightarrow> redge \<Rightarrow> omap" where
  "build_map opts nodes edge = fold (add_node_box opts nodes edge) nodes Map.empty"

definition isAccessible :: "omap \<Rightarrow> point \<Rightarrow> bool" where
  "isAccessible m p =
     (case m (snap_point p) of None \<Rightarrow> True | Some rects \<Rightarrow> list_all (\<lambda>r. \<not> containsPoint r p) rects)"

section \<open>The shared map\<close>

definition terminal_name :: "terminal_type \<Rightarrow> string" where
  "terminal_name t = (case t of Source \<Rightarrow> ''source'' | Target \<Rightarrow> ''target'')"

definition getOptionsKey :: "obstacle_options \<Rightarrow> string" where
  "getOptionsKey opts =
     (let p = oo_paddingBox opts;
          pad = intercalate '','' (map num_string [rx p, ry p, rw p, rh p]);
          terms = intercalate ''|'' (sort_strings (map terminal_name (oo_excludeTerminals opts)));
          shapes = intercalate ''|'' (sort_strings (oo_excludeShapes opts));
          nodes = intercalate ''|'' (sort_strings (oo_excludeNodes opts))
      in pad @ ''#'' @ terms @ ''#'' @ shapes @ ''#'' @ nodes)"

record shared_map =
  sm_map :: omap
  sm_dirty :: bool
  sm_installed :: bool
  sm_key :: string

definition markDirty :: "shared_map option \<Rightarrow> shared_map option" where
  "markDirty c = map_option (\<lambda>st. st\<lparr>sm_dirty := True\<rparr>) c"

definition install :: "shared_map option \<Rightarrow> shared_map option" where
  "install c = map_option (\<lambda>st. st\<lparr>sm_installed := True\<rparr>) c"

definition getSharedObstacleMap ::
  "obstacle_options \<Rightarrow> rnode list \<Rightarrow> redge \<Rightarrow> shared_map option \<Rightarrow> omap \<times> shared_map option" where
  "getSharedObstacleMap opts nodes edge c =
     (case c of
        None \<Rightarrow>
          (let m = build_map opts nodes edge
           in (m, install (Some \<lparr>sm_map = m, sm_dirty = False, sm_installed = False, sm_key = getOptionsKey opts\<rparr>)))
      | Some st \<Rightarrow>
          (let st' = (if sm_dirty st \<or> sm_key st \<noteq> getOptionsKey opts
                      then st\<lparr>sm_map := build_map opts nodes edge, sm_dirty := False, sm_key := getOptionsKey opts\<rparr>
                      else st)
           in (sm_map st', Some st')))"

text \<open>Changes of the model. \<open>install\<close> listens to all of them but the last.\<close>

datatype model_change =
    Reseted "rnode list"
  | Added rnode
  | Removed string
  | Moved string int int
  | Resized string int int
  | Visible string bool

definition on_node :: "string \<Rightarrow> (rnode \<Rightarrow> rnode) \<Rightarrow> rnode list \<Rightarrow> rnode list" where
  "on_node i f nodes = map (\<lambda>n. if rn_id n = i then f n else n) nodes"

fun change_nodes :: "model_change \<Rightarrow> rnode list \<Rightarrow> rnode list" where
  "change_nodes (Reseted ns) nodes = ns"
| "change_nodes (Added n) nodes = nodes @ [n]"
| "change_nodes (Removed i) nodes = filter (\<lambda>n. rn_id n \<noteq> i) nodes"
| "change_nodes (Moved i x y) nodes = on_node i (\<lambda>n. n\<lparr>rn_bbox := (rn_bbox n)\<lparr>rx := x, ry := y\<rparr>\<rparr>) nodes"
| "change_nodes (Resized i w h) nodes = on_node i (\<lambda>n. n\<lparr>rn_bbox := (rn_bbox n)\<lparr>rw := w, rh := h\<rparr>\<rparr>) nodes"
| "change_nodes (Visible i b) nodes = on_node i (\<lambda>n. n\<lparr>rn_visible := b\<rparr>) nodes"

fun listened :: "model_change \<Rightarrow> bool" where
  "listened (Visible i b) = False"
| "listened _ = True"

definition model_event :: "model_change \<Rightarrow> rnode list \<times> shared_map option \<Rightarrow> rnode list \<times> shared_map option" where
  "model_event ch s =
     (change_nodes ch (fst s),
      if listened ch \<and> (case snd s of None \<Rightarrow> False | Some st \<Rightarrow> sm_installed st) then markDirty (snd s) else snd s)"

section \<open>The grid loses no obstacle\<close>

lemma snap_mono: "0 < g \<Longrightarrow> a \<le> b \<Longrightarrow> snapToGrid a g \<le> snapToGrid b g"
  by (simp add: snapToGrid_def zdiv_mono1)

lemma snap_dvd: "g dvd snapToGrid a g"
  by (simp add: snapToGrid_def)

lemma set_grid_steps: "set (grid_steps lo hi) = {v. lo \<le> v \<and> v \<le> hi \<and> mapGridSize dvd (v - lo)}"
proof (induction lo hi rule: grid_steps.induct)
  case (1 lo hi)
  show ?case
  proof (cases "lo \<le> hi")
    case True
    have "v = lo \<or> lo + mapGridSize \<le> v" if "lo \<le> v" "mapGridSize dvd (v - lo)" for v
    proof (cases "v = lo")
      case False
      then have "mapGridSize \<le> v - lo" using that by (intro zdvd_imp_le) auto
      then show ?thesis by simp
    qed simp
    moreover have "mapGridSize dvd (v - (lo + mapGridSize)) \<longleftrightarrow> mapGridSize dvd (v - lo)" for v
      by (metis add_diff_cancel_right' diff_diff_eq dvd_diff_right_iff dvd_refl diff_add_cancel dvd_add_left_iff)
    moreover have "0 < mapGridSize" by (simp add: mapGridSize_def)
    ultimately show ?thesis
      using "1.IH"[OF True] True by (subst grid_steps.simps) fastforce
  next
    case False
    then show ?thesis by (auto simp: grid_steps.simps[of lo hi])
  qed
qed

lemma squares_cover:
  assumes "containsPoint r p"
  shows "snap_point p \<in> set (squares r)"
proof -
  have g: "0 < mapGridSize" by (simp add: mapGridSize_def)
  have c: "snapToGrid (fst p) mapGridSize \<in> set (grid_steps (snapToGrid (rx r) mapGridSize) (snapToGrid (rx r + rw r) mapGridSize))"
    "snapToGrid (snd p) mapGridSize \<in> set (grid_steps (snapToGrid (ry r) mapGridSize) (snapToGrid (ry r + rh r) mapGridSize))"
    using assms by (auto simp: containsPoint_def set_grid_steps snap_mono[OF g] snap_dvd)
  then show ?thesis by (auto simp: squares_def snap_point_def Let_def)
qed

definition rects_at :: "omap \<Rightarrow> point \<Rightarrow> rect set" where
  "rects_at m k = set (case m k of None \<Rightarrow> [] | Some rs \<Rightarrow> rs)"

lemma push_rects:
  "rects_at (fold (push_rect r) ks m) k = rects_at m k \<union> (if k \<in> set ks then {r} else {})"
  by (induction ks arbitrary: m) (auto simp: push_rect_def rects_at_def split: if_splits)

lemma isAccessible_rects: "isAccessible m p \<longleftrightarrow> (\<forall>r \<in> rects_at m (snap_point p). \<not> containsPoint r p)"
  by (auto simp: isAccessible_def rects_at_def list_all_iff split: option.splits)

definition obstacles :: "obstacle_options \<Rightarrow> rnode list \<Rightarrow> redge \<Rightarrow> rect list" where
  "obstacles opts nodes edge =
     map (\<lambda>n. moveAndExpand (rn_bbox n) (oo_paddingBox opts))
       (filter (\<lambda>n. rn_visible n \<and> \<not> excluded opts nodes edge n) nodes)"

lemma rects_at_fold:
  "rects_at (fold (add_node_box opts nodes edge) ns m) k = rects_at m k \<union>
     {r. \<exists>n \<in> set ns. rn_visible n \<and> \<not> excluded opts nodes edge n \<and>
        r = moveAndExpand (rn_bbox n) (oo_paddingBox opts) \<and> k \<in> set (squares r)}"
proof (induction ns arbitrary: m)
  case (Cons n ns)
  have "rects_at (add_node_box opts nodes edge n m) k = rects_at m k \<union>
     {r. rn_visible n \<and> \<not> excluded opts nodes edge n \<and>
        r = moveAndExpand (rn_bbox n) (oo_paddingBox opts) \<and> k \<in> set (squares r)}"
    by (auto simp: add_node_box_def Let_def push_rects split: if_splits)
  then show ?case using Cons.IH[of "add_node_box opts nodes edge n m"] by auto
qed simp

lemma build_map_exact:
  "isAccessible (build_map opts nodes edge) p \<longleftrightarrow> (\<forall>r \<in> set (obstacles opts nodes edge). \<not> containsPoint r p)"
  unfolding isAccessible_rects build_map_def rects_at_fold
  using squares_cover by (fastforce simp: obstacles_def rects_at_def)

section \<open>What the key of the shared map tells apart\<close>

text \<open>Names that are not empty and contain neither of the separators of the key.\<close>

definition plain_name :: "string \<Rightarrow> bool" where
  "plain_name s \<longleftrightarrow> s \<noteq> [] \<and> CHR ''|'' \<notin> set s \<and> CHR ''#'' \<notin> set s"

definition plain_options :: "obstacle_options \<Rightarrow> bool" where
  "plain_options opts \<longleftrightarrow> oo_excludeTerminals opts = [] \<and>
     list_all plain_name (oo_excludeShapes opts) \<and> list_all plain_name (oo_excludeNodes opts)"

lemma set_str_insert: "set (str_insert s ts) = insert s (set ts)"
  by (induction ts) auto

lemma set_sort_strings [simp]: "set (sort_strings ss) = set ss"
proof -
  have "set (foldr str_insert ss []) = set ss" by (induction ss) (simp_all add: set_str_insert)
  then show ?thesis by (simp add: sort_strings_def)
qed

lemma joined_names:
  assumes "list_all plain_name xs" "list_all plain_name ys"
    and "intercalate ''|'' (sort_strings xs) = intercalate ''|'' (sort_strings ys)"
  shows "set xs = set ys"
proof -
  have "sort_strings xs = sort_strings ys"
    by (rule intercalate_inj [OF assms(3)]) (use assms(1,2) in \<open>auto simp: list_all_iff plain_name_def\<close>)
  then show ?thesis by (metis set_sort_strings)
qed

text \<open>The parts of a key, found again between its marks.\<close>

lemma getOptionsKey_parts:
  assumes "plain_options opts"
  shows "split_at_char (CHR ''#'') (getOptionsKey opts) =
    [intercalate '','' (map num_string [rx (oo_paddingBox opts), ry (oo_paddingBox opts), rw (oo_paddingBox opts), rh (oo_paddingBox opts)]),
     [], intercalate ''|'' (sort_strings (oo_excludeShapes opts)), intercalate ''|'' (sort_strings (oo_excludeNodes opts))]"
    (is "_ = [?pad, [], ?shapes, ?nodes]")
proof -
  have "CHR ''#'' \<notin> set (num_string n)" for n by (rule num_string_free) simp_all
  then have p: "CHR ''#'' \<notin> set ?pad" using set_intercalate by fastforce
  have names: "CHR ''#'' \<notin> set (intercalate ''|'' (sort_strings xs))" if "list_all plain_name xs" for xs
    using set_intercalate [of "''|''" "sort_strings xs"] that by (auto simp: list_all_iff plain_name_def)
  have s: "CHR ''#'' \<notin> set ?shapes" "CHR ''#'' \<notin> set ?nodes"
    using assms names by (simp_all add: plain_options_def)
  have "getOptionsKey opts = ?pad @ CHR ''#'' # [] @ CHR ''#'' # ?shapes @ CHR ''#'' # ?nodes"
    using assms by (simp add: getOptionsKey_def plain_options_def sort_strings_def Let_def)
  then show ?thesis
    by (simp only: split_at_char_append [OF p] split_at_char_append [OF s(1)] split_at_char_free [OF s(2)])
       (simp add: split_at_char_append [OF s(1)] split_at_char_free [OF s(2)])
qed

text \<open>Options with the same key build the same map.\<close>

lemma getOptionsKey_build:
  assumes p: "plain_options o1" "plain_options o2" and key: "getOptionsKey o1 = getOptionsKey o2"
  shows "build_map o1 nodes edge = build_map o2 nodes edge"
proof -
  note parts = getOptionsKey_parts [OF p(1)] getOptionsKey_parts [OF p(2)]
  have pad: "map num_string [rx (oo_paddingBox o1), ry (oo_paddingBox o1), rw (oo_paddingBox o1), rh (oo_paddingBox o1)] =
      map num_string [rx (oo_paddingBox o2), ry (oo_paddingBox o2), rw (oo_paddingBox o2), rh (oo_paddingBox o2)]"
  proof (rule intercalate_inj)
    have "CHR '','' \<notin> set (num_string n)" for n by (rule num_string_free) simp_all
    then show "\<forall>x \<in> set (map num_string [rx (oo_paddingBox o1), ry (oo_paddingBox o1), rw (oo_paddingBox o1), rh (oo_paddingBox o1)]). CHR '','' \<notin> set x \<and> x \<noteq> []"
      "\<forall>x \<in> set (map num_string [rx (oo_paddingBox o2), ry (oo_paddingBox o2), rw (oo_paddingBox o2), rh (oo_paddingBox o2)]). CHR '','' \<notin> set x \<and> x \<noteq> []"
      by (simp_all add: num_string_nonempty)
  qed (use parts key in simp)
  then have "oo_paddingBox o1 = oo_paddingBox o2" using num_string_inj by (auto intro: rect.equality)
  moreover have "intercalate ''|'' (sort_strings (oo_excludeShapes o1)) = intercalate ''|'' (sort_strings (oo_excludeShapes o2))"
    "intercalate ''|'' (sort_strings (oo_excludeNodes o1)) = intercalate ''|'' (sort_strings (oo_excludeNodes o2))"
    using parts key by simp_all
  then have "set (oo_excludeShapes o1) = set (oo_excludeShapes o2)" "set (oo_excludeNodes o1) = set (oo_excludeNodes o2)"
    using joined_names p by (simp_all add: plain_options_def)
  moreover have "oo_excludeTerminals o1 = oo_excludeTerminals o2" using p by (simp add: plain_options_def)
  ultimately have "oo_paddingBox o1 = oo_paddingBox o2"
    and "excluded o1 nodes edge n \<longleftrightarrow> excluded o2 nodes edge n" for n
    by (simp_all only: excluded_def excludedTerminals_def)
  then have "add_node_box o1 nodes edge n m = add_node_box o2 nodes edge n m" for n m
    by (simp add: add_node_box_def)
  then have "add_node_box o1 nodes edge = add_node_box o2 nodes edge" by blast
  then show ?thesis by (simp add: build_map_def)
qed

section \<open>When the shared map is up to date\<close>

text \<open>A session of a model: changes of its nodes, and edges asking for the map, each with its own
  options.\<close>

datatype om_event = Change model_change | Ask obstacle_options redge

fun om_step :: "om_event \<Rightarrow> rnode list \<times> shared_map option \<Rightarrow> rnode list \<times> shared_map option" where
  "om_step (Change ch) s = model_event ch s"
| "om_step (Ask opts edge) s = (fst s, snd (getSharedObstacleMap opts (fst s) edge (snd s)))"

definition no_ancestors :: "rnode list \<Rightarrow> bool" where
  "no_ancestors nodes \<longleftrightarrow> list_all (\<lambda>n. rn_ancestors n = []) nodes"

fun flat_change :: "model_change \<Rightarrow> bool" where
  "flat_change (Reseted ns) = no_ancestors ns"
| "flat_change (Added n) = (rn_ancestors n = [])"
| "flat_change _ = True"

text \<open>The events of a session in which no map can go stale.\<close>

fun steady_event :: "om_event \<Rightarrow> bool" where
  "steady_event (Change ch) = (listened ch \<and> flat_change ch)"
| "steady_event (Ask opts edge) = plain_options opts"

definition fresh :: "rnode list \<times> shared_map option \<Rightarrow> bool" where
  "fresh s \<longleftrightarrow> no_ancestors (fst s) \<and>
     (case snd s of None \<Rightarrow> True
      | Some st \<Rightarrow> sm_installed st \<and>
          (sm_dirty st \<or> (\<exists>opts. plain_options opts \<and> sm_key st = getOptionsKey opts \<and>
            (\<forall>edge. sm_map st = build_map opts (fst s) edge))))"

lemma build_map_edge:
  assumes "oo_excludeTerminals opts = []" "no_ancestors nodes"
  shows "build_map opts nodes edge = build_map opts nodes edge'"
proof -
  have a: "ancestors_of nodes t = []" for t
    using assms(2) by (auto simp: ancestors_of_def find_node_def find_Some_iff no_ancestors_def list_all_iff
        split: option.splits)
  have "excluded opts nodes edge n = excluded opts nodes edge' n" for n
    using assms(1) by (simp add: excluded_def excludedTerminals_def excludedAncestors_def a List.map_filter_def)
  then have "add_node_box opts nodes edge = add_node_box opts nodes edge'"
    by (auto simp: add_node_box_def fun_eq_iff)
  then show ?thesis by (simp add: build_map_def)
qed

lemma no_ancestors_change: "no_ancestors nodes \<Longrightarrow> flat_change ch \<Longrightarrow> no_ancestors (change_nodes ch nodes)"
  by (cases ch) (auto simp: no_ancestors_def list_all_iff on_node_def)

lemma fresh_change:
  "fresh s \<Longrightarrow> listened ch \<Longrightarrow> flat_change ch \<Longrightarrow> fresh (model_event ch s)"
  using no_ancestors_change[of "fst s" ch]
  by (auto simp: fresh_def model_event_def markDirty_def split: option.splits)

lemma fresh_ask:
  assumes f: "fresh s" and p: "plain_options opts"
  shows "fst (getSharedObstacleMap opts (fst s) edge (snd s)) = build_map opts (fst s) edge"
    and "fresh (om_step (Ask opts edge) s)"
proof -
  have n: "no_ancestors (fst s)" using f by (simp add: fresh_def)
  have t: "oo_excludeTerminals opts = []" using p by (simp add: plain_options_def)
  note same = build_map_edge[OF t n]
  have "fst (getSharedObstacleMap opts (fst s) edge (snd s)) = build_map opts (fst s) edge \<and>
      fresh (om_step (Ask opts edge) s)"
  proof (cases "\<exists>st. snd s = Some st \<and> \<not> sm_dirty st \<and> sm_key st = getOptionsKey opts")
    case True
    then obtain st o' where st: "snd s = Some st" "\<not> sm_dirty st" "sm_key st = getOptionsKey opts"
      and o': "plain_options o'" "getOptionsKey opts = getOptionsKey o'" "\<And>edge. sm_map st = build_map o' (fst s) edge"
      using f by (auto simp: fresh_def)
    have "sm_map st = build_map opts (fst s) edge"
      using o'(3)[of edge] getOptionsKey_build[OF p o'(1,2)] by simp
    then show ?thesis using st f by (simp add: getSharedObstacleMap_def fresh_def)
  next
    case False
    then show ?thesis using f n p same[of edge]
      by (auto simp: fresh_def getSharedObstacleMap_def Let_def install_def split: option.splits)
  qed
  then show "fst (getSharedObstacleMap opts (fst s) edge (snd s)) = build_map opts (fst s) edge"
    "fresh (om_step (Ask opts edge) s)" by blast+
qed

lemma fresh_run: "fresh s \<Longrightarrow> list_all steady_event evs \<Longrightarrow> fresh (fold om_step evs s)"
proof (induction evs arbitrary: s)
  case (Cons ev evs)
  then show ?case using fresh_change[of s] fresh_ask(2)[of s] by (cases ev) simp_all
qed simp

section \<open>Properties\<close>

text \<open>C13: The grid of the obstacle map changes no answer: a point is accessible exactly when it lies
  in none of the padded boxes of the visible nodes that are not excluded for the edge.\<close>
theorem obstacle_map_exact:
  "isAccessible (build_map opts nodes edge) p \<longleftrightarrow>
     (\<forall>n \<in> set nodes. rn_visible n \<and> \<not> excluded opts nodes edge n \<longrightarrow>
        \<not> containsPoint (moveAndExpand (rn_bbox n) (oo_paddingBox opts)) p)"
  by (auto simp: build_map_exact obstacles_def)

lemma obstacle_map_exact_witness:
  "\<not> isAccessible (build_map default_obstacles
      [\<lparr>rn_id = ''1'', rn_shape = [], rn_visible = True, rn_bbox = \<lparr>rx = 500, ry = 500, rw = 1500, rh = 800\<rparr>, rn_ancestors = []\<rparr>]
      \<lparr>re_source = None, re_target = None\<rparr>) (1990, 1290)"
  unfolding obstacle_map_exact
  by (simp add: default_obstacles_def excluded_def excludedTerminals_def excludedAncestors_def ancestors_of_def
      List.map_filter_def containsPoint_def moveAndExpand_def)

text \<open>C31: Sharing one obstacle map among the edges of a model loses nothing as long as no terminals
  are excluded, no node is embedded in another, no node is shown or hidden, and the excluded shapes
  and nodes have non-empty names without the separators of the key (\<open>plain_options\<close>): after any
  such sequence of changes and requests, each request with its own options, an edge that asks is
  answered with the map it would build itself with its options.\<close>
theorem shared_map_up_to_date:
  assumes "no_ancestors nodes" and "list_all steady_event evs" and "plain_options opts"
    and "fold om_step evs (nodes, None) = (nodes', c)"
  shows "fst (getSharedObstacleMap opts nodes' edge c) = build_map opts nodes' edge"
proof -
  have "fresh (nodes, None)" using assms(1) by (simp add: fresh_def)
  from fresh_run[OF this assms(2)] assms(4) have "fresh (nodes', c)" by simp
  then show ?thesis using fresh_ask(1)[OF _ assms(3), of "(nodes', c)"] by simp
qed

definition sample_node :: "string \<Rightarrow> int \<Rightarrow> rnode" where
  "sample_node i x = \<lparr>rn_id = i, rn_shape = [], rn_visible = True,
     rn_bbox = \<lparr>rx = x, ry = 0, rw = 1500, rh = 800\<rparr>, rn_ancestors = []\<rparr>"

definition sample_edge :: "string \<Rightarrow> string \<Rightarrow> redge" where
  "sample_edge s t = \<lparr>re_source = Some s, re_target = Some t\<rparr>"

lemma shared_map_up_to_date_witness:
  "let opts = default_obstacles\<lparr>oo_excludeNodes := [''a'']\<rparr>;
       s = fold om_step
         [Ask default_obstacles (sample_edge ''a'' ''b''), Change (Moved ''a'' 5000 0), Ask opts (sample_edge ''a'' ''b'')]
         ([sample_node ''a'' 0, sample_node ''b'' 3000], None)
   in fst (getSharedObstacleMap default_obstacles (fst s) (sample_edge ''b'' ''a'') (snd s)) =
      build_map default_obstacles (fst s) (sample_edge ''b'' ''a'')"
  unfolding Let_def
  by (rule shared_map_up_to_date[OF _ _ _ surjective_pairing])
     (simp_all add: default_obstacles_def plain_options_def plain_name_def no_ancestors_def sample_node_def)

text \<open>The shared map goes stale when a node is hidden, which is not among the changes listened
  to, and when terminals are excluded it answers one edge with the map of another: two accessible
  points are reported as blocked.\<close>
lemma shared_map_stale:
  "(let nodes = [sample_node ''a'' 0, sample_node ''m'' 4000, sample_node ''b'' 9000];
        edge = sample_edge ''a'' ''b'';
        s = fold om_step [Ask default_obstacles edge, Change (Visible ''m'' False)] (nodes, None)
    in isAccessible (build_map default_obstacles (fst s) edge) (4500, 400) \<and>
       \<not> isAccessible (fst (getSharedObstacleMap default_obstacles (fst s) edge (snd s))) (4500, 400)) \<and>
   (let opts = default_obstacles\<lparr>oo_excludeTerminals := [Source]\<rparr>;
        nodes = [sample_node ''a'' 0, sample_node ''c'' 4000, sample_node ''b'' 9000];
        edge = sample_edge ''c'' ''b'';
        s = fold om_step [Ask opts (sample_edge ''a'' ''b'')] (nodes, None)
    in isAccessible (build_map opts (fst s) edge) (4500, 400) \<and>
       \<not> isAccessible (fst (getSharedObstacleMap opts (fst s) edge (snd s))) (4500, 400))"
  by (intro conjI) code_simp+

end
