(* ===== verification/Sorted_Set.thy ===== *)
theory Sorted_Set
  imports Priority_Queue
begin

text \<open>
  The open set of the route search (registry/router/manhattan/sorted-set.js): a binary heap of
  items with a value each, the positions of the items, and the mark of every item ever added.
  Items are used as keys of objects; any type of keys will do. The heap is shown to be the priority
  queue of \<open>Priority_Queue\<close>, so that the facts proved there hold for it.
\<close>

section \<open>The data structure\<close>

datatype mark = Open | Close

record ('k, 'v) sset =
  ss_items :: "'k list"
  ss_hash :: "'k \<rightharpoonup> mark"
  ss_values :: "'k \<rightharpoonup> 'v"
  ss_indexes :: "'k \<rightharpoonup> nat"

definition new_SortedSet :: "('k, 'v) sset" where
  "new_SortedSet = \<lparr>ss_items = [], ss_hash = Map.empty, ss_values = Map.empty, ss_indexes = Map.empty\<rparr>"

definition ss_swap :: "nat \<Rightarrow> nat \<Rightarrow> ('k, 'v) sset \<Rightarrow> ('k, 'v) sset" where
  "ss_swap i j s =
     (let a = ss_items s ! i; b = ss_items s ! j
      in s\<lparr>ss_items := (ss_items s)[i := b, j := a],
           ss_indexes := (ss_indexes s)(b \<mapsto> i, a \<mapsto> j)\<rparr>)"

text \<open>Every item has a value: a comparison with an absent one does not arise.\<close>

definition ss_value :: "('k, 'v) sset \<Rightarrow> 'k \<Rightarrow> 'v" where
  "ss_value s k = the (ss_values s k)"

definition ss_less :: "('k, 'v::linorder) sset \<Rightarrow> nat \<Rightarrow> nat \<Rightarrow> bool" where
  "ss_less s i j \<longleftrightarrow> ss_value s (ss_items s ! i) < ss_value s (ss_items s ! j)"

function ss_bubbleUp :: "nat \<Rightarrow> ('k, 'v::linorder) sset \<Rightarrow> ('k, 'v) sset" where
  "ss_bubbleUp index s =
     (if index > 0
      then (let parent = (index - 1) div 2
            in if ss_less s index parent then ss_bubbleUp parent (ss_swap index parent s) else s)
      else s)"
  by pat_completeness auto
termination
  by (relation "measure (\<lambda>(index, s). index)") auto

definition ss_smallest :: "nat \<Rightarrow> ('k, 'v::linorder) sset \<Rightarrow> nat" where
  "ss_smallest index s =
     (let n = length (ss_items s); left = 2 * index + 1; right = left + 1;
          smallest = (if left < n \<and> ss_less s left index then left else index)
      in if right < n \<and> ss_less s right smallest then right else smallest)"

lemma ss_smallest_cases:
  "ss_smallest i s = i \<or> i < ss_smallest i s \<and> ss_smallest i s < length (ss_items s)"
  by (auto simp: ss_smallest_def Let_def)

lemma length_ss_swap [simp]: "length (ss_items (ss_swap i j s)) = length (ss_items s)"
  by (simp add: ss_swap_def Let_def)

function ss_bubbleDown :: "nat \<Rightarrow> ('k, 'v::linorder) sset \<Rightarrow> ('k, 'v) sset" where
  "ss_bubbleDown index s =
     (let smallest = ss_smallest index s
      in if smallest \<noteq> index then ss_bubbleDown smallest (ss_swap index smallest s) else s)"
  by pat_completeness auto
termination
proof (relation "measure (\<lambda>(index, s). length (ss_items s) - index)", simp)
  fix i m and s :: "('k, 'v::linorder) sset"
  assume "m = ss_smallest i s" "m \<noteq> i"
  then show "((m, ss_swap i m s), i, s) \<in> measure (\<lambda>(index, s). length (ss_items s) - index)"
    using ss_smallest_cases[of i s] by auto
qed

declare ss_bubbleUp.simps [simp del] ss_bubbleDown.simps [simp del]

definition ss_isOpen :: "'k \<Rightarrow> ('k, 'v) sset \<Rightarrow> bool" where
  "ss_isOpen k s \<longleftrightarrow> ss_hash s k = Some Open"

definition ss_isClose :: "'k \<Rightarrow> ('k, 'v) sset \<Rightarrow> bool" where
  "ss_isClose k s \<longleftrightarrow> ss_hash s k = Some Close"

definition ss_isEmpty :: "('k, 'v) sset \<Rightarrow> bool" where
  "ss_isEmpty s \<longleftrightarrow> length (ss_items s) = 0"

definition ss_add :: "'k \<Rightarrow> 'v::linorder \<Rightarrow> ('k, 'v) sset \<Rightarrow> ('k, 'v) sset" where
  "ss_add item v s =
     (let existed = ss_isOpen item s; s = s\<lparr>ss_values := (ss_values s)(item \<mapsto> v)\<rparr>
      in if existed
         then (case ss_indexes s item of None \<Rightarrow> s | Some idx \<Rightarrow> ss_bubbleDown idx (ss_bubbleUp idx s))
         else (let s = s\<lparr>ss_hash := (ss_hash s)(item \<mapsto> Open), ss_items := ss_items s @ [item]\<rparr>;
                   idx = length (ss_items s) - 1
               in ss_bubbleUp idx (s\<lparr>ss_indexes := (ss_indexes s)(item \<mapsto> idx)\<rparr>)))"

definition ss_pop :: "('k, 'v::linorder) sset \<Rightarrow> 'k option \<times> ('k, 'v) sset" where
  "ss_pop s =
     (case ss_items s of
        [] \<Rightarrow> (None, s)
      | tp # _ \<Rightarrow>
          (let lst = last (ss_items s);
               s = s\<lparr>ss_hash := (ss_hash s)(tp \<mapsto> Close), ss_items := butlast (ss_items s),
                     ss_indexes := (ss_indexes s)(tp := None)\<rparr>
           in (Some tp,
               if length (ss_items s) > 0
               then ss_bubbleDown 0 (s\<lparr>ss_items := (ss_items s)[0 := lst],
                                       ss_indexes := (ss_indexes s)(lst \<mapsto> 0)\<rparr>)
               else s)))"

section \<open>Invariant\<close>

text \<open>The items are distinct, the positions are theirs, they are the open keys, and have values.\<close>

definition ss_ok :: "('k, 'v) sset \<Rightarrow> bool" where
  "ss_ok s \<longleftrightarrow> distinct (ss_items s) \<and>
     (\<forall>k i. ss_indexes s k = Some i \<longleftrightarrow> i < length (ss_items s) \<and> ss_items s ! i = k) \<and>
     (\<forall>k. ss_hash s k = Some Open \<longleftrightarrow> k \<in> set (ss_items s)) \<and>
     (\<forall>k \<in> set (ss_items s). ss_values s k \<noteq> None)"

lemma ss_items_swap: "ss_items (ss_swap i j s) = swap_at (ss_items s) i j"
  by (simp add: ss_swap_def swap_at_def Let_def)

lemma ss_swap_frame [simp]:
  "ss_hash (ss_swap i j s) = ss_hash s" "ss_values (ss_swap i j s) = ss_values s"
  by (simp_all add: ss_swap_def Let_def)

lemma ss_okD:
  assumes "ss_ok s"
  shows "distinct (ss_items s)"
    "\<And>k i. ss_indexes s k = Some i \<longleftrightarrow> i < length (ss_items s) \<and> ss_items s ! i = k"
    "\<And>k. ss_hash s k = Some Open \<longleftrightarrow> k \<in> set (ss_items s)"
    "\<And>k. k \<in> set (ss_items s) \<Longrightarrow> ss_values s k \<noteq> None"
  using assms by (auto simp: ss_ok_def)

lemma ss_ok_swap:
  assumes ok: "ss_ok s" and ij: "i < length (ss_items s)" "j < length (ss_items s)" "i \<noteq> j"
  shows "ss_ok (ss_swap i j s)"
proof -
  note D = ss_okD[OF ok]
  have set: "set (ss_items (ss_swap i j s)) = set (ss_items s)" using ij by (simp add: ss_items_swap)
  have dist: "distinct (ss_items (ss_swap i j s))"
    using D(1) ij by (simp add: ss_items_swap swap_at_def distinct_swap)
  have ne: "ss_items s ! i \<noteq> ss_items s ! j" using D(1) ij by (simp add: nth_eq_iff_index_eq)
  have idx: "ss_indexes (ss_swap i j s) k = Some n \<longleftrightarrow>
      n < length (ss_items (ss_swap i j s)) \<and> ss_items (ss_swap i j s) ! n = k" for k n
  proof -
    have "ss_indexes (ss_swap i j s) k =
      (if k = ss_items s ! i then Some j else if k = ss_items s ! j then Some i else ss_indexes s k)"
      by (simp add: ss_swap_def Let_def)
    moreover have "n < length (ss_items s) \<and> ss_items (ss_swap i j s) ! n = k \<longleftrightarrow>
      (if k = ss_items s ! i then n = j else if k = ss_items s ! j then n = i
       else n < length (ss_items s) \<and> ss_items s ! n = k)"
      using ij ne D(1) by (auto simp: ss_items_swap nth_swap_at nth_eq_iff_index_eq cong: conj_cong)
    ultimately show ?thesis using D(2) by auto
  qed
  show ?thesis unfolding ss_ok_def using dist idx set D(3,4) by simp
qed

lemma ss_bubbleUp_ok:
  assumes "ss_ok s" "i < length (ss_items s)"
  shows "ss_ok (ss_bubbleUp i s) \<and> set (ss_items (ss_bubbleUp i s)) = set (ss_items s) \<and>
     length (ss_items (ss_bubbleUp i s)) = length (ss_items s) \<and>
     ss_values (ss_bubbleUp i s) = ss_values s \<and> ss_hash (ss_bubbleUp i s) = ss_hash s"
  using assms
proof (induction i s rule: ss_bubbleUp.induct)
  case (1 i s)
  let ?p = "(i - 1) div 2"
  show ?case
  proof (cases "i > 0 \<and> ss_less s i ?p")
    case True
    then have p: "?p < i" "?p < length (ss_items s)" using "1.prems" by auto
    then show ?thesis
      using "1.IH"[OF _ refl] True "1.prems" ss_ok_swap[of s i ?p]
      by (simp add: ss_bubbleUp.simps[of i s] Let_def ss_items_swap)
  next
    case False
    then show ?thesis using "1.prems" by (auto simp: ss_bubbleUp.simps[of i s] Let_def)
  qed
qed

lemma ss_bubbleDown_ok:
  assumes "ss_ok s" "i < length (ss_items s)"
  shows "ss_ok (ss_bubbleDown i s) \<and> set (ss_items (ss_bubbleDown i s)) = set (ss_items s) \<and>
     length (ss_items (ss_bubbleDown i s)) = length (ss_items s) \<and>
     ss_values (ss_bubbleDown i s) = ss_values s \<and> ss_hash (ss_bubbleDown i s) = ss_hash s"
  using assms
proof (induction i s rule: ss_bubbleDown.induct)
  case (1 i s)
  let ?m = "ss_smallest i s"
  show ?case
  proof (cases "?m = i")
    case False
    then have m: "?m < length (ss_items s)" using ss_smallest_cases[of i s] by auto
    then show ?thesis
      using "1.IH"[OF refl False] "1.prems" False ss_ok_swap[of s i ?m]
      by (simp add: ss_bubbleDown.simps[of i s] Let_def ss_items_swap)
  next
    case True
    then show ?thesis using "1.prems" by (simp add: ss_bubbleDown.simps[of i s] Let_def)
  qed
qed

section \<open>The same heap as the priority queue\<close>

text \<open>The comparator that orders priorities as \<open><\<close> does.\<close>

definition less_cmp :: "'v::linorder comparator" where
  "less_cmp a b = (if a < b then CNegInf else if b < a then CPosInf else CNaN)"

lemma less_cmp_simps [simp]: "cmp_neg (less_cmp a b) = (a < b)" "cmp_pos (less_cmp a b) = (b < a)"
  by (auto simp: less_cmp_def)

interpretation less: comparator "less_cmp :: 'v::linorder comparator"
  by unfold_locales auto

definition pq_of :: "(string, 'v) sset \<Rightarrow> ('v, string) pqueue" where
  "pq_of s = \<lparr>pq_data = map (\<lambda>k. \<lparr>priority = ss_value s k, value_of = k, id_of = Some k\<rparr>) (ss_items s),
              pq_index = ss_indexes s\<rparr>"

lemma pq_of_sel:
  "length (pq_data (pq_of s)) = length (ss_items s)" "pq_index (pq_of s) = ss_indexes s"
  "i < length (ss_items s) \<Longrightarrow> pq_data (pq_of s) ! i =
     \<lparr>priority = ss_value s (ss_items s ! i), value_of = ss_items s ! i, id_of = Some (ss_items s ! i)\<rparr>"
  by (simp_all add: pq_of_def)

lemma ss_less_cmp:
  "i < length (ss_items s) \<Longrightarrow> j < length (ss_items s) \<Longrightarrow>
   cmp_neg (less_cmp (priority (pq_data (pq_of s) ! i)) (priority (pq_data (pq_of s) ! j))) = ss_less s i j"
  by (simp add: pq_of_sel ss_less_def)

lemma pq_of_swap:
  assumes ok: "ss_ok s" and ij: "i < length (ss_items s)" "j < length (ss_items s)" "i \<noteq> j"
  shows "pq_of (ss_swap i j s) = pq_swap j i (pq_of s)"
proof -
  have ne: "ss_items s ! i \<noteq> ss_items s ! j" using ss_okD(1)[OF ok] ij by (simp add: nth_eq_iff_index_eq)
  have v: "ss_value (ss_swap i j s) = ss_value s" by (auto simp: ss_value_def)
  have "pq_data (pq_of (ss_swap i j s)) = pq_data (pq_swap j i (pq_of s))"
    using ij by (simp add: pq_of_def v ss_items_swap swap_at_def map_update list_update_swap)
  moreover have "pq_index (pq_of (ss_swap i j s)) = pq_index (pq_swap j i (pq_of s))"
    using ij ne by (simp add: pq_of_sel pq_swap_def Let_def index_put_def ss_swap_def fun_upd_twist)
  ultimately show ?thesis by simp
qed

lemma pq_of_bubbleUp:
  assumes "ss_ok s" "i < length (ss_items s)"
  shows "pq_of (ss_bubbleUp i s) = bubbleUp less_cmp i (pq_of s)"
  using assms
proof (induction i s rule: ss_bubbleUp.induct)
  case (1 i s)
  let ?p = "(i - 1) div 2"
  have c: "cmp_neg (less_cmp (priority (pq_data (pq_of s) ! i)) (priority (pq_data (pq_of s) ! ?p))) = ss_less s i ?p"
    using "1.prems"(2) by (intro ss_less_cmp) auto
  show ?case
  proof (cases "i > 0 \<and> ss_less s i ?p")
    case True
    then have p: "?p < i" "?p < length (ss_items s)" using "1.prems" by auto
    have "pq_of (ss_bubbleUp ?p (ss_swap i ?p s)) = bubbleUp less_cmp ?p (pq_of (ss_swap i ?p s))"
      using True p "1.prems" ss_ok_swap[of s i ?p] by (intro "1.IH"[OF _ refl]) auto
    then show ?thesis using True c p pq_of_swap[OF "1.prems" p(2)]
      by (simp add: ss_bubbleUp.simps[of i s] bubbleUp.simps[of less_cmp i] Let_def)
  next
    case False
    then show ?thesis using c by (auto simp: ss_bubbleUp.simps[of i s] bubbleUp.simps[of less_cmp i] Let_def)
  qed
qed

lemma ss_smallest_minIndex:
  "i < length (ss_items s) \<Longrightarrow> minIndex less_cmp (pq_data (pq_of s)) i = ss_smallest i s"
proof -
  assume i: "i < length (ss_items s)"
  have p: "priority (pq_data (pq_of s) ! k) = ss_value s (ss_items s ! k)" if "k < length (ss_items s)" for k
    using that by (simp add: pq_of_sel)
  show ?thesis using i
    by (simp add: minIndex_def ss_smallest_def Let_def pq_of_sel(1) ss_less_def p cong: conj_cong)
qed

lemma pq_of_bubbleDown:
  assumes "ss_ok s" "i < length (ss_items s)"
  shows "pq_of (ss_bubbleDown i s) = bubbleDown less_cmp i (pq_of s)"
  using assms
proof (induction i s rule: ss_bubbleDown.induct)
  case (1 i s)
  let ?m = "ss_smallest i s"
  note e = ss_smallest_minIndex[OF "1.prems"(2)]
  show ?case
  proof (cases "?m = i")
    case False
    then have m: "?m < length (ss_items s)" using ss_smallest_cases[of i s] by auto
    have "pq_of (ss_bubbleDown ?m (ss_swap i ?m s)) = bubbleDown less_cmp ?m (pq_of (ss_swap i ?m s))"
      using False m "1.prems" ss_ok_swap[of s i ?m] by (intro "1.IH"[OF refl]) auto
    then show ?thesis using False e m pq_of_swap[OF "1.prems" m]
      by (simp add: ss_bubbleDown.simps[of i s] bubbleDown.simps[of less_cmp i] Let_def)
  next
    case True
    then show ?thesis using e by (simp add: ss_bubbleDown.simps[of i s] bubbleDown.simps[of less_cmp i] Let_def)
  qed
qed

lemma minIndex_heap: "heap_ok less_cmp d \<Longrightarrow> c < length d \<Longrightarrow> minIndex less_cmp d c = c"
  using less.heap_ok_parent[of d "2 * c + 1"] less.heap_ok_parent[of d "2 * c + 2"]
  by (auto simp: minIndex_def Let_def no_later_def)

lemma bubbleDown_heap_id: "heap_ok less_cmp (pq_data q) \<Longrightarrow> c < length (pq_data q) \<Longrightarrow> bubbleDown less_cmp c q = q"
  by (simp add: bubbleDown.simps[of less_cmp c q] minIndex_heap Let_def)

text \<open>Sifting an item up and then down is what \<open>updatePriority\<close> does, one of the two.\<close>

lemma sift_both:
  assumes h: "heap_ok less_cmp (pq_data q)" and k: "pq_index q k = Some c" "c < length (pq_data q)"
  shows "Some (bubbleDown less_cmp c (bubbleUp less_cmp c
     (q\<lparr>pq_data := (pq_data q)[c := (pq_data q ! c)\<lparr>priority := p\<rparr>]\<rparr>))) = updatePriority less_cmp k p q"
proof -
  let ?d = "pq_data q" and ?x = "(pq_data q ! c)\<lparr>priority := p\<rparr>"
  let ?q = "q\<lparr>pq_data := ?d[c := ?x]\<rparr>"
  consider "p < priority (?d ! c)" | "priority (?d ! c) < p" | "p = priority (?d ! c)" by fastforce
  then show ?thesis
  proof cases
    case 1
    then have "no_later less_cmp ?x (?d ! c)" by (simp add: no_later_def)
    then have "heap_but less_cmp (length ?d) (?d[c := ?x]) {c} {}"
      by (rule less.heap_but_replace_up[OF h k(2)])
    then have "heap_ok less_cmp (pq_data (bubbleUp less_cmp c ?q))"
      using less.bubbleUp_heap[of "length ?d" ?q c] k(2) by (simp add: heap_ok_def less.bubbleUp_length)
    then have "bubbleDown less_cmp c (bubbleUp less_cmp c ?q) = bubbleUp less_cmp c ?q"
      by (rule bubbleDown_heap_id) (simp add: less.bubbleUp_length k(2))
    then show ?thesis using 1 k(1) by (simp add: updatePriority_def Let_def)
  next
    case 2
    have "\<not> p < priority (?d ! ((c - 1) div 2))" if "0 < c"
    proof -
      have "no_later less_cmp (?d ! ((c - 1) div 2)) (?d ! c)" by (rule less.heap_ok_parent[OF h that k(2)])
      then show ?thesis using 2 by (simp add: no_later_def)
    qed
    moreover have "(c - 1) div 2 \<noteq> c" if "0 < c" using parent_less[OF that] by simp
    ultimately have "bubbleUp less_cmp c ?q = ?q"
      using k(2) by (auto simp: bubbleUp.simps[of less_cmp c ?q] Let_def)
    then show ?thesis using 2 k(1) by (simp add: updatePriority_def Let_def)
  next
    case 3
    then have "?q = q" by (cases q) (simp add: list_update_id)
    moreover have "bubbleUp less_cmp c q = q"
      using less.heap_ok_parent[OF h _ k(2)]
      by (auto simp: bubbleUp.simps[of less_cmp c q] Let_def no_later_def)
    ultimately show ?thesis using 3 k bubbleDown_heap_id[OF h k(2)]
      by (simp add: updatePriority_def Let_def)
  qed
qed

section \<open>The operations, as those of the priority queue\<close>

definition ss_heap :: "(string, 'v::linorder) sset \<Rightarrow> bool" where
  "ss_heap s \<longleftrightarrow> ss_ok s \<and> heap_ok less_cmp (pq_data (pq_of s)) \<and> [] \<notin> set (ss_items s)"

lemma ss_heap_queue_ok: "ss_heap s \<Longrightarrow> queue_ok less_cmp (pq_of s)"
  by (auto simp: ss_heap_def queue_ok_def index_ok_def keyed_def pq_of_def ss_ok_def)

lemma pq_of_add:
  assumes h: "ss_heap s" and k: "k \<noteq> []"
  shows "pq_of (ss_add k v s) =
      (if ss_isOpen k s then the (updatePriority less_cmp k v (pq_of s)) else insert_pq less_cmp v k k (pq_of s))"
    and "ss_ok (ss_add k v s)"
    and "set (ss_items (ss_add k v s)) = insert k (set (ss_items s))"
proof -
  have ok: "ss_ok s" using h by (simp add: ss_heap_def)
  note D = ss_okD[OF ok]
  let ?s = "s\<lparr>ss_values := (ss_values s)(k \<mapsto> v)\<rparr>"
  have okv: "ss_ok ?s" using ok by (auto simp: ss_ok_def)
  have "pq_of (ss_add k v s) =
      (if ss_isOpen k s then the (updatePriority less_cmp k v (pq_of s)) else insert_pq less_cmp v k k (pq_of s)) \<and>
      ss_ok (ss_add k v s) \<and> set (ss_items (ss_add k v s)) = insert k (set (ss_items s))"
  proof (cases "ss_isOpen k s")
    case True
    then have mem: "k \<in> set (ss_items s)" using D(3) by (simp add: ss_isOpen_def)
    then obtain c where c: "c < length (ss_items s)" "ss_items s ! c = k" by (auto simp: in_set_conv_nth)
    then have i: "ss_indexes s k = Some c" using D(2) by simp
    have e: "ss_add k v s = ss_bubbleDown c (ss_bubbleUp c ?s)"
      using True i by (simp add: ss_add_def Let_def)
    have up: "ss_ok (ss_bubbleUp c ?s)" "c < length (ss_items (ss_bubbleUp c ?s))"
      "set (ss_items (ss_bubbleUp c ?s)) = set (ss_items s)"
      using ss_bubbleUp_ok[OF okv, of c] c by auto
    have q: "pq_of ?s = (pq_of s)\<lparr>pq_data := (pq_data (pq_of s))[c := (pq_data (pq_of s) ! c)\<lparr>priority := v\<rparr>]\<rparr>"
    proof -
      have "map (\<lambda>j. \<lparr>priority = ss_value ?s j, value_of = j, id_of = Some j\<rparr>) (ss_items s) =
        (map (\<lambda>j. \<lparr>priority = ss_value s j, value_of = j, id_of = Some j\<rparr>) (ss_items s))
          [c := \<lparr>priority = v, value_of = k, id_of = Some k\<rparr>]"
        using c D(1) by (intro nth_equalityI) (auto simp: ss_value_def nth_list_update nth_eq_iff_index_eq)
      then show ?thesis using c by (simp add: pq_of_def)
    qed
    have "pq_of (ss_add k v s) = bubbleDown less_cmp c (bubbleUp less_cmp c (pq_of ?s))"
      unfolding e using pq_of_bubbleDown[OF up(1,2)] pq_of_bubbleUp[OF okv, of c] c by simp
    moreover have "Some \<dots> = updatePriority less_cmp k v (pq_of s)"
      unfolding q using h i c by (intro sift_both) (simp_all add: ss_heap_def pq_of_sel)
    ultimately have "pq_of (ss_add k v s) = the (updatePriority less_cmp k v (pq_of s))" by (metis option.sel)
    then show ?thesis using True e ss_bubbleDown_ok[OF up(1,2)] up(3) mem by (simp add: insert_absorb)
  next
    case False
    then have nmem: "k \<notin> set (ss_items s)" using D(3) by (simp add: ss_isOpen_def)
    let ?n = "length (ss_items s)"
    let ?t = "s\<lparr>ss_values := (ss_values s)(k \<mapsto> v), ss_hash := (ss_hash s)(k \<mapsto> Open),
       ss_items := ss_items s @ [k], ss_indexes := (ss_indexes s)(k \<mapsto> ?n)\<rparr>"
    have e: "ss_add k v s = ss_bubbleUp ?n ?t" using False by (simp add: ss_add_def Let_def)
    have idx: "ss_indexes ?t j = Some i \<longleftrightarrow> i < length (ss_items ?t) \<and> ss_items ?t ! i = j" for j i
      using D(2) nmem by (auto simp: nth_append less_Suc_eq)
    have ok': "ss_ok ?t" unfolding ss_ok_def using idx D(1,3,4) nmem by auto
    have "pq_of ?t = \<lparr>pq_data = pq_data (pq_of s) @ [\<lparr>priority = v, value_of = k, id_of = Some k\<rparr>],
        pq_index = (pq_index (pq_of s))(k \<mapsto> ?n)\<rparr>"
      using nmem by (auto simp: pq_of_def ss_value_def)
    then have "bubbleUp less_cmp ?n (pq_of ?t) = insert_pq less_cmp v k k (pq_of s)"
      using k by (simp add: insert_pq_def Let_def index_put_def pq_of_sel(1))
    then show ?thesis using False e pq_of_bubbleUp[OF ok', of ?n] ss_bubbleUp_ok[OF ok', of ?n] by simp
  qed
  then show "pq_of (ss_add k v s) =
      (if ss_isOpen k s then the (updatePriority less_cmp k v (pq_of s)) else insert_pq less_cmp v k k (pq_of s))"
    "ss_ok (ss_add k v s)" "set (ss_items (ss_add k v s)) = insert k (set (ss_items s))" by auto
qed

lemma ss_heap_add:
  assumes h: "ss_heap s" and k: "k \<noteq> []"
  shows "ss_heap (ss_add k v s)"
proof -
  note q = ss_heap_queue_ok[OF h]
  have "heap_ok less_cmp (pq_data (pq_of (ss_add k v s)))"
  proof (cases "ss_isOpen k s")
    case True
    then obtain c where "ss_indexes s k = Some c"
      using h ss_okD(2,3)[of s] by (auto simp: ss_heap_def ss_isOpen_def in_set_conv_nth)
    then obtain q' where u: "updatePriority less_cmp k v (pq_of s) = Some q'"
      by (simp add: updatePriority_def pq_of_sel(2) Let_def)
    then show ?thesis
      using less.updatePriority_heap[OF _ _ u] q True pq_of_add(1)[OF h k, of v] by (simp add: queue_ok_def)
  next
    case False
    then show ?thesis using less.insert_heap[of "pq_of s" v k k] q pq_of_add(1)[OF h k, of v]
      by (simp add: queue_ok_def)
  qed
  then show ?thesis using pq_of_add(2,3)[OF h k, of v] h k by (auto simp: ss_heap_def)
qed

lemma pq_of_pop:
  assumes h: "ss_heap s"
  shows "fst (ss_pop s) = fst (remove less_cmp (pq_of s))"
    and "pq_of (snd (ss_pop s)) = snd (remove less_cmp (pq_of s))"
    and "ss_ok (snd (ss_pop s))"
    and "set (ss_items (snd (ss_pop s))) = set (ss_items s) - set_option (fst (ss_pop s))"
proof -
  have ok: "ss_ok s" using h by (simp add: ss_heap_def)
  note D = ss_okD[OF ok]
  have "fst (ss_pop s) = fst (remove less_cmp (pq_of s)) \<and>
    pq_of (snd (ss_pop s)) = snd (remove less_cmp (pq_of s)) \<and> ss_ok (snd (ss_pop s)) \<and>
    set (ss_items (snd (ss_pop s))) = set (ss_items s) - set_option (fst (ss_pop s))"
  proof (cases "ss_items s" rule: rev_cases)
    case Nil
    then show ?thesis using ok by (simp add: ss_pop_def remove_def pq_of_def)
  next
    case (snoc ys y)
    show ?thesis
    proof (cases ys)
      case Nil
      let ?t = "s\<lparr>ss_hash := (ss_hash s)(y \<mapsto> Close), ss_items := [], ss_indexes := (ss_indexes s)(y := None)\<rparr>"
      have p: "ss_pop s = (Some y, ?t)" using snoc Nil by (simp add: ss_pop_def Let_def)
      have ix: "ss_indexes s k = None" if ky: "k \<noteq> y" for k
      proof (cases "ss_indexes s k")
        case (Some i)
        then have "i < length (ss_items s) \<and> ss_items s ! i = k" using D(2)[of k i] by blast
        then show ?thesis using ky snoc Nil by (cases i) simp_all
      qed
      have "ss_ok ?t" using D(3) ix snoc Nil by (auto simp: ss_ok_def)
      then show ?thesis unfolding p using snoc Nil by (simp add: remove_def pq_of_def Let_def)
    next
      case (Cons x xs)
      have items: "ss_items s = x # xs @ [y]" using snoc Cons by simp
      have dist: "x \<noteq> y" "x \<notin> set xs" "y \<notin> set xs" "distinct xs" using D(1) items by auto
      let ?t = "s\<lparr>ss_hash := (ss_hash s)(x \<mapsto> Close), ss_items := y # xs,
         ss_indexes := (ss_indexes s)(x := None, y \<mapsto> 0)\<rparr>"
      have p: "ss_pop s = (Some x, ss_bubbleDown 0 ?t)" using items by (simp add: ss_pop_def Let_def)
      have idx: "ss_indexes ?t k = Some i \<longleftrightarrow> i < length (ss_items ?t) \<and> ss_items ?t ! i = k" for k i
      proof -
        consider "k = y" | "k = x" | "k \<noteq> x" "k \<noteq> y" by blast
        then show ?thesis
        proof cases
          case 1
          then show ?thesis using dist(3) by (cases i) auto
        next
          case 2
          then have "k \<notin> set (y # xs)" using dist by auto
          then have "\<not> (i < length (y # xs) \<and> (y # xs) ! i = k)" by (metis nth_mem)
          then show ?thesis using 2 dist(1) by simp
        next
          case 3
          then have "ss_indexes ?t k = ss_indexes s k" by simp
          moreover have "ss_indexes s k = Some i \<longleftrightarrow> i < Suc (Suc (length xs)) \<and> (x # xs @ [y]) ! i = k"
            using D(2)[of k i] items by simp
          moreover have "i < Suc (Suc (length xs)) \<and> (x # xs @ [y]) ! i = k \<longleftrightarrow> i < Suc (length xs) \<and> (y # xs) ! i = k"
            using 3 by (cases i) (auto simp: nth_append less_Suc_eq)
          ultimately show ?thesis by simp
        qed
      qed
      have okt: "ss_ok ?t" unfolding ss_ok_def using idx D(3,4) items dist by auto
      have v: "ss_value ?t = ss_value s" by (auto simp: ss_value_def)
      have "remove less_cmp (pq_of s) = (Some x, bubbleDown less_cmp 0 (pq_of ?t))"
        using items by (simp add: remove_def pq_of_def Let_def v index_put_def butlast_append)
      then show ?thesis unfolding p
        using pq_of_bubbleDown[OF okt, of 0] ss_bubbleDown_ok[OF okt, of 0] items dist by auto
    qed
  qed
  then show "fst (ss_pop s) = fst (remove less_cmp (pq_of s))"
    "pq_of (snd (ss_pop s)) = snd (remove less_cmp (pq_of s))" "ss_ok (snd (ss_pop s))"
    "set (ss_items (snd (ss_pop s))) = set (ss_items s) - set_option (fst (ss_pop s))" by auto
qed

lemma ss_heap_pop: "ss_heap s \<Longrightarrow> ss_heap (snd (ss_pop s))"
  using pq_of_pop[of s] less.remove_heap[of "pq_of s"] by (auto simp: ss_heap_def)

lemma ss_heap_new: "ss_heap new_SortedSet"
  by (simp add: ss_heap_def ss_ok_def new_SortedSet_def pq_of_def heap_ok_def heap_but_def)

text \<open>The item taken has a least value.\<close>

lemma ss_pop_min:
  assumes h: "ss_heap s" and p: "ss_pop s = (Some k, s')" and j: "j \<in> set (ss_items s)"
  shows "ss_value s k \<le> ss_value s j"
proof -
  have q: "queue_ok less_cmp (pq_of s)" by (rule ss_heap_queue_ok[OF h])
  have ne: "ss_items s \<noteq> []" using j by auto
  then have k: "k = ss_items s ! 0" using p by (auto simp: ss_pop_def Let_def split: list.splits if_splits)
  obtain i where i: "i < length (ss_items s)" "ss_items s ! i = j" using j by (auto simp: in_set_conv_nth)
  have "no_later less_cmp (pq_data (pq_of s) ! 0) (pq_data (pq_of s) ! i)"
    using less.heap_root[of "pq_data (pq_of s)" i] q i by (simp add: queue_ok_def pq_of_sel)
  then show ?thesis using i k ne by (simp add: no_later_def pq_of_sel)
qed

text \<open>What adding and taking do to the marks.\<close>

lemma ss_hash_add:
  assumes "ss_heap s"
  shows "ss_hash (ss_add k v s) = (ss_hash s)(k \<mapsto> Open)"
proof -
  have ok: "ss_ok s" using assms by (simp add: ss_heap_def)
  note D = ss_okD[OF ok]
  show ?thesis
  proof (cases "ss_isOpen k s")
    case True
    then obtain c where c: "c < length (ss_items s)" "ss_indexes s k = Some c"
      using D(2,3) by (auto simp: ss_isOpen_def in_set_conv_nth)
    let ?s = "s\<lparr>ss_values := (ss_values s)(k \<mapsto> v)\<rparr>"
    have okv: "ss_ok ?s" using ok by (auto simp: ss_ok_def)
    have "ss_hash (ss_add k v s) = ss_hash s"
      using True c ss_bubbleUp_ok[OF okv, of c] ss_bubbleDown_ok[of "ss_bubbleUp c ?s" c]
      by (simp add: ss_add_def Let_def)
    then show ?thesis using True by (auto simp: ss_isOpen_def)
  next
    case False
    let ?n = "length (ss_items s)"
    let ?t = "s\<lparr>ss_values := (ss_values s)(k \<mapsto> v), ss_hash := (ss_hash s)(k \<mapsto> Open),
       ss_items := ss_items s @ [k], ss_indexes := (ss_indexes s)(k \<mapsto> ?n)\<rparr>"
    have nmem: "k \<notin> set (ss_items s)" using D(3) False by (simp add: ss_isOpen_def)
    have idx: "ss_indexes ?t j = Some i \<longleftrightarrow> i < length (ss_items ?t) \<and> ss_items ?t ! i = j" for j i
      using D(2) nmem by (auto simp: nth_append less_Suc_eq)
    have ok': "ss_ok ?t" unfolding ss_ok_def using idx D(1,3,4) nmem by auto
    then show ?thesis using False ss_bubbleUp_ok[OF ok', of ?n] by (simp add: ss_add_def Let_def)
  qed
qed

lemma ss_bubbleDown_hash: "ss_hash (ss_bubbleDown i s) = ss_hash s"
  by (induction i s rule: ss_bubbleDown.induct) (subst ss_bubbleDown.simps, simp add: Let_def)

lemma ss_pop_hash: "ss_pop s = (Some k, s') \<Longrightarrow> ss_hash s' = (ss_hash s)(k \<mapsto> Close)"
  by (auto simp: ss_pop_def Let_def ss_bubbleDown_hash split: list.splits if_splits)

lemma ss_pop_mem: "ss_pop s = (Some k, s') \<Longrightarrow> k \<in> set (ss_items s)"
  by (auto simp: ss_pop_def Let_def split: list.splits)

section \<open>Property\<close>

text \<open>A run of the set: keys added with values, and pops.\<close>

datatype 'v ss_op = SsAdd string 'v | SsPop

fun ss_run :: "'v::linorder ss_op list \<Rightarrow> (string, 'v) sset \<Rightarrow> (string, 'v) sset" where
  "ss_run [] s = s"
| "ss_run (SsAdd k v # ops) s = ss_run ops (ss_add k v s)"
| "ss_run (SsPop # ops) s = ss_run ops (snd (ss_pop s))"

fun keys_named :: "'v ss_op \<Rightarrow> bool" where
  "keys_named (SsAdd k v) \<longleftrightarrow> k \<noteq> []"
| "keys_named SsPop \<longleftrightarrow> True"

text \<open>The same run on the priority queue, which is told apart from the set by its interface only:
  a key that is present is updated, another one inserted.\<close>

fun pq_run :: "'v::linorder ss_op list \<Rightarrow> ('v, string) pqueue \<Rightarrow> ('v, string) pqueue" where
  "pq_run [] q = q"
| "pq_run (SsAdd k v # ops) q =
     pq_run ops (case updatePriority less_cmp k v q of None \<Rightarrow> insert_pq less_cmp v k k q | Some q' \<Rightarrow> q')"
| "pq_run (SsPop # ops) q = pq_run ops (snd (remove less_cmp q))"

lemma pq_of_add_case:
  assumes h: "ss_heap s" and k: "k \<noteq> []"
  shows "pq_of (ss_add k v s) =
    (case updatePriority less_cmp k v (pq_of s) of None \<Rightarrow> insert_pq less_cmp v k k (pq_of s) | Some q' \<Rightarrow> q')"
proof -
  have "ss_isOpen k s \<longleftrightarrow> ss_indexes s k \<noteq> None"
    using h ss_okD(2,3)[of s] by (fastforce simp: ss_heap_def ss_isOpen_def in_set_conv_nth)
  then have "ss_isOpen k s \<longleftrightarrow> updatePriority less_cmp k v (pq_of s) \<noteq> None"
    by (auto simp: updatePriority_def pq_of_sel(2) Let_def split: option.splits)
  then show ?thesis using pq_of_add(1)[OF h k, of v] by (auto split: option.splits)
qed

lemma ss_run_pq:
  "ss_heap s \<Longrightarrow> list_all keys_named ops \<Longrightarrow> ss_heap (ss_run ops s) \<and> pq_of (ss_run ops s) = pq_run ops (pq_of s)"
proof (induction ops s rule: ss_run.induct)
  case (2 k v ops s)
  then show ?case using ss_heap_add[of s k v] pq_of_add_case[of s k v] by simp
next
  case (3 ops s)
  then show ?case using ss_heap_pop[of s] pq_of_pop(2)[of s] by simp
qed simp

text \<open>C12: The open set of the router and the priority queue of the shortest-path search are the same
  heap: after any sequence of additions and pops they hold the same array and positions, although
  the set sifts a changed item up and then down where the queue compares first; and every pop
  returns an open item of least value and closes it.\<close>
theorem sorted_set_is_priority_queue:
  assumes "list_all keys_named ops"
  shows "pq_of (ss_run ops new_SortedSet) = pq_run ops (pq_of new_SortedSet) \<and>
    (\<forall>k s'. ss_pop (ss_run ops new_SortedSet) = (Some k, s') \<longrightarrow>
       ss_isOpen k (ss_run ops new_SortedSet) \<and> \<not> ss_isOpen k s' \<and>
       (\<forall>j. ss_isOpen j (ss_run ops new_SortedSet) \<longrightarrow>
          ss_value (ss_run ops new_SortedSet) k \<le> ss_value (ss_run ops new_SortedSet) j))"
proof -
  let ?s = "ss_run ops new_SortedSet"
  note r = ss_run_pq[OF ss_heap_new assms]
  have op: "ss_isOpen j t \<longleftrightarrow> j \<in> set (ss_items t)" if "ss_ok t" for j and t :: "(string, 'a) sset"
    using ss_okD(3)[OF that] by (simp add: ss_isOpen_def)
  have "ss_isOpen k ?s \<and> \<not> ss_isOpen k s' \<and>
       (\<forall>j. ss_isOpen j ?s \<longrightarrow> ss_value ?s k \<le> ss_value ?s j)" if p: "ss_pop ?s = (Some k, s')" for k s'
  proof -
    have ok: "ss_ok ?s" "ss_ok s'" using r pq_of_pop(3)[of ?s] p by (auto simp: ss_heap_def)
    have "k \<in> set (ss_items ?s)" using p by (auto simp: ss_pop_def Let_def split: list.splits)
    moreover have "k \<notin> set (ss_items s')" using pq_of_pop(4)[of ?s] r p by simp
    ultimately show ?thesis using op ok ss_pop_min[OF _ p] r by blast
  qed
  then show ?thesis using r by blast
qed

lemma sorted_set_is_priority_queue_witness:
  "pq_of (ss_run [SsAdd ''a'' 3, SsAdd ''b'' 1, SsAdd ''a'' (0 :: int)] new_SortedSet) =
     pq_run [SsAdd ''a'' 3, SsAdd ''b'' 1, SsAdd ''a'' 0] (pq_of new_SortedSet) \<and>
   fst (ss_pop (ss_run [SsAdd ''a'' 3, SsAdd ''b'' 1, SsAdd ''a'' (0 :: int)] new_SortedSet)) = Some ''a''"
proof -
  have "list_all keys_named [SsAdd ''a'' 3, SsAdd ''b'' 1, SsAdd ''a'' (0 :: int)]" by simp
  note sorted_set_is_priority_queue[OF this]
  moreover have "fst (ss_pop (ss_run [SsAdd ''a'' 3, SsAdd ''b'' 1, SsAdd ''a'' (0 :: int)] new_SortedSet)) = Some ''a''"
    by code_simp
  ultimately show ?thesis by blast
qed

end
