(* ===== verification/Router.thy ===== *)
theory Router
  imports Obstacle_Map Sorted_Set Complex_Main
begin

text \<open>
  The search of the manhattan router (registry/router/manhattan/util.js and router.js): a best-first
  search over a grid that is stretched so that it meets both end points. Points are counted in
  tenths of a pixel, to which the code rounds every point of the search; sizes of the stretched
  grid are rational numbers, where the code has floating point numbers. The points the search may
  start and end at are arguments (the code takes them where rays from the anchors leave the end
  boxes), and the four directions are those of the default options, so that angles are multiples
  of 90.
\<close>

section \<open>Points as keys\<close>

text \<open>The number a count of tenths stands for, as JavaScript prints it, and the JSON text of a point.\<close>

definition tenths_string :: "int \<Rightarrow> string" where
  "tenths_string t =
     (if t mod 10 = 0 then num_string (t div 10)
      else (if t < 0 then ''-'' else []) @ nat_digits (nat (\<bar>t\<bar> div 10)) @ ''.'' @ nat_digits (nat (\<bar>t\<bar> mod 10)))"

definition quoted :: "string \<Rightarrow> string" where
  "quoted s = CHR 0x22 # s @ [CHR 0x22]"

definition getKey :: "point \<Rightarrow> string" where
  "getKey p = ''{'' @ quoted ''x'' @ '':'' @ tenths_string (fst p) @ '','' @ quoted ''y'' @ '':'' @
     tenths_string (snd p) @ ''}''"

section \<open>The stretched grid\<close>

record grid =
  gr_source :: point
  gr_x :: rat
  gr_y :: rat

text \<open>\<open>Math.round\<close>, and rounding to tenths, which takes halves away from zero.\<close>

definition math_round :: "rat \<Rightarrow> int" where
  "math_round r = \<lfloor>r + 1 / 2\<rfloor>"

definition round_tenth :: "rat \<Rightarrow> int" where
  "round_tenth r = (if r < 0 then - \<lfloor>- r + 1 / 2\<rfloor> else \<lfloor>r + 1 / 2\<rfloor>)"

definition getGridDimension :: "int \<Rightarrow> int \<Rightarrow> rat" where
  "getGridDimension diff step =
     (if diff = 0 then of_int step
      else (let ab = \<bar>diff\<bar>; count = math_round (of_int ab / of_int step)
            in if count = 0 then of_int ab
               else (let roundedDiff = count * step; remainder = ab - roundedDiff;
                         correction = of_int remainder / of_int count
                     in of_int step + correction)))"

definition getGrid :: "int \<Rightarrow> point \<Rightarrow> point \<Rightarrow> grid" where
  "getGrid step source target =
     \<lparr>gr_source = source, gr_x = getGridDimension (fst target - fst source) step,
      gr_y = getGridDimension (snd target - snd source) step\<rparr>"

definition snap_rat :: "rat \<Rightarrow> rat \<Rightarrow> rat" where
  "snap_rat v g = g * of_int (math_round (v / g))"

definition snapGrid :: "rat \<times> rat \<Rightarrow> grid \<Rightarrow> rat \<times> rat" where
  "snapGrid p g =
     (let sx = of_int (fst (gr_source g)); sy = of_int (snd (gr_source g))
      in (snap_rat (fst p - sx) (gr_x g) + sx, snap_rat (snd p - sy) (gr_y g) + sy))"

definition util_align :: "rat \<times> rat \<Rightarrow> grid \<Rightarrow> point" where
  "util_align p g = (case snapGrid p g of (x, y) \<Rightarrow> (round_tenth x, round_tenth y))"

section \<open>Directions\<close>

record direction =
  d_angle :: int
  d_offsetX :: int
  d_offsetY :: int
  d_cost :: int

definition directions :: "int \<Rightarrow> direction list" where
  "directions step =
     [\<lparr>d_angle = 0, d_offsetX = step, d_offsetY = 0, d_cost = step\<rparr>,
      \<lparr>d_angle = 180, d_offsetX = - step, d_offsetY = 0, d_cost = step\<rparr>,
      \<lparr>d_angle = 270, d_offsetX = 0, d_offsetY = step, d_cost = step\<rparr>,
      \<lparr>d_angle = 90, d_offsetX = 0, d_offsetY = - step, d_cost = step\<rparr>]"

text \<open>The penalty table has the changes 0, 45 and 90. A change of 180 is only followed from the start
  point of the first route, where the penalty is not looked up, unless the option
  \<open>maxDirectionChange\<close> is set above 90. The step is an even number of tenths.\<close>

definition penalties :: "int \<Rightarrow> int \<Rightarrow> int" where
  "penalties step change = (if change = 0 then 0 else step div 2)"

definition gridOffset :: "int \<Rightarrow> grid \<Rightarrow> direction \<Rightarrow> rat \<times> rat" where
  "gridOffset step g d =
     (of_int (d_offsetX d) / of_int step * gr_x g, of_int (d_offsetY d) / of_int step * gr_y g)"

definition neighbor :: "int \<Rightarrow> grid \<Rightarrow> point \<Rightarrow> direction \<Rightarrow> point" where
  "neighbor step g p d =
     (case gridOffset step g d of (ox, oy) \<Rightarrow> util_align (of_int (fst p) + ox, of_int (snd p) + oy) g)"

definition fixAngleEnd :: "int \<Rightarrow> grid \<Rightarrow> point \<Rightarrow> point \<Rightarrow> rat \<times> rat" where
  "fixAngleEnd step g start en =
     (of_int (fst en - fst start) / gr_x g * of_int step, of_int (snd en - snd start) / gr_y g * of_int step)"

text \<open>The multiple of 90 whose quadrant holds the angle of a vector; the y axis points down.\<close>

definition quadrant :: "rat \<Rightarrow> rat \<Rightarrow> int" where
  "quadrant dx dy =
     (let x = dx; y = - dy in
      if x = 0 \<and> y = 0 then 0
      else if - x \<le> y \<and> y < x then 0
      else if x \<le> y \<and> - y < x then 90
      else if x < y \<and> y \<le> - x then 180
      else 270)"

definition getDirectionAngle :: "int \<Rightarrow> grid \<Rightarrow> point \<Rightarrow> point \<Rightarrow> int" where
  "getDirectionAngle step g start en = (case fixAngleEnd step g start en of (dx, dy) \<Rightarrow> quadrant dx dy)"

definition getDirectionChange :: "int \<Rightarrow> int \<Rightarrow> int" where
  "getDirectionChange a1 a2 = (let change = \<bar>a1 - a2\<bar> in if change > 180 then 360 - change else change)"

definition manhattanDistance :: "point \<Rightarrow> point \<Rightarrow> int" where
  "manhattanDistance p q = \<bar>fst q - fst p\<bar> + \<bar>snd q - snd p\<bar>"

text \<open>The least distance to an anchor; None is \<open>Infinity\<close>.\<close>

definition getCost :: "point \<Rightarrow> point list \<Rightarrow> int option" where
  "getCost from anchors =
     foldl (\<lambda>mn a. let dist = manhattanDistance from a in
       case mn of None \<Rightarrow> Some dist | Some m \<Rightarrow> Some (if dist < m then dist else m)) None anchors"

section \<open>Reading the route off the parents\<close>

definition util_normalizePoint :: "point \<Rightarrow> point" where
  "util_normalizePoint p = (sgn (fst p), sgn (snd p))"

definition dir :: "point \<Rightarrow> point \<Rightarrow> point" where
  "dir p q = util_normalizePoint (fst q - fst p, snd q - snd p)"

fun reconstruct_loop :: "nat \<Rightarrow> (string \<rightharpoonup> point) \<Rightarrow> (string \<rightharpoonup> point) \<Rightarrow> string \<Rightarrow> point \<Rightarrow> point list \<Rightarrow>
    (string \<times> point \<times> point list) option" where
  "reconstruct_loop n parents points currentKey prevDiff route =
     (case parents currentKey of
        None \<Rightarrow> Some (currentKey, prevDiff, route)
      | Some parent \<Rightarrow>
          (case n of
             0 \<Rightarrow> None
           | Suc n' \<Rightarrow>
               (let point = the (points currentKey); diff = dir parent point
                in if diff \<noteq> prevDiff
                   then reconstruct_loop n' parents points (getKey parent) diff (point # route)
                   else reconstruct_loop n' parents points (getKey parent) prevDiff route)))"

declare reconstruct_loop.simps [simp del]

definition reconstructRoute :: "nat \<Rightarrow> (string \<rightharpoonup> point) \<Rightarrow> (string \<rightharpoonup> point) \<Rightarrow> point \<Rightarrow> point \<Rightarrow> point \<Rightarrow>
    point list option" where
  "reconstructRoute n parents points tailPoint from to =
     (case reconstruct_loop n parents points (getKey tailPoint) (dir tailPoint to) [] of
        None \<Rightarrow> None
      | Some (currentKey, prevDiff, route) \<Rightarrow>
          (let leadPoint = the (points currentKey)
           in Some (if dir from leadPoint \<noteq> prevDiff then leadPoint # route else route)))"

section \<open>The search\<close>

record renv =
  re_step :: int
  re_maxLoopCount :: nat
  re_maxDirectionChange :: int
  re_previousDirectionAngle :: "int option option"
  re_map :: omap
  re_grid :: grid
  re_startPoint :: point
  re_endPoint :: point
  re_startPoints :: "point list"
  re_endPoints :: "point list"

record rsearch =
  rs_open :: "(string, int) sset"
  rs_points :: "string \<rightharpoonup> point"
  rs_parents :: "string \<rightharpoonup> point"
  rs_costs :: "string \<rightharpoonup> int"

definition add_start :: "renv \<Rightarrow> point \<Rightarrow> rsearch \<Rightarrow> rsearch" where
  "add_start env p s =
     (let key = getKey p
      in s\<lparr>rs_open := ss_add key (the (getCost p (re_endPoints env))) (rs_open s),
           rs_points := (rs_points s)(key \<mapsto> p), rs_costs := (rs_costs s)(key \<mapsto> 0)\<rparr>)"

definition search_init :: "renv \<Rightarrow> rsearch" where
  "search_init env =
     fold (add_start env) (re_startPoints env)
       \<lparr>rs_open = new_SortedSet, rs_points = Map.empty, rs_parents = Map.empty, rs_costs = Map.empty\<rparr>"

definition endPointsKeys :: "renv \<Rightarrow> string list" where
  "endPointsKeys env = map getKey (re_endPoints env)"

definition previous_angle :: "renv \<Rightarrow> point \<Rightarrow> point option \<Rightarrow> int option" where
  "previous_angle env currentPoint currentParent =
     (case currentParent of
        Some parent \<Rightarrow> Some (getDirectionAngle (re_step env) (re_grid env) parent currentPoint)
      | None \<Rightarrow>
          (case re_previousDirectionAngle env of
             Some a \<Rightarrow> a
           | None \<Rightarrow>
               if currentPoint \<noteq> re_startPoint env
               then Some (getDirectionAngle (re_step env) (re_grid env) (re_startPoint env) currentPoint)
               else None))"

text \<open>Whether the search turns away from a neighbour, and what it costs to go there.\<close>

definition skip_neighbor :: "renv \<Rightarrow> rsearch \<Rightarrow> point \<Rightarrow> int option \<Rightarrow> direction \<Rightarrow> bool" where
  "skip_neighbor env s currentPoint prev d =
     (let change = (case prev of None \<Rightarrow> 0 | Some a \<Rightarrow> getDirectionChange a (d_angle d));
          np = neighbor (re_step env) (re_grid env) currentPoint d; nk = getKey np
      in (\<not> (re_previousDirectionAngle env = None \<and> currentPoint = re_startPoint env) \<and>
            change > re_maxDirectionChange env) \<or>
         ss_isClose nk (rs_open s) \<or> \<not> isAccessible (re_map env) np \<or>
         (nk \<in> set (endPointsKeys env) \<and> np \<noteq> re_endPoint env \<and>
          getDirectionChange (d_angle d)
            (getDirectionAngle (re_step env) (re_grid env) np (re_endPoint env)) > re_maxDirectionChange env))"

definition neighbor_cost :: "renv \<Rightarrow> point \<Rightarrow> int \<Rightarrow> int option \<Rightarrow> direction \<Rightarrow> int" where
  "neighbor_cost env currentPoint currentCost prev d =
     (let change = (case prev of None \<Rightarrow> 0 | Some a \<Rightarrow> getDirectionChange a (d_angle d));
          penalty = (if currentPoint = re_startPoint env then 0 else penalties (re_step env) change)
      in currentCost + d_cost d + penalty)"

definition relax_direction :: "renv \<Rightarrow> point \<Rightarrow> int \<Rightarrow> int option \<Rightarrow> direction \<Rightarrow> rsearch \<Rightarrow> rsearch" where
  "relax_direction env currentPoint currentCost prev d s =
     (if skip_neighbor env s currentPoint prev d then s
      else (let np = neighbor (re_step env) (re_grid env) currentPoint d; nk = getKey np;
                costFromStart = neighbor_cost env currentPoint currentCost prev d
            in if \<not> ss_isOpen nk (rs_open s) \<or> costFromStart < the (rs_costs s nk)
               then s\<lparr>rs_points := (rs_points s)(nk \<mapsto> np), rs_parents := (rs_parents s)(nk \<mapsto> currentPoint),
                      rs_costs := (rs_costs s)(nk \<mapsto> costFromStart),
                      rs_open := ss_add nk (costFromStart + the (getCost np (re_endPoints env))) (rs_open s)\<rparr>
               else s))"

datatype outcome = Found point rsearch "int option" | NotFound rsearch

fun route_loop :: "nat \<Rightarrow> renv \<Rightarrow> rsearch \<Rightarrow> outcome" where
  "route_loop 0 env s = NotFound s"
| "route_loop (Suc loopsRemaining) env s =
     (case ss_pop (rs_open s) of
        (None, op) \<Rightarrow> NotFound s
      | (Some currentKey, op) \<Rightarrow>
          (let s = s\<lparr>rs_open := op\<rparr>; currentPoint = the (rs_points s currentKey);
               currentParent = rs_parents s currentKey; currentCost = the (rs_costs s currentKey);
               prev = previous_angle env currentPoint currentParent;
               skipEndCheck = (currentParent = None \<and> re_startPoints env = re_endPoints env)
           in if \<not> skipEndCheck \<and> currentKey \<in> set (endPointsKeys env) then Found currentPoint s prev
              else route_loop loopsRemaining env
                     (fold (relax_direction env currentPoint currentCost prev) (directions (re_step env)) s)))"

text \<open>\<open>findRoute\<close> from the inaccessible candidates on. The outer option is the bound on reading
  back the route; the result is the route and the direction it ends in.\<close>

definition findRoute :: "renv \<Rightarrow> (point list \<times> int option) option option" where
  "findRoute env0 =
     (let env = env0\<lparr>re_startPoints := filter (isAccessible (re_map env0)) (re_startPoints env0),
                     re_endPoints := filter (isAccessible (re_map env0)) (re_endPoints env0)\<rparr>
      in if re_startPoints env = [] \<or> re_endPoints env = [] then Some None
         else (case route_loop (re_maxLoopCount env) env (search_init env) of
                 NotFound s \<Rightarrow> Some None
               | Found p s prev \<Rightarrow>
                   (case reconstructRoute (re_maxLoopCount env) (rs_parents s) (rs_points s) p
                           (re_startPoint env) (re_endPoint env) of
                      None \<Rightarrow> None
                    | Some route \<Rightarrow> Some (Some (route, prev)))))"

section \<open>Snapping the vertices\<close>

text \<open>\<open>router_snap\<close>: pairs of neighbouring vertices on one line are moved to the grid together.\<close>

definition snap_to :: "int \<Rightarrow> int \<Rightarrow> int" where
  "snap_to gridSize v = gridSize * math_round (of_int v / of_int gridSize)"

fun router_snap :: "int \<Rightarrow> point list \<Rightarrow> point list" where
  "router_snap g [] = []"
| "router_snap g [p] = [p]"
| "router_snap g (p # q # ps) =
     (if fst p = fst q then (snap_to g (fst p), snd p) # router_snap g ((snap_to g (fst p), snd q) # ps)
      else if snd p = snd q then (fst p, snap_to g (snd p)) # router_snap g ((fst q, snap_to g (snd p)) # ps)
      else p # router_snap g (q # ps))"

end
