(* ===== verification/Router_Laws.thy ===== *)
theory Router_Laws
  imports Router
begin

text \<open>
  The search of the manhattan router always ends with an answer, and the routes it finds are the
  bends of a path of grid steps through accessible points.
\<close>

section \<open>Keys determine points\<close>

lemma split_first:
  "c \<notin> set a \<Longrightarrow> c \<notin> set b \<Longrightarrow> a @ c # s = b @ c # t \<longleftrightarrow> a = b \<and> s = t"
proof (induction a arbitrary: b)
  case Nil
  then show ?case by (cases b) auto
next
  case (Cons x a)
  then show ?case by (cases b) auto
qed

lemma nat_digits_free_of: "c \<in> {CHR '','', CHR ''.'', CHR ''-''} \<Longrightarrow> c \<notin> set (nat_digits n)"
  by (rule nat_digits_free) auto

lemma tenths_string_no_comma: "CHR '','' \<notin> set (tenths_string t)"
  using nat_digits_free_of[of "CHR '',''"] by (auto simp: tenths_string_def num_string_def)

lemma num_string_no_dot: "CHR ''.'' \<notin> set (num_string n)"
  using nat_digits_free_of[of "CHR ''.''"] by (auto simp: num_string_def)

lemma dot_split:
  "nat_digits a @ CHR ''.'' # s = nat_digits b @ CHR ''.'' # t \<longleftrightarrow> a = b \<and> s = t"
proof -
  have "nat_digits a @ CHR ''.'' # s = nat_digits b @ CHR ''.'' # t \<longleftrightarrow> nat_digits a = nat_digits b \<and> s = t"
    by (rule split_first) (rule nat_digits_free_of; simp)+
  then show ?thesis using nat_digits_inj by blast
qed

lemma minus_digits: "CHR ''-'' # s \<noteq> nat_digits a @ t"
  using nat_digits_free_of[of "CHR ''-''" a] by (cases "nat_digits a") auto

lemma tenths_string_inj:
  assumes "tenths_string s = tenths_string t"
  shows "s = t"
proof -
  have dot: "CHR ''.'' \<in> set (tenths_string v) \<longleftrightarrow> v mod 10 \<noteq> 0" for v
    using num_string_no_dot by (auto simp: tenths_string_def)
  show ?thesis
  proof (cases "s mod 10 = 0")
    case True
    then have t: "t mod 10 = 0" using dot[of s] dot[of t] assms by simp
    have "num_string (s div 10) = num_string (t div 10)" using assms True t by (simp add: tenths_string_def)
    then have "s div 10 = t div 10" by (rule num_string_inj)
    then show ?thesis using True t by (metis mult_div_mod_eq)
  next
    case False
    then have t: "t mod 10 \<noteq> 0" using dot[of s] dot[of t] assms by simp
    have e: "(if s < 0 then ''-'' else []) @ nat_digits (nat (\<bar>s\<bar> div 10)) @ CHR ''.'' # nat_digits (nat (\<bar>s\<bar> mod 10)) =
      (if t < 0 then ''-'' else []) @ nat_digits (nat (\<bar>t\<bar> div 10)) @ CHR ''.'' # nat_digits (nat (\<bar>t\<bar> mod 10))"
      using assms False t by (simp add: tenths_string_def)
    have sg: "s < 0 \<longleftrightarrow> t < 0"
      using e minus_digits by (cases "s < 0"; cases "t < 0") (auto dest: sym)
    then have "nat (\<bar>s\<bar> div 10) = nat (\<bar>t\<bar> div 10)" "nat (\<bar>s\<bar> mod 10) = nat (\<bar>t\<bar> mod 10)"
      using e dot_split nat_digits_inj by (auto split: if_splits)
    then have "\<bar>s\<bar> = \<bar>t\<bar>" by (metis mult_div_mod_eq nat_0_le pos_imp_zdiv_nonneg_iff zero_less_numeral abs_ge_zero pos_mod_sign)
    then show ?thesis using sg by linarith
  qed
qed

lemma getKey_inj: "getKey p = getKey q \<Longrightarrow> p = q"
proof -
  assume "getKey p = getKey q"
  then have "tenths_string (fst p) @ CHR '','' # quoted ''y'' @ '':'' @ tenths_string (snd p) @ ''}'' =
     tenths_string (fst q) @ CHR '','' # quoted ''y'' @ '':'' @ tenths_string (snd q) @ ''}''"
    by (simp add: getKey_def quoted_def)
  then have "tenths_string (fst p) = tenths_string (fst q)" "tenths_string (snd p) = tenths_string (snd q)"
    unfolding split_first[OF tenths_string_no_comma tenths_string_no_comma] by auto
  then show ?thesis using tenths_string_inj by (metis prod.collapse)
qed

lemma getKey_ne: "getKey p \<noteq> []"
  by (simp add: getKey_def)

section \<open>Bends of a path\<close>

text \<open>The points of a path, seen from \<open>frm\<close>, at which the direction changes; the last one is
  compared with the direction \<open>fin\<close> the route goes on in.\<close>

fun bends :: "point \<Rightarrow> point list \<Rightarrow> point \<Rightarrow> point list" where
  "bends frm [] fin = []"
| "bends frm [p] fin = (if dir frm p \<noteq> fin then [p] else [])"
| "bends frm (p # q # ps) fin =
     (if dir frm p \<noteq> dir p q then [p] else []) @ bends p (q # ps) fin"

lemma bends_snoc:
  "bends frm (xs @ [q, p]) fin = bends frm (xs @ [q]) (dir q p) @ (if dir q p \<noteq> fin then [p] else [])"
proof (induction xs arbitrary: frm)
  case (Cons x xs)
  then show ?case by (cases xs) auto
qed simp

lemma set_bends: "set (bends frm ps fin) \<subseteq> set ps"
  by (induction frm ps fin rule: bends.induct) auto

section \<open>Paths through the parents\<close>

fun ranked :: "(string \<rightharpoonup> point) \<Rightarrow> string list \<Rightarrow> bool" where
  "ranked parents [] = True"
| "ranked parents (k # ks) \<longleftrightarrow>
     (\<forall>q. parents k = Some q \<longrightarrow> getKey q \<in> set ks) \<and> ranked parents ks"

definition grid_step :: "renv \<Rightarrow> point \<Rightarrow> point \<Rightarrow> bool" where
  "grid_step env p q \<longleftrightarrow> (\<exists>d \<in> set (directions (re_step env)). q = neighbor (re_step env) (re_grid env) p d)"

fun steps_ok :: "renv \<Rightarrow> point list \<Rightarrow> bool" where
  "steps_ok env (p # q # ps) \<longleftrightarrow> grid_step env p q \<and> steps_ok env (q # ps)"
| "steps_ok env _ = True"

lemma steps_ok_snoc: "steps_ok env (xs @ [q]) \<Longrightarrow> grid_step env q p \<Longrightarrow> steps_ok env (xs @ [q, p])"
proof (induction xs)
  case (Cons x xs)
  then show ?case by (cases xs) auto
qed simp

text \<open>The invariant of the search; the list of closed keys, the latest first, is a ghost.\<close>

definition search_ok :: "renv \<Rightarrow> string list \<Rightarrow> rsearch \<Rightarrow> bool" where
  "search_ok env cl s \<longleftrightarrow>
     ss_heap (rs_open s) \<and>
     (\<forall>k. ss_isClose k (rs_open s) \<longleftrightarrow> k \<in> set cl) \<and>
     (\<forall>k p. rs_points s k = Some p \<longrightarrow> getKey p = k \<and> isAccessible (re_map env) p) \<and>
     (\<forall>k \<in> set (ss_items (rs_open s)) \<union> set cl. rs_points s k \<noteq> None) \<and>
     (\<forall>k q. rs_parents s k = Some q \<longrightarrow> getKey q \<in> set cl \<and> rs_points s (getKey q) = Some q \<and>
        (\<exists>p. rs_points s k = Some p \<and> grid_step env q p)) \<and>
     (\<forall>k p. rs_points s k = Some p \<and> rs_parents s k = None \<longrightarrow> p \<in> set (re_startPoints env)) \<and>
     ranked (rs_parents s) cl"

lemma search_okD:
  assumes "search_ok env cl s"
  shows "ss_heap (rs_open s)" "\<And>k. ss_isClose k (rs_open s) \<longleftrightarrow> k \<in> set cl"
    "\<And>k p. rs_points s k = Some p \<Longrightarrow> getKey p = k" 
    "\<And>k p. rs_points s k = Some p \<Longrightarrow> isAccessible (re_map env) p"
    "\<And>k. k \<in> set (ss_items (rs_open s)) \<or> k \<in> set cl \<Longrightarrow> rs_points s k \<noteq> None"
    "\<And>k q. rs_parents s k = Some q \<Longrightarrow> getKey q \<in> set cl \<and> rs_points s (getKey q) = Some q \<and>
        (\<exists>p. rs_points s k = Some p \<and> grid_step env q p)"
    "\<And>k p. rs_points s k = Some p \<Longrightarrow> rs_parents s k = None \<Longrightarrow> p \<in> set (re_startPoints env)"
    "ranked (rs_parents s) cl"
  using assms unfolding search_ok_def by blast+

lemma search_okI:
  assumes "ss_heap (rs_open s)" "\<And>k. ss_isClose k (rs_open s) \<longleftrightarrow> k \<in> set cl"
    "\<And>k p. rs_points s k = Some p \<Longrightarrow> getKey p = k \<and> isAccessible (re_map env) p"
    "\<And>k. k \<in> set (ss_items (rs_open s)) \<or> k \<in> set cl \<Longrightarrow> rs_points s k \<noteq> None"
    "\<And>k q. rs_parents s k = Some q \<Longrightarrow> getKey q \<in> set cl \<and> rs_points s (getKey q) = Some q \<and>
        (\<exists>p. rs_points s k = Some p \<and> grid_step env q p)"
    "\<And>k p. rs_points s k = Some p \<Longrightarrow> rs_parents s k = None \<Longrightarrow> p \<in> set (re_startPoints env)"
    "ranked (rs_parents s) cl"
  shows "search_ok env cl s"
  using assms unfolding search_ok_def by blast

lemma ranked_upd: "nk \<notin> set cl \<Longrightarrow> ranked (parents(nk := v)) cl = ranked parents cl"
  by (induction cl) auto

lemma search_ok_relax:
  assumes ok: "search_ok env cl s" and cur: "getKey p \<in> set cl" "rs_points s (getKey p) = Some p"
    and d: "d \<in> set (directions (re_step env))"
  shows "search_ok env cl (relax_direction env p c prev d s) \<and> rs_points (relax_direction env p c prev d s) (getKey p) = Some p"
proof -
  note D = search_okD[OF ok]
  define np where "np = neighbor (re_step env) (re_grid env) p d"
  define nk where "nk = getKey np"
  show ?thesis
  proof (cases "skip_neighbor env s p prev d \<or>
      \<not> (\<not> ss_isOpen nk (rs_open s) \<or> neighbor_cost env p c prev d < the (rs_costs s nk))")
    case True
    then have "relax_direction env p c prev d s = s" by (auto simp: relax_direction_def Let_def np_def nk_def)
    then show ?thesis using ok cur by simp
  next
    case False
    define v where "v = neighbor_cost env p c prev d + the (getCost np (re_endPoints env))"
    define s' where "s' = s\<lparr>rs_points := (rs_points s)(nk \<mapsto> np), rs_parents := (rs_parents s)(nk \<mapsto> p),
                      rs_costs := (rs_costs s)(nk \<mapsto> neighbor_cost env p c prev d),
                      rs_open := ss_add nk v (rs_open s)\<rparr>"
    have e: "relax_direction env p c prev d s = s'"
      using False by (simp add: relax_direction_def Let_def np_def nk_def s'_def v_def)
    have ns: "\<not> skip_neighbor env s p prev d" using False by blast
    have ncl: "nk \<notin> set cl" and acc: "isAccessible (re_map env) np"
      using ns D(2)[of nk] by (auto simp: skip_neighbor_def Let_def np_def nk_def)
    have nkne: "nk \<noteq> []" by (simp add: nk_def getKey_ne)
    have pts: "((rs_points s)(nk \<mapsto> np)) k = rs_points s k" if nn: "rs_points s k \<noteq> None" for k
    proof (cases "k = nk")
      case True
      obtain q where q: "rs_points s k = Some q" using nn by auto
      then have "getKey q = getKey np" using D(3) True nk_def by simp
      then have "q = np" by (rule getKey_inj)
      then show ?thesis using q True by simp
    qed simp
    have ptsS: "((rs_points s)(nk \<mapsto> np)) k = Some q" if "rs_points s k = Some q" for k q
      using pts[of k] that by simp
    have step: "grid_step env p np" using d by (auto simp: grid_step_def np_def)
    have items: "set (ss_items (ss_add nk v (rs_open s))) = insert nk (set (ss_items (rs_open s)))"
      by (rule pq_of_add(3)[OF D(1) nkne])
    have par: "getKey q \<in> set cl \<and> ((rs_points s)(nk \<mapsto> np)) (getKey q) = Some q \<and>
        (\<exists>p'. ((rs_points s)(nk \<mapsto> np)) k = Some p' \<and> grid_step env q p')"
      if q: "((rs_parents s)(nk \<mapsto> p)) k = Some q" for k q
    proof (cases "k = nk")
      case True
      then have "q = p" using q by simp
      then show ?thesis using True cur ptsS[OF cur(2)] step by simp
    next
      case False
      then have "rs_parents s k = Some q" using q by simp
      from D(6)[OF this] obtain p' where "getKey q \<in> set cl" "rs_points s (getKey q) = Some q"
        "rs_points s k = Some p'" "grid_step env q p'" by blast
      then show ?thesis using ptsS by blast
    qed
    have s': "rs_open s' = ss_add nk v (rs_open s)" "rs_points s' = (rs_points s)(nk \<mapsto> np)"
      "rs_parents s' = (rs_parents s)(nk \<mapsto> p)" by (simp_all add: s'_def)
    have "search_ok env cl s'"
    proof (rule search_okI; unfold s')
      show "ss_heap (ss_add nk v (rs_open s))" by (rule ss_heap_add[OF D(1) nkne])
      show "ss_isClose k (ss_add nk v (rs_open s)) \<longleftrightarrow> k \<in> set cl" for k
        using D(2)[of k] ncl by (auto simp: ss_isClose_def ss_hash_add[OF D(1)])
      show "getKey q = k \<and> isAccessible (re_map env) q" if "((rs_points s)(nk \<mapsto> np)) k = Some q" for k q
        using that D(3,4) acc by (auto simp: nk_def split: if_splits)
      show "((rs_points s)(nk \<mapsto> np)) k \<noteq> None"
        if "k \<in> set (ss_items (ss_add nk v (rs_open s))) \<or> k \<in> set cl" for k
        using that D(5)[of k] by (auto simp: items)
      show "getKey q \<in> set cl \<and> ((rs_points s)(nk \<mapsto> np)) (getKey q) = Some q \<and>
        (\<exists>p'. ((rs_points s)(nk \<mapsto> np)) k = Some p' \<and> grid_step env q p')"
        if "((rs_parents s)(nk \<mapsto> p)) k = Some q" for k q
        by (rule par[OF that])
      show "q \<in> set (re_startPoints env)"
        if "((rs_points s)(nk \<mapsto> np)) k = Some q" "((rs_parents s)(nk \<mapsto> p)) k = None" for k q
        using that D(7)[of k q] by (auto split: if_splits)
      show "ranked ((rs_parents s)(nk \<mapsto> p)) cl" using D(8) ncl by (simp add: ranked_upd)
    qed
    then show ?thesis using ptsS[OF cur(2)] unfolding e by (simp add: s'_def)
  qed
qed

lemma search_ok_fold:
  "set ds \<subseteq> set (directions (re_step env)) \<Longrightarrow> search_ok env cl s \<Longrightarrow> getKey p \<in> set cl \<Longrightarrow>
   rs_points s (getKey p) = Some p \<Longrightarrow> search_ok env cl (fold (relax_direction env p c prev) ds s)"
proof (induction ds arbitrary: s)
  case (Cons d ds)
  then show ?case using search_ok_relax[of env cl s p d c prev] by simp
qed simp

lemma search_ok_init:
  assumes acc: "\<forall>p \<in> set (re_startPoints env). isAccessible (re_map env) p"
  shows "search_ok env [] (search_init env)"
proof -
  have "search_ok env [] (fold (add_start env) ps s)"
    if "search_ok env [] s" "rs_parents s = Map.empty" "set ps \<subseteq> set (re_startPoints env)" for ps s
    using that
  proof (induction ps arbitrary: s)
    case (Cons p ps)
    note D = search_okD[OF Cons.prems(1)]
    have kn: "getKey p \<noteq> []" by (rule getKey_ne)
    have p: "p \<in> set (re_startPoints env)" "isAccessible (re_map env) p" using Cons.prems(3) acc by auto
    define t where "t = add_start env p s"
    have t: "rs_open t = ss_add (getKey p) (the (getCost p (re_endPoints env))) (rs_open s)"
      "rs_points t = (rs_points s)(getKey p \<mapsto> p)" "rs_parents t = Map.empty"
      using Cons.prems(2) by (simp_all add: t_def add_start_def Let_def)
    have "search_ok env [] t"
    proof (rule search_okI)
      show "ss_heap (rs_open t)" unfolding t by (rule ss_heap_add[OF D(1) kn])
      show "ss_isClose k (rs_open t) \<longleftrightarrow> k \<in> set []" for k
        using D(2)[of k] by (auto simp: t ss_isClose_def ss_hash_add[OF D(1)])
      show "getKey q = k \<and> isAccessible (re_map env) q" if "rs_points t k = Some q" for k q
        using that D(3,4) p(2) by (auto simp: t split: if_splits)
      show "rs_points t k \<noteq> None" if "k \<in> set (ss_items (rs_open t)) \<or> k \<in> set []" for k
        using that D(5)[of k] pq_of_add(3)[OF D(1) kn] by (auto simp: t)
      show "q \<in> set (re_startPoints env)" if "rs_points t k = Some q" "rs_parents t k = None" for k q
        using that D(7)[of k q] p(1) Cons.prems(2) by (auto simp: t split: if_splits)
    qed (simp_all add: t)
    then have "search_ok env [] (add_start env p s)" by (simp add: t_def)
    moreover have "rs_parents (add_start env p s) = Map.empty"
      using Cons.prems(2) by (simp add: add_start_def Let_def)
    ultimately show ?case using Cons.IH[of "add_start env p s"] Cons.prems(3) by simp
  qed simp
  moreover have "search_ok env [] \<lparr>rs_open = new_SortedSet, rs_points = Map.empty, rs_parents = Map.empty, rs_costs = Map.empty\<rparr>"
    using ss_heap_new by (simp add: search_ok_def ss_isClose_def new_SortedSet_def)
  ultimately show ?thesis by (simp add: search_init_def)
qed

lemma search_ok_pop:
  assumes ok: "search_ok env cl s" and p: "ss_pop (rs_open s) = (Some k, op)"
  shows "search_ok env (k # cl) (s\<lparr>rs_open := op\<rparr>)"
    and "\<exists>q. rs_points s k = Some q \<and> getKey q = k"
proof -
  note D = search_okD[OF ok]
  have k: "k \<in> set (ss_items (rs_open s))" by (rule ss_pop_mem[OF p])
  have items: "set (ss_items op) \<subseteq> set (ss_items (rs_open s))" using pq_of_pop(4)[OF D(1)] p by auto
  have cls: "ss_isClose j op \<longleftrightarrow> j \<in> set (k # cl)" for j
    using D(2)[of j] by (auto simp: ss_isClose_def ss_pop_hash[OF p])
  show q: "\<exists>q. rs_points s k = Some q \<and> getKey q = k" using D(3,5)[of k] k by auto
  show "search_ok env (k # cl) (s\<lparr>rs_open := op\<rparr>)"
  proof (rule search_okI)
    show "ss_heap (rs_open (s\<lparr>rs_open := op\<rparr>))" using ss_heap_pop[OF D(1)] p by simp
    show "ss_isClose j (rs_open (s\<lparr>rs_open := op\<rparr>)) \<longleftrightarrow> j \<in> set (k # cl)" for j
      using cls[of j] by simp
    show "getKey q = j \<and> isAccessible (re_map env) q" if "rs_points (s\<lparr>rs_open := op\<rparr>) j = Some q" for j q
      using that D(3,4) by simp
    show "rs_points (s\<lparr>rs_open := op\<rparr>) j \<noteq> None"
      if "j \<in> set (ss_items (rs_open (s\<lparr>rs_open := op\<rparr>))) \<or> j \<in> set (k # cl)" for j
      using that D(5)[of j] items k by auto
    show "getKey q \<in> set (k # cl) \<and> rs_points (s\<lparr>rs_open := op\<rparr>) (getKey q) = Some q \<and>
        (\<exists>p. rs_points (s\<lparr>rs_open := op\<rparr>) j = Some p \<and> grid_step env q p)"
      if "rs_parents (s\<lparr>rs_open := op\<rparr>) j = Some q" for j q
      using that D(6)[of j q] by simp
    show "q \<in> set (re_startPoints env)"
      if "rs_points (s\<lparr>rs_open := op\<rparr>) j = Some q" "rs_parents (s\<lparr>rs_open := op\<rparr>) j = None" for j q
      using that D(7)[of j q] by simp
    have "getKey q \<in> set cl" if "rs_parents s k = Some q" for q using D(6)[OF that] by simp
    then show "ranked (rs_parents (s\<lparr>rs_open := op\<rparr>)) (k # cl)" using D(8) by simp
  qed
qed

section \<open>Reading back\<close>

definition via_ok :: "renv \<Rightarrow> rsearch \<Rightarrow> point list \<Rightarrow> bool" where
  "via_ok env s ps \<longleftrightarrow> ps \<noteq> [] \<and> hd ps \<in> set (re_startPoints env) \<and> steps_ok env ps \<and>
     (\<forall>p \<in> set ps. isAccessible (re_map env) p)"

lemma chain_path:
  assumes ok: "search_ok env cl0 s"
  shows "set cl \<subseteq> set cl0 \<Longrightarrow> ranked (rs_parents s) cl \<Longrightarrow> k \<in> set cl \<Longrightarrow>
    \<exists>path. via_ok env s path \<and> rs_points s k = Some (last path) \<and> length path \<le> length cl \<and>
      (\<forall>n route prevDiff. length cl \<le> Suc n \<longrightarrow>
        (\<exists>k0 d route'. reconstruct_loop n (rs_parents s) (rs_points s) k prevDiff route = Some (k0, d, route') \<and>
           rs_points s k0 = Some (hd path) \<and>
           (\<forall>frm. (if dir frm (hd path) \<noteq> d then hd path # route' else route') = bends frm path prevDiff @ route)))"
proof (induction cl arbitrary: k)
  case (Cons c cl)
  note D = search_okD[OF ok]
  show ?case
  proof (cases "k = c \<and> rs_parents s k \<noteq> None")
    case True
    then obtain q where q: "rs_parents s k = Some q" by auto
    have "\<forall>q. rs_parents s c = Some q \<longrightarrow> getKey q \<in> set cl" 
      using ranked.simps(2)[THEN iffD1, OF Cons.prems(2)] by blast
    then have m: "getKey q \<in> set cl" using True q by blast
    obtain p where p: "rs_points s (getKey q) = Some q" "rs_points s k = Some p" "grid_step env q p"
      using D(6)[OF q] by auto
    obtain path where P: "via_ok env s path" "rs_points s (getKey q) = Some (last path)" "length path \<le> length cl"
      and R: "\<forall>n route prevDiff. length cl \<le> Suc n \<longrightarrow>
        (\<exists>k0 d route'. reconstruct_loop n (rs_parents s) (rs_points s) (getKey q) prevDiff route = Some (k0, d, route') \<and>
           rs_points s k0 = Some (hd path) \<and>
           (\<forall>frm. (if dir frm (hd path) \<noteq> d then hd path # route' else route') = bends frm path prevDiff @ route))"
      using Cons.IH[of "getKey q"] Cons.prems(1,2) m by auto
    have l: "last path = q" "path \<noteq> []" using P(1,2) p(1) by (auto simp: via_ok_def)
    then obtain xs where xs: "path = xs @ [q]" by (metis append_butlast_last_id)
    let ?path = "xs @ [q, p]"
    have via: "via_ok env s ?path"
      using P(1) p(2,3) D(4) steps_ok_snoc[of env xs q p] unfolding via_ok_def xs by (cases xs) auto
    have "\<exists>k0 d route'. reconstruct_loop n (rs_parents s) (rs_points s) k prevDiff route = Some (k0, d, route') \<and>
           rs_points s k0 = Some (hd ?path) \<and>
           (\<forall>frm. (if dir frm (hd ?path) \<noteq> d then hd ?path # route' else route') = bends frm ?path prevDiff @ route)"
      if n: "length (c # cl) \<le> Suc n" for n route prevDiff
    proof -
      have "cl \<noteq> []" using m by auto
      then obtain n' where n': "n = Suc n'" "length cl \<le> Suc n'" using n by (cases n) auto
      let ?r = "if dir q p \<noteq> prevDiff then p # route else route"
      have e: "reconstruct_loop n (rs_parents s) (rs_points s) k prevDiff route =
          reconstruct_loop n' (rs_parents s) (rs_points s) (getKey q) (dir q p) ?r"
        by (subst reconstruct_loop.simps) (simp add: q p(2) n'(1) Let_def)
      obtain k0 d route' where r: "reconstruct_loop n' (rs_parents s) (rs_points s) (getKey q) (dir q p) ?r = Some (k0, d, route')"
        "rs_points s k0 = Some (hd path)"
        "\<forall>frm. (if dir frm (hd path) \<noteq> d then hd path # route' else route') = bends frm path (dir q p) @ ?r"
        using R n'(2) by blast
      have h: "hd ?path = hd path" by (simp add: xs hd_append)
      have "bends frm path (dir q p) @ ?r = bends frm ?path prevDiff @ route" for frm
        unfolding bends_snoc xs by simp
      then show ?thesis using e r unfolding h by (intro exI[of _ k0] exI[of _ d] exI[of _ route']) simp
    qed
    then show ?thesis using via p(2) P(3) by (intro exI[of _ ?path]) (auto simp: xs)
  next
    case False
    show ?thesis
    proof (cases "k = c")
      case True
      then have none: "rs_parents s k = None" using False by blast
      obtain p where p: "rs_points s k = Some p" using D(5)[of k] Cons.prems(1,3) by auto
      have "via_ok env s [p]" using D(7)[OF p none] D(4)[OF p] by (simp add: via_ok_def)
      moreover have "reconstruct_loop n (rs_parents s) (rs_points s) k prevDiff route = Some (k, prevDiff, route)"
        for n prevDiff route by (subst reconstruct_loop.simps) (simp add: none)
      ultimately show ?thesis using p by (intro exI[of _ "[p]"]) auto
    next
      case kc: False
      then have "k \<in> set cl" "set cl \<subseteq> set cl0" "ranked (rs_parents s) cl" using Cons.prems by auto
      from Cons.IH[OF this(2,3,1)] obtain path where
        P: "via_ok env s path" "rs_points s k = Some (last path)" "length path \<le> length cl"
        and R: "\<forall>n route prevDiff. length cl \<le> Suc n \<longrightarrow>
          (\<exists>k0 d route'. reconstruct_loop n (rs_parents s) (rs_points s) k prevDiff route = Some (k0, d, route') \<and>
             rs_points s k0 = Some (hd path) \<and>
             (\<forall>frm. (if dir frm (hd path) \<noteq> d then hd path # route' else route') = bends frm path prevDiff @ route))"
        by blast
      have l: "length path \<le> length (c # cl)" "\<And>n. length (c # cl) \<le> Suc n \<Longrightarrow> length cl \<le> Suc n"
        using P(3) by simp_all
      show ?thesis using P(1,2) l R by blast
    qed
  qed
qed simp

section \<open>The loop\<close>

text \<open>The loop closes one key in a turn, so a parent chain is no longer than the loop's count; what
  it finds is the last point of a path, and the key is the key of an end point.\<close>

lemma route_loop_found:
  "route_loop n env s = Found p s' prev \<Longrightarrow> search_ok env cl s \<Longrightarrow>
   \<exists>cl'. search_ok env cl' s' \<and> length cl' \<le> length cl + n \<and> getKey p \<in> set cl' \<and>
     rs_points s' (getKey p) = Some p \<and> p \<in> set (re_endPoints env)"
proof (induction n arbitrary: s cl)
  case (Suc n)
  obtain ko op where pop: "ss_pop (rs_open s) = (ko, op)" by fastforce
  show ?case
  proof (cases ko)
    case None
    then show ?thesis using Suc.prems(1) pop by simp
  next
    case (Some k)
    define t where "t = s\<lparr>rs_open := op\<rparr>"
    have t: "search_ok env (k # cl) t"
      using search_ok_pop(1)[OF Suc.prems(2)] pop Some by (simp add: t_def)
    obtain q where q: "rs_points s k = Some q" "getKey q = k"
      using search_ok_pop(2)[OF Suc.prems(2)] pop Some by blast
    have qt: "rs_points t k = Some q" using q by (simp add: t_def)
    define pv where "pv = previous_angle env q (rs_parents t k)"
    define skp where "skp = (rs_parents t k = None \<and> re_startPoints env = re_endPoints env)"
    have e: "route_loop (Suc n) env s =
       (if \<not> skp \<and> k \<in> set (endPointsKeys env) then Found q t pv
        else route_loop n env (fold (relax_direction env q (the (rs_costs t k)) pv) (directions (re_step env)) t))"
      using pop Some q by (simp add: Let_def t_def pv_def skp_def)
    show ?thesis
    proof (cases "\<not> skp \<and> k \<in> set (endPointsKeys env)")
      case True
      then have "p = q" "s' = t" using Suc.prems(1) unfolding e by simp_all
      moreover have "q \<in> set (re_endPoints env)"
        using True q(2) by (metis endPointsKeys_def getKey_inj imageE list.set_map)
      ultimately show ?thesis using t qt q(2) by (intro exI[of _ "k # cl"]) simp
    next
      case False
      have "search_ok env (k # cl) (fold (relax_direction env q (the (rs_costs t k)) pv) (directions (re_step env)) t)"
        using t qt q(2) by (intro search_ok_fold) simp_all
      moreover have "route_loop n env (fold (relax_direction env q (the (rs_costs t k)) pv) (directions (re_step env)) t) = Found p s' prev"
        using Suc.prems(1) False unfolding e by simp
      ultimately show ?thesis using Suc.IH[of _ "k # cl"] by fastforce
    qed
  qed
qed simp

lemma reconstructRoute_bends:
  assumes ok: "search_ok env cl s" and k: "getKey p \<in> set cl" "rs_points s (getKey p) = Some p"
    and n: "length cl \<le> Suc n"
  shows "\<exists>path. via_ok env s path \<and> last path = p \<and> length path \<le> length cl \<and>
    reconstructRoute n (rs_parents s) (rs_points s) p frm to = Some (bends frm path (dir p to))"
proof -
  obtain path where P: "via_ok env s path" "rs_points s (getKey p) = Some (last path)" "length path \<le> length cl"
    and R: "\<forall>n route prevDiff. length cl \<le> Suc n \<longrightarrow>
      (\<exists>k0 d route'. reconstruct_loop n (rs_parents s) (rs_points s) (getKey p) prevDiff route = Some (k0, d, route') \<and>
         rs_points s k0 = Some (hd path) \<and>
         (\<forall>frm. (if dir frm (hd path) \<noteq> d then hd path # route' else route') = bends frm path prevDiff @ route))"
    using chain_path[OF ok subset_refl search_okD(8)[OF ok] k(1)] by blast
  obtain k0 d route' where
    r: "reconstruct_loop n (rs_parents s) (rs_points s) (getKey p) (dir p to) [] = Some (k0, d, route')"
      "rs_points s k0 = Some (hd path)"
      "(if dir frm (hd path) \<noteq> d then hd path # route' else route') = bends frm path (dir p to)"
    using R n by (metis append_Nil2)
  have "reconstructRoute n (rs_parents s) (rs_points s) p frm to = Some (bends frm path (dir p to))"
    unfolding reconstructRoute_def r(1) option.case prod.case Let_def r(2) option.sel r(3) ..
  then show ?thesis using P k(2) by auto
qed

text \<open>C8: \<open>findRoute\<close> always gives an answer: the parent chain it reads back is bounded by the loop
  count, so reading it back ends. When it finds a route, the route is the list of bends of a path
  that starts at an accessible start point, ends at an accessible end point, goes by steps of the
  stretched grid, and every point of which is accessible on the obstacle map; the path has at most
  \<open>maximumLoops\<close> points.\<close>

theorem findRoute_sound:
  "\<exists>r. findRoute env = Some r \<and>
     (\<forall>route ang. r = Some (route, ang) \<longrightarrow>
       (\<exists>path. path \<noteq> [] \<and> hd path \<in> set (re_startPoints env) \<and> last path \<in> set (re_endPoints env) \<and>
          steps_ok env path \<and> (\<forall>p \<in> set path. isAccessible (re_map env) p) \<and>
          length path \<le> re_maxLoopCount env \<and>
          route = bends (re_startPoint env) path (dir (last path) (re_endPoint env))))"
proof -
  define e where "e = env\<lparr>re_startPoints := filter (isAccessible (re_map env)) (re_startPoints env),
                     re_endPoints := filter (isAccessible (re_map env)) (re_endPoints env)\<rparr>"
  have e: "re_map e = re_map env" "re_maxLoopCount e = re_maxLoopCount env" "re_startPoint e = re_startPoint env"
    "re_endPoint e = re_endPoint env" "set (re_startPoints e) \<subseteq> set (re_startPoints env)"
    "set (re_endPoints e) \<subseteq> set (re_endPoints env)" by (auto simp: e_def)
  have steps: "steps_ok e ps = steps_ok env ps" for ps
    by (induction ps rule: induct_list012) (simp_all add: e_def grid_step_def)
  have f: "findRoute env = (if re_startPoints e = [] \<or> re_endPoints e = [] then Some None
         else (case route_loop (re_maxLoopCount e) e (search_init e) of
                 NotFound s \<Rightarrow> Some None
               | Found p s prev \<Rightarrow>
                   (case reconstructRoute (re_maxLoopCount e) (rs_parents s) (rs_points s) p
                           (re_startPoint e) (re_endPoint e) of
                      None \<Rightarrow> None
                    | Some route \<Rightarrow> Some (Some (route, prev)))))"
    unfolding findRoute_def Let_def e_def[symmetric] ..
  have init: "search_ok e [] (search_init e)" by (rule search_ok_init) (auto simp: e_def)
  show ?thesis
  proof (cases "re_startPoints e = [] \<or> re_endPoints e = []")
    case True
    then show ?thesis by (simp add: f)
  next
    case False
    show ?thesis
    proof (cases "route_loop (re_maxLoopCount e) e (search_init e)")
      case (NotFound s)
      then show ?thesis using False by (simp add: f)
    next
      case (Found p s prev)
      from route_loop_found[OF Found init] obtain cl where
        cl: "search_ok e cl s" "length cl \<le> re_maxLoopCount e" "getKey p \<in> set cl"
        "rs_points s (getKey p) = Some p" "p \<in> set (re_endPoints e)" by auto
      obtain path where P: "via_ok e s path" "last path = p" "length path \<le> length cl"
        "reconstructRoute (re_maxLoopCount e) (rs_parents s) (rs_points s) p (re_startPoint e) (re_endPoint e) =
           Some (bends (re_startPoint e) path (dir p (re_endPoint e)))"
        using reconstructRoute_bends[OF cl(1,3,4), of "re_maxLoopCount e"] cl(2) by fastforce
      have "findRoute env = Some (Some (bends (re_startPoint e) path (dir p (re_endPoint e)), prev))"
        using False Found P(4) by (simp add: f)
      then show ?thesis using P(1-3) cl(2,5) e steps
        by (intro exI[of _ "Some (bends (re_startPoint e) path (dir p (re_endPoint e)), prev)"])
          (fastforce simp: via_ok_def)
    qed
  qed
qed

definition sample_env :: renv where
  "sample_env = \<lparr>re_step = 100, re_maxLoopCount = 2, re_maxDirectionChange = 0, re_previousDirectionAngle = Some (Some 0),
     re_map = Map.empty,
     re_grid = getGrid 100 (0, 0) (100, 0), re_startPoint = (0, 0), re_endPoint = (100, 0),
     re_startPoints = [(0, 0)], re_endPoints = [(100, 0)]\<rparr>"

lemma sample_env_found: "findRoute sample_env = Some (Some ([(0, 0), (100, 0)], Some 0))"
  by code_simp

lemma findRoute_sound_witness:
  "findRoute sample_env = Some (Some ([(0, 0), (100, 0)], Some 0)) \<and>
   (\<exists>path. path \<noteq> [] \<and> hd path = (0, 0) \<and> last path = (100, 0) \<and> steps_ok sample_env path \<and>
      length path \<le> 2 \<and> [(0, 0), (100, 0)] = bends (0, 0) path (dir (last path) (100, 0)))"
proof -
  have "\<exists>path. path \<noteq> [] \<and> hd path \<in> set (re_startPoints sample_env) \<and>
      last path \<in> set (re_endPoints sample_env) \<and> steps_ok sample_env path \<and>
      (\<forall>p \<in> set path. isAccessible (re_map sample_env) p) \<and> length path \<le> re_maxLoopCount sample_env \<and>
      [(0, 0), (100, 0)] = bends (re_startPoint sample_env) path (dir (last path) (re_endPoint sample_env))"
    using findRoute_sound[of sample_env] unfolding sample_env_found by simp
  then show ?thesis unfolding sample_env_found by (simp add: sample_env_def) blast
qed

end
