(* ===== verification/Events.thy ===== *)
theory Events
  imports Prelude
begin

text \<open>
  The event emitter every object of the editor is built on (common/event/events.js, util.js): a cache
  of listeners for each event, held as one flat array of handlers and contexts; \<open>on\<close>, \<open>once\<close>, \<open>off\<close> and
  \<open>trigger\<close>. Handlers may call the emitter themselves: the body of a handler is a list of such calls.
  Handlers that return promises are left out.
\<close>

section \<open>Listeners\<close>

datatype ectx = Self | Ctx nat

text \<open>A handler is a function, or the closure \<open>once\<close> makes of one, a new object each time.\<close>

datatype fn = Fn nat | OnceFn nat string nat "ectx option"

datatype slot = Handler fn | Context "ectx option"

record emitter =
  em_listeners :: "(string \<times> slot list) list"
  em_next :: nat

definition new_Events :: emitter where
  "new_Events = \<lparr>em_listeners = [], em_next = 0\<rparr>"

definition cache_of :: "string \<Rightarrow> emitter \<Rightarrow> slot list" where
  "cache_of nm e = (case map_of (em_listeners e) nm of None \<Rightarrow> [] | Some cache \<Rightarrow> cache)"

definition ev_on :: "string \<Rightarrow> fn option \<Rightarrow> ectx option \<Rightarrow> emitter \<Rightarrow> emitter" where
  "ev_on nm handler ctx e =
     (case handler of
        None \<Rightarrow> e
      | Some f \<Rightarrow> e\<lparr>em_listeners := map_put (em_listeners e) nm (cache_of nm e @ [Handler f, Context ctx])\<rparr>)"

definition ev_once :: "string \<Rightarrow> nat \<Rightarrow> ectx option \<Rightarrow> emitter \<Rightarrow> emitter" where
  "ev_once nm handler ctx e =
     ev_on nm (Some (OnceFn (em_next e) nm handler ctx)) (Some Self) (e\<lparr>em_next := Suc (em_next e)\<rparr>)"

section \<open>Removing listeners\<close>

definition off_keeps :: "fn option \<Rightarrow> ectx option \<Rightarrow> slot \<Rightarrow> slot \<Rightarrow> bool" where
  "off_keeps handler ctx s t \<longleftrightarrow>
     (handler \<noteq> None \<and> s \<noteq> Handler (the handler)) \<or> (ctx \<noteq> None \<and> t \<noteq> Context ctx)"

text \<open>The loop of \<open>off\<close> goes backwards; \<open>n\<close> pairs are left to look at, the next one at \<open>2 * (n - 1)\<close>.\<close>

fun off_loop :: "fn option \<Rightarrow> ectx option \<Rightarrow> nat \<Rightarrow> slot list \<Rightarrow> slot list" where
  "off_loop handler ctx 0 cache = cache"
| "off_loop handler ctx (Suc n) cache =
     (let i = 2 * n
      in off_loop handler ctx n
           (if off_keeps handler ctx (cache ! i) (cache ! (i + 1)) then cache
            else take i cache @ drop (i + 2) cache))"

definition off_name :: "fn option \<Rightarrow> ectx option \<Rightarrow> string \<Rightarrow> emitter \<Rightarrow> emitter" where
  "off_name handler ctx nm e =
     (case map_of (em_listeners e) nm of
        None \<Rightarrow> e
      | Some cache \<Rightarrow>
          if handler = None \<and> ctx = None then e\<lparr>em_listeners := map_del (em_listeners e) nm\<rparr>
          else e\<lparr>em_listeners := map_put (em_listeners e) nm
                   (off_loop handler ctx (length cache div 2) cache)\<rparr>)"

definition named :: "string option \<Rightarrow> bool" where
  "named nm \<longleftrightarrow> nm \<noteq> None \<and> nm \<noteq> Some []"

definition ev_off :: "string option \<Rightarrow> fn option \<Rightarrow> ectx option \<Rightarrow> emitter \<Rightarrow> emitter" where
  "ev_off nm handler ctx e =
     (if \<not> (named nm \<or> handler \<noteq> None \<or> ctx \<noteq> None) then e\<lparr>em_listeners := []\<rparr>
      else fold (off_name handler ctx) (if named nm then [the nm] else map fst (em_listeners e)) e)"

section \<open>Calling listeners\<close>

datatype ecmd = COn string nat "ectx option" | COnce string nat "ectx option"
  | COff "string option" "nat option" "ectx option" | CTrigger string "string list"

text \<open>What the handlers do when they are called, and whether what they return differs from \<open>false\<close>.\<close>

record handlers =
  hd_body :: "nat \<Rightarrow> ecmd list"
  hd_returns :: "nat \<Rightarrow> bool"

text \<open>The calls made: the handler, \<open>this\<close> and the arguments.\<close>

type_synonym elog = "(nat \<times> ectx option \<times> string list) list"

fun pairs :: "slot list \<Rightarrow> (fn \<times> ectx option) list" where
  "pairs (Handler f # Context c # cache) = (f, c) # pairs cache"
| "pairs _ = []"

definition toAsyncBoolean :: "bool list \<Rightarrow> bool" where
  "toAsyncBoolean results = list_all (\<lambda>res. res) results"

text \<open>Handlers may trigger each other for ever: the first number bounds the depth of the calls.\<close>

function (sequential)
  util_call :: "handlers \<Rightarrow> nat \<Rightarrow> (fn \<times> ectx option) list \<Rightarrow> string list \<Rightarrow> emitter \<times> elog \<Rightarrow>
      (bool list \<times> emitter \<times> elog) option" and
  call_fn :: "handlers \<Rightarrow> nat \<Rightarrow> fn \<Rightarrow> ectx option \<Rightarrow> string list \<Rightarrow> emitter \<times> elog \<Rightarrow>
      (bool \<times> emitter \<times> elog) option" and
  exec_cmds :: "handlers \<Rightarrow> nat \<Rightarrow> ecmd list \<Rightarrow> emitter \<times> elog \<Rightarrow> (emitter \<times> elog) option" and
  ev_trigger :: "handlers \<Rightarrow> nat \<Rightarrow> string \<Rightarrow> string list \<Rightarrow> emitter \<times> elog \<Rightarrow>
      (bool \<times> emitter \<times> elog) option"
where
  "util_call H n [] args s = Some ([], s)"
| "util_call H 0 ((f, c) # list) args s = None"
| "util_call H (Suc n) ((f, c) # list) args s =
     Option.bind (call_fn H n f c args s) (\<lambda>(ret, s').
       Option.bind (util_call H (Suc n) list args s') (\<lambda>(results, s'').
         Some (ret # results, s'')))"
| "call_fn H n (Fn h) c args (e, log) =
     Option.bind (exec_cmds H n (hd_body H h) (e, log @ [(h, c, args)])) (\<lambda>s'.
       Some (hd_returns H h, s'))"
| "call_fn H n (OnceFn i nm h c') c args (e, log) =
     Option.bind (exec_cmds H n (hd_body H h)
         (ev_off (Some nm) (Some (OnceFn i nm h c')) None e, log @ [(h, c', args)])) (\<lambda>s'.
       Some (toAsyncBoolean [hd_returns H h], s'))"
| "exec_cmds H n [] s = Some s"
| "exec_cmds H n (COn nm h c # cmds) (e, log) = exec_cmds H n cmds (ev_on nm (Some (Fn h)) c e, log)"
| "exec_cmds H n (COnce nm h c # cmds) (e, log) = exec_cmds H n cmds (ev_once nm h c e, log)"
| "exec_cmds H n (COff nm h c # cmds) (e, log) = exec_cmds H n cmds (ev_off nm (map_option Fn h) c e, log)"
| "exec_cmds H n (CTrigger nm args # cmds) s =
     Option.bind (ev_trigger H n nm args s) (\<lambda>(r, s'). exec_cmds H n cmds s')"
| "ev_trigger H n nm args s =
     Option.bind
       (if nm \<noteq> ''*'' \<and> map_of (em_listeners (fst s)) nm \<noteq> None
        then Option.bind (util_call H n (pairs (cache_of nm (fst s))) args s)
               (\<lambda>(rs, s'). Some (toAsyncBoolean rs, s'))
        else Some (True, s)) (\<lambda>(returned, s').
       if map_of (em_listeners (fst s')) ''*'' \<noteq> None
       then Option.bind (util_call H n (pairs (cache_of ''*'' (fst s'))) (nm # args) s') (\<lambda>(rs, s'').
              Some (toAsyncBoolean [returned, toAsyncBoolean rs], s''))
       else Some (returned, s'))"
  by pat_completeness auto
termination
  by (relation "measures
      [\<lambda>x. case x of Inl (Inl (H, n, list, args, s)) \<Rightarrow> n | Inl (Inr (H, n, f, c, args, s)) \<Rightarrow> n
         | Inr (Inl (H, n, cmds, s)) \<Rightarrow> n | Inr (Inr (H, n, nm, args, s)) \<Rightarrow> n,
       \<lambda>x. case x of Inl (Inl (H, n, list, args, s)) \<Rightarrow> 0 | Inl (Inr (H, n, f, c, args, s)) \<Rightarrow> 3
         | Inr (Inl (H, n, cmds, s)) \<Rightarrow> 2 | Inr (Inr (H, n, nm, args, s)) \<Rightarrow> 1,
       \<lambda>x. case x of Inl (Inl (H, n, list, args, s)) \<Rightarrow> length list | Inl (Inr (H, n, f, c, args, s)) \<Rightarrow> 0
         | Inr (Inl (H, n, cmds, s)) \<Rightarrow> length cmds | Inr (Inr (H, n, nm, args, s)) \<Rightarrow> 0]") auto

declare ev_trigger.simps [simp del]

section \<open>The caches are lists of pairs\<close>

definition flat :: "(fn \<times> ectx option) list \<Rightarrow> slot list" where
  "flat ps = concat (map (\<lambda>(f, c). [Handler f, Context c]) ps)"

lemma flat_simps [simp]:
  "flat [] = []" "flat ((f, c) # ps) = Handler f # Context c # flat ps" "flat (ps @ qs) = flat ps @ flat qs"
  by (simp_all add: flat_def)

lemma pairs_flat [simp]: "pairs (flat ps) = ps"
  by (induction ps) auto

lemma length_flat [simp]: "length (flat ps) = 2 * length ps"
  by (induction ps) auto

lemma nth_flat:
  "n < length ps \<Longrightarrow> flat ps ! (2 * n) = Handler (fst (ps ! n)) \<and> flat ps ! Suc (2 * n) = Context (snd (ps ! n))"
proof (induction ps arbitrary: n)
  case (Cons p ps)
  then show ?case by (cases p; cases n) auto
qed simp

lemma take_flat: "take (2 * n) (flat ps) = flat (take n ps)"
proof (induction ps arbitrary: n)
  case (Cons p ps)
  then show ?case by (cases p; cases n) auto
qed simp

lemma drop_flat: "drop (2 * n) (flat ps) = flat (drop n ps)"
proof (induction ps arbitrary: n)
  case (Cons p ps)
  then show ?case by (cases p; cases n) auto
qed simp

definition stays :: "fn option \<Rightarrow> ectx option \<Rightarrow> fn \<times> ectx option \<Rightarrow> bool" where
  "stays handler ctx = (\<lambda>(f, c). (handler \<noteq> None \<and> handler \<noteq> Some f) \<or> (ctx \<noteq> None \<and> ctx \<noteq> c))"

lemma off_keeps_stays: "off_keeps handler ctx (Handler f) (Context c) = stays handler ctx (f, c)"
  by (auto simp: off_keeps_def stays_def)

lemma off_loop_filter:
  "n \<le> length ps \<Longrightarrow>
   off_loop handler ctx n (flat ps) = flat (filter (stays handler ctx) (take n ps) @ drop n ps)"
proof (induction n arbitrary: ps)
  case (Suc n)
  then have n: "n < length ps" by simp
  have split: "take (Suc n) ps = take n ps @ [ps ! n]" "drop n ps = ps ! n # drop (Suc n) ps"
    using n by (simp_all add: take_Suc_conv_app_nth Cons_nth_drop_Suc)
  have keeps: "off_keeps handler ctx (flat ps ! (2 * n)) (flat ps ! Suc (2 * n)) = stays handler ctx (ps ! n)"
    using nth_flat[OF n] off_keeps_stays[of handler ctx "fst (ps ! n)" "snd (ps ! n)"] by simp
  show ?case
  proof (cases "stays handler ctx (ps ! n)")
    case True
    then show ?thesis using keeps Suc split by (simp add: Let_def)
  next
    case False
    have "take (2 * n) (flat ps) @ drop (2 * n + 2) (flat ps) = flat (take n ps @ drop (Suc n) ps)"
      using take_flat[of n ps] drop_flat[of "Suc n" ps] by simp
    then show ?thesis using keeps False Suc.IH[of "take n ps @ drop (Suc n) ps"] n split
      by (simp add: Let_def)
  qed
qed simp

definition ev_ok :: "emitter \<Rightarrow> bool" where
  "ev_ok e \<longleftrightarrow> distinct (map fst (em_listeners e)) \<and>
     (\<forall>nm cache. map_of (em_listeners e) nm = Some cache \<longrightarrow> flat (pairs cache) = cache)"

lemma ev_okD: "ev_ok e \<Longrightarrow> flat (pairs (cache_of nm e)) = cache_of nm e"
  by (auto simp: ev_ok_def cache_of_def split: option.splits)

lemma ev_ok_new [simp]: "ev_ok new_Events"
  by (simp add: ev_ok_def new_Events_def)

lemma ev_ok_put:
  "ev_ok e \<Longrightarrow> flat (pairs cache) = cache \<Longrightarrow> ev_ok (e\<lparr>em_listeners := map_put (em_listeners e) nm cache\<rparr>)"
  by (simp add: ev_ok_def)

lemma ev_ok_on [simp]: "ev_ok e \<Longrightarrow> ev_ok (ev_on nm h c e)"
proof (cases h)
  case (Some f)
  assume e: "ev_ok e"
  have "flat (pairs (cache_of nm e @ [Handler f, Context c])) = cache_of nm e @ [Handler f, Context c]"
    using ev_okD[OF e, of nm] pairs_flat[of "pairs (cache_of nm e) @ [(f, c)]"] by simp
  then show ?thesis using Some ev_ok_put[OF e] by (simp add: ev_on_def)
qed (simp add: ev_on_def)

lemma ev_ok_next [simp]: "ev_ok (e\<lparr>em_next := n\<rparr>) = ev_ok e"
  by (simp add: ev_ok_def)

lemma ev_ok_once [simp]: "ev_ok e \<Longrightarrow> ev_ok (ev_once nm h c e)"
  by (simp add: ev_once_def)

lemma pairs_off_loop:
  assumes "flat (pairs cache) = cache"
  shows "off_loop h c (length cache div 2) cache = flat (filter (stays h c) (pairs cache))"
proof -
  have "off_loop h c (length (pairs cache)) (flat (pairs cache)) = flat (filter (stays h c) (pairs cache))"
    using off_loop_filter[of "length (pairs cache)" "pairs cache"] by simp
  moreover have "length cache = 2 * length (pairs cache)" using assms length_flat[of "pairs cache"] by simp
  ultimately show ?thesis using assms by simp
qed

lemma off_name_exact:
  assumes ok: "ev_ok e"
  shows "ev_ok (off_name h c nm e)"
    and "pairs (cache_of m (off_name h c nm e)) =
      (if m = nm then filter (stays h c) (pairs (cache_of m e)) else pairs (cache_of m e))"
    and "map_of (em_listeners (off_name h c nm e)) m = None \<longleftrightarrow>
      map_of (em_listeners e) m = None \<or> (m = nm \<and> h = None \<and> c = None)"
proof -
  have del: "ev_ok (e\<lparr>em_listeners := map_del (em_listeners e) nm\<rparr>)"
    using ok by (auto simp: ev_ok_def)
  have loop: "off_loop h c (length cache div 2) cache = flat (filter (stays h c) (pairs cache))"
    if "map_of (em_listeners e) nm = Some cache" for cache
    using ok that by (intro pairs_off_loop) (simp add: ev_ok_def)
  have none: "stays None None = (\<lambda>p. False)" by (auto simp: stays_def)
  show "ev_ok (off_name h c nm e)"
    using ok del loop ev_ok_put[OF ok] by (auto simp: off_name_def split: option.splits)
  show "pairs (cache_of m (off_name h c nm e)) =
      (if m = nm then filter (stays h c) (pairs (cache_of m e)) else pairs (cache_of m e))"
    using loop by (auto simp: off_name_def cache_of_def none split: option.splits)
  show "map_of (em_listeners (off_name h c nm e)) m = None \<longleftrightarrow>
      map_of (em_listeners e) m = None \<or> (m = nm \<and> h = None \<and> c = None)"
    by (auto simp: off_name_def split: option.splits)
qed

lemma fold_off_exact:
  "ev_ok e \<Longrightarrow> ev_ok (fold (off_name h c) nms e) \<and>
   pairs (cache_of m (fold (off_name h c) nms e)) =
     (if m \<in> set nms then filter (stays h c) (pairs (cache_of m e)) else pairs (cache_of m e))"
proof (induction nms arbitrary: e)
  case (Cons nm nms)
  then show ?case using off_name_exact[OF Cons.prems, where h = h and c = c and nm = nm]
    by (auto simp: filter_filter[symmetric] simp del: filter_filter)
qed simp

lemma ev_off_exact:
  assumes ok: "ev_ok e"
  shows "ev_ok (ev_off nm h c e)"
    and "pairs (cache_of m (ev_off nm h c e)) =
      (if named nm \<and> nm \<noteq> Some m then pairs (cache_of m e) else filter (stays h c) (pairs (cache_of m e)))"
proof -
  have nil: "cache_of m e = []" if "m \<notin> fst ` set (em_listeners e)"
    using that map_of_eq_None_iff[of "em_listeners e" m] by (simp add: cache_of_def)
  have none: "stays None None = (\<lambda>p. False)" by (auto simp: stays_def)
  show "ev_ok (ev_off nm h c e)"
    using fold_off_exact[OF ok] by (simp add: ev_off_def) (simp add: ev_ok_def)
  show "pairs (cache_of m (ev_off nm h c e)) =
      (if named nm \<and> nm \<noteq> Some m then pairs (cache_of m e) else filter (stays h c) (pairs (cache_of m e)))"
  proof (cases "\<not> (named nm \<or> h \<noteq> None \<or> c \<noteq> None)")
    case True
    then show ?thesis by (simp add: ev_off_def none) (simp add: cache_of_def)
  next
    case False
    note F = fold_off_exact[OF ok, where h = h and c = c and m = m]
    show ?thesis
    proof (cases "named nm")
      case True
      then obtain n where n: "nm = Some n" by (auto simp: named_def)
      have "ev_off nm h c e = fold (off_name h c) [n] e" using True n by (simp add: ev_off_def)
      then show ?thesis using F[of "[n]"] True n by auto
    next
      case unnamed: False
      then have "ev_off nm h c e = fold (off_name h c) (map fst (em_listeners e)) e"
        using False by (auto simp: ev_off_def)
      then show ?thesis using F[of "map fst (em_listeners e)"] nil unnamed by auto
    qed
  qed
qed

lemma pairs_on:
  "ev_ok e \<Longrightarrow> pairs (cache_of m (ev_on nm (Some f) c e)) =
     (if m = nm then pairs (cache_of m e) @ [(f, c)] else pairs (cache_of m e))"
proof -
  assume e: "ev_ok e"
  have "pairs (cache_of nm e @ [Handler f, Context c]) = pairs (cache_of nm e) @ [(f, c)]"
    using ev_okD[OF e, of nm] pairs_flat[of "pairs (cache_of nm e) @ [(f, c)]"] by simp
  then show ?thesis by (simp add: ev_on_def cache_of_def)
qed

section \<open>Triggering\<close>

fun base_fn :: "fn \<Rightarrow> nat" where
  "base_fn (Fn h) = h"
| "base_fn (OnceFn i nm h c) = h"

text \<open>What a listener is called with, and what the calls do to the emitter when no handler triggers.\<close>

fun call_entry :: "string list \<Rightarrow> fn \<times> ectx option \<Rightarrow> nat \<times> ectx option \<times> string list" where
  "call_entry args (Fn h, c) = (h, c, args)"
| "call_entry args (OnceFn i nm h c', c) = (h, c', args)"

fun reg_cmd :: "ecmd \<Rightarrow> emitter \<Rightarrow> emitter" where
  "reg_cmd (COn nm h c) e = ev_on nm (Some (Fn h)) c e"
| "reg_cmd (COnce nm h c) e = ev_once nm h c e"
| "reg_cmd (COff nm h c) e = ev_off nm (map_option Fn h) c e"
| "reg_cmd (CTrigger nm args) e = e"

fun after_call :: "handlers \<Rightarrow> fn \<times> ectx option \<Rightarrow> emitter \<Rightarrow> emitter" where
  "after_call H (Fn h, c) e = fold reg_cmd (hd_body H h) e"
| "after_call H (OnceFn i nm h c', c) e =
     fold reg_cmd (hd_body H h) (ev_off (Some nm) (Some (OnceFn i nm h c')) None e)"

definition triggers :: "ecmd \<Rightarrow> bool" where
  "triggers cmd = (case cmd of CTrigger nm args \<Rightarrow> True | _ \<Rightarrow> False)"

definition no_triggers :: "handlers \<Rightarrow> bool" where
  "no_triggers H \<longleftrightarrow> (\<forall>h. list_all (\<lambda>cmd. \<not> triggers cmd) (hd_body H h))"

lemma exec_reg:
  "list_all (\<lambda>cmd. \<not> triggers cmd) cmds \<Longrightarrow> exec_cmds H n cmds (e, log) = Some (fold reg_cmd cmds e, log)"
proof (induction cmds arbitrary: e)
  case (Cons cmd cmds)
  then show ?case by (cases cmd) (simp_all add: triggers_def)
qed simp

lemma call_fn_flat:
  assumes "no_triggers H"
  shows "call_fn H n f c args (e, log) =
    Some (hd_returns H (base_fn f), after_call H (f, c) e, log @ [call_entry args (f, c)])"
  using assms by (cases f) (simp_all add: no_triggers_def exec_reg toAsyncBoolean_def)

lemma util_call_flat:
  "no_triggers H \<Longrightarrow> util_call H (Suc n) ps args (e, log) =
     Some (map (hd_returns H \<circ> base_fn \<circ> fst) ps, fold (after_call H) ps e, log @ map (call_entry args) ps)"
  by (induction ps arbitrary: e log) (auto simp: call_fn_flat)

lemma cache_of_None [simp]: "map_of (em_listeners e) nm = None \<Longrightarrow> pairs (cache_of nm e) = []"
  by (simp add: cache_of_def)

lemma ev_trigger_flat:
  assumes "no_triggers H"
  shows "ev_trigger H (Suc n) nm args (e, log) =
    (let ps = (if nm = ''*'' then [] else pairs (cache_of nm e));
         e' = fold (after_call H) ps e;
         qs = pairs (cache_of ''*'' e')
     in Some (list_all (hd_returns H \<circ> base_fn \<circ> fst) (ps @ qs), fold (after_call H) qs e',
              log @ map (call_entry args) ps @ map (call_entry (nm # args)) qs))"
  using assms
  by (simp add: ev_trigger.simps util_call_flat Let_def toAsyncBoolean_def list.pred_map o_def)

text \<open>C32: When no handler triggers an event itself, \<open>trigger\<close> calls exactly the listeners that were
  registered when it started, in the order of their registration, and then the listeners of \<open>*\<close> that
  are registered after those calls, with the event's name put before the arguments; what handlers add
  or remove during the calls changes the emitter and not the calls. The result tells whether no
  listener returned false.\<close>
theorem trigger_calls_registered:
  assumes "no_triggers H"
  shows "ev_trigger H (Suc n) nm args (e, log) =
    (let ps = (if nm = ''*'' then [] else pairs (cache_of nm e));
         e' = fold (after_call H) ps e;
         qs = pairs (cache_of ''*'' e')
     in Some (list_all (hd_returns H \<circ> base_fn \<circ> fst) (ps @ qs), fold (after_call H) qs e',
              log @ map (call_entry args) ps @ map (call_entry (nm # args)) qs))"
  by (rule ev_trigger_flat[OF assms])

text \<open>A listener added with \<open>once\<close> to an event whose other listeners do nothing to the emitter.\<close>

definition quiet :: handlers where
  "quiet = \<lparr>hd_body = (\<lambda>h. []), hd_returns = (\<lambda>h. h \<noteq> 0)\<rparr>"

lemma trigger_calls_registered_witness:
  "ev_trigger quiet 1 ''change'' [''a''] (ev_once ''*'' 0 None (ev_on ''change'' (Some (Fn 7)) (Some (Ctx 3)) new_Events), []) =
     Some (False, \<lparr>em_listeners = [(''change'', [Handler (Fn 7), Context (Some (Ctx 3))]), (''*'', [])], em_next = 1\<rparr>,
       [(7, Some (Ctx 3), [''a'']), (0, None, [''change'', ''a''])])"
proof -
  have q: "no_triggers quiet" by (simp add: no_triggers_def quiet_def)
  show ?thesis using trigger_calls_registered[OF q, of 0 "''change''" "[''a'']"]
    by (simp add: quiet_def Let_def ev_once_def ev_on_def cache_of_def new_Events_def ev_off_def named_def
        off_name_def off_keeps_def)
qed

text \<open>\<open>off\<close> removes, from the event it names or from all events, exactly the listeners with the
  given handler and context, whatever their number, and leaves every other listener in its place.\<close>
theorem off_removes_exactly:
  assumes "ev_ok e"
  shows "ev_ok (ev_off nm h c e) \<and>
    (\<forall>m. pairs (cache_of m (ev_off nm h c e)) =
       (if named nm \<and> nm \<noteq> Some m then pairs (cache_of m e) else filter (stays h c) (pairs (cache_of m e))))"
  using ev_off_exact[OF assms] by blast

definition sample_emitter :: emitter where
  "sample_emitter = fold (\<lambda>(f, c). ev_on ''change'' (Some (Fn f)) c) [(1, None), (2, Some (Ctx 5)), (1, Some (Ctx 5)), (1, None)] new_Events"

lemma off_removes_exactly_witness:
  "pairs (cache_of ''change'' (ev_off None (Some (Fn 1)) None sample_emitter)) = [(Fn 2, Some (Ctx 5))]"
proof -
  have "ev_ok sample_emitter" by (simp add: sample_emitter_def)
  moreover have "pairs (cache_of ''change'' sample_emitter) =
      [(Fn 1, None), (Fn 2, Some (Ctx 5)), (Fn 1, Some (Ctx 5)), (Fn 1, None)]" by code_simp
  ultimately show ?thesis using off_removes_exactly[of sample_emitter None "Some (Fn 1)" None]
    by (simp add: named_def stays_def)
qed

text \<open>A listener added with \<open>once\<close> cannot be removed by its handler: \<open>off\<close> compares the closure.\<close>

lemma once_not_removable:
  assumes "ev_ok e"
  shows "pairs (cache_of nm (ev_off (Some nm) (Some (Fn h)) None (ev_once nm h c e))) =
    filter (stays (Some (Fn h)) None) (pairs (cache_of nm e)) @ [(OnceFn (em_next e) nm h c, Some Self)]"
proof -
  have "ev_ok (ev_once nm h c e)" using assms by simp
  moreover have "pairs (cache_of nm (ev_once nm h c e)) = pairs (cache_of nm e) @ [(OnceFn (em_next e) nm h c, Some Self)]"
    using assms pairs_on[of "e\<lparr>em_next := Suc (em_next e)\<rparr>" nm nm] by (simp add: ev_once_def) (simp add: cache_of_def)
  ultimately show ?thesis using ev_off_exact(2)[where nm = "Some nm" and m = nm] by (simp add: stays_def)
qed

definition retriggering :: handlers where
  "retriggering = \<lparr>hd_body = (\<lambda>h. if h = 1 then [COff (Some ''e'') (Some 1) None, CTrigger ''e'' []] else []),
     hd_returns = (\<lambda>h. True)\<rparr>"

text \<open>A listener added with \<open>once\<close> is called twice by one event when a listener before it triggers
  the event again: the outer trigger has copied the array before the inner one removes the listener.\<close>
lemma once_called_twice:
  "map_option (snd \<circ> snd)
     (ev_trigger retriggering 5 ''e'' [] (ev_once ''e'' 2 None (ev_on ''e'' (Some (Fn 1)) None new_Events), [])) =
   Some [(1, None, []), (2, None, []), (2, None, [])]"
  by code_simp

lemma after_plain: "(\<forall>h. hd_body H h = []) \<Longrightarrow> (\<forall>p \<in> set ps. \<exists>h. fst p = Fn h) \<Longrightarrow> fold (after_call H) ps e = e"
  by (induction ps arbitrary: e) auto

text \<open>A listener added with \<open>once\<close> to an event with plain listeners, none of which touches the
  emitter, is called by the next trigger of the event, after the listeners already there, with its own
  context; that trigger removes it, and the one after it calls the others only.\<close>
theorem once_called_once:
  assumes ok: "ev_ok e" and H: "\<forall>h. hd_body H h = []" and nm: "nm \<noteq> ''*''" "nm \<noteq> []"
    and star: "pairs (cache_of ''*'' e) = []"
    and plain: "\<forall>p \<in> set (pairs (cache_of nm e)). \<exists>h. fst p = Fn h"
  shows "\<exists>r e' r'. ev_trigger H 1 nm args (ev_once nm h c e, []) =
      Some (r, e', map (call_entry args) (pairs (cache_of nm e)) @ [(h, c, args)]) \<and>
    pairs (cache_of nm e') = pairs (cache_of nm e) \<and>
    ev_trigger H 1 nm args (e', []) = Some (r', e', map (call_entry args) (pairs (cache_of nm e)))"
proof -
  let ?ps = "pairs (cache_of nm e)"
  have nt: "no_triggers H" using H by (simp add: no_triggers_def)
  define e1 where "e1 = ev_once nm h c e"
  define f where "f = OnceFn (em_next e) nm h c"
  define e' where "e' = ev_off (Some nm) (Some f) None e1"
  have e1: "ev_ok e1" "pairs (cache_of nm e1) = ?ps @ [(f, Some Self)]" "pairs (cache_of ''*'' e1) = []"
  proof -
    have "cache_of m (e\<lparr>em_next := Suc (em_next e)\<rparr>) = cache_of m e" for m by (simp add: cache_of_def)
    then show "pairs (cache_of nm e1) = ?ps @ [(f, Some Self)]" "pairs (cache_of ''*'' e1) = []"
      using ok nm star by (simp_all add: e1_def ev_once_def pairs_on f_def)
  qed (simp add: e1_def ok)
  have stay: "filter (stays (Some f) None) ?ps = ?ps"
    using plain by (intro filter_True) (auto simp: stays_def f_def)
  have off: "pairs (cache_of m e') = (if m = nm then filter (stays (Some f) None) (pairs (cache_of m e1))
      else pairs (cache_of m e1))" for m
    using ev_off_exact(2)[OF e1(1), where nm = "Some nm" and m = m] nm by (auto simp: e'_def named_def)
  have e': "pairs (cache_of nm e') = ?ps" "pairs (cache_of ''*'' e') = []"
    using off[of nm] off[of "''*''"] nm e1 stay by (simp_all add: stays_def)
  have "fold (after_call H) (?ps @ [(f, Some Self)]) e1 = e'"
    using after_plain[OF H plain] H by (simp add: f_def e'_def)
  moreover have "call_entry args (f, Some Self) = (h, c, args)" by (simp add: f_def)
  ultimately have "\<exists>r. ev_trigger H 1 nm args (e1, []) =
      Some (r, e', map (call_entry args) ?ps @ [(h, c, args)])"
    using ev_trigger_flat[OF nt, of 0 nm args e1 "[]"] e1 e' nm by (simp add: Let_def)
  moreover have "\<exists>r'. ev_trigger H 1 nm args (e', []) = Some (r', e', map (call_entry args) ?ps)"
    using ev_trigger_flat[OF nt, of 0 nm args e' "[]"] e' nm after_plain[OF H plain] by (simp add: Let_def)
  ultimately show ?thesis using e'(1) unfolding e1_def by blast
qed

lemma once_called_once_witness:
  "\<exists>r e'. ev_trigger quiet 1 ''change'' [''a''] (ev_once ''change'' 2 (Some (Ctx 9)) sample_emitter, []) =
     Some (r, e', [(1, None, [''a'']), (2, Some (Ctx 5), [''a'']), (1, Some (Ctx 5), [''a'']), (1, None, [''a'']),
       (2, Some (Ctx 9), [''a''])])"
proof -
  have ok: "ev_ok sample_emitter" by (simp add: sample_emitter_def)
  have p: "pairs (cache_of ''change'' sample_emitter) =
      [(Fn 1, None), (Fn 2, Some (Ctx 5)), (Fn 1, Some (Ctx 5)), (Fn 1, None)]" by code_simp
  have s: "pairs (cache_of ''*'' sample_emitter) = []" by code_simp
  show ?thesis
    using once_called_once[OF ok, of quiet "''change''" "[''a'']" 2 "Some (Ctx 9)"] p s
    by (auto simp: quiet_def)
qed

end
