(* ===== verification/Dictionary.thy ===== *)
theory Dictionary
  imports Prelude
begin

text \<open>
  The dictionary the views keep their caches in (common/dictionary/index.js): a weak map from keys to
  values, beside an array of the keys for the iteration. \<open>set\<close> pushes the key without a check, so the
  array is right only where a key is set once; the caches test \<open>has\<close> first.
\<close>

record ('k, 'v) dict =
  di_map :: "'k \<rightharpoonup> 'v"
  di_arr :: "'k list"

definition di_clear :: "('k, 'v) dict" where
  "di_clear = \<lparr>di_map = Map.empty, di_arr = []\<rparr>"

definition di_has :: "'k \<Rightarrow> ('k, 'v) dict \<Rightarrow> bool" where
  "di_has k d \<longleftrightarrow> di_map d k \<noteq> None"

definition di_get :: "'k \<Rightarrow> ('k, 'v) dict \<Rightarrow> 'v option" where
  "di_get k d = di_map d k"

definition di_set :: "'k \<Rightarrow> 'v \<Rightarrow> ('k, 'v) dict \<Rightarrow> ('k, 'v) dict" where
  "di_set k v d = \<lparr>di_map = (di_map d)(k \<mapsto> v), di_arr = di_arr d @ [k]\<rparr>"

fun indexOf :: "'k \<Rightarrow> 'k list \<Rightarrow> int" where
  "indexOf k [] = -1"
| "indexOf k (x # xs) = (if x = k then 0 else (let i = indexOf k xs in if i < 0 then -1 else i + 1))"

definition splice1 :: "nat \<Rightarrow> 'k list \<Rightarrow> 'k list" where
  "splice1 i xs = take i xs @ drop (i + 1) xs"

definition di_delete :: "'k \<Rightarrow> ('k, 'v) dict \<Rightarrow> 'v option \<times> ('k, 'v) dict" where
  "di_delete k d =
     (let index = indexOf k (di_arr d);
          arr = (if index \<ge> 0 then splice1 (nat index) (di_arr d) else di_arr d)
      in (di_map d k, \<lparr>di_map = (di_map d)(k := None), di_arr = arr\<rparr>))"

text \<open>The calls of the iterator: the value and the key.\<close>

definition di_each :: "('k, 'v) dict \<Rightarrow> ('v option \<times> 'k) list" where
  "di_each d = map (\<lambda>k. (di_map d k, k)) (di_arr d)"

text \<open>What \<open>Cache.get\<close> does: an element without an entry gets an empty one.\<close>

definition cache_get :: "'k \<Rightarrow> 'v \<Rightarrow> ('k, 'v) dict \<Rightarrow> ('k, 'v) dict" where
  "cache_get k v d = (if \<not> di_has k d then di_set k v d else d)"

text \<open>As far as lookups go the dictionary is a keyed store, also where its array is not up to date.\<close>

interpretation dict: keyed "\<lambda>d k. di_get k d" "\<lambda>d k v. di_set k v d" "\<lambda>d k. snd (di_delete k d)" None Some
  by unfold_locales (auto simp: di_get_def di_set_def di_delete_def Let_def)

section \<open>Iteration\<close>

lemma splice_indexOf: "(if indexOf k xs \<ge> 0 then splice1 (nat (indexOf k xs)) xs else xs) = remove1 k xs"
  by (induction xs) (auto simp: splice1_def Let_def nat_add_distrib)

datatype ('k, 'v) dict_op = DSet 'k 'v | DDelete 'k | DClear

fun dict_step :: "('k, 'v) dict_op \<Rightarrow> ('k, 'v) dict \<Rightarrow> ('k, 'v) dict" where
  "dict_step (DSet k v) d = di_set k v d"
| "dict_step (DDelete k) d = snd (di_delete k d)"
| "dict_step DClear d = di_clear"

text \<open>The specification: an association list in the order of insertion.\<close>

fun assoc_step :: "('k, 'v) dict_op \<Rightarrow> ('k \<times> 'v) list \<Rightarrow> ('k \<times> 'v) list" where
  "assoc_step (DSet k v) kvs = map_put kvs k v"
| "assoc_step (DDelete k) kvs = map_del kvs k"
| "assoc_step DClear kvs = []"

text \<open>Keys are set only while they are absent.\<close>

fun guarded :: "('k, 'v) dict_op list \<Rightarrow> ('k \<times> 'v) list \<Rightarrow> bool" where
  "guarded [] kvs = True"
| "guarded (op # ops) kvs \<longleftrightarrow>
     (case op of DSet k v \<Rightarrow> map_of kvs k = None | _ \<Rightarrow> True) \<and> guarded ops (assoc_step op kvs)"

definition dict_rel :: "('k, 'v) dict \<Rightarrow> ('k \<times> 'v) list \<Rightarrow> bool" where
  "dict_rel d kvs \<longleftrightarrow> di_map d = map_of kvs \<and> di_arr d = map fst kvs \<and> distinct (map fst kvs)"

lemma remove1_keys: "distinct (map fst kvs) \<Longrightarrow> remove1 k (map fst kvs) = map fst (map_del kvs k)"
  by (induction kvs) (auto simp: map_del_def filter_id_conv image_iff intro!: filter_True[symmetric] arg_cong[of _ _ "map fst"])

lemma dict_rel_step:
  assumes "dict_rel d kvs" and "case op of DSet k v \<Rightarrow> map_of kvs k = None | _ \<Rightarrow> True"
  shows "dict_rel (dict_step op d) (assoc_step op kvs)"
proof (cases op)
  case (DSet k v)
  then have "k \<notin> fst ` set kvs" using assms(2) by (simp add: map_of_eq_None_iff)
  then show ?thesis using assms(1) DSet by (auto simp: dict_rel_def di_set_def keys_map_put)
next
  case (DDelete k)
  have "distinct (map fst (map_del kvs k))" if "distinct (map fst kvs)"
    using that by (simp add: map_del_def distinct_map_filter)
  then show ?thesis using DDelete assms(1) splice_indexOf[of k "di_arr d"] remove1_keys[of kvs k]
    by (auto simp: dict_rel_def di_delete_def Let_def)
next
  case DClear
  then show ?thesis by (simp add: dict_rel_def di_clear_def)
qed

lemma dict_rel_run:
  "guarded ops kvs \<Longrightarrow> dict_rel d kvs \<Longrightarrow> dict_rel (fold dict_step ops d) (fold assoc_step ops kvs)"
  by (induction ops arbitrary: d kvs) (auto intro: dict_rel_step)

text \<open>While keys are set only when they are absent, as the element cache does, the dictionary is the
  map it looks like: \<open>each\<close> visits every key once, in the order of insertion, with the value \<open>get\<close> gives.\<close>
theorem dictionary_is_map:
  assumes "guarded ops []"
  shows "let d = fold dict_step ops di_clear; kvs = fold assoc_step ops []
    in di_each d = map (\<lambda>(k, v). (Some v, k)) kvs \<and> distinct (map fst kvs) \<and> (\<forall>k. di_get k d = map_of kvs k)"
proof -
  have "dict_rel (fold dict_step ops di_clear) (fold assoc_step ops [])"
    using assms by (rule dict_rel_run) (simp add: dict_rel_def di_clear_def)
  then show ?thesis
    by (auto simp: dict_rel_def Let_def di_each_def di_get_def)
qed

lemma dictionary_is_map_witness:
  "di_each (fold dict_step [DSet ''a'' 1, DSet ''b'' (2 :: int), DDelete ''a'', DSet ''a'' 3] di_clear) =
     [(Some 2, ''b''), (Some 3, ''a'')]"
  using dictionary_is_map[of "[DSet ''a'' 1, DSet ''b'' (2 :: int), DDelete ''a'', DSet ''a'' 3]"]
  by (simp add: Let_def map_del_def)

text \<open>A key that is set twice stays in the array when it is deleted, and \<open>each\<close> visits it without a value.\<close>

lemma set_twice_stale:
  "di_each (snd (di_delete k (di_set k v' (di_set k v di_clear)))) = [(None, k)]"
  by (simp add: di_each_def di_delete_def di_set_def di_clear_def splice1_def Let_def)

end
