(* ===== verification/Modifier.thy ===== *)
theory Modifier
  imports Js_Value "HOL-Library.List_Lexorder" "HOL-Library.Char_ord" "HOL-Library.Multiset"
begin

text \<open>
  Modifier keys of mouse events (common/modifier/index.js): the alternatives and the joint keys of a
  modifier expression such as \<open>alt|ctrl\<close>, whether an event matches it, and whether two are equal.
  An event is the set of its properties that are \<open>true\<close>.
\<close>

datatype modifiers = MStr string | MList "string list"

record mod_keys =
  mk_or :: "string list"
  mk_and :: "string list"

definition parse_item :: "string \<Rightarrow> mod_keys \<Rightarrow> mod_keys" where
  "parse_item item m =
     (if CHR ''&'' \<notin> set item then m\<lparr>mk_or := mk_or m @ [item]\<rparr>
      else m\<lparr>mk_and := mk_and m @ split_at_char (CHR ''&'') item\<rparr>)"

definition parseModifierKey :: "modifiers \<Rightarrow> mod_keys" where
  "parseModifierKey modifiers =
     (case modifiers of
        MList ks \<Rightarrow> \<lparr>mk_or = [] @ ks, mk_and = []\<rparr>
      | MStr s \<Rightarrow> fold parse_item (split_at_char (CHR ''|'') s) \<lparr>mk_or = [], mk_and = []\<rparr>)"

definition arrays_equal :: "string list \<Rightarrow> string list \<Rightarrow> bool" where
  "arrays_equal a1 a2 \<longleftrightarrow> length a1 = length a2 \<and>
     (length a1 = 0 \<or> list_all (\<lambda>i. a1 ! i = a2 ! i) [0..<length a1])"

definition isModifierKeyEqual :: "modifiers option \<Rightarrow> modifiers option \<Rightarrow> bool" where
  "isModifierKeyEqual modifiers1 modifiers2 =
     (case (modifiers1, modifiers2) of
        (Some ms1, Some ms2) \<Rightarrow>
          (let m1 = parseModifierKey ms1; m2 = parseModifierKey ms2
           in arrays_equal (sort_strings (mk_or m1)) (sort_strings (mk_or m2)) \<and>
              arrays_equal (sort_strings (mk_and m1)) (sort_strings (mk_and m2)))
      | (None, None) \<Rightarrow> True
      | _ \<Rightarrow> False)"

text \<open>\<open>toLowerCase\<close>, on ASCII.\<close>

definition lower :: "char \<Rightarrow> char" where
  "lower c = (let n = of_char c :: nat in if 65 \<le> n \<and> n \<le> 90 then char_of (n + 32) else c)"

definition key_property :: "string \<Rightarrow> string" where
  "key_property key = map lower key @ ''Key''"

definition isModifierKeyMatch :: "(string \<Rightarrow> bool) \<Rightarrow> modifiers option \<Rightarrow> bool \<Rightarrow> bool" where
  "isModifierKeyMatch e modifiers strict =
     (if modifiers = None \<or> modifiers = Some (MList [])
      then (if strict then \<not> e ''altKey'' \<and> \<not> e ''ctrlKey'' \<and> \<not> e ''metaKey'' \<and> \<not> e ''shiftKey'' else True)
      else (let m = parseModifierKey (the modifiers); match = (\<lambda>key. e (key_property key))
            in list_ex match (mk_or m) \<and> list_all match (mk_and m)))"

section \<open>Sorting strings\<close>

lemma str_le_iff: "str_le s t \<longleftrightarrow> s \<le> t"
proof (induction s t rule: str_le.induct)
  case (3 c s d t)
  then show ?case by (simp add: less_char_def)
qed simp_all

lemma str_insert_insort: "str_insert s ts = insort s ts"
  by (induction ts) (simp_all add: str_le_iff)

lemma sort_strings_sort: "sort_strings ss = sort ss"
proof -
  have "str_insert = insort" by (intro ext) (rule str_insert_insort)
  then show ?thesis by (simp add: sort_strings_def sort_key_def)
qed

lemma sort_eq_mset: "sort xs = sort ys \<longleftrightarrow> mset xs = mset ys" for xs ys :: "string list"
proof
  assume "sort xs = sort ys"
  then have "mset (sort xs) = mset (sort ys)" by (rule arg_cong)
  then show "mset xs = mset ys" by (simp only: mset_sort)
next
  assume "mset xs = mset ys"
  then show "sort xs = sort ys" by (intro properties_for_sort) (simp_all only: mset_sort sorted_sort)
qed

lemma arrays_equal_eq: "arrays_equal a b \<longleftrightarrow> a = b"
  by (auto simp: arrays_equal_def list_all_iff intro: nth_equalityI)

text \<open>Two modifier expressions are equal exactly when both are absent or both present with the same
  alternatives and the same joint keys, counted with multiplicity and in any order; so equality of
  modifiers is an equivalence.\<close>
theorem modifier_equal_iff:
  "isModifierKeyEqual a b =
     (map_option (\<lambda>ms. (mset (mk_or (parseModifierKey ms)), mset (mk_and (parseModifierKey ms)))) a =
      map_option (\<lambda>ms. (mset (mk_or (parseModifierKey ms)), mset (mk_and (parseModifierKey ms)))) b)"
proof (cases a)
  case None
  then show ?thesis by (cases b) (simp_all add: isModifierKeyEqual_def)
next
  case (Some m1)
  show ?thesis
  proof (cases b)
    case None
    then show ?thesis using Some by (simp add: isModifierKeyEqual_def)
  next
    case (Some m2)
    show ?thesis
      unfolding \<open>a = Some m1\<close> Some isModifierKeyEqual_def prod.case option.case Let_def sort_strings_sort
        arrays_equal_eq sort_eq_mset option.map option.inject prod.inject by (rule refl)
  qed
qed

section \<open>Joint keys alone never match\<close>

lemma split_free: "d \<notin> set s \<Longrightarrow> split_at_char d s = [s]"
  by (induction s) auto

text \<open>An expression of joint keys only, such as \<open>ctrl&shift\<close>, matches no event, not even one with all
  the keys pressed: the alternatives are empty, and the code asks for one of them.\<close>
lemma joint_keys_never_match:
  assumes "CHR ''&'' \<in> set s" and "CHR ''|'' \<notin> set s"
  shows "\<not> isModifierKeyMatch e (Some (MStr s)) strict"
  using assms by (simp add: isModifierKeyMatch_def parseModifierKey_def split_free parse_item_def Let_def)

lemma joint_keys_never_match_witness: "\<not> isModifierKeyMatch (\<lambda>p. True) (Some (MStr ''ctrl&shift'')) False"
  by (rule joint_keys_never_match) simp_all

end
