(* ===== verification/Store.thy ===== *)
theory Store
  imports Js_Value "HOL-Library.Sublist"
begin

text \<open>
  The data of a cell (model/store.js): properties that are set and removed with change events, and the
  changes since the outermost running change. Listeners may read and change the store while it reports
  a change, and have a state of their own; they do not throw. Comparing values (\<open>isEqual\<close>) is a
  parameter: it is a library's deep equality.
\<close>

section \<open>State and events\<close>

record mopts =
  mo_unset :: bool
  mo_silent :: bool
  mo_propertyPath :: "string option"
  mo_propertyValue :: jv
  mo_propertyPathArray :: "string list option"

definition no_opts :: mopts where
  "no_opts = \<lparr>mo_unset = False, mo_silent = False, mo_propertyPath = None, mo_propertyValue = JUndef,
     mo_propertyPathArray = None\<rparr>"

record store =
  st_data :: obj
  st_previous :: obj
  st_changed :: obj
  st_pending :: bool
  st_changing :: bool
  st_pendingOptions :: "mopts option"

text \<open>The events: a changed key with its options, current and previous value; and the end of a change.\<close>

datatype st_event = ChangeKey string mopts jv jv | Changed obj obj "mopts option"

text \<open>The listeners of a store, taken together: in a state of their own they see an event and the store as
  it is, and either change the store, to be asked again afterwards, or are done with the event. A
  change they make is reported to them again before that, so they are reentered.\<close>

type_synonym 'l listener = "'l \<Rightarrow> st_event \<Rightarrow> store \<Rightarrow> (obj \<times> mopts) option \<times> 'l"

text \<open>What runs: the store, the state of the listeners, and the events so far.\<close>

type_synonym 'l run_state = "store \<times> 'l \<times> st_event list"

definition has_key :: "string \<Rightarrow> obj \<Rightarrow> bool" where
  "has_key k o' \<longleftrightarrow> k \<in> set (map fst o')"

section \<open>Changing the data\<close>

text \<open>One key of the change: the current data, the changes against the previous data, and the list of
  keys whose value differs from the current one.\<close>

definition mutate_key :: "(jv \<Rightarrow> jv \<Rightarrow> bool) \<Rightarrow> bool \<Rightarrow> obj \<Rightarrow> string \<Rightarrow> store \<times> string list \<Rightarrow> store \<times> string list" where
  "mutate_key isEqual unset data key st =
     (case st of (s, changes) \<Rightarrow>
        (let newValue = oget data key;
             changes = (if \<not> isEqual (oget (st_data s) key) newValue then changes @ [key] else changes);
             changed = (if \<not> isEqual (oget (st_previous s) key) newValue
                        then oset (st_changed s) key newValue else odel (st_changed s) key);
             current = (if unset then odel (st_data s) key else oset (st_data s) key newValue)
         in (s\<lparr>st_changed := changed, st_data := current\<rparr>, changes)))"

definition begin_change :: "store \<Rightarrow> store" where
  "begin_change s =
     (if st_changing s then s
      else s\<lparr>st_changing := True, st_previous := st_data s, st_changed := []\<rparr>)"

definition apply_data :: "(jv \<Rightarrow> jv \<Rightarrow> bool) \<Rightarrow> obj \<Rightarrow> mopts \<Rightarrow> store \<Rightarrow> store \<times> string list" where
  "apply_data isEqual data opts s =
     fold (mutate_key isEqual (mo_unset opts) data) (key_order (map fst data)) (begin_change s, [])"

text \<open>\<open>mutate\<close>, its loop over the changed keys, its loop while changes are pending, and the listeners.
  Listeners may answer each other for ever: the number bounds the depth of nested changes, the changes
  in answer to one event and the rounds of the loop, and \<open>None\<close> is that it was too small.\<close>

function (sequential)
  mutate :: "(jv \<Rightarrow> jv \<Rightarrow> bool) \<Rightarrow> 'l listener \<Rightarrow> nat \<Rightarrow> obj \<Rightarrow> mopts \<Rightarrow> 'l run_state \<Rightarrow> 'l run_state option" and
  emit_keys :: "(jv \<Rightarrow> jv \<Rightarrow> bool) \<Rightarrow> 'l listener \<Rightarrow> nat \<Rightarrow> string list \<Rightarrow> mopts \<Rightarrow> 'l run_state \<Rightarrow> 'l run_state option" and
  answers :: "(jv \<Rightarrow> jv \<Rightarrow> bool) \<Rightarrow> 'l listener \<Rightarrow> nat \<Rightarrow> st_event \<Rightarrow> 'l run_state \<Rightarrow> 'l run_state option" and
  pending_loop :: "(jv \<Rightarrow> jv \<Rightarrow> bool) \<Rightarrow> 'l listener \<Rightarrow> nat \<Rightarrow> 'l run_state \<Rightarrow> 'l run_state option"
where
  "mutate isEqual L n data opts (s, l, log) =
     (case apply_data isEqual data opts s of (s', changes) \<Rightarrow>
        Option.bind
          (if \<not> mo_silent opts \<and> changes \<noteq> []
           then emit_keys isEqual L n changes opts (s'\<lparr>st_pending := True, st_pendingOptions := Some opts\<rparr>, l, log)
           else Some (s', l, log))
          (\<lambda>st. if st_changing s then Some st
             else Option.bind (if \<not> mo_silent opts then pending_loop isEqual L n st else Some st)
               (\<lambda>(s'', l', log').
                  Some (s''\<lparr>st_pending := False, st_changing := False, st_pendingOptions := None\<rparr>, l', log'))))"
| "emit_keys isEqual L n [] opts st = Some st"
| "emit_keys isEqual L n (key # keys) opts (s, l, log) =
     (let ev = ChangeKey key opts (oget (st_data s) key) (oget (st_previous s) key)
      in Option.bind (answers isEqual L n ev (s, l, log @ [ev])) (emit_keys isEqual L n keys opts))"
| "answers isEqual L n ev (s, l, log) =
     (case L l ev s of
        (None, l') \<Rightarrow> Some (s, l', log)
      | (Some (data, opts), l') \<Rightarrow>
          (case n of
             0 \<Rightarrow> None
           | Suc m \<Rightarrow> Option.bind (mutate isEqual L m data opts (s, l', log)) (answers isEqual L m ev)))"
| "pending_loop isEqual L n (s, l, log) =
     (if \<not> st_pending s then Some (s, l, log)
      else (case n of
              0 \<Rightarrow> None
            | Suc m \<Rightarrow>
                (let ev = Changed (st_data s) (st_previous s) (st_pendingOptions s)
                 in Option.bind (answers isEqual L n ev (s\<lparr>st_pending := False\<rparr>, l, log @ [ev]))
                      (pending_loop isEqual L m))))"
  by pat_completeness auto
termination
  by (relation "measures
      [\<lambda>x. case x of Inl (Inl (eq, L, n, data, opts, st)) \<Rightarrow> n | Inl (Inr (eq, L, n, keys, opts, st)) \<Rightarrow> n
         | Inr (Inl (eq, L, n, ev, st)) \<Rightarrow> n | Inr (Inr (eq, L, n, st)) \<Rightarrow> n,
       \<lambda>x. case x of Inl (Inl (eq, L, n, data, opts, st)) \<Rightarrow> 3 | Inl (Inr (eq, L, n, keys, opts, st)) \<Rightarrow> 2
         | Inr (Inl (eq, L, n, ev, st)) \<Rightarrow> 0 | Inr (Inr (eq, L, n, st)) \<Rightarrow> 1,
       \<lambda>x. case x of Inl (Inl (eq, L, n, data, opts, st)) \<Rightarrow> 0 | Inl (Inr (eq, L, n, keys, opts, st)) \<Rightarrow> length keys
         | Inr (Inl (eq, L, n, ev, st)) \<Rightarrow> 0 | Inr (Inr (eq, L, n, st)) \<Rightarrow> 0]") auto

declare mutate.simps [simp del] answers.simps [simp del] pending_loop.simps [simp del]

section \<open>Operations\<close>

definition quiet_listener :: "unit listener" where
  "quiet_listener = (\<lambda>l ev s. (None, l))"

definition empty_store :: store where
  "empty_store = \<lparr>st_data = [], st_previous = [], st_changed = [], st_pending = False, st_changing = False,
     st_pendingOptions = None\<rparr>"

text \<open>No listener hears the constructor.\<close>

definition new_Store :: "(jv \<Rightarrow> jv \<Rightarrow> bool) \<Rightarrow> obj \<Rightarrow> store option" where
  "new_Store isEqual data =
     map_option (\<lambda>(s, l, log). s\<lparr>st_changed := []\<rparr>)
       (mutate isEqual quiet_listener 1 data no_opts (empty_store, (), []))"

definition store_get :: "string \<Rightarrow> jv \<Rightarrow> store \<Rightarrow> jv" where
  "store_get key defaultValue s = (let ret = oget (st_data s) key in if nullish ret then defaultValue else ret)"

definition getPrevious :: "string \<Rightarrow> store \<Rightarrow> jv" where
  "getPrevious key s = (let ret = oget (st_previous s) key in if nullish ret then JUndef else ret)"

definition store_set :: "(jv \<Rightarrow> jv \<Rightarrow> bool) \<Rightarrow> 'l listener \<Rightarrow> nat \<Rightarrow> string \<Rightarrow> jv \<Rightarrow> mopts \<Rightarrow>
    'l run_state \<Rightarrow> 'l run_state option" where
  "store_set isEqual L n key v opts st = mutate isEqual L n [(key, v)] opts st"

text \<open>\<open>remove\<close> takes a key, an array of keys, or no key for all of them.\<close>

datatype keys_arg = OneKey string | ManyKeys "string list" | AllKeys

definition removal :: "keys_arg \<Rightarrow> store \<Rightarrow> obj" where
  "removal key s =
     (case key of
        OneKey k \<Rightarrow> [(k, JUndef)]
      | ManyKeys ks \<Rightarrow> fold (\<lambda>k subset. oset subset k JUndef) ks []
      | AllKeys \<Rightarrow> fold (\<lambda>k subset. oset subset k JUndef) (key_order (map fst (st_data s))) [])"

definition store_remove :: "(jv \<Rightarrow> jv \<Rightarrow> bool) \<Rightarrow> 'l listener \<Rightarrow> nat \<Rightarrow> keys_arg \<Rightarrow> mopts \<Rightarrow>
    'l run_state \<Rightarrow> 'l run_state option" where
  "store_remove isEqual L n key opts st =
     mutate isEqual L n (removal key (fst st)) (opts\<lparr>mo_unset := True\<rparr>) st"

definition hasChanged :: "string option \<Rightarrow> store \<Rightarrow> bool" where
  "hasChanged key s = (case key of None \<Rightarrow> length (st_changed s) > 0 | Some k \<Rightarrow> has_key k (st_changed s))"

definition getChanges :: "(jv \<Rightarrow> jv \<Rightarrow> bool) \<Rightarrow> obj option \<Rightarrow> store \<Rightarrow> obj option" where
  "getChanges isEqual diff s =
     (case diff of
        None \<Rightarrow> if hasChanged None s then Some (st_changed s) else None
      | Some d \<Rightarrow>
          (let old = (if st_changing s then st_previous s else st_data s);
               changed = fold (\<lambda>key acc. if \<not> isEqual (oget old key) (oget d key)
                 then oset acc key (oget d key) else acc) (key_order (map fst d)) []
           in if changed \<noteq> [] then Some changed else None))"

definition store_dispose :: "store \<Rightarrow> store" where
  "store_dispose s = s\<lparr>st_data := [], st_previous := [], st_changed := [], st_pending := False,
     st_changing := False, st_pendingOptions := None\<rparr>"

section \<open>Paths\<close>

text \<open>Own properties of objects, elements of arrays.\<close>

fun jhas :: "jv \<Rightarrow> string \<Rightarrow> bool" where
  "jhas (JObj o') k = has_key k o'"
| "jhas (JArr xs) k = ((is_index k \<and> dec_val k < length xs) \<or> k = ''length'')"
| "jhas _ k = False"

fun jget :: "jv \<Rightarrow> string \<Rightarrow> jv" where
  "jget (JObj o') k = oget o' k"
| "jget (JArr xs) k = (if is_index k \<and> dec_val k < length xs then xs ! dec_val k
     else if k = ''length'' then JNum (int (length xs)) else JUndef)"
| "jget _ k = JUndef"

fun jput :: "jv \<Rightarrow> string \<Rightarrow> jv \<Rightarrow> jv" where
  "jput (JObj o') k v = JObj (oset o' k v)"
| "jput (JArr xs) k v = JArr (if is_index k \<and> dec_val k < length xs then xs[dec_val k := v] else xs)"
| "jput w k v = w"

fun jdel :: "jv \<Rightarrow> string \<Rightarrow> jv" where
  "jdel (JObj o') k = JObj (odel o' k)"
| "jdel (JArr xs) k = JArr (if is_index k \<and> dec_val k < length xs then xs[dec_val k := JUndef] else xs)"
| "jdel w k = w"

fun path_loop :: "jv \<Rightarrow> string list \<Rightarrow> jv" where
  "path_loop ret [] = ret"
| "path_loop ret (key # keys) = (if key \<noteq> [] \<and> jhas ret key then path_loop (jget ret key) keys else JUndef)"

definition getByPath :: "jv \<Rightarrow> string list \<Rightarrow> jv" where
  "getByPath v keys = (if keys = [] then JUndef else path_loop v keys)"

text \<open>Deleting the last key of a path from its parent, which is a part of the value.\<close>

fun unset_in :: "jv \<Rightarrow> string list \<Rightarrow> string \<Rightarrow> jv" where
  "unset_in v [] k = jdel v k"
| "unset_in v (key # keys) k =
     (if key \<noteq> [] \<and> jhas v key then jput v key (unset_in (jget v key) keys k) else v)"

definition unsetByPath :: "jv \<Rightarrow> string list \<Rightarrow> jv" where
  "unsetByPath v path =
     (if path = [] \<or> last path = [] then v else unset_in v (butlast path) (last path))"

definition store_removeByPath :: "(jv \<Rightarrow> jv \<Rightarrow> bool) \<Rightarrow> 'l listener \<Rightarrow> nat \<Rightarrow> string list \<Rightarrow> mopts \<Rightarrow>
    'l run_state \<Rightarrow> 'l run_state option" where
  "store_removeByPath isEqual L n keys opts st =
     (let key = hd keys
      in if length keys = 1 then store_remove isEqual L n (OneKey key) opts st
         else (let paths = tl keys; prop = store_get key JUndef (fst st);
                   prop = (if truthy prop then unsetByPath prop paths else prop)
               in store_set isEqual L n key prop opts st))"

text \<open>The options \<open>setByPath\<close> leaves to the listeners: the array of the path is the one from which
  filling the update takes the last key.\<close>

definition path_options :: "string list \<Rightarrow> jv \<Rightarrow> mopts \<Rightarrow> mopts" where
  "path_options pathArray v opts =
     opts\<lparr>mo_propertyPath := Some (intercalate ''/'' pathArray), mo_propertyValue := v,
       mo_propertyPathArray := Some (if length pathArray = 1 then pathArray else butlast pathArray)\<rparr>"

text \<open>How the edge view reads them.\<close>

definition shouldRerenderLabels :: "jv \<Rightarrow> mopts \<Rightarrow> bool" where
  "shouldRerenderLabels previousLabels opts =
     (if nullish previousLabels then True
      else (case mo_propertyPathArray opts of
              None \<Rightarrow> True
            | Some pathArray \<Rightarrow>
                (if length pathArray > 1 \<and> truthy (jget previousLabels (pathArray ! 1))
                 then (if length pathArray = 2
                       then (case mo_propertyValue opts of JObj o' \<Rightarrow> has_key ''markup'' o' | _ \<Rightarrow> False)
                       else pathArray ! 2 = ''markup'')
                 else True)))"

section \<open>The changes are exact\<close>

lemma keyset_oset: "set (map fst (oset o' j v)) = insert j (set (map fst o'))"
proof (induction o')
  case (Cons a o')
  then show ?case by (cases a) (simp add: insert_commute)
qed simp

lemma has_key_oset [simp]: "has_key k (oset o' j v) \<longleftrightarrow> k = j \<or> has_key k o'"
  unfolding has_key_def keyset_oset by simp

lemma has_key_odel [simp]: "has_key k (odel o' j) \<longleftrightarrow> k \<noteq> j \<and> has_key k o'"
  by (auto simp: has_key_def odel_def)

lemma has_key_Nil [simp]: "\<not> has_key k []"
  by (simp add: has_key_def)

text \<open>The keys of \<open>changed\<close> are those whose current value differs from the previous one, and they have
  the current values.\<close>

definition diff_ok :: "(jv \<Rightarrow> jv \<Rightarrow> bool) \<Rightarrow> store \<Rightarrow> bool" where
  "diff_ok isEqual s \<longleftrightarrow>
     (\<forall>k. has_key k (st_changed s) \<longleftrightarrow> \<not> isEqual (oget (st_previous s) k) (oget (st_data s) k)) \<and>
     (\<forall>k. has_key k (st_changed s) \<longrightarrow> oget (st_changed s) k = oget (st_data s) k)"

text \<open>A removal names its keys with the value undefined, as \<open>remove\<close> does.\<close>

definition mut_ok :: "obj \<Rightarrow> mopts \<Rightarrow> bool" where
  "mut_ok data opts \<longleftrightarrow> (mo_unset opts \<longrightarrow> (\<forall>(k, v) \<in> set data. v = JUndef))"

lemma mut_ok_oget: "mut_ok data opts \<Longrightarrow> mo_unset opts \<Longrightarrow> oget data k = JUndef"
  unfolding mut_ok_def by (induction data) auto

lemma mutate_key_frame:
  "st_previous (fst (mutate_key eq u data k st)) = st_previous (fst st)"
  "st_changing (fst (mutate_key eq u data k st)) = st_changing (fst st)"
  "st_pending (fst (mutate_key eq u data k st)) = st_pending (fst st)"
  "st_pendingOptions (fst (mutate_key eq u data k st)) = st_pendingOptions (fst st)"
  by (cases st; simp add: mutate_key_def Let_def)+

lemma mutate_key_diff:
  "mut_ok data opts \<Longrightarrow> diff_ok eq (fst st) \<Longrightarrow> diff_ok eq (fst (mutate_key eq (mo_unset opts) data k st))"
  using mut_ok_oget[of data opts k]
  by (cases st) (auto simp: mutate_key_def diff_ok_def Let_def)

lemma mutate_keys_frame:
  "st_previous (fst (fold (mutate_key eq u data) ks st)) = st_previous (fst st) \<and>
   st_changing (fst (fold (mutate_key eq u data) ks st)) = st_changing (fst st) \<and>
   st_pending (fst (fold (mutate_key eq u data) ks st)) = st_pending (fst st) \<and>
   st_pendingOptions (fst (fold (mutate_key eq u data) ks st)) = st_pendingOptions (fst st)"
  by (induction ks arbitrary: st) (simp_all add: mutate_key_frame)

lemma mutate_keys_diff:
  "mut_ok data opts \<Longrightarrow> diff_ok eq (fst st) \<Longrightarrow>
   diff_ok eq (fst (fold (mutate_key eq (mo_unset opts) data) ks st))"
  by (induction ks arbitrary: st) (simp_all add: mutate_key_diff)

lemma apply_data_ok:
  assumes refl: "\<And>v. isEqual v v" and m: "mut_ok data opts" and d: "st_changing s \<Longrightarrow> diff_ok isEqual s"
    and a: "apply_data isEqual data opts s = (s', changes)"
  shows "diff_ok isEqual s' \<and> st_changing s' \<and>
    st_previous s' = (if st_changing s then st_previous s else st_data s)"
proof -
  have "diff_ok isEqual (begin_change s)"
    using d refl by (auto simp: begin_change_def diff_ok_def)
  then have "diff_ok isEqual s'"
    using mutate_keys_diff[OF m, of isEqual "(begin_change s, [])"] a by (metis apply_data_def fst_conv)
  moreover have "st_previous s' = st_previous (begin_change s) \<and> st_changing s' = st_changing (begin_change s)"
    using mutate_keys_frame[of isEqual "mo_unset opts" data _ "(begin_change s, [])"] a
    by (metis apply_data_def fst_conv)
  ultimately show ?thesis by (simp add: begin_change_def)
qed

definition listener_ok :: "'l listener \<Rightarrow> bool" where
  "listener_ok L \<longleftrightarrow> (\<forall>l ev s data opts l'. L l ev s = (Some (data, opts), l') \<longrightarrow> mut_ok data opts)"

definition running :: "(jv \<Rightarrow> jv \<Rightarrow> bool) \<Rightarrow> obj \<Rightarrow> store \<Rightarrow> bool" where
  "running isEqual prev s \<longleftrightarrow> st_changing s \<and> diff_ok isEqual s \<and> st_previous s = prev"

lemma running_simps [simp]:
  "running eq prev (s\<lparr>st_pending := b\<rparr>) = running eq prev s"
  "running eq prev (s\<lparr>st_pendingOptions := p\<rparr>) = running eq prev s"
  by (simp_all add: running_def diff_ok_def)

lemma diff_ok_flags [simp]: "diff_ok eq (s\<lparr>st_pending := b, st_changing := c, st_pendingOptions := p\<rparr>) = diff_ok eq s"
  by (simp add: diff_ok_def)

text \<open>What holds of the store when each of the four functions returns, by induction on their runs.\<close>

definition mutate_keeps :: "(jv \<Rightarrow> jv \<Rightarrow> bool) \<Rightarrow> 'l listener \<Rightarrow> nat \<Rightarrow> obj \<Rightarrow> mopts \<Rightarrow> 'l run_state \<Rightarrow> bool" where
  "mutate_keeps isEqual L n data opts st \<longleftrightarrow> (\<forall>st'. mutate isEqual L n data opts st = Some st' \<longrightarrow>
     (\<forall>v. isEqual v v) \<and> listener_ok L \<longrightarrow> mut_ok data opts \<longrightarrow>
     (st_changing (fst st) \<longrightarrow> diff_ok isEqual (fst st)) \<longrightarrow>
     (if st_changing (fst st) then running isEqual (st_previous (fst st)) (fst st')
      else \<not> st_changing (fst st') \<and> \<not> st_pending (fst st') \<and> st_pendingOptions (fst st') = None \<and>
        st_previous (fst st') = st_data (fst st) \<and> diff_ok isEqual (fst st')))"

definition run_keeps :: "(jv \<Rightarrow> jv \<Rightarrow> bool) \<Rightarrow> 'l listener \<Rightarrow> 'l run_state option \<Rightarrow> 'l run_state \<Rightarrow> bool" where
  "run_keeps isEqual L r st \<longleftrightarrow> (\<forall>st' prev. r = Some st' \<longrightarrow> (\<forall>v. isEqual v v) \<and> listener_ok L \<longrightarrow>
     running isEqual prev (fst st) \<longrightarrow> running isEqual prev (fst st'))"

lemmas store_induct = mutate_emit_keys_answers_pending_loop.induct

lemma mutate_invariant:
  shows "mutate_keeps isEqual L n data opts st"
    and "run_keeps isEqual L (emit_keys isEqual L n keys opts st) st"
    and "run_keeps isEqual L (answers isEqual L n ev st) st"
    and "run_keeps isEqual L (pending_loop isEqual L n st) st"
proof (induction rule: store_induct [where P = mutate_keeps
      and Q = "\<lambda>isEqual L n keys opts st. run_keeps isEqual L (emit_keys isEqual L n keys opts st) st"
      and R = "\<lambda>isEqual L n ev st. run_keeps isEqual L (answers isEqual L n ev st) st"
      and S = "\<lambda>isEqual L n st. run_keeps isEqual L (pending_loop isEqual L n st) st"])
  case (1 isEqual L n data opts s l log)
  obtain s1 changes where a: "apply_data isEqual data opts s = (s1, changes)" by fastforce
  let ?e = "if \<not> mo_silent opts \<and> changes \<noteq> []
           then emit_keys isEqual L n changes opts (s1\<lparr>st_pending := True, st_pendingOptions := Some opts\<rparr>, l, log)
           else Some (s1, l, log)"
  let ?k = "\<lambda>st. if st_changing s then Some st
             else Option.bind (if \<not> mo_silent opts then pending_loop isEqual L n st else Some st)
               (\<lambda>(s'', l', log').
                  Some (s''\<lparr>st_pending := False, st_changing := False, st_pendingOptions := None\<rparr>, l', log'))"
  let ?prev = "if st_changing s then st_previous s else st_data s"
  show ?case
    unfolding mutate_keeps_def
  proof (intro allI impI)
    fix st'
    assume m: "mutate isEqual L n data opts (s, l, log) = Some st'" and ok: "(\<forall>v. isEqual v v) \<and> listener_ok L"
      and mo: "mut_ok data opts" and d: "st_changing (fst (s, l, log)) \<longrightarrow> diff_ok isEqual (fst (s, l, log))"
    have s1: "running isEqual ?prev s1" using apply_data_ok[OF _ mo _ a] ok d by (simp add: running_def)
    have "Option.bind ?e ?k = Some st'" using m by (simp only: mutate.simps a prod.case)
    then obtain st where E: "?e = Some st" and R: "?k st = Some st'" using bind_eq_Some_conv[of ?e ?k st'] by blast
    have st: "running isEqual ?prev (fst st)"
    proof (cases "\<not> mo_silent opts \<and> changes \<noteq> []")
      case True
      then have "emit_keys isEqual L n changes opts (s1\<lparr>st_pending := True, st_pendingOptions := Some opts\<rparr>, l, log) = Some st"
        using E by (simp only: if_True simp_thms)
      then show ?thesis using 1(1)[OF a[symmetric] True] ok s1 by (simp add: run_keeps_def)
    next
      case False
      then show ?thesis using E s1 by (simp only: if_False option.inject) auto
    qed
    show "if st_changing (fst (s, l, log)) then running isEqual (st_previous (fst (s, l, log))) (fst st')
      else \<not> st_changing (fst st') \<and> \<not> st_pending (fst st') \<and> st_pendingOptions (fst st') = None \<and>
        st_previous (fst st') = st_data (fst (s, l, log)) \<and> diff_ok isEqual (fst st')"
    proof (cases "st_changing s")
      case True
      then show ?thesis using R st by simp
    next
      case False
      obtain s'' l' log' where P: "(if \<not> mo_silent opts then pending_loop isEqual L n st else Some st) = Some (s'', l', log')"
        and st': "st' = (s''\<lparr>st_pending := False, st_changing := False, st_pendingOptions := None\<rparr>, l', log')"
        using R False by (auto simp: bind_eq_Some_conv)
      have "running isEqual ?prev s''"
      proof (cases "mo_silent opts")
        case True
        then show ?thesis using P st by simp
      next
        case silent: False
        have "run_keeps isEqual L (pending_loop isEqual L n st) st" by (rule 1(2)[OF a[symmetric] E False silent])
        then show ?thesis using P st ok silent by (fastforce simp: run_keeps_def)
      qed
      then show ?thesis using False st' by (simp add: running_def)
    qed
  qed
next
  case (2 isEqual L n opts st)
  then show ?case by (simp add: run_keeps_def)
next
  case (3 isEqual L n key keys opts s l log)
  define ev where "ev = ChangeKey key opts (oget (st_data s) key) (oget (st_previous s) key)"
  note A = 3(1)[OF ev_def]
  show ?case
    unfolding run_keeps_def
  proof (intro allI impI)
    fix st' prev
    assume e: "emit_keys isEqual L n (key # keys) opts (s, l, log) = Some st'"
      and ok: "(\<forall>v. isEqual v v) \<and> listener_ok L" and r: "running isEqual prev (fst (s, l, log))"
    obtain st1 where A1: "answers isEqual L n ev (s, l, log @ [ev]) = Some st1"
      and E: "emit_keys isEqual L n keys opts st1 = Some st'"
      using e by (auto simp: Let_def ev_def bind_eq_Some_conv)
    have "running isEqual prev (fst st1)" using A A1 ok r by (simp add: run_keeps_def)
    then show "running isEqual prev (fst st')" using 3(2)[OF ev_def A1] E ok by (simp add: run_keeps_def)
  qed
next
  case (4 isEqual L n ev s l log)
  show ?case
    unfolding run_keeps_def
  proof (intro allI impI)
    fix st' prev
    assume e: "answers isEqual L n ev (s, l, log) = Some st'"
      and ok: "(\<forall>v. isEqual v v) \<and> listener_ok L" and r: "running isEqual prev (fst (s, l, log))"
    obtain c l' where L: "L l ev s = (c, l')" by fastforce
    show "running isEqual prev (fst st')"
    proof (cases c)
      case None
      then have "st' = (s, l', log)" using e L by (simp add: answers.simps)
      then show ?thesis using r by simp
    next
      case (Some p)
      obtain data opts where p: "p = (data, opts)" by (cases p)
      obtain m st1 where n: "n = Suc m"
        and M: "mutate isEqual L m data opts (s, l', log) = Some st1"
        and A: "answers isEqual L m ev st1 = Some st'"
        using e L Some p by (auto simp: answers.simps[of isEqual L n ev s] bind_eq_Some_conv split: nat.splits)
      have q: "(Some p, l') = L l ev s" "(data, opts) = p" using L Some p by simp_all
      have "L l ev s = (Some (data, opts), l')" using L Some p by simp
      then have mo: "mut_ok data opts" using ok unfolding listener_ok_def by blast
      have "running isEqual prev (fst st1)"
        using 4(1)[OF q(1) refl q(2) n] M mo ok r by (fastforce simp: mutate_keeps_def running_def)
      then show ?thesis using 4(2)[OF q(1) refl q(2) n M] A ok by (simp add: run_keeps_def)
    qed
  qed
next
  case (5 isEqual L n s l log)
  show ?case
    unfolding run_keeps_def
  proof (intro allI impI)
    fix st' prev
    assume e: "pending_loop isEqual L n (s, l, log) = Some st'"
      and ok: "(\<forall>v. isEqual v v) \<and> listener_ok L" and r: "running isEqual prev (fst (s, l, log))"
    show "running isEqual prev (fst st')"
    proof (cases "st_pending s")
      case False
      then have "st' = (s, l, log)" using e by (subst (asm) pending_loop.simps) simp
      then show ?thesis using r by simp
    next
      case True
      define ev where "ev = Changed (st_data s) (st_previous s) (st_pendingOptions s)"
      obtain m st1 where n: "n = Suc m"
        and A: "answers isEqual L n ev (s\<lparr>st_pending := False\<rparr>, l, log @ [ev]) = Some st1"
        and P: "pending_loop isEqual L m st1 = Some st'"
        using e[unfolded pending_loop.simps[of isEqual L n s l log]] True
        by (auto simp: ev_def Let_def bind_eq_Some_conv split: nat.splits)
      have p: "\<not> \<not> st_pending s" using True by simp
      have "running isEqual prev (fst st1)" using 5(1)[OF p n ev_def] A ok r by (simp add: run_keeps_def)
      then show ?thesis using 5(2)[OF p n ev_def A] P ok by (simp add: run_keeps_def)
    qed
  qed
qed

section \<open>Changes that return\<close>

text \<open>A larger number changes nothing once a change has returned.\<close>

definition grows :: "(nat \<Rightarrow> 'r option) \<Rightarrow> nat \<Rightarrow> bool" where
  "grows f n \<longleftrightarrow> (\<forall>r n'. f n = Some r \<longrightarrow> n \<le> n' \<longrightarrow> f n' = Some r)"

lemma growsD: "grows f n \<Longrightarrow> f n = Some r \<Longrightarrow> n \<le> n' \<Longrightarrow> f n' = Some r"
  unfolding grows_def by blast

lemma store_grows:
  shows "grows (\<lambda>n. mutate isEqual L n data opts st) n"
    and "grows (\<lambda>n. emit_keys isEqual L n keys opts st) n"
    and "grows (\<lambda>n. answers isEqual L n ev st) n"
    and "grows (\<lambda>n. pending_loop isEqual L n st) n"
proof (induction rule: store_induct [where P = "\<lambda>isEqual L n data opts st. grows (\<lambda>n. mutate isEqual L n data opts st) n"
      and Q = "\<lambda>isEqual L n keys opts st. grows (\<lambda>n. emit_keys isEqual L n keys opts st) n"
      and R = "\<lambda>isEqual L n ev st. grows (\<lambda>n. answers isEqual L n ev st) n"
      and S = "\<lambda>isEqual L n st. grows (\<lambda>n. pending_loop isEqual L n st) n"])
  case (1 isEqual L n data opts s l log)
  obtain s1 changes where a: "apply_data isEqual data opts s = (s1, changes)" by fastforce
  let ?e = "\<lambda>n. if \<not> mo_silent opts \<and> changes \<noteq> []
           then emit_keys isEqual L n changes opts (s1\<lparr>st_pending := True, st_pendingOptions := Some opts\<rparr>, l, log)
           else Some (s1, l, log)"
  let ?p = "\<lambda>n st. if \<not> mo_silent opts then pending_loop isEqual L n st else Some st"
  let ?done = "\<lambda>(s'', l', log').
      Some (s''\<lparr>st_pending := False, st_changing := False, st_pendingOptions := None\<rparr>, l', log')"
  let ?k = "\<lambda>n st. if st_changing s then Some st else Option.bind (?p n st) ?done"
  have eq: "mutate isEqual L n data opts (s, l, log) = Option.bind (?e n) (?k n)" for n
    by (simp only: mutate.simps a prod.case)
  show ?case
    unfolding grows_def
  proof (intro allI impI)
    fix st' n' assume m: "mutate isEqual L n data opts (s, l, log) = Some st'" and le: "n \<le> n'"
    obtain st where E: "?e n = Some st" and R: "?k n st = Some st'"
      using m bind_eq_Some_conv[of "?e n" "?k n" st'] unfolding eq by blast
    have E': "?e n' = Some st"
    proof (cases "\<not> mo_silent opts \<and> changes \<noteq> []")
      case True
      then have "emit_keys isEqual L n changes opts (s1\<lparr>st_pending := True, st_pendingOptions := Some opts\<rparr>, l, log) = Some st"
        using E by (simp only: if_True simp_thms)
      from growsD[OF 1(1)[OF a[symmetric] True] this le] show ?thesis using True by (simp only: if_True simp_thms)
    next
      case False
      then show ?thesis using E by (simp only: if_False)
    qed
    have "?k n' st = Some st'"
    proof (cases "st_changing s \<or> mo_silent opts")
      case True
      then show ?thesis using R by auto
    next
      case False
      then have c: "\<not> st_changing s" "\<not> mo_silent opts" by simp_all
      obtain r where r: "pending_loop isEqual L n st = Some r" "?done r = Some st'"
        using R c bind_eq_Some_conv[of "pending_loop isEqual L n st" ?done st'] by (simp only: if_False if_True simp_thms) blast
      have "pending_loop isEqual L n' st = Some r" by (rule growsD[OF 1(2)[OF a[symmetric] E c] r(1) le])
      then show ?thesis using r(2) c by simp
    qed
    then show "mutate isEqual L n' data opts (s, l, log) = Some st'"
      unfolding eq using E' bind_eq_Some_conv[of "?e n'" "?k n'" st'] by blast
  qed
next
  case (2 isEqual L n opts st)
  then show ?case by (simp add: grows_def)
next
  case (3 isEqual L n key keys opts s l log)
  define ev where "ev = ChangeKey key opts (oget (st_data s) key) (oget (st_previous s) key)"
  have eq: "emit_keys isEqual L n (key # keys) opts (s, l, log) =
      Option.bind (answers isEqual L n ev (s, l, log @ [ev])) (emit_keys isEqual L n keys opts)" for n
    by (simp add: ev_def Let_def)
  show ?case
    unfolding grows_def eq
  proof (intro allI impI)
    fix st' n' assume le: "n \<le> n'"
      and e: "Option.bind (answers isEqual L n ev (s, l, log @ [ev])) (emit_keys isEqual L n keys opts) = Some st'"
    obtain st1 where A: "answers isEqual L n ev (s, l, log @ [ev]) = Some st1" and E: "emit_keys isEqual L n keys opts st1 = Some st'"
      using e[unfolded bind_eq_Some_conv] by blast
    show "Option.bind (answers isEqual L n' ev (s, l, log @ [ev])) (emit_keys isEqual L n' keys opts) = Some st'"
      by (simp only: growsD[OF 3(1)[OF ev_def] A le] growsD[OF 3(2)[OF ev_def A] E le] bind.bind_lunit)
  qed
next
  case (4 isEqual L n ev s l log)
  obtain c l' where L: "L l ev s = (c, l')" by fastforce
  show ?case
    unfolding grows_def
  proof (intro allI impI)
    fix st' n' assume e: "answers isEqual L n ev (s, l, log) = Some st'" and le: "n \<le> n'"
    show "answers isEqual L n' ev (s, l, log) = Some st'"
    proof (cases c)
      case None
      then show ?thesis using e L by (simp add: answers.simps)
    next
      case (Some p)
      obtain data opts where p: "p = (data, opts)" by (cases p)
      obtain m st1 where n: "n = Suc m"
        and M: "mutate isEqual L m data opts (s, l', log) = Some st1"
        and A: "answers isEqual L m ev st1 = Some st'"
        using e L Some p by (auto simp: answers.simps[of isEqual L n ev s] bind_eq_Some_conv split: nat.splits)
      obtain m' where n': "n' = Suc m'" "m \<le> m'" using le n by (cases n') auto
      have q: "(Some p, l') = L l ev s" "(data, opts) = p" using L Some p by simp_all
      have "mutate isEqual L m' data opts (s, l', log) = Some st1"
        by (rule growsD[OF 4(1)[OF q(1) refl q(2) n] M n'(2)])
      moreover have "answers isEqual L m' ev st1 = Some st'"
        by (rule growsD[OF 4(2)[OF q(1) refl q(2) n M] A n'(2)])
      ultimately show ?thesis using L Some p n' by (simp add: answers.simps[of isEqual L "Suc m'" ev s])
    qed
  qed
next
  case (5 isEqual L n s l log)
  define ev where "ev = Changed (st_data s) (st_previous s) (st_pendingOptions s)"
  show ?case
    unfolding grows_def
  proof (intro allI impI)
    fix st' n' assume e: "pending_loop isEqual L n (s, l, log) = Some st'" and le: "n \<le> n'"
    show "pending_loop isEqual L n' (s, l, log) = Some st'"
    proof (cases "st_pending s")
      case False
      then have "pending_loop isEqual L k (s, l, log) = Some (s, l, log)" for k
        by (simp add: pending_loop.simps[of isEqual L k s l log])
      then show ?thesis using e by simp
    next
      case True
      obtain m st1 where n: "n = Suc m"
        and A: "answers isEqual L n ev (s\<lparr>st_pending := False\<rparr>, l, log @ [ev]) = Some st1"
        and P: "pending_loop isEqual L m st1 = Some st'"
        using e[unfolded pending_loop.simps[of isEqual L n s l log]] True
        by (auto simp: ev_def Let_def bind_eq_Some_conv split: nat.splits)
      obtain m' where n': "n' = Suc m'" "m \<le> m'" using le n by (cases n') auto
      have p: "\<not> \<not> st_pending s" using True by simp
      have "answers isEqual L n' ev (s\<lparr>st_pending := False\<rparr>, l, log @ [ev]) = Some st1"
        by (rule growsD[OF 5(1)[OF p n ev_def] A le])
      moreover have "pending_loop isEqual L m' st1 = Some st'" by (rule growsD[OF 5(2)[OF p n ev_def A] P n'(2)])
      ultimately show ?thesis using True n'(1) by (simp add: pending_loop.simps[of isEqual L "Suc m'" s l log] ev_def Let_def)
    qed
  qed
qed

lemma mutate_more:
  "mutate isEqual L n data opts st = Some st' \<Longrightarrow> n \<le> n' \<Longrightarrow> mutate isEqual L n' data opts st = Some st'"
  by (rule growsD[OF store_grows(1)])

text \<open>Listeners with a budget: each change of theirs uses some of it up.\<close>

definition budgeted :: "('l \<Rightarrow> nat) \<Rightarrow> 'l listener \<Rightarrow> bool" where
  "budgeted b L \<longleftrightarrow>
     (\<forall>l ev s. case L l ev s of (None, l') \<Rightarrow> b l' \<le> b l | (Some change, l') \<Rightarrow> b l' < b l)"

lemma apply_data_changing: "st_changing (fst (apply_data isEqual data opts s))"
proof -
  have "st_changing (begin_change s)" by (simp add: begin_change_def)
  then show ?thesis
    using mutate_keys_frame[of isEqual "mo_unset opts" data "key_order (map fst data)" "(begin_change s, [])"]
    by (simp add: apply_data_def)
qed

definition returned :: "('l \<Rightarrow> nat) \<Rightarrow> 'l run_state option \<Rightarrow> 'l run_state \<Rightarrow> bool" where
  "returned b r st \<longleftrightarrow> (\<exists>s' l' log'. r = Some (s', l', log') \<and> b l' \<le> b (fst (snd st)) \<and>
     (st_changing (fst st) \<longrightarrow> st_changing s'))"

definition answered :: "('l \<Rightarrow> nat) \<Rightarrow> 'l run_state option \<Rightarrow> 'l run_state \<Rightarrow> bool" where
  "answered b r st \<longleftrightarrow> (\<exists>s' l' log'. r = Some (s', l', log') \<and> b l' \<le> b (fst (snd st)) \<and> st_changing s' \<and>
     (s' = fst st \<or> b l' < b (fst (snd st))))"

lemma mutate_returns:
  shows "budgeted b L \<longrightarrow> b (fst (snd st)) + (if st_changing (fst st) then 0 else 1) \<le> n \<longrightarrow>
      returned b (mutate isEqual L n data opts st) st"
    and "budgeted b L \<longrightarrow> st_changing (fst st) \<longrightarrow> b (fst (snd st)) \<le> n \<longrightarrow>
      returned b (emit_keys isEqual L n keys opts st) st"
    and "budgeted b L \<longrightarrow> st_changing (fst st) \<longrightarrow> b (fst (snd st)) \<le> n \<longrightarrow>
      answered b (answers isEqual L n ev st) st"
    and "budgeted b L \<longrightarrow> st_changing (fst st) \<longrightarrow> b (fst (snd st)) + (if st_pending (fst st) then 1 else 0) \<le> n \<longrightarrow>
      returned b (pending_loop isEqual L n st) st"
proof (induction rule: store_induct [where
        P = "\<lambda>isEqual L n data opts st. budgeted b L \<longrightarrow> b (fst (snd st)) + (if st_changing (fst st) then 0 else 1) \<le> n \<longrightarrow>
          returned b (mutate isEqual L n data opts st) st"
      and Q = "\<lambda>isEqual L n keys opts st. budgeted b L \<longrightarrow> st_changing (fst st) \<longrightarrow> b (fst (snd st)) \<le> n \<longrightarrow>
          returned b (emit_keys isEqual L n keys opts st) st"
      and R = "\<lambda>isEqual L n ev st. budgeted b L \<longrightarrow> st_changing (fst st) \<longrightarrow> b (fst (snd st)) \<le> n \<longrightarrow>
          answered b (answers isEqual L n ev st) st"
      and S = "\<lambda>isEqual L n st. budgeted b L \<longrightarrow> st_changing (fst st) \<longrightarrow>
          b (fst (snd st)) + (if st_pending (fst st) then 1 else 0) \<le> n \<longrightarrow> returned b (pending_loop isEqual L n st) st"])
  case (1 isEqual L n data opts s l log)
  obtain s1 changes where a: "apply_data isEqual data opts s = (s1, changes)" by fastforce
  have c1: "st_changing s1" using apply_data_changing[of isEqual data opts s] a by simp
  let ?s1 = "s1\<lparr>st_pending := True, st_pendingOptions := Some opts\<rparr>"
  let ?e = "if \<not> mo_silent opts \<and> changes \<noteq> [] then emit_keys isEqual L n changes opts (?s1, l, log) else Some (s1, l, log)"
  show ?case
  proof (intro impI)
    assume L: "budgeted b L" and n: "b (fst (snd (s, l, log))) + (if st_changing (fst (s, l, log)) then 0 else 1) \<le> n"
    have bn: "b l \<le> n" using n by (simp split: if_splits)
    obtain s2 l2 log2 where E: "?e = Some (s2, l2, log2)" and b2: "b l2 \<le> b l" and c2: "st_changing s2"
    proof (cases "\<not> mo_silent opts \<and> changes \<noteq> []")
      case True
      have "returned b (emit_keys isEqual L n changes opts (?s1, l, log)) (?s1, l, log)"
        using 1(1)[OF a[symmetric] True] L c1 bn by simp
      then show ?thesis using that True c1 by (auto simp: returned_def)
    next
      case False
      then show ?thesis using that[of s1 l log] c1 by (simp only: if_False simp_thms order_refl)
    qed
    have m: "mutate isEqual L n data opts (s, l, log) =
        (if st_changing s then Some (s2, l2, log2)
         else Option.bind (if \<not> mo_silent opts then pending_loop isEqual L n (s2, l2, log2) else Some (s2, l2, log2))
           (\<lambda>(s'', l', log'). Some (s''\<lparr>st_pending := False, st_changing := False, st_pendingOptions := None\<rparr>, l', log')))"
      by (simp only: mutate.simps a prod.case E bind.bind_lunit)
    show "returned b (mutate isEqual L n data opts (s, l, log)) (s, l, log)"
    proof (cases "st_changing s \<or> mo_silent opts")
      case True
      then show ?thesis using m b2 c2 by (auto simp: returned_def)
    next
      case False
      then have c: "\<not> st_changing s" "\<not> mo_silent opts" by simp_all
      have "returned b (pending_loop isEqual L n (s2, l2, log2)) (s2, l2, log2)"
        using 1(2)[OF a[symmetric] E c] L c2 b2 n c(1) by (simp split: if_splits)
      then show ?thesis using m b2 c by (fastforce simp: returned_def)
    qed
  qed
next
  case (2 isEqual L n opts st)
  then show ?case by (cases st) (simp add: returned_def)
next
  case (3 isEqual L n key keys opts s l log)
  define ev where "ev = ChangeKey key opts (oget (st_data s) key) (oget (st_previous s) key)"
  show ?case
  proof (intro impI)
    assume L: "budgeted b L" and c: "st_changing (fst (s, l, log))" and n: "b (fst (snd (s, l, log))) \<le> n"
    have "answered b (answers isEqual L n ev (s, l, log @ [ev])) (s, l, log @ [ev])"
      using 3(1)[OF ev_def] L c n by simp
    then obtain s1 l1 log1 where A: "answers isEqual L n ev (s, l, log @ [ev]) = Some (s1, l1, log1)"
      and b1: "b l1 \<le> b l" and c1: "st_changing s1"
      by (auto simp: answered_def)
    have "returned b (emit_keys isEqual L n keys opts (s1, l1, log1)) (s1, l1, log1)"
      using 3(2)[OF ev_def A] L c1 b1 n by simp
    moreover have "emit_keys isEqual L n (key # keys) opts (s, l, log) = emit_keys isEqual L n keys opts (s1, l1, log1)"
      using A by (simp add: ev_def Let_def)
    ultimately show "returned b (emit_keys isEqual L n (key # keys) opts (s, l, log)) (s, l, log)"
      using b1 c1 by (auto simp: returned_def)
  qed
next
  case (4 isEqual L n ev s l log)
  obtain c l' where Lc: "L l ev s = (c, l')" by fastforce
  show ?case
  proof (intro impI)
    assume L: "budgeted b L" and ch: "st_changing (fst (s, l, log))" and n: "b (fst (snd (s, l, log))) \<le> n"
    have bud: "case (c, l') of (None, l') \<Rightarrow> b l' \<le> b l | (Some change, l') \<Rightarrow> b l' < b l"
      using L[unfolded budgeted_def, rule_format, of l ev s] by (simp only: Lc)
    show "answered b (answers isEqual L n ev (s, l, log)) (s, l, log)"
    proof (cases c)
      case None
      then show ?thesis using Lc bud ch by (simp add: answers.simps answered_def)
    next
      case (Some p)
      obtain data opts where p: "p = (data, opts)" by (cases p)
      have lt: "b l' < b l" using bud Some by simp
      then obtain m where m: "n = Suc m" "b l' \<le> m" using n by (cases n) auto
      have q: "(Some p, l') = L l ev s" "(data, opts) = p" using Lc Some p by simp_all
      have "returned b (mutate isEqual L m data opts (s, l', log)) (s, l', log)"
        using 4(1)[OF q(1) refl q(2) m(1)] L ch m(2) by simp
      then obtain s1 l1 log1 where M: "mutate isEqual L m data opts (s, l', log) = Some (s1, l1, log1)"
        and b1: "b l1 \<le> b l'" and c1: "st_changing s1"
        using ch by (auto simp: returned_def)
      have "answered b (answers isEqual L m ev (s1, l1, log1)) (s1, l1, log1)"
        using 4(2)[OF q(1) refl q(2) m(1) M] L c1 b1 m(2) by simp
      moreover have "answers isEqual L n ev (s, l, log) = answers isEqual L m ev (s1, l1, log1)"
        using Lc Some p m(1) M by (simp add: answers.simps[of isEqual L "Suc m" ev s])
      ultimately show ?thesis using b1 lt by (auto simp: answered_def)
    qed
  qed
next
  case (5 isEqual L n s l log)
  define ev where "ev = Changed (st_data s) (st_previous s) (st_pendingOptions s)"
  let ?s = "s\<lparr>st_pending := False\<rparr>"
  show ?case
  proof (intro impI)
    assume L: "budgeted b L" and c: "st_changing (fst (s, l, log))"
      and n: "b (fst (snd (s, l, log))) + (if st_pending (fst (s, l, log)) then 1 else 0) \<le> n"
    show "returned b (pending_loop isEqual L n (s, l, log)) (s, l, log)"
    proof (cases "st_pending s")
      case False
      then show ?thesis using c by (simp add: pending_loop.simps[of isEqual L n s] returned_def)
    next
      case True
      obtain m where m: "n = Suc m" "b l \<le> m" using n True by (cases n) auto
      have p: "\<not> \<not> st_pending s" using True by simp
      have "answered b (answers isEqual L n ev (?s, l, log @ [ev])) (?s, l, log @ [ev])"
        using 5(1)[OF p m(1) ev_def] L c m by simp
      then obtain s1 l1 log1 where A: "answers isEqual L n ev (?s, l, log @ [ev]) = Some (s1, l1, log1)"
        and b1: "b l1 \<le> b l" and c1: "st_changing s1" and or: "s1 = ?s \<or> b l1 < b l"
        by (auto simp: answered_def)
      have "b l1 + (if st_pending s1 then 1 else 0) \<le> m" using or b1 m(2) by auto
      then have "returned b (pending_loop isEqual L m (s1, l1, log1)) (s1, l1, log1)"
        using 5(2)[OF p m(1) ev_def A] L c1 by simp
      moreover have "pending_loop isEqual L n (s, l, log) = pending_loop isEqual L m (s1, l1, log1)"
        using True m(1) A by (simp add: pending_loop.simps[of isEqual L "Suc m" s l log] ev_def Let_def)
      ultimately show ?thesis using b1 c1 by (auto simp: returned_def)
    qed
  qed
qed

text \<open>C14: When the outermost change of a store returns, whatever its listeners did to the store with
  \<open>set\<close> and \<open>remove\<close> in answer to its events, with a state of their own and reading the store as it was at
  each step, the store is at rest, its previous data is the data before the change, and the recorded
  changes are exact: a key is reported as changed exactly when its value differs from the one before,
  and \<open>getChanges\<close> gives nothing exactly when no value differs. And it does return, however the store
  looks, when the listeners make at most as many changes as some budget \<open>b\<close> of their state allows.
  Conditions: the comparison of values is reflexive, removals name their keys with the value undefined,
  as \<open>remove\<close> does (\<open>mut_ok\<close>, \<open>listener_ok\<close>), and listeners do not throw. Listeners that change the store
  for ever make the code loop, which is the value \<open>None\<close> for every number.\<close>
theorem store_changes_exact:
  assumes "\<And>v. isEqual v v" and "listener_ok L" and "mut_ok data opts" and "\<not> st_changing s"
  shows "(\<forall>n s' l' log'. mutate isEqual L n data opts (s, l, log) = Some (s', l', log') \<longrightarrow>
      \<not> st_changing s' \<and> \<not> st_pending s' \<and> st_previous s' = st_data s \<and>
      (\<forall>k. hasChanged (Some k) s' \<longleftrightarrow> \<not> isEqual (oget (st_data s) k) (oget (st_data s') k)) \<and>
      (getChanges isEqual None s' = None \<longleftrightarrow> (\<forall>k. isEqual (oget (st_data s) k) (oget (st_data s') k)))) \<and>
    (\<forall>b n. budgeted b L \<and> b l < n \<longrightarrow> mutate isEqual L n data opts (s, l, log) \<noteq> None)"
proof (intro conjI allI impI)
  fix n s' l' log'
  assume m: "mutate isEqual L n data opts (s, l, log) = Some (s', l', log')"
  have i: "\<not> st_changing s' \<and> \<not> st_pending s' \<and> st_previous s' = st_data s \<and> diff_ok isEqual s'"
    using mutate_invariant(1)[of isEqual L n data opts "(s, l, log)"] m assms by (simp add: mutate_keeps_def)
  then show "\<not> st_changing s'" "\<not> st_pending s'" "st_previous s' = st_data s" by simp_all
  show h: "hasChanged (Some k) s' \<longleftrightarrow> \<not> isEqual (oget (st_data s) k) (oget (st_data s') k)" for k
    using i by (simp add: hasChanged_def diff_ok_def)
  have "st_changed s' = [] \<longleftrightarrow> (\<forall>k. \<not> has_key k (st_changed s'))"
    by (cases "st_changed s'") (auto simp: has_key_def)
  then show "getChanges isEqual None s' = None \<longleftrightarrow> (\<forall>k. isEqual (oget (st_data s) k) (oget (st_data s') k))"
    using h by (simp add: getChanges_def hasChanged_def)
next
  fix b n assume "budgeted b L \<and> b l < n"
  then show "mutate isEqual L n data opts (s, l, log) \<noteq> None"
    using mutate_returns(1)[of b L "(s, l, log)" n isEqual data opts] assms(4) by (auto simp: returned_def)
qed

text \<open>A listener that, for the first time only, puts a default back when it finds the label removed, and one
  change that removes it.\<close>

definition restoring :: "bool listener" where
  "restoring fresh ev s =
     (if fresh \<and> oget (st_data s) ''label'' = JUndef then (Some ([(''label'', JStr ''x'')], no_opts), False)
      else (None, fresh))"

definition sample_store :: store where
  "sample_store = empty_store\<lparr>st_data := [(''label'', JStr ''x''), (''size'', JNum 2)]\<rparr>"

lemma restoring_run:
  "mutate (=) restoring 3 [(''label'', JUndef)] (no_opts\<lparr>mo_unset := True\<rparr>) (sample_store, True, []) =
     Some (sample_store\<lparr>st_data := [(''size'', JNum 2), (''label'', JStr ''x'')], st_previous := st_data sample_store\<rparr>, False,
       [ChangeKey ''label'' (no_opts\<lparr>mo_unset := True\<rparr>) JUndef (JStr ''x''),
        ChangeKey ''label'' no_opts (JStr ''x'') (JStr ''x''),
        Changed [(''size'', JNum 2), (''label'', JStr ''x'')] (st_data sample_store) (Some no_opts)])"
  by code_simp

lemma store_changes_exact_witness:
  "\<exists>s' l' log'. mutate (=) restoring 2 [(''label'', JUndef)] (no_opts\<lparr>mo_unset := True\<rparr>) (sample_store, True, []) = Some (s', l', log') \<and>
     st_previous s' = st_data sample_store \<and> \<not> hasChanged (Some ''label'') s' \<and> getChanges (=) None s' = None"
proof -
  let ?s = "sample_store\<lparr>st_data := [(''size'', JNum 2), (''label'', JStr ''x'')], st_previous := st_data sample_store\<rparr>"
  have L: "listener_ok restoring"
    by (auto simp: listener_ok_def restoring_def mut_ok_def no_opts_def)
  have m: "mut_ok [(''label'', JUndef)] (no_opts\<lparr>mo_unset := True\<rparr>)" "\<not> st_changing sample_store"
    by (simp_all add: mut_ok_def sample_store_def empty_store_def)
  note C = store_changes_exact[where isEqual = "(=)" and l = True and log = "[]", OF refl L m]
  have "budgeted of_bool restoring" by (simp add: budgeted_def restoring_def)
  then have "mutate (=) restoring 2 [(''label'', JUndef)] (no_opts\<lparr>mo_unset := True\<rparr>) (sample_store, True, []) \<noteq> None"
    by (intro C[THEN conjunct2, rule_format, of of_bool]) simp
  then obtain r where r: "mutate (=) restoring 2 [(''label'', JUndef)] (no_opts\<lparr>mo_unset := True\<rparr>) (sample_store, True, []) = Some r"
    by blast
  then have "mutate (=) restoring 3 [(''label'', JUndef)] (no_opts\<lparr>mo_unset := True\<rparr>) (sample_store, True, []) = Some r"
    by (rule mutate_more) simp
  then obtain l' log' where r': "r = (?s, l', log')" using restoring_run by (metis option.inject)
  have "oget (st_data sample_store) k = oget (st_data ?s) k" for k by (auto simp: sample_store_def)
  then have "st_previous ?s = st_data sample_store \<and> \<not> hasChanged (Some ''label'') ?s \<and> getChanges (=) None ?s = None"
    using C[THEN conjunct1, rule_format, of 2 ?s l' log'] r r' by blast
  then show ?thesis using r r' by blast
qed

section \<open>Changes nobody answers\<close>

lemma emit_keys_quiet:
  "emit_keys isEqual quiet_listener n keys opts (s, l, log) =
     Some (s, l, log @ map (\<lambda>k. ChangeKey k opts (oget (st_data s) k) (oget (st_previous s) k)) keys)"
  by (induction keys arbitrary: log) (simp_all add: answers.simps quiet_listener_def Let_def)

lemma pending_loop_quiet:
  "pending_loop isEqual quiet_listener (Suc n) (s, l, log) =
     Some (s\<lparr>st_pending := False\<rparr>, l,
       log @ (if st_pending s then [Changed (st_data s) (st_previous s) (st_pendingOptions s)] else []))"
proof -
  have "pending_loop isEqual quiet_listener n (s\<lparr>st_pending := False\<rparr>, l, log') = Some (s\<lparr>st_pending := False\<rparr>, l, log')" for log'
    by (subst pending_loop.simps) simp
  then show ?thesis by (subst pending_loop.simps) (simp add: answers.simps quiet_listener_def Let_def)
qed

lemma mutate_keys_data:
  "distinct ks \<Longrightarrow>
   oget (st_data (fst (fold (mutate_key eq u data) ks (s, cs)))) k =
     (if k \<in> set ks then if u then JUndef else oget data k else oget (st_data s) k) \<and>
   snd (fold (mutate_key eq u data) ks (s, cs)) =
     cs @ filter (\<lambda>k. \<not> eq (oget (st_data s) k) (oget data k)) ks"
proof (induction ks arbitrary: s cs)
  case (Cons j ks)
  obtain s1 cs1 where m: "mutate_key eq u data j (s, cs) = (s1, cs1)" by fastforce
  have d: "oget (st_data s1) i = (if i = j then if u then JUndef else oget data j else oget (st_data s) i)" for i
    using m by (auto simp: mutate_key_def Let_def)
  have c: "cs1 = cs @ (if \<not> eq (oget (st_data s) j) (oget data j) then [j] else [])"
    using m by (auto simp: mutate_key_def Let_def)
  have f: "filter (\<lambda>k. \<not> eq (oget (st_data s1) k) (oget data k)) ks =
      filter (\<lambda>k. \<not> eq (oget (st_data s) k) (oget data k)) ks"
    using Cons.prems d by (intro filter_cong) auto
  show ?case using Cons m d c f by auto
qed simp

text \<open>A change that no listener answers always returns. It sets the given keys, or removes them, and
  no others; it reports each key whose value differs from the old one, in the order of the keys, with
  the new and the old value, and then the end of the change, once and only if some key was reported; a
  silent change reports nothing.\<close>
lemma store_mutate_quiet:
  assumes "\<not> st_changing s" and "\<not> st_pending s" and "distinct (map fst data)"
  shows "\<exists>s'. (let ks = filter (\<lambda>k. \<not> isEqual (oget (st_data s) k) (oget data k)) (key_order (map fst data))
     in mutate isEqual quiet_listener (Suc n) data opts (s, l, log) =
       Some (s', l, log @
         (if mo_silent opts \<or> ks = [] then []
          else map (\<lambda>k. ChangeKey k opts (oget (st_data s') k) (oget (st_data s) k)) ks @
               [Changed (st_data s') (st_data s) (Some opts)])) \<and>
     (\<forall>k. oget (st_data s') k =
        (if has_key k data then if mo_unset opts then JUndef else oget data k else oget (st_data s) k)))"
proof -
  define ks where "ks = filter (\<lambda>k. \<not> isEqual (oget (st_data s) k) (oget data k)) (key_order (map fst data))"
  define s1 where "s1 = fst (apply_data isEqual data opts s)"
  have b: "begin_change s = s\<lparr>st_changing := True, st_previous := st_data s, st_changed := []\<rparr>"
    using assms(1) by (simp add: begin_change_def)
  have M: "oget (st_data s1) k =
        (if has_key k data then if mo_unset opts then JUndef else oget data k else oget (st_data s) k)"
      "snd (apply_data isEqual data opts s) = ks" for k
    using mutate_keys_data[of "key_order (map fst data)" isEqual "mo_unset opts" data "begin_change s" "[]"] assms(3)
    by (simp_all add: s1_def apply_data_def b ks_def has_key_def)
  have F: "st_previous s1 = st_data s" "st_changing s1" "\<not> st_pending s1"
    using mutate_keys_frame[of isEqual "mo_unset opts" data _ "(begin_change s, [])"] assms(2)
    by (simp_all add: s1_def apply_data_def b)
  have a: "apply_data isEqual data opts s = (s1, ks)" using M(2) by (simp add: s1_def prod_eq_iff)
  define s' where "s' = s1\<lparr>st_pending := False, st_changing := False, st_pendingOptions := None\<rparr>"
  have "mutate isEqual quiet_listener (Suc n) data opts (s, l, log) =
       Some (s', l, log @
         (if mo_silent opts \<or> ks = [] then []
          else map (\<lambda>k. ChangeKey k opts (oget (st_data s') k) (oget (st_data s) k)) ks @
               [Changed (st_data s') (st_data s) (Some opts)]))"
    using F assms(1)
    by (simp add: mutate.simps a emit_keys_quiet pending_loop_quiet s'_def)
  then show ?thesis using M(1) by (intro exI[of _ s']) (simp add: Let_def ks_def[symmetric] s'_def)
qed

lemma store_mutate_quiet_witness:
  "\<exists>s'. mutate (=) quiet_listener 1 [(''size'', JNum 2), (''label'', JStr ''y'')] no_opts (sample_store, (), []) =
     Some (s', (), [ChangeKey ''label'' no_opts (oget (st_data s') ''label'') (JStr ''x''),
       Changed (st_data s') (st_data sample_store) (Some no_opts)]) \<and> oget (st_data s') ''label'' = JStr ''y''"
proof -
  have s: "\<not> st_changing sample_store" "\<not> st_pending sample_store"
      "distinct (map fst [(''size'', JNum 2), (''label'', JStr ''y'')])"
      "\<not> mo_silent no_opts" "\<not> mo_unset no_opts"
    by (simp_all add: sample_store_def empty_store_def no_opts_def)
  have k: "filter (\<lambda>k. oget (st_data sample_store) k \<noteq> oget [(''size'', JNum 2), (''label'', JStr ''y'')] k)
      (key_order (map fst [(''size'', JNum 2), (''label'', JStr ''y'')])) = [''label'']"
    by code_simp
  have d: "oget (st_data sample_store) ''label'' = JStr ''x''" by (simp add: sample_store_def)
  show ?thesis
    using store_mutate_quiet[OF s(1-3), of "(=)" 0 no_opts "()" "[]"] s(4,5) d unfolding k
    by (auto simp: Let_def has_key_def)
qed

section \<open>Labels\<close>

text \<open>Setting the markup of an existing label by its path does not render the labels again, although
  the edge view checks the path for \<open>markup\<close>: the path it reads has lost its last key. With the whole
  path the view would render them.\<close>
lemma label_markup_not_rendered:
  assumes "\<not> nullish labels" and "truthy (jget labels i)" and "\<And>o'. v = JObj o' \<Longrightarrow> \<not> has_key ''markup'' o'"
  shows "\<not> shouldRerenderLabels labels (path_options [''labels'', i, ''markup''] v opts) \<and>
    shouldRerenderLabels labels ((path_options [''labels'', i, ''markup''] v opts)
      \<lparr>mo_propertyPathArray := Some [''labels'', i, ''markup'']\<rparr>)"
proof -
  have "\<not> (case v of JObj o' \<Rightarrow> has_key ''markup'' o' | _ \<Rightarrow> False)"
    using assms(3) by (cases v) simp_all
  moreover have "mo_propertyPathArray (path_options [''labels'', i, ''markup''] v opts) = Some [''labels'', i]"
    "mo_propertyValue (path_options [''labels'', i, ''markup''] v opts) = v"
    by (simp_all add: path_options_def)
  ultimately show ?thesis using assms(1,2) unfolding shouldRerenderLabels_def by simp
qed

lemma label_markup_not_rendered_witness:
  "\<not> shouldRerenderLabels (JArr [JObj [(''markup'', JStr ''<text/>'')]])
     (path_options [''labels'', ''0'', ''markup''] (JStr ''<rect/>'') no_opts)"
proof -
  have "dec_val ''0'' = 0" "nat_digits 0 = ''0''" by code_simp+
  then have "truthy (jget (JArr [JObj [(''markup'', JStr ''<text/>'')]]) ''0'')" by (simp add: is_index_def)
  then show ?thesis
    using label_markup_not_rendered[of "JArr [JObj [(''markup'', JStr ''<text/>'')]]" "''0''" "JStr ''<rect/>''" no_opts]
    by (simp add: nullish_def)
qed

section \<open>Removing a path\<close>

lemma is_index_inj: "is_index j \<Longrightarrow> is_index k \<Longrightarrow> dec_val j = dec_val k \<Longrightarrow> j = k"
  unfolding is_index_def by metis

lemma jput_same: "jhas v k \<Longrightarrow> jhas (jput v k w) k \<and> (jget (jput v k w) k = w \<or> (\<exists>n. jget (jput v k w) k = JNum n))"
  by (cases v) auto

lemma jput_other: "j \<noteq> k \<Longrightarrow> jhas (jput v k w) j = jhas v j \<and> jget (jput v k w) j = jget v j"
  by (cases v) (auto simp: nth_list_update dest: is_index_inj)

lemma jdel_same: "k \<noteq> ''length'' \<Longrightarrow> jhas (jdel v k) k \<Longrightarrow> jget (jdel v k) k = JUndef"
  by (cases v) (auto split: if_splits)

lemma jdel_other: "j \<noteq> k \<Longrightarrow> jhas (jdel v k) j = jhas v j \<and> jget (jdel v k) j = jget v j"
  by (cases v) (auto simp: nth_list_update dest: is_index_inj)

lemma path_loop_unset: "k \<noteq> ''length'' \<Longrightarrow> path_loop (unset_in v keys k) (keys @ [k]) = JUndef"
proof (induction keys arbitrary: v)
  case Nil
  then show ?case using jdel_same[of k v] by simp
next
  case (Cons key keys)
  show ?case
  proof (cases "key \<noteq> [] \<and> jhas v key")
    case True
    have num: "path_loop (JNum m) (keys @ [k]) = JUndef" for m by (cases keys) simp_all
    show ?thesis
      using True Cons jput_same[of v key "unset_in (jget v key) keys k"] num by auto
  qed auto
qed

lemma path_loop_frame:
  "\<not> prefix q (keys @ [k]) \<Longrightarrow> \<not> prefix (keys @ [k]) q \<Longrightarrow> path_loop (unset_in v keys k) q = path_loop v q"
proof (induction keys arbitrary: v q)
  case Nil
  then obtain x q' where "q = x # q'" "x \<noteq> k" by (cases q) auto
  then show ?case using jdel_other[of x k v] by simp
next
  case (Cons key keys)
  then obtain x q' where q: "q = x # q'" by (cases q) auto
  show ?case
  proof (cases "x = key")
    case False
    then show ?thesis using q jput_other[of x key v] by simp
  next
    case True
    then have "path_loop (unset_in (jget v key) keys k) q' = path_loop (jget v key) q'"
      using Cons q by simp
    moreover have "path_loop (JNum m) q' = path_loop (unset_in (JNum m) keys k) q'" for m
      by (cases keys) simp_all
    ultimately show ?thesis
      using True q jput_same[of v key "unset_in (jget v key) keys k"] by (cases v) auto
  qed
qed

text \<open>Removing a path from a value removes what \<open>getByPath\<close> finds there, whether the path leads
  through objects or arrays, and the value at every path that neither contains it nor is contained in
  it stays as it was.\<close>
lemma removed_path_gone:
  assumes "path \<noteq> []" and "last path \<notin> {[], ''length''}"
  shows "getByPath (unsetByPath v path) path = JUndef \<and>
    (\<forall>q. \<not> prefix q path \<and> \<not> prefix path q \<longrightarrow> getByPath (unsetByPath v path) q = getByPath v q)"
proof -
  have p: "butlast path @ [last path] = path" using assms(1) by simp
  show ?thesis
    using path_loop_unset[of "last path" v "butlast path"] path_loop_frame[of _ "butlast path" "last path" v] assms
    unfolding p by (simp add: getByPath_def unsetByPath_def)
qed

lemma removed_path_gone_witness:
  "getByPath (unsetByPath (JObj [(''body'', JObj [(''fill'', JStr ''red''), (''rx'', JNum 4)])]) [''body'', ''fill''])
      [''body'', ''rx''] = JNum 4"
proof -
  let ?v = "JObj [(''body'', JObj [(''fill'', JStr ''red''), (''rx'', JNum 4)])]"
  have "\<not> prefix [''body'', ''rx''] [''body'', ''fill''] \<and> \<not> prefix [''body'', ''fill''] [''body'', ''rx'']" by simp
  then have "getByPath (unsetByPath ?v [''body'', ''fill'']) [''body'', ''rx''] = getByPath ?v [''body'', ''rx'']"
    using removed_path_gone[of "[''body'', ''fill'']" ?v] by auto
  then show ?thesis by (simp add: getByPath_def has_key_def)
qed

end
