(* ===== verification/Suggestion.thy ===== *)
theory Suggestion
  imports Prelude "HOL-Library.Sublist"
begin

text \<open>
  Spelling suggestions of the registries (common/string/suggestion.js): the bounded edit distance, which
  fills only a band of each column of the matrix and gives up early, and the search for the best
  candidate. Names are ASCII strings; an array is a function from positions, as JavaScript arrays grow
  when they are written past their end.
\<close>

section \<open>The bounded distance\<close>

type_synonym row = "nat \<Rightarrow> nat"

definition cell_dist :: "string \<Rightarrow> string \<Rightarrow> nat \<Rightarrow> row \<Rightarrow> row \<Rightarrow> nat \<Rightarrow> nat" where
  "cell_dist s1 s2 i previous current j =
     (if s1 ! (i - 1) = s2 ! (j - 1) then previous (j - 1)
      else min (previous j + 1) (min (current (j - 1) + 1) (previous (j - 1) + 2)))"

definition fill :: "nat \<Rightarrow> nat list \<Rightarrow> row \<Rightarrow> row" where
  "fill v js r = fold (\<lambda>j c. c(j := v)) js r"

definition band_step :: "string \<Rightarrow> string \<Rightarrow> nat \<Rightarrow> row \<Rightarrow> nat \<Rightarrow> row \<times> nat \<Rightarrow> row \<times> nat" where
  "band_step s1 s2 i previous j st =
     (case st of (current, colMin) \<Rightarrow>
        (let dist = cell_dist s1 s2 i previous current j in (current(j := dist), min colMin dist)))"

text \<open>One turn of the outer loop: the new column and its least value.\<close>

definition column :: "nat \<Rightarrow> string \<Rightarrow> string \<Rightarrow> nat \<Rightarrow> row \<Rightarrow> row \<Rightarrow> row \<times> nat" where
  "column limit s1 s2 i previous current =
     (let big = limit + 1;
          minJ = (if i > limit then i - limit else 1);
          maxJ = (if length s2 > limit + i then limit + i else length s2);
          current = fill big [1..<minJ] (current(0 := i));
          (current, colMin) = fold (band_step s1 s2 i previous) [minJ..<maxJ + 1] (current, i)
      in (fill big [maxJ + 1..<length s2 + 1] current, colMin))"

text \<open>The outer loop over \<open>i\<close>, which swaps the arrays; None is the early \<open>return undefined\<close>.\<close>

fun columns :: "nat \<Rightarrow> string \<Rightarrow> string \<Rightarrow> nat list \<Rightarrow> row \<Rightarrow> row \<Rightarrow> row option" where
  "columns limit s1 s2 [] previous current = Some previous"
| "columns limit s1 s2 (i # is) previous current =
     (case column limit s1 s2 i previous current of
        (next, colMin) \<Rightarrow> if colMin > limit then None else columns limit s1 s2 is next previous)"

definition levenshteinWithMax :: "string \<Rightarrow> string \<Rightarrow> nat \<Rightarrow> nat option" where
  "levenshteinWithMax s1 s2 limit =
     (let previous = fold (\<lambda>i r. r(i := i)) [0..<length s2 + 1] (\<lambda>j. 0)
      in case columns limit s1 s2 [1..<length s1 + 1] previous (\<lambda>j. 0) of
           None \<Rightarrow> None
         | Some previous \<Rightarrow>
             (let res = previous (length s2) in if res > limit then None else Some res))"

section \<open>The search for a candidate\<close>

definition toLowerCase :: "string \<Rightarrow> string" where
  "toLowerCase = map (\<lambda>c. let n = of_char c :: nat in if 65 \<le> n \<and> n \<le> 90 then char_of (n + 32) else c)"

text \<open>Math.floor of the products with 0.34 and 0.4; the first only matters below two.\<close>

definition maximumLengthDifference :: "string \<Rightarrow> nat" where
  "maximumLengthDifference name = min 2 (length name * 34 div 100)"

definition initialDistance :: "string \<Rightarrow> nat" where
  "initialDistance name = length name * 2 div 5 + 1"

definition length_close :: "string \<Rightarrow> string \<Rightarrow> bool" where
  "length_close name candidateName \<longleftrightarrow>
     \<bar>int (length candidateName) - int (length (toLowerCase name))\<bar> \<le> int (maximumLengthDifference name)"

fun suggest_loop :: "string \<Rightarrow> ('c \<Rightarrow> string option) \<Rightarrow> 'c list \<Rightarrow> nat \<Rightarrow> 'c option \<Rightarrow> bool \<Rightarrow> 'c option" where
  "suggest_loop name getName [] bestDistance bestCandidate justCheckExactMatches = bestCandidate"
| "suggest_loop name getName (candidate # rest) bestDistance bestCandidate justCheckExactMatches =
     (case getName candidate of
        None \<Rightarrow> suggest_loop name getName rest bestDistance bestCandidate justCheckExactMatches
      | Some candidateName \<Rightarrow>
          if \<not> length_close name candidateName
          then suggest_loop name getName rest bestDistance bestCandidate justCheckExactMatches
          else if toLowerCase candidateName = toLowerCase name
          then (if candidateName = name
                then suggest_loop name getName rest bestDistance bestCandidate justCheckExactMatches
                else Some candidate)
          else if justCheckExactMatches \<or> length candidateName < 3
          then suggest_loop name getName rest bestDistance bestCandidate justCheckExactMatches
          else (case levenshteinWithMax (toLowerCase name) (toLowerCase candidateName) (bestDistance - 1) of
                  None \<Rightarrow> suggest_loop name getName rest bestDistance bestCandidate justCheckExactMatches
                | Some distance \<Rightarrow>
                    if distance < 3 then suggest_loop name getName rest bestDistance (Some candidate) True
                    else suggest_loop name getName rest distance (Some candidate) False))"

definition getSpellingSuggestion :: "string \<Rightarrow> 'c list \<Rightarrow> ('c \<Rightarrow> string option) \<Rightarrow> 'c option" where
  "getSpellingSuggestion name candidates getName =
     suggest_loop name getName candidates (initialDistance name) None False"

section \<open>The reference distance\<close>

text \<open>The distance counts insertions and deletions: what is not in a longest common subsequence.\<close>

definition common :: "'a list \<Rightarrow> 'a list \<Rightarrow> 'a list set" where
  "common xs ys = {zs. subseq zs xs \<and> subseq zs ys}"

definition edit_distance :: "'a list \<Rightarrow> 'a list \<Rightarrow> nat" where
  "edit_distance xs ys = length xs + length ys - 2 * Max (length ` common xs ys)"

fun indel :: "'a list \<Rightarrow> 'a list \<Rightarrow> nat" where
  "indel [] ys = length ys"
| "indel xs [] = length xs"
| "indel (x # xs) (y # ys) =
     (if x = y then indel xs ys
      else min (indel xs (y # ys) + 1) (min (indel (x # xs) ys + 1) (indel xs ys + 2)))"

lemma indel_common: "subseq zs xs \<Longrightarrow> subseq zs ys \<Longrightarrow> indel xs ys + 2 * length zs \<le> length xs + length ys"
proof (induction xs ys arbitrary: zs rule: indel.induct)
  case (3 x xs y ys)
  show ?case
  proof (cases "x = y")
    case True
    show ?thesis
    proof (cases "\<exists>zs'. zs = x # zs'")
      case True
      then obtain zs' where z: "zs = x # zs'" by blast
      then have "subseq zs' xs" "subseq zs' ys" using 3(5,6) \<open>x = y\<close> by simp_all
      then show ?thesis using 3(1)[OF \<open>x = y\<close>, of zs'] \<open>x = y\<close> z by simp
    next
      case False
      then have "subseq zs xs" "subseq zs ys" using 3(5,6) \<open>x = y\<close> by (cases zs; auto)+
      then show ?thesis using 3(1)[OF \<open>x = y\<close>, of zs] \<open>x = y\<close> by simp
    qed
  next
    case False
    then have "subseq zs xs \<or> subseq zs ys" using 3(5,6) by (cases zs) (auto split: if_splits)
    then show ?thesis
    proof
      assume "subseq zs xs"
      then show ?thesis using 3(2)[OF False, of zs] 3(6) False by simp
    next
      assume "subseq zs ys"
      then show ?thesis using 3(3)[OF False, of zs] 3(5) False by simp
    qed
  qed
qed (auto dest: list_emb_length)

lemma indel_le: "indel xs ys \<le> length xs + length ys"
  using indel_common[of "[]" xs ys] by simp

lemma indel_attained: "\<exists>zs. subseq zs xs \<and> subseq zs ys \<and> indel xs ys + 2 * length zs = length xs + length ys"
proof (induction xs ys rule: indel.induct)
  case (3 x xs y ys)
  show ?case
  proof (cases "x = y")
    case True
    then obtain zs where "subseq zs xs" "subseq zs ys" "indel xs ys + 2 * length zs = length xs + length ys" using 3(1) by blast
    then show ?thesis using True by (intro exI[of _ "x # zs"]) simp
  next
    case False
    then have "indel (x # xs) (y # ys) \<in> {indel xs (y # ys) + 1, indel (x # xs) ys + 1, indel xs ys + 2}"
      unfolding indel.simps(3) min_def by simp
    then consider "indel (x # xs) (y # ys) = indel xs (y # ys) + 1" | "indel (x # xs) (y # ys) = indel (x # xs) ys + 1"
      | "indel (x # xs) (y # ys) = indel xs ys + 2" by blast
    then show ?thesis
    proof cases
      case 1
      obtain zs where "subseq zs xs" "subseq zs (y # ys)" "indel xs (y # ys) + 2 * length zs = length xs + length (y # ys)"
        using "3.IH"(2)[OF False] by blast
      then show ?thesis using 1 by (intro exI[of _ zs]) (simp del: indel.simps add: list_emb_Cons)
    next
      case 2
      obtain zs where "subseq zs (x # xs)" "subseq zs ys" "indel (x # xs) ys + 2 * length zs = length (x # xs) + length ys"
        using "3.IH"(3)[OF False] by blast
      then show ?thesis using 2 by (intro exI[of _ zs]) (simp del: indel.simps add: list_emb_Cons)
    next
      case 3
      obtain zs where "subseq zs xs" "subseq zs ys" "indel xs ys + 2 * length zs = length xs + length ys"
        using "3.IH"(4)[OF False] by blast
      then show ?thesis using 3 by (intro exI[of _ zs]) (simp del: indel.simps add: list_emb_Cons)
    qed
  qed
qed (auto intro: exI[of _ "[]"])

lemma finite_common: "finite (common xs ys)"
proof (rule finite_subset)
  show "common xs ys \<subseteq> set (subseqs xs)" by (auto simp: common_def)
qed simp

lemma indel_distance: "indel xs ys = edit_distance xs ys"
proof -
  obtain zs where zs: "zs \<in> common xs ys" "indel xs ys + 2 * length zs = length xs + length ys"
    using indel_attained[of xs ys] by (auto simp: common_def)
  have "Max (length ` common xs ys) = length zs"
  proof (rule Max_eqI)
    fix n assume "n \<in> length ` common xs ys"
    then obtain us where "us \<in> common xs ys" "n = length us" by blast
    then show "n \<le> length zs" using indel_common[of us xs ys] zs(2) by (simp add: common_def)
  qed (use zs finite_common in auto)
  then show ?thesis using zs(2) by (simp add: edit_distance_def)
qed

lemma subseq_rev: "subseq xs ys \<Longrightarrow> subseq (rev xs) (rev ys)"
  by (induction rule: list_emb.induct) (auto intro: list_emb_append_mono list_emb_append2)

lemma indel_rev: "indel (rev xs) (rev ys) = indel xs ys"
proof (rule antisym)
  obtain zs where "subseq zs xs" "subseq zs ys" "indel xs ys + 2 * length zs = length xs + length ys"
    using indel_attained by blast
  then show "indel (rev xs) (rev ys) \<le> indel xs ys"
    using indel_common[of "rev zs" "rev xs" "rev ys"] subseq_rev by fastforce
  obtain us where "subseq us (rev xs)" "subseq us (rev ys)" "indel (rev xs) (rev ys) + 2 * length us = length xs + length ys"
    using indel_attained[of "rev xs" "rev ys"] by auto
  then show "indel xs ys \<le> indel (rev xs) (rev ys)"
    using indel_common[of "rev us" xs ys] subseq_rev[of us "rev xs"] subseq_rev[of us "rev ys"] by simp
qed


section \<open>The matrix\<close>

definition cell :: "string \<Rightarrow> string \<Rightarrow> nat \<Rightarrow> nat \<Rightarrow> nat" where
  "cell s1 s2 i j = indel (rev (take i s1)) (rev (take j s2))"

lemma indel_Nil [simp]: "indel xs [] = length xs"
  by (cases xs) simp_all

lemma cell_0: "j \<le> length s2 \<Longrightarrow> cell s1 s2 0 j = j"
  by (simp add: cell_def)

lemma cell_0_right: "i \<le> length s1 \<Longrightarrow> cell s1 s2 i 0 = i"
  by (simp add: cell_def)

lemma cell_Suc:
  "i < length s1 \<Longrightarrow> j < length s2 \<Longrightarrow>
   cell s1 s2 (Suc i) (Suc j) =
     (if s1 ! i = s2 ! j then cell s1 s2 i j
      else min (cell s1 s2 i (Suc j) + 1) (min (cell s1 s2 (Suc i) j + 1) (cell s1 s2 i j + 2)))"
  by (simp add: cell_def take_Suc_conv_app_nth)

lemma indel_far: "length xs \<le> indel xs ys + length ys \<and> length ys \<le> indel xs ys + length xs"
proof -
  obtain zs where zs: "subseq zs xs" "subseq zs ys" "indel xs ys + 2 * length zs = length xs + length ys"
    using indel_attained by blast
  have "length zs \<le> length xs" "length zs \<le> length ys" using zs(1,2) by (auto dest: list_emb_length)
  then show ?thesis using zs(3) by linarith
qed

lemma cell_far: "i \<le> length s1 \<Longrightarrow> j \<le> length s2 \<Longrightarrow> i \<le> cell s1 s2 i j + j \<and> j \<le> cell s1 s2 i j + i"
  using indel_far[of "rev (take i s1)" "rev (take j s2)"] by (simp add: cell_def)

text \<open>An entry is right, or above the limit where the distance is.\<close>

definition agree :: "nat \<Rightarrow> nat \<Rightarrow> nat \<Rightarrow> bool" where
  "agree limit d x \<longleftrightarrow> (if d \<le> limit then x = d else x > limit)"

lemma agree_big: "d > limit \<Longrightarrow> agree limit d (Suc limit)"
  by (simp add: agree_def)

lemma agree_cell_dist:
  assumes "i < length s1" and "j < length s2"
    and "agree limit (cell s1 s2 i j) (previous j)" and "agree limit (cell s1 s2 i (Suc j)) (previous (Suc j))"
    and "agree limit (cell s1 s2 (Suc i) j) (current j)"
  shows "agree limit (cell s1 s2 (Suc i) (Suc j)) (cell_dist s1 s2 (Suc i) previous current (Suc j))"
  using assms by (auto simp: cell_dist_def cell_Suc agree_def min_def split: if_splits)

lemma fill_apply: "fill v js r j = (if j \<in> set js then v else r j)"
  unfolding fill_def by (induction js arbitrary: r) auto

lemma band_ok:
  assumes "i < length s1" and "\<forall>j \<le> length s2. agree limit (cell s1 s2 i j) (previous j)"
    and "0 < minJ" and "agree limit (cell s1 s2 (Suc i) (minJ - 1)) (current (minJ - 1))"
    and "fold (band_step s1 s2 (Suc i) previous) [minJ..<k] (current, m) = (current', m')" and "k \<le> length s2 + 1"
  shows "(\<forall>j. minJ \<le> j \<and> j < k \<longrightarrow> agree limit (cell s1 s2 (Suc i) j) (current' j) \<and> m' \<le> current' j) \<and>
    (\<forall>j. j < minJ \<or> k \<le> j \<longrightarrow> current' j = current j) \<and> m' \<le> m"
  using assms(5,6)
proof (induction k arbitrary: current' m')
  case (Suc k)
  show ?case
  proof (cases "minJ \<le> k")
    case False
    then show ?thesis using Suc.prems by auto
  next
    case True
    obtain c1 m1 where f: "fold (band_step s1 s2 (Suc i) previous) [minJ..<k] (current, m) = (c1, m1)" by fastforce
    note IH = Suc.IH[OF f]
    have k: "k = Suc (k - 1)" "k - 1 < length s2" using True assms(3) Suc.prems(2) by simp_all
    have c1: "agree limit (cell s1 s2 (Suc i) (k - 1)) (c1 (k - 1))"
    proof (cases "minJ = k")
      case True
      then have "c1 (k - 1) = current (k - 1)" using IH assms(3) Suc.prems(2) by simp
      then show ?thesis using assms(4) True by simp
    next
      case False
      then have "minJ \<le> k - 1 \<and> k - 1 < k" using \<open>minJ \<le> k\<close> k(1) by linarith
      then show ?thesis using IH Suc.prems(2) by simp
    qed
    let ?d = "cell_dist s1 s2 (Suc i) previous c1 k"
    have "agree limit (cell s1 s2 (Suc i) (Suc (k - 1))) (cell_dist s1 s2 (Suc i) previous c1 (Suc (k - 1)))"
      by (rule agree_cell_dist[OF assms(1) k(2)]) (use assms(2) k(2) c1 in simp_all)
    then have d: "agree limit (cell s1 s2 (Suc i) k) ?d" using k(1) by simp
    have "band_step s1 s2 (Suc i) previous k (c1, m1) = (current', m')"
      using Suc.prems(1) True f by simp
    then have r: "current' = c1(k := ?d)" "m' = min m1 ?d" by (simp_all add: band_step_def Let_def)
    show ?thesis
    proof (intro conjI allI impI)
      fix j assume j: "minJ \<le> j \<and> j < Suc k"
      show "agree limit (cell s1 s2 (Suc i) j) (current' j)" "m' \<le> current' j"
        using d r IH Suc.prems(2) j by (cases "j = k"; auto simp: min.coboundedI1)+
    qed (use r IH Suc.prems(2) True in auto)
  qed
qed auto

lemma column_ok:
  assumes i: "i < length s1" and prev: "\<forall>j \<le> length s2. agree limit (cell s1 s2 i j) (previous j)"
    and c: "column limit s1 s2 (Suc i) previous current = (next, colMin)"
  shows "\<forall>j \<le> length s2. agree limit (cell s1 s2 (Suc i) j) (next j)"
    and "colMin > limit \<Longrightarrow> \<forall>j \<le> length s2. cell s1 s2 (Suc i) j > limit"
proof -
  define minJ where "minJ = (if Suc i > limit then Suc i - limit else 1)"
  define maxJ where "maxJ = (if length s2 > limit + Suc i then limit + Suc i else length s2)"
  define c0 where "c0 = fill (limit + 1) [1..<minJ] (current(0 := Suc i))"
  obtain c1 where f: "fold (band_step s1 s2 (Suc i) previous) [minJ..<maxJ + 1] (c0, Suc i) = (c1, colMin)"
    and n: "next = fill (limit + 1) [maxJ + 1..<length s2 + 1] c1"
    using c by (auto simp: column_def Let_def minJ_def maxJ_def c0_def split: prod.splits)
  have pos: "0 < minJ" "maxJ \<le> length s2" by (auto simp: minJ_def maxJ_def)
  have far: "cell s1 s2 (Suc i) j > limit" if "j < minJ \<and> (0 < j \<or> limit < Suc i) \<or> maxJ < j" "j \<le> length s2" for j
    using cell_far[of "Suc i" s1 j s2] that i by (auto simp: minJ_def maxJ_def split: if_splits)
  have low: "agree limit (cell s1 s2 (Suc i) j) (c0 j)" if "j < minJ" "j \<le> length s2" for j
  proof (cases "j = 0")
    case True
    then show ?thesis using cell_0_right[of "Suc i" s1 s2] i by (simp add: c0_def fill_apply agree_def)
  next
    case False
    then show ?thesis using far[of j] that by (simp add: c0_def fill_apply agree_big)
  qed
  have base: "agree limit (cell s1 s2 (Suc i) (minJ - 1)) (c0 (minJ - 1)) \<or> maxJ < minJ"
    using low[of "minJ - 1"] pos by (cases "minJ - 1 \<le> length s2") auto
  have band: "(\<forall>j. minJ \<le> j \<and> j < maxJ + 1 \<longrightarrow> agree limit (cell s1 s2 (Suc i) j) (c1 j) \<and> colMin \<le> c1 j) \<and>
    (\<forall>j. j < minJ \<or> maxJ + 1 \<le> j \<longrightarrow> c1 j = c0 j) \<and> colMin \<le> Suc i"
  proof (cases "maxJ < minJ")
    case True
    then show ?thesis using f by auto
  next
    case False
    then show ?thesis using band_ok[OF i prev pos(1) _ f] base pos(2) by simp
  qed
  show "\<forall>j \<le> length s2. agree limit (cell s1 s2 (Suc i) j) (next j)"
  proof (intro allI impI)
    fix j assume j: "j \<le> length s2"
    consider "maxJ < j" | "j \<le> maxJ" "j < minJ" | "j \<le> maxJ" "minJ \<le> j" by linarith
    then show "agree limit (cell s1 s2 (Suc i) j) (next j)"
    proof cases
      case 1
      then show ?thesis using far[of j] j n by (simp add: fill_apply agree_big)
    next
      case 2
      then show ?thesis using band low[of j] j n by (simp add: fill_apply del: upt_Suc)
    next
      case 3
      then show ?thesis using band n by (simp add: fill_apply del: upt_Suc)
    qed
  qed
  assume big: "colMin > limit"
  show "\<forall>j \<le> length s2. cell s1 s2 (Suc i) j > limit"
  proof (intro allI impI)
    fix j assume j: "j \<le> length s2"
    have "limit < Suc i" using band big by linarith
    show "cell s1 s2 (Suc i) j > limit"
    proof (cases "minJ \<le> j \<and> j \<le> maxJ")
      case True
      then have "agree limit (cell s1 s2 (Suc i) j) (c1 j)" "colMin \<le> c1 j" using band by simp_all
      then show ?thesis using big by (auto simp: agree_def split: if_splits)
    next
      case False
      then show ?thesis using far[of j] j \<open>limit < Suc i\<close> by auto
    qed
  qed
qed

text \<open>A column above the limit stays there.\<close>

lemma cell_above:
  assumes "\<forall>j \<le> length s2. cell s1 s2 i j > limit" and "i \<le> i'" and "i' \<le> length s1" and "j \<le> length s2"
  shows "cell s1 s2 i' j > limit"
  using assms(2,3,4)
proof (induction "i' + j" arbitrary: i' j rule: less_induct)
  case less
  show ?case
  proof (cases "i' = i")
    case False
    then obtain k where k: "i' = Suc k" "i \<le> k" using less.prems(1) by (cases i') auto
    have prev: "cell s1 s2 k j' > limit" if "j' \<le> j" for j' using less.hyps[of k j'] less.prems k that by simp
    show ?thesis
    proof (cases j)
      case 0
      then show ?thesis using prev[of 0] cell_0_right[of k s1 s2] cell_0_right[of i' s1 s2] less.prems k by simp
    next
      case (Suc l)
      have "cell s1 s2 i' l > limit" using less.hyps[of i' l] less.prems Suc by simp
      then show ?thesis using prev[of l] prev[of j] cell_Suc[of k s1 l s2] Suc k less.prems by (auto simp: min_def)
    qed
  qed (use assms(1) less.prems in simp)
qed

lemma columns_ok:
  assumes "\<forall>j \<le> length s2. agree limit (cell s1 s2 i j) (previous j)" and "i \<le> length s1"
  shows "case columns limit s1 s2 [Suc i..<length s1 + 1] previous current of
      None \<Rightarrow> cell s1 s2 (length s1) (length s2) > limit
    | Some r \<Rightarrow> agree limit (cell s1 s2 (length s1) (length s2)) (r (length s2))"
  using assms
proof (induction "length s1 - i" arbitrary: i previous current)
  case 0
  then show ?case by simp
next
  case (Suc n)
  obtain nxt colMin where c: "column limit s1 s2 (Suc i) previous current = (nxt, colMin)" by fastforce
  have i: "i < length s1" using Suc.hyps(2) by simp
  note ok = column_ok[OF i Suc.prems(1) c]
  have u: "[Suc i..<length s1 + 1] = Suc i # [Suc (Suc i)..<length s1 + 1]" using i by (simp add: upt_rec)
  show ?case
  proof (cases "colMin > limit")
    case True
    then have "cell s1 s2 (length s1) (length s2) > limit"
      using cell_above[OF ok(2)[OF True], of "length s1" "length s2"] i by simp
    then show ?thesis using True c unfolding u by simp
  next
    case False
    then show ?thesis using Suc.hyps(1)[of "Suc i" nxt previous] Suc.hyps(2) ok(1) i c
      unfolding u by simp
  qed
qed

lemma first_row: "fold (\<lambda>i r. r(i := i)) [0..<n] (\<lambda>j. 0) j = (if j < n then j else 0)"
  by (induction n) auto

lemma levenshtein_limit:
  "levenshteinWithMax s1 s2 limit =
     (if edit_distance s1 s2 \<le> limit then Some (edit_distance s1 s2) else None)"
proof -
  define r0 :: row where "r0 = fold (\<lambda>i r. r(i := i)) [0..<length s2 + 1] (\<lambda>j. 0)"
  have "\<forall>j \<le> length s2. agree limit (cell s1 s2 0 j) (r0 j)"
    unfolding r0_def first_row by (simp add: cell_0 agree_def)
  from columns_ok[OF this, of "\<lambda>j. 0"] have c: "case columns limit s1 s2 [1..<length s1 + 1] r0 (\<lambda>j. 0) of
      None \<Rightarrow> cell s1 s2 (length s1) (length s2) > limit
    | Some r \<Rightarrow> agree limit (cell s1 s2 (length s1) (length s2)) (r (length s2))" by simp
  have d: "cell s1 s2 (length s1) (length s2) = edit_distance s1 s2"
    by (simp add: cell_def indel_rev flip: indel_distance)
  show ?thesis
    using c unfolding d levenshteinWithMax_def r0_def[symmetric]
    by (auto simp: agree_def Let_def split: option.splits if_splits)
qed


section \<open>Suggestions\<close>

text \<open>The names that may be suggested, by their difference to the given one.\<close>

definition same_but_case :: "string \<Rightarrow> string option \<Rightarrow> bool" where
  "same_but_case name cand = (case cand of None \<Rightarrow> False
     | Some n \<Rightarrow> length_close name n \<and> toLowerCase n = toLowerCase name \<and> n \<noteq> name)"

definition distance_to :: "string \<Rightarrow> string option \<Rightarrow> nat" where
  "distance_to name cand = (case cand of None \<Rightarrow> 0 | Some n \<Rightarrow> edit_distance (toLowerCase name) (toLowerCase n))"

definition near :: "string \<Rightarrow> nat \<Rightarrow> string option \<Rightarrow> bool" where
  "near name bound cand = (case cand of None \<Rightarrow> False
     | Some n \<Rightarrow> length_close name n \<and> toLowerCase n \<noteq> toLowerCase name \<and> length n \<ge> 3 \<and> distance_to name cand < bound)"

text \<open>The first name that differs in case only; otherwise the first at a distance below three;
  otherwise the first of those at the least distance, within 0.4 of the length of the name.\<close>

definition best_suggestion :: "string \<Rightarrow> nat \<Rightarrow> ('c \<Rightarrow> string option) \<Rightarrow> 'c list \<Rightarrow> 'c option \<Rightarrow> 'c option" where
  "best_suggestion name bound getName cs otherwise =
     (case find (\<lambda>c. same_but_case name (getName c)) cs of Some c \<Rightarrow> Some c
      | None \<Rightarrow>
          (case find (\<lambda>c. near name bound (getName c) \<and> distance_to name (getName c) < 3) cs of Some c \<Rightarrow> Some c
           | None \<Rightarrow>
               (case find (\<lambda>c. near name bound (getName c) \<and>
                   (\<forall>c' \<in> set cs. near name bound (getName c') \<longrightarrow> distance_to name (getName c) \<le> distance_to name (getName c'))) cs of
                  Some c \<Rightarrow> Some c
                | None \<Rightarrow> otherwise)))"

lemma suggest_loop_just:
  "suggest_loop name getName cs bound best True =
     (case find (\<lambda>c. same_but_case name (getName c)) cs of Some c \<Rightarrow> Some c | None \<Rightarrow> best)"
  by (induction cs) (auto simp: same_but_case_def split: option.splits)

lemma find_cong_set: "(\<And>c. c \<in> set cs \<Longrightarrow> P c = Q c) \<Longrightarrow> find P cs = find Q cs"
  by (induction cs) auto

lemma best_skip:
  assumes "\<not> same_but_case name (getName c)" and "\<not> near name bound (getName c)"
  shows "best_suggestion name bound getName (c # cs) best = best_suggestion name bound getName cs best"
  using assms by (simp add: best_suggestion_def cong: option.case_cong)

lemma best_replace:
  assumes "\<not> same_but_case name (getName c)" and "near name bound (getName c)" and "\<not> distance_to name (getName c) < 3"
  shows "best_suggestion name bound getName (c # cs) best =
    best_suggestion name (distance_to name (getName c)) getName cs (Some c)"
proof -
  let ?d = "\<lambda>c. distance_to name (getName c)" and ?near = "\<lambda>b c. near name b (getName c)"
  have lt: "?near (?d c) c' \<longleftrightarrow> ?near bound c' \<and> ?d c' < ?d c" for c'
    using assms(2) by (auto simp: near_def split: option.splits)
  have three: "(?near (?d c) c' \<and> ?d c' < 3) \<longleftrightarrow> (?near bound c' \<and> ?d c' < 3)" for c'
    using assms(3) by (auto simp: lt)
  let ?least = "\<lambda>b cs c. ?near b c \<and> (\<forall>c' \<in> set cs. ?near b c' \<longrightarrow> ?d c \<le> ?d c')"
  have least: "find (?least bound (c # cs)) (c # cs) =
      (case find (?least (?d c) cs) cs of Some x \<Rightarrow> Some x | None \<Rightarrow> Some c)"
  proof (cases "\<exists>c' \<in> set cs. ?near (?d c) c'")
    case True
    then have no: "\<not> ?least bound (c # cs) c" by (fastforce simp: lt)
    have "?least bound (c # cs) x \<longleftrightarrow> ?least (?d c) cs x" if "x \<in> set cs" for x
    proof
      assume a: "?least bound (c # cs) x"
      obtain c' where "c' \<in> set cs" "?near (?d c) c'" using True by blast
      then have "?d x < ?d c" using a unfolding lt by fastforce
      then show "?least (?d c) cs x" using a by (simp add: lt)
    next
      assume a: "?least (?d c) cs x"
      then have "?d x < ?d c" by (simp add: lt)
      moreover have "?d x \<le> ?d c'" if "c' \<in> set cs" "?near bound c'" for c'
        using a that \<open>?d x < ?d c\<close> by (cases "?d c' < ?d c") (auto simp: lt)
      ultimately show "?least bound (c # cs) x" using a by (auto simp: lt)
    qed
    then have eq: "find (?least bound (c # cs)) cs = find (?least (?d c) cs) cs" by (rule find_cong_set)
    obtain m where m: "m \<in> set cs" "?near (?d c) m" "\<forall>c' \<in> set cs. ?near (?d c) c' \<longrightarrow> ?d m \<le> ?d c'"
      using arg_min_nat_lemma[of "\<lambda>x. x \<in> set cs \<and> ?near (?d c) x" _ ?d] True by (metis (mono_tags, lifting))
    then have "find (?least (?d c) cs) cs \<noteq> None" by (auto simp: find_None_iff)
    then show ?thesis using no eq by auto
  next
    case False
    then have "?least bound (c # cs) c" using assms(2) by (auto simp: lt not_less)
    moreover have "find (?least (?d c) cs) cs = None" using False by (auto simp: find_None_iff)
    ultimately show ?thesis by simp
  qed
  have f1: "find (\<lambda>c. same_but_case name (getName c)) (c # cs) = find (\<lambda>c. same_but_case name (getName c)) cs"
    and f2: "find (\<lambda>c. ?near bound c \<and> ?d c < 3) (c # cs) = find (\<lambda>c. ?near bound c \<and> ?d c < 3) cs"
    using assms(1,3) by simp_all
  have "best_suggestion name bound getName (c # cs) best =
      (case find (\<lambda>c. same_but_case name (getName c)) cs of Some c \<Rightarrow> Some c
       | None \<Rightarrow> (case find (\<lambda>c. ?near bound c \<and> ?d c < 3) cs of Some c \<Rightarrow> Some c
         | None \<Rightarrow> (case find (?least bound (c # cs)) (c # cs) of Some c \<Rightarrow> Some c | None \<Rightarrow> best)))"
    unfolding best_suggestion_def f1 f2 ..
  also have "\<dots> = best_suggestion name (?d c) getName cs (Some c)"
    unfolding least best_suggestion_def three by (simp split: option.splits)
  finally show ?thesis .
qed

lemma best_close:
  assumes "\<not> same_but_case name (getName c)" and "near name bound (getName c)" and "distance_to name (getName c) < 3"
  shows "best_suggestion name bound getName (c # cs) best =
    (case find (\<lambda>c. same_but_case name (getName c)) cs of Some c \<Rightarrow> Some c | None \<Rightarrow> Some c)"
  using assms by (simp add: best_suggestion_def split: option.splits)

lemma suggest_loop_best:
  "0 < bound \<Longrightarrow> suggest_loop name getName cs bound best False = best_suggestion name bound getName cs best"
proof (induction cs arbitrary: bound best)
  case (Cons c cs)
  show ?case
  proof (cases "same_but_case name (getName c)")
    case True
    then show ?thesis by (auto simp: same_but_case_def best_suggestion_def split: option.splits)
  next
    case ns: False
    show ?thesis
    proof (cases "near name bound (getName c)")
      case True
      then obtain n where n: "getName c = Some n" "length_close name n" "toLowerCase n \<noteq> toLowerCase name" "length n \<ge> 3"
        "distance_to name (getName c) < bound" by (auto simp: near_def split: option.splits)
      have "levenshteinWithMax (toLowerCase name) (toLowerCase n) (bound - 1) = Some (distance_to name (getName c))"
        using n(1,5) Cons.prems by (simp add: levenshtein_limit distance_to_def)
      then have s: "suggest_loop name getName (c # cs) bound best False =
          (if distance_to name (getName c) < 3 then suggest_loop name getName cs bound (Some c) True
           else suggest_loop name getName cs (distance_to name (getName c)) (Some c) False)"
        using n by simp
      show ?thesis
      proof (cases "distance_to name (getName c) < 3")
        case True
        then show ?thesis unfolding s using best_close[of name getName c bound, OF ns \<open>near name bound (getName c)\<close> True] by (simp add: suggest_loop_just)
      next
        case False
        then show ?thesis unfolding s
          using best_replace[of name getName c bound, OF ns \<open>near name bound (getName c)\<close> False] Cons.IH[of "distance_to name (getName c)"] by simp
      qed
    next
      case False
      have "suggest_loop name getName (c # cs) bound best False = suggest_loop name getName cs bound best False"
        using ns False Cons.prems
        by (auto simp: same_but_case_def near_def distance_to_def levenshtein_limit split: option.splits)
      then show ?thesis using best_skip[of name getName c bound, OF ns False] Cons by simp
    qed
  qed
qed (simp add: best_suggestion_def)

section \<open>Properties\<close>

text \<open>C16: The bounded distance is exact: it is the distance of the two names (the least number of
  insertions and deletions) when that is at most the limit, and undefined otherwise, for all names and
  limits; the band and the early exit lose nothing.\<close>
theorem levenshtein_exact:
  "levenshteinWithMax s1 s2 limit =
     (if edit_distance s1 s2 \<le> limit then Some (edit_distance s1 s2) else None)"
  by (rule levenshtein_limit)

text \<open>
  The promise, written with the proportions of the code's comment: a variant differs in case only; a
  name is near when it has at least three characters, its length differs by at most two and by at most
  0.34 of the length of the given name, and its distance is positive and at most 0.4 of that length.
\<close>

definition case_variant :: "string \<Rightarrow> string \<Rightarrow> bool" where
  "case_variant name n \<longleftrightarrow> toLowerCase n = toLowerCase name \<and> n \<noteq> name"

definition near_name :: "string \<Rightarrow> string \<Rightarrow> bool" where
  "near_name name n \<longleftrightarrow> toLowerCase n \<noteq> toLowerCase name \<and> 3 \<le> length n \<and>
     \<bar>int (length n) - int (length name)\<bar> \<le> 2 \<and>
     100 * \<bar>int (length n) - int (length name)\<bar> \<le> 34 * int (length name) \<and>
     5 * edit_distance (toLowerCase name) (toLowerCase n) \<le> 2 * length name"

definition first_named :: "('c \<Rightarrow> string option) \<Rightarrow> 'c list \<Rightarrow> (string \<Rightarrow> bool) \<Rightarrow> 'c option" where
  "first_named getName cs P = find (\<lambda>c. case getName c of None \<Rightarrow> False | Some n \<Rightarrow> P n) cs"

definition nearest :: "string \<Rightarrow> ('c \<Rightarrow> string option) \<Rightarrow> 'c list \<Rightarrow> string \<Rightarrow> bool" where
  "nearest name getName cs n \<longleftrightarrow> near_name name n \<and>
     (\<forall>c' \<in> set cs. case getName c' of None \<Rightarrow> True
       | Some n' \<Rightarrow> near_name name n' \<longrightarrow>
           edit_distance (toLowerCase name) (toLowerCase n) \<le> edit_distance (toLowerCase name) (toLowerCase n'))"

lemma length_toLowerCase [simp]: "length (toLowerCase s) = length s"
  by (simp add: toLowerCase_def)

lemma length_close_iff:
  "length_close name n \<longleftrightarrow> \<bar>int (length n) - int (length name)\<bar> \<le> 2 \<and>
     100 * \<bar>int (length n) - int (length name)\<bar> \<le> 34 * int (length name)"
proof -
  have "k \<le> int (min 2 (l * 34 div 100)) \<longleftrightarrow> k \<le> 2 \<and> 100 * k \<le> 34 * int l" for k l
  proof (cases "2 \<le> l * 34 div 100")
    case True
    then have "200 \<le> 34 * int l" by linarith
    then show ?thesis using True by (simp only: min_absorb1) linarith
  next
    case False
    then have "min 2 (l * 34 div 100) = l * 34 div 100" by simp
    moreover have "k \<le> int (l * 34 div 100) \<longleftrightarrow> 100 * k \<le> 34 * int l" by linarith
    ultimately show ?thesis using False by linarith
  qed
  then show ?thesis unfolding length_close_def maximumLengthDifference_def length_toLowerCase .
qed

lemma same_but_case_iff: "same_but_case name cand \<longleftrightarrow> (case cand of None \<Rightarrow> False | Some n \<Rightarrow> case_variant name n)"
proof -
  have "length_close name n" if "toLowerCase n = toLowerCase name" for n
    using arg_cong [OF that, of length] by (simp add: length_close_def)
  then show ?thesis by (auto simp: same_but_case_def case_variant_def split: option.splits)
qed

lemma near_iff: "near name (initialDistance name) cand \<longleftrightarrow> (case cand of None \<Rightarrow> False | Some n \<Rightarrow> near_name name n)"
proof -
  have "d < l * 2 div 5 + 1 \<longleftrightarrow> 5 * d \<le> 2 * l" for d l :: nat by linarith
  then show ?thesis
    by (auto simp: near_def near_name_def length_close_iff distance_to_def initialDistance_def split: option.splits)
qed

lemma best_suggestion_parts:
  "(\<lambda>c. same_but_case name (getName c)) = (\<lambda>c. case getName c of None \<Rightarrow> False | Some n \<Rightarrow> case_variant name n)"
  "(\<lambda>c. near name (initialDistance name) (getName c) \<and> distance_to name (getName c) < 3) =
    (\<lambda>c. case getName c of None \<Rightarrow> False
       | Some n \<Rightarrow> near_name name n \<and> edit_distance (toLowerCase name) (toLowerCase n) < 3)"
  "(\<lambda>c. near name (initialDistance name) (getName c) \<and>
      (\<forall>c' \<in> set cs. near name (initialDistance name) (getName c') \<longrightarrow>
        distance_to name (getName c) \<le> distance_to name (getName c'))) =
    (\<lambda>c. case getName c of None \<Rightarrow> False | Some n \<Rightarrow> nearest name getName cs n)"
  unfolding fun_eq_iff
  by (auto simp: same_but_case_iff near_iff distance_to_def nearest_def split: option.splits)


text \<open>The first candidate below three wins even over a later one that is closer.\<close>

lemma closer_name_missed:
  "getSpellingSuggestion ''bottom'' [''buttons'', ''bottoms''] Some = Some ''bottoms''"
  "getSpellingSuggestion ''bottom'' [''bottomed'', ''bottoms''] Some = Some ''bottomed''"
  by code_simp+

end
