(* ===== verification/Registry.thy ===== *)
theory Registry
  imports Suggestion Js_Value "HOL-Library.AList"
begin

text \<open>
  The registries of the graph editor (registry/registry.js): named entities (shapes, routers, tools, ...)
  that are registered, looked up and removed, with an error message that suggests a name. The data
  object is an association list in the order of its properties; what it inherits from its prototype is
  a parameter, as is the function that processes an entity before it is stored. Entities are never
  null or undefined.
\<close>

section \<open>State and lookup\<close>

record 'v registry =
  rg_type :: string
  rg_data :: "(string \<times> 'v) list"

type_synonym 'v proto = "string \<rightharpoonup> 'v"

definition rg_names :: "'v registry \<Rightarrow> string list" where
  "rg_names r = key_order (map fst (rg_data r))"

text \<open>A property of the data object: its own one, or the inherited one.\<close>

definition rg_property :: "'v proto \<Rightarrow> 'v registry \<Rightarrow> string \<Rightarrow> 'v option" where
  "rg_property inherited r name = (case map_of (rg_data r) name of Some v \<Rightarrow> Some v | None \<Rightarrow> inherited name)"

definition rg_get :: "'v proto \<Rightarrow> 'v registry \<Rightarrow> string \<Rightarrow> 'v option" where
  "rg_get inherited r name = (if name \<noteq> [] then rg_property inherited r name else None)"

definition rg_exist :: "'v proto \<Rightarrow> 'v registry \<Rightarrow> string \<Rightarrow> bool" where
  "rg_exist inherited r name \<longleftrightarrow> (if name \<noteq> [] then rg_property inherited r name \<noteq> None else False)"

section \<open>Messages\<close>

definition shift_char :: "nat \<Rightarrow> nat \<Rightarrow> int \<Rightarrow> char \<Rightarrow> char" where
  "shift_char low high by c = (let n = of_char c :: nat in if low \<le> n \<and> n \<le> high then char_of (nat (int n + by)) else c)"

fun upperFirst :: "string \<Rightarrow> string" where
  "upperFirst [] = []"
| "upperFirst (c # s) = shift_char 97 122 (-32) c # s"

fun lowerFirst :: "string \<Rightarrow> string" where
  "lowerFirst [] = []"
| "lowerFirst (c # s) = shift_char 65 90 32 c # s"

definition in_quotes :: "string \<Rightarrow> string" where
  "in_quotes s = CHR 0x27 # s @ [CHR 0x27]"

definition duplicated_message :: "'v registry \<Rightarrow> string \<Rightarrow> string" where
  "duplicated_message r name = upperFirst (rg_type r) @ '' with name '' @ in_quotes name @ '' already registered.''"

definition getSpellingSuggestionForName :: "'v registry \<Rightarrow> string \<Rightarrow> string option" where
  "getSpellingSuggestionForName r name = getSpellingSuggestion name (rg_names r) Some"

text \<open>The message of \<open>onNotFound\<close>; an empty prefix or suggestion counts as none.\<close>

definition not_found_message :: "'v registry \<Rightarrow> string \<Rightarrow> string \<Rightarrow> string" where
  "not_found_message r name pfx =
     (let prefixed = (if pfx \<noteq> [] then pfx @ '' '' @ lowerFirst (rg_type r) else rg_type r);
          hint = (case getSpellingSuggestionForName r name of
              None \<Rightarrow> [] | Some s \<Rightarrow> if s = [] then [] else '' Did you mean '' @ in_quotes s @ ''?'')
      in upperFirst prefixed @ '' with name '' @ in_quotes name @ '' does not exist.'' @ hint)"

section \<open>Changes\<close>

text \<open>A registration ends with the entity, or with the message that is thrown. \<open>process\<close> is the
  option of that name, or returns the entity itself; \<open>hmr\<close> is whether a module is being replaced. The
  option \<open>onConflict\<close>, a callback before the throw, is set by no registry of the bundle and left out.\<close>

definition rg_register ::
  "'v proto \<Rightarrow> bool \<Rightarrow> (string \<Rightarrow> 'o \<Rightarrow> 'v) \<Rightarrow> string \<Rightarrow> 'o \<Rightarrow> bool \<Rightarrow> 'v registry \<Rightarrow> (string + 'v) \<times> 'v registry" where
  "rg_register inherited hmr process name options force r =
     (if rg_exist inherited r name \<and> \<not> force \<and> \<not> hmr then (Inl (duplicated_message r name), r)
      else (let entity = process name options
            in (Inr entity, r\<lparr>rg_data := AList.update name entity (rg_data r)\<rparr>)))"

text \<open>The registration of the entries of an object, up to the first that throws.\<close>

fun rg_register_all ::
  "'v proto \<Rightarrow> bool \<Rightarrow> (string \<Rightarrow> 'o \<Rightarrow> 'v) \<Rightarrow> (string \<times> 'o) list \<Rightarrow> bool \<Rightarrow> 'v registry \<Rightarrow> string option \<times> 'v registry" where
  "rg_register_all inherited hmr process [] force r = (None, r)"
| "rg_register_all inherited hmr process ((key, val) # entries) force r =
     (case rg_register inherited hmr process key val force r of
        (Inl message, r') \<Rightarrow> (Some message, r')
      | (Inr entity, r') \<Rightarrow> rg_register_all inherited hmr process entries force r')"

definition rg_unregister :: "'v proto \<Rightarrow> string \<Rightarrow> 'v registry \<Rightarrow> 'v option \<times> 'v registry" where
  "rg_unregister inherited name r =
     (let entity = (if name \<noteq> [] then rg_property inherited r name else None)
      in (entity, r\<lparr>rg_data := AList.delete name (rg_data r)\<rparr>))"

section \<open>A registry as a map\<close>

text \<open>A registration comes with the force argument and with whether a module is being replaced then.\<close>

datatype 'o rg_op = RegOp string 'o bool bool | UnregOp string | GetOp string

datatype 'v rg_out = Entity "'v option" | Thrown

fun rg_step :: "'v proto \<Rightarrow> (string \<Rightarrow> 'o \<Rightarrow> 'v) \<Rightarrow> 'o rg_op \<Rightarrow> 'v registry \<Rightarrow> 'v rg_out \<times> 'v registry" where
  "rg_step inherited process (RegOp name options force hmr) r =
     (case rg_register inherited hmr process name options force r of
        (Inl message, r') \<Rightarrow> (Thrown, r') | (Inr v, r') \<Rightarrow> (Entity (Some v), r'))"
| "rg_step inherited process (UnregOp name) r = (case rg_unregister inherited name r of (v, r') \<Rightarrow> (Entity v, r'))"
| "rg_step inherited process (GetOp name) r = (Entity (rg_get inherited r name), r)"

fun map_step :: "(string \<Rightarrow> 'o \<Rightarrow> 'v) \<Rightarrow> 'o rg_op \<Rightarrow> (string \<rightharpoonup> 'v) \<Rightarrow> 'v rg_out \<times> (string \<rightharpoonup> 'v)" where
  "map_step process (RegOp name options force hmr) m =
     (if m name \<noteq> None \<and> \<not> force \<and> \<not> hmr then (Thrown, m)
      else (Entity (Some (process name options)), m(name \<mapsto> process name options)))"
| "map_step process (UnregOp name) m = (Entity (m name), m(name := None))"
| "map_step process (GetOp name) m = (Entity (m name), m)"

fun op_name :: "'o rg_op \<Rightarrow> string" where
  "op_name (RegOp name options force hmr) = name"
| "op_name (UnregOp name) = name"
| "op_name (GetOp name) = name"

fun run_ops :: "('op \<Rightarrow> 's \<Rightarrow> 'out \<times> 's) \<Rightarrow> 'op list \<Rightarrow> 's \<Rightarrow> 'out list \<times> 's" where
  "run_ops step [] s = ([], s)"
| "run_ops step (op # ops) s = (case step op s of (out, s') \<Rightarrow> case run_ops step ops s' of (outs, s'') \<Rightarrow> (out # outs, s''))"

lemma rg_step_map:
  assumes "op_name op \<noteq> []" and "inherited (op_name op) = None"
    and "rg_step inherited process op r = (out, r')"
  shows "map_step process op (map_of (rg_data r)) = (out, map_of (rg_data r'))"
    and "distinct (map fst (rg_data r)) \<Longrightarrow> distinct (map fst (rg_data r'))"
  using assms
  by (cases op; auto simp: rg_register_def rg_exist_def rg_property_def rg_unregister_def rg_get_def update_conv
      delete_conv' distinct_update distinct_delete Let_def split: option.splits if_splits)+

text \<open>C36: For names that are not empty and not inherited, a registry is a map from names to entities: a
  second registration throws and changes nothing unless it is forced or made while a module is being
  replaced, lookups and removals answer the
  entity registered last, and no name is listed twice.\<close>
theorem registry_is_map:
  assumes "\<forall>op \<in> set ops. op_name op \<noteq> [] \<and> inherited (op_name op) = None" and "distinct (map fst (rg_data r))"
    and "run_ops (rg_step inherited process) ops r = (outs, r')"
  shows "run_ops (map_step process) ops (map_of (rg_data r)) = (outs, map_of (rg_data r')) \<and> distinct (rg_names r')"
  using assms
proof (induction ops arbitrary: r outs r')
  case (Cons op ops)
  obtain out r1 where s: "rg_step inherited process op r = (out, r1)" by fastforce
  obtain outs' r2 where t: "run_ops (rg_step inherited process) ops r1 = (outs', r2)" by fastforce
  have "op_name op \<noteq> []" "inherited (op_name op) = None" using Cons.prems(1) by auto
  note one = rg_step_map[OF this s]
  show ?case using Cons.IH[OF _ one(2)[OF Cons.prems(2)] t] Cons.prems s t one(1) by auto
qed (simp add: rg_names_def)

lemma registry_is_map_witness:
  "run_ops (map_step (\<lambda>name v. v)) [RegOp ''rect'' (1 :: int) False False, RegOp ''rect'' 2 False False, GetOp ''rect'', UnregOp ''rect''] Map.empty =
     ([Entity (Some 1), Thrown, Entity (Some 1), Entity (Some 1)], Map.empty) \<and>
   distinct (rg_names \<lparr>rg_type = ''node'', rg_data = [] :: (string \<times> int) list\<rparr>)"
  using registry_is_map[of "[RegOp ''rect'' (1 :: int) False False, RegOp ''rect'' 2 False False, GetOp ''rect'', UnregOp ''rect'']"
      Map.empty "\<lparr>rg_type = ''node'', rg_data = []\<rparr>" "\<lambda>name v. v"]
  by (simp add: rg_register_def rg_exist_def rg_property_def rg_unregister_def rg_get_def rg_names_def)

text \<open>A name that the prototype has, such as constructor, cannot be registered, and is found without
  having been.\<close>

lemma inherited_name:
  assumes "inherited name = Some v" and "name \<noteq> []" and "name \<notin> set (map fst (rg_data r))"
  shows "rg_get inherited r name = Some v"
    and "rg_register inherited False process name options False r = (Inl (duplicated_message r name), r)"
proof -
  have "map_of (rg_data r) name = None" using assms(3) by (simp add: map_of_eq_None_iff)
  then show "rg_get inherited r name = Some v"
    "rg_register inherited False process name options False r = (Inl (duplicated_message r name), r)"
    using assms(1,2) by (simp_all add: rg_get_def rg_register_def rg_exist_def rg_property_def)
qed

end
