(* ===== verification/Clipboard.thy ===== *)
theory Clipboard
  imports Graph_Search
begin

text \<open>
  Copy and paste (plugin/clipboard of x6, with \<open>getSubGraph\<close> of model/model.js and \<open>cloneCells\<close> of
  model/cell.js): the selected cells and what hangs together with them are cloned under new ids; a
  paste moves the clones, adds them to the model and clones them again for the next paste. The ids
  come from a generator, a parameter; cells are flat. Left out are the local storage, which the editor
  switches off, the option to set properties of the pasted cells, and the free ends of edges, whose
  coordinates the cells of the model do not have.
\<close>

section \<open>Subgraphs\<close>

record subgraph =
  sg_cells :: "gcell list"
  sg_nodes :: "gcell list"
  sg_edges :: "gcell list"

text \<open>The cache of the code holds the ids of the cells collected so far.\<close>

definition cached :: "string \<Rightarrow> subgraph \<Rightarrow> bool" where
  "cached i s \<longleftrightarrow> i \<in> gc_id ` set (sg_cells s)"

definition sg_collect :: "gcell \<Rightarrow> subgraph \<Rightarrow> subgraph" where
  "sg_collect c s =
     (if cached (gc_id c) s then s
      else if gc_edge c then s\<lparr>sg_cells := sg_cells s @ [c], sg_edges := sg_edges s @ [c]\<rparr>
      else s\<lparr>sg_cells := sg_cells s @ [c], sg_nodes := sg_nodes s @ [c]\<rparr>)"

definition sg_end :: "gcell option \<Rightarrow> subgraph \<Rightarrow> subgraph" where
  "sg_end cell s =
     (case cell of
        None \<Rightarrow> s
      | Some c \<Rightarrow>
          if cached (gc_id c) s then s
          else if gc_edge c then s\<lparr>sg_cells := sg_cells s @ [c]\<rparr>
          else s\<lparr>sg_cells := sg_cells s @ [c], sg_nodes := sg_nodes s @ [c]\<rparr>)"

definition both_cached :: "gmodel \<Rightarrow> gcell \<Rightarrow> subgraph \<Rightarrow> bool" where
  "both_cached m e s \<longleftrightarrow>
     (case (getSourceCell e m, getTargetCell e m) of
        (Some a, Some b) \<Rightarrow> cached (gc_id a) s \<and> cached (gc_id b) s
      | _ \<Rightarrow> False)"

definition sg_between :: "gmodel \<Rightarrow> gcell \<Rightarrow> subgraph \<Rightarrow> subgraph" where
  "sg_between m e s =
     (if \<not> cached (gc_id e) s \<and> both_cached m e s then s\<lparr>sg_cells := sg_cells s @ [e]\<rparr> else s)"

definition getSubGraph :: "gcell list \<Rightarrow> gmodel \<Rightarrow> gcell list" where
  "getSubGraph cells m =
     (let s = fold sg_collect cells \<lparr>sg_cells = [], sg_nodes = [], sg_edges = []\<rparr>;
          s = fold (\<lambda>e s. sg_end (getTargetCell e m) (sg_end (getSourceCell e m) s)) (sg_edges s) s
      in sg_cells (fold (\<lambda>n s. fold (sg_between m) (getConnectedEdges (gc_id n) True True m) s) (sg_nodes s) s))"

section \<open>Clones\<close>

definition uniq_cells :: "gcell list \<Rightarrow> gcell list" where
  "uniq_cells cells = fold (\<lambda>c r. if gc_id c \<in> gc_id ` set r then r else r @ [c]) cells []"

text \<open>An end is renamed when its cell is among the clones.\<close>

definition clone_end :: "(string \<rightharpoonup> string) \<Rightarrow> string option \<Rightarrow> string option" where
  "clone_end ids t =
     (case t of
        None \<Rightarrow> None
      | Some i \<Rightarrow> if i \<noteq> [] then (case ids i of Some j \<Rightarrow> Some j | None \<Rightarrow> Some i) else Some i)"

definition clone_cell :: "(string \<rightharpoonup> string) \<Rightarrow> gcell \<Rightarrow> gcell" where
  "clone_cell ids c =
     (let clone = c\<lparr>gc_id := the (ids (gc_id c))\<rparr>
      in if gc_edge c
         then clone\<lparr>gc_source := clone_end ids (gc_source c), gc_target := clone_end ids (gc_target c)\<rparr>
         else clone)"

text \<open>The map from ids to clones, and the number of ids taken from the generator.\<close>

definition cloneCells :: "(nat \<Rightarrow> string) \<Rightarrow> nat \<Rightarrow> gcell list \<Rightarrow> (string \<times> gcell) list \<times> nat" where
  "cloneCells gen n cells =
     (let inputs = uniq_cells cells;
          ids = map_of (zip (map gc_id inputs) (map gen [n..<n + length inputs]))
      in (map (\<lambda>c. (gc_id c, clone_cell ids c)) inputs, n + length inputs))"

definition cloneSubGraph :: "(nat \<Rightarrow> string) \<Rightarrow> nat \<Rightarrow> gcell list \<Rightarrow> gmodel \<Rightarrow> (string \<times> gcell) list \<times> nat" where
  "cloneSubGraph gen n cells m = cloneCells gen n (getSubGraph cells m)"

section \<open>The clipboard\<close>

record clipboard =
  cb_cells :: "gcell list"
  cb_next :: nat

text \<open>The clones in the order of the map's keys, nodes before edges.\<close>

definition cb_copy :: "(nat \<Rightarrow> string) \<Rightarrow> gcell list \<Rightarrow> gmodel \<Rightarrow> clipboard \<Rightarrow> clipboard" where
  "cb_copy gen cells m cb =
     (let (cloned, next) = cloneSubGraph gen (cb_next cb) cells m
      in cb\<lparr>cb_cells := sort_key (\<lambda>c. if gc_edge c then 2 else (1 :: nat))
               (map (\<lambda>k. the (map_of cloned k)) (key_order (map fst cloned))),
            cb_next := next\<rparr>)"

definition cb_cut :: "(nat \<Rightarrow> string) \<Rightarrow> gcell list \<Rightarrow> gmodel \<Rightarrow> clipboard \<Rightarrow> gmodel \<times> clipboard" where
  "cb_cut gen cells m cb =
     (batchUpdate ''cut'' (fold (removeCell False) (map gc_id cells)) m, cb_copy gen cells m cb)"

text \<open>A node moves its position, an edge its vertices.\<close>

definition shifted :: "int \<Rightarrow> jv \<Rightarrow> jv" where
  "shifted d v = (case v of JNum n \<Rightarrow> JNum (n + d) | _ \<Rightarrow> JNum d)"

definition shift_point :: "int \<Rightarrow> int \<Rightarrow> jv \<Rightarrow> jv" where
  "shift_point dx dy p =
     (case p of
        JObj point \<Rightarrow> JObj [(''x'', shifted dx (oget point ''x'')), (''y'', shifted dy (oget point ''y''))]
      | _ \<Rightarrow> JObj [(''x'', JNum dx), (''y'', JNum dy)])"

definition edge_translate :: "int \<Rightarrow> int \<Rightarrow> gcell \<Rightarrow> gcell" where
  "edge_translate dx dy c =
     (case oget (gc_props c) ''vertices'' of
        JArr vs \<Rightarrow> if vs \<noteq> [] then c\<lparr>gc_props := oset (gc_props c) ''vertices'' (JArr (map (shift_point dx dy) vs))\<rparr> else c
      | _ \<Rightarrow> c)"

definition node_translate :: "int \<Rightarrow> int \<Rightarrow> gcell \<Rightarrow> gcell" where
  "node_translate dx dy c =
     (if dx = 0 \<and> dy = 0 then c
      else c\<lparr>gc_props := oset (gc_props c) ''position'' (shift_point dx dy (oget (gc_props c) ''position''))\<rparr>)"

definition cell_translate :: "int \<Rightarrow> int \<Rightarrow> gcell \<Rightarrow> gcell" where
  "cell_translate dx dy c = (if gc_edge c then edge_translate dx dy c else node_translate dx dy c)"

definition paste_cell :: "int \<Rightarrow> int \<Rightarrow> gcell \<Rightarrow> gcell" where
  "paste_cell dx dy c =
     (let c = c\<lparr>gc_z := None\<rparr> in if dx \<noteq> 0 \<or> dy \<noteq> 0 then cell_translate dx dy c else c)"

text \<open>The clipboard's cells are now those of the model, and are copied once more.\<close>

definition cb_paste :: "(nat \<Rightarrow> string) \<Rightarrow> int \<Rightarrow> int \<Rightarrow> gmodel \<Rightarrow> clipboard \<Rightarrow> gcell list \<times> gmodel \<times> clipboard" where
  "cb_paste gen dx dy m cb =
     (let cells = map (paste_cell dx dy) (cb_cells cb);
          m = batchUpdate ''paste'' (addCells cells) m;
          pasted = map (\<lambda>c. the (getCell (gc_id c) m)) cells
      in (pasted, m, cb_copy gen pasted m cb))"

definition cb_isEmpty :: "clipboard \<Rightarrow> bool" where
  "cb_isEmpty cb \<longleftrightarrow> length (cb_cells cb) \<le> 0"

definition cb_clean :: "clipboard \<Rightarrow> clipboard" where
  "cb_clean cb = cb\<lparr>cb_cells := []\<rparr>"

text \<open>The editor's handlers: the selection is the list of the selected ids.\<close>

definition handleCopy :: "(nat \<Rightarrow> string) \<Rightarrow> string list \<Rightarrow> gmodel \<Rightarrow> clipboard \<Rightarrow> clipboard" where
  "handleCopy gen selected m cb =
     (let cells = List.map_filter (\<lambda>i. getCell i m) selected in if cells \<noteq> [] then cb_copy gen cells m cb else cb)"

definition handlePaste :: "(nat \<Rightarrow> string) \<Rightarrow> string list \<Rightarrow> gmodel \<Rightarrow> clipboard \<Rightarrow> string list \<times> gmodel \<times> clipboard" where
  "handlePaste gen selected m cb =
     (if \<not> cb_isEmpty cb
      then (case cb_paste gen 32 32 m cb of (cells, m, cb) \<Rightarrow> (map gc_id cells, m, cb))
      else (selected, m, cb))"


section \<open>The subgraph of a selection\<close>

definition ends_of :: "gmodel \<Rightarrow> gcell \<Rightarrow> gcell set" where
  "ends_of m e = set_option (getSourceCell e m) \<union> set_option (getTargetCell e m)"

definition with_ends :: "gmodel \<Rightarrow> gcell set \<Rightarrow> gcell set" where
  "with_ends m S = S \<union> (\<Union>e \<in> {e \<in> S. gc_edge e}. ends_of m e)"

definition joins :: "gmodel \<Rightarrow> gcell set \<Rightarrow> gcell \<Rightarrow> bool" where
  "joins m N e \<longleftrightarrow> (\<exists>a b. getSourceCell e m = Some a \<and> getTargetCell e m = Some b \<and> a \<in> N \<and> b \<in> N)"

definition ends_are_nodes :: "gmodel \<Rightarrow> bool" where
  "ends_are_nodes m \<longleftrightarrow> (\<forall>e \<in> cells_of m. \<forall>c \<in> ends_of m e. \<not> gc_edge c)"

definition sg_ok :: "gcell set \<Rightarrow> subgraph \<Rightarrow> bool" where
  "sg_ok S s \<longleftrightarrow> set (sg_cells s) \<subseteq> S \<and> distinct (map gc_id (sg_cells s)) \<and>
     set (sg_nodes s) = {c \<in> set (sg_cells s). \<not> gc_edge c}"

lemma cached_mem: "inj_on gc_id S \<Longrightarrow> sg_ok S s \<Longrightarrow> c \<in> S \<Longrightarrow> cached (gc_id c) s \<longleftrightarrow> c \<in> set (sg_cells s)"
  by (auto simp: cached_def sg_ok_def inj_on_def)

lemma sg_collect_ok:
  assumes "inj_on gc_id S" and "sg_ok S s" and "c \<in> S"
  shows "sg_ok S (sg_collect c s)" and "set (sg_cells (sg_collect c s)) = insert c (set (sg_cells s))"
    and "set (sg_edges s) = {c \<in> set (sg_cells s). gc_edge c} \<Longrightarrow>
      set (sg_edges (sg_collect c s)) = {x \<in> set (sg_cells (sg_collect c s)). gc_edge x}"
proof -
  have "sg_ok S (sg_collect c s) \<and> set (sg_cells (sg_collect c s)) = insert c (set (sg_cells s)) \<and>
    (set (sg_edges s) = {c \<in> set (sg_cells s). gc_edge c} \<longrightarrow>
      set (sg_edges (sg_collect c s)) = {x \<in> set (sg_cells (sg_collect c s)). gc_edge x})"
  proof (cases "cached (gc_id c) s")
    case True
    then show ?thesis using cached_mem[OF assms] assms(2) by (auto simp: sg_collect_def)
  next
    case False
    then show ?thesis using assms(2,3) by (auto simp: sg_collect_def sg_ok_def cached_def)
  qed
  then show "sg_ok S (sg_collect c s)" "set (sg_cells (sg_collect c s)) = insert c (set (sg_cells s))"
    "set (sg_edges s) = {c \<in> set (sg_cells s). gc_edge c} \<Longrightarrow>
      set (sg_edges (sg_collect c s)) = {x \<in> set (sg_cells (sg_collect c s)). gc_edge x}" by blast+
qed

lemma sg_collect_fold:
  assumes "inj_on gc_id S"
  shows "sg_ok S s \<Longrightarrow> set cs \<subseteq> S \<Longrightarrow> set (sg_edges s) = {c \<in> set (sg_cells s). gc_edge c} \<Longrightarrow>
    sg_ok S (fold sg_collect cs s) \<and> set (sg_cells (fold sg_collect cs s)) = set (sg_cells s) \<union> set cs \<and>
    set (sg_edges (fold sg_collect cs s)) = {c \<in> set (sg_cells s) \<union> set cs. gc_edge c}"
proof (induction cs arbitrary: s)
  case (Cons c cs)
  have c: "c \<in> S" using Cons.prems by simp
  note one = sg_collect_ok[OF assms Cons.prems(1) c]
  have cs: "set cs \<subseteq> S" using Cons.prems by simp
  show ?case using Cons.IH[OF one(1) cs one(3)[OF Cons.prems(3)]] one(2) by auto
qed simp

lemma sg_end_ok:
  assumes "inj_on gc_id S" and "sg_ok S s" and "set_option cell \<subseteq> S"
  shows "sg_ok S (sg_end cell s)" and "set (sg_cells (sg_end cell s)) = set (sg_cells s) \<union> set_option cell"
  using cached_mem[OF assms(1,2)] assms(2,3) by (auto simp: sg_end_def sg_ok_def cached_def split: option.splits)

lemma ends_cells: "model_ok m \<Longrightarrow> set_option (getSourceCell e m) \<subseteq> cells_of m \<and> set_option (getTargetCell e m) \<subseteq> cells_of m"
  by (auto simp: getSourceCell_def getTargetCell_def getCell_def model_ok_def coll_get_Some cells_of_def split: option.splits if_splits)

lemma sg_ends_fold:
  assumes ok: "model_ok m"
  shows "sg_ok (cells_of m) s \<Longrightarrow>
    sg_ok (cells_of m) (fold (\<lambda>e s. sg_end (getTargetCell e m) (sg_end (getSourceCell e m) s)) es s) \<and>
    set (sg_cells (fold (\<lambda>e s. sg_end (getTargetCell e m) (sg_end (getSourceCell e m) s)) es s)) =
      set (sg_cells s) \<union> (\<Union>e \<in> set es. ends_of m e)"
proof (induction es arbitrary: s)
  case (Cons e es)
  note inj = cells_inj[OF ok]
  note a = sg_end_ok[OF inj Cons.prems, of "getSourceCell e m"]
  note b = sg_end_ok[OF inj a(1), of "getTargetCell e m"]
  have e: "set_option (getSourceCell e m) \<subseteq> cells_of m" "set_option (getTargetCell e m) \<subseteq> cells_of m"
    using ends_cells[OF ok] by auto
  show ?case using Cons.IH[OF b(1)[OF e(1) e(2)]] a(2)[OF e(1)] b(2)[OF e(1) e(2)] by (auto simp: ends_of_def)
qed simp

text \<open>In the last step the cells grow by edges between them.\<close>

lemma sg_between_ok:
  assumes "inj_on gc_id S" and "e \<in> S" and "gc_edge e" and "sg_ok S s"
  shows "sg_ok S (sg_between m e s)"
    and "set (sg_cells (sg_between m e s)) = set (sg_cells s) \<union> (if both_cached m e s then {e} else {})"
  using cached_mem[OF assms(1,4,2)] assms by (auto simp: sg_between_def sg_ok_def cached_def)

lemma both_cached_iff:
  assumes ok: "model_ok m" and s: "sg_ok (cells_of m) s"
  shows "both_cached m e s \<longleftrightarrow> joins m (set (sg_cells s)) e"
proof -
  have c: "cached (gc_id c) s \<longleftrightarrow> c \<in> set (sg_cells s)" if "c \<in> set_option (getSourceCell e m) \<union> set_option (getTargetCell e m)" for c
    using cached_mem[OF cells_inj[OF ok] s, of c] ends_cells[OF ok, of e] that by auto
  show ?thesis using c by (auto simp: both_cached_def joins_def split: option.splits)
qed

lemma joins_nodes:
  assumes "ends_are_nodes m" and "e \<in> cells_of m" and "{c \<in> M. \<not> gc_edge c} = {c \<in> N. \<not> gc_edge c}"
  shows "joins m M e = joins m N e"
  using assms by (fastforce simp: joins_def ends_are_nodes_def ends_of_def)

lemma sg_between_fold:
  assumes ok: "model_ok m"
  shows "sg_ok (cells_of m) s \<Longrightarrow> set es \<subseteq> {e \<in> cells_of m. gc_edge e} \<Longrightarrow>
    sg_ok (cells_of m) (fold (sg_between m) es s) \<and>
    {c \<in> set (sg_cells (fold (sg_between m) es s)). \<not> gc_edge c} = {c \<in> set (sg_cells s). \<not> gc_edge c} \<and>
    (ends_are_nodes m \<longrightarrow> set (sg_cells (fold (sg_between m) es s)) =
       set (sg_cells s) \<union> {e \<in> set es. joins m (set (sg_cells s)) e})"
proof (induction es arbitrary: s)
  case (Cons e es)
  have e: "e \<in> cells_of m" "gc_edge e" using Cons.prems(2) by auto
  note one = sg_between_ok[OF cells_inj[OF ok] e Cons.prems(1), of m]
  have nodes: "{c \<in> set (sg_cells (sg_between m e s)). \<not> gc_edge c} = {c \<in> set (sg_cells s). \<not> gc_edge c}"
    using one(2) e(2) by auto
  have j: "joins m (set (sg_cells (sg_between m e s))) d = joins m (set (sg_cells s)) d"
    if "ends_are_nodes m" "d \<in> set es" for d
    by (rule joins_nodes[OF that(1) _ nodes]) (use Cons.prems(2) that(2) in auto)
  have "set es \<subseteq> {e \<in> cells_of m. gc_edge e}" using Cons.prems(2) by simp
  note rest = Cons.IH[OF one(1) this]
  show ?case
  proof (intro conjI impI)
    show "sg_ok (cells_of m) (fold (sg_between m) (e # es) s)" using rest by simp
    show "{c \<in> set (sg_cells (fold (sg_between m) (e # es) s)). \<not> gc_edge c} = {c \<in> set (sg_cells s). \<not> gc_edge c}"
      using rest nodes by simp
    assume f: "ends_are_nodes m"
    have "{x \<in> set es. joins m (set (sg_cells (sg_between m e s))) x} = {x \<in> set es. joins m (set (sg_cells s)) x}"
      using j[OF f] by blast
    then have "set (sg_cells (fold (sg_between m) (e # es) s)) =
        set (sg_cells (sg_between m e s)) \<union> {x \<in> set es. joins m (set (sg_cells s)) x}"
      using rest f by simp
    then show "set (sg_cells (fold (sg_between m) (e # es) s)) =
        set (sg_cells s) \<union> {x \<in> set (e # es). joins m (set (sg_cells s)) x}"
      using one(2) both_cached_iff[OF ok Cons.prems(1), of e] by auto
  qed
qed simp

lemma sg_between_nodes:
  assumes ok: "model_ok m"
  defines "visit n \<equiv> fold (sg_between m) (getConnectedEdges (gc_id n) True True m)"
  shows "sg_ok (cells_of m) s \<Longrightarrow>
    sg_ok (cells_of m) (fold visit ns s) \<and>
    {c \<in> set (sg_cells (fold visit ns s)). \<not> gc_edge c} = {c \<in> set (sg_cells s). \<not> gc_edge c} \<and>
    (ends_are_nodes m \<longrightarrow> set (sg_cells (fold visit ns s)) = set (sg_cells s) \<union>
       {e \<in> cells_of m. (\<exists>n \<in> set ns. touches (gc_id n) e) \<and> joins m (set (sg_cells s)) e})"
proof (induction ns arbitrary: s)
  case (Cons n ns)
  have sub: "set (getConnectedEdges (gc_id n) True True m) \<subseteq> {e \<in> cells_of m. gc_edge e}"
    using getConnectedEdges_set[OF ok, of "gc_id n"] by (auto simp: touches_def)
  note one = sg_between_fold[OF ok Cons.prems sub, folded visit_def]
  have j: "joins m (set (sg_cells (visit n s))) d = joins m (set (sg_cells s)) d"
    if "ends_are_nodes m" "d \<in> cells_of m" for d
    by (rule joins_nodes[OF that]) (use one in blast)
  show ?case
  proof (intro conjI impI)
    show "sg_ok (cells_of m) (fold visit (n # ns) s)" using Cons.IH[of "visit n s"] one by simp
    show "{c \<in> set (sg_cells (fold visit (n # ns) s)). \<not> gc_edge c} = {c \<in> set (sg_cells s). \<not> gc_edge c}"
      using Cons.IH[of "visit n s"] one by simp
    assume f: "ends_are_nodes m"
    have "set (sg_cells (fold visit (n # ns) s)) = set (sg_cells (visit n s)) \<union>
       {e \<in> cells_of m. (\<exists>n \<in> set ns. touches (gc_id n) e) \<and> joins m (set (sg_cells s)) e}"
      using Cons.IH[of "visit n s"] one f j[OF f] by auto
    moreover have "set (sg_cells (visit n s)) = set (sg_cells s) \<union>
        {e \<in> cells_of m. touches (gc_id n) e \<and> joins m (set (sg_cells s)) e}"
      using one f getConnectedEdges_set[OF ok, of "gc_id n"] by auto
    ultimately show "set (sg_cells (fold visit (n # ns) s)) = set (sg_cells s) \<union>
       {e \<in> cells_of m. (\<exists>n \<in> set (n # ns). touches (gc_id n) e) \<and> joins m (set (sg_cells s)) e}" by auto
  qed
qed simp

lemma getSubGraph_ok:
  assumes ok: "model_ok m" and cs: "set cells \<subseteq> cells_of m"
  shows "distinct (map gc_id (getSubGraph cells m)) \<and> set (getSubGraph cells m) \<subseteq> cells_of m"
    and "ends_are_nodes m \<Longrightarrow> set (getSubGraph cells m) =
      with_ends m (set cells) \<union> {e \<in> cells_of m. gc_edge e \<and> joins m (with_ends m (set cells)) e}"
proof -
  define s0 where "s0 = \<lparr>sg_cells = [], sg_nodes = [], sg_edges = []\<rparr>"
  define s1 where "s1 = fold sg_collect cells s0"
  define s2 where "s2 = fold (\<lambda>e s. sg_end (getTargetCell e m) (sg_end (getSourceCell e m) s)) (sg_edges s1) s1"
  define s3 where "s3 = fold (\<lambda>n s. fold (sg_between m) (getConnectedEdges (gc_id n) True True m) s) (sg_nodes s2) s2"
  have g: "getSubGraph cells m = sg_cells s3" by (simp add: getSubGraph_def s0_def s1_def s2_def s3_def Let_def)
  have 1: "sg_ok (cells_of m) s1 \<and> set (sg_cells s1) = set cells \<and> set (sg_edges s1) = {c \<in> set cells. gc_edge c}"
    unfolding s1_def using sg_collect_fold[OF cells_inj[OF ok] _ cs, of s0] by (auto simp: s0_def sg_ok_def)
  then have 2: "sg_ok (cells_of m) s2 \<and> set (sg_cells s2) = with_ends m (set cells)"
    unfolding s2_def using sg_ends_fold[OF ok, of s1 "sg_edges s1"] by (simp add: with_ends_def)
  then have 3: "sg_ok (cells_of m) s3 \<and> (ends_are_nodes m \<longrightarrow> set (sg_cells s3) = set (sg_cells s2) \<union>
       {e \<in> cells_of m. (\<exists>n \<in> set (sg_nodes s2). touches (gc_id n) e) \<and> joins m (set (sg_cells s2)) e})"
    unfolding s3_def using sg_between_nodes[OF ok, of s2 "sg_nodes s2"] by simp
  show "distinct (map gc_id (getSubGraph cells m)) \<and> set (getSubGraph cells m) \<subseteq> cells_of m"
    unfolding g using 3 by (simp add: sg_ok_def)
  assume f: "ends_are_nodes m"
  have "(\<exists>n \<in> set (sg_nodes s2). touches (gc_id n) e) \<longleftrightarrow> gc_edge e"
    if e: "e \<in> cells_of m" "joins m (set (sg_cells s2)) e" for e
  proof
    assume "gc_edge e"
    obtain a where a: "getSourceCell e m = Some a" "a \<in> set (sg_cells s2)" using e(2) by (auto simp: joins_def)
    then have "\<not> gc_edge a" using f e(1) by (auto simp: ends_are_nodes_def ends_of_def)
    then have "a \<in> set (sg_nodes s2)" using a(2) 2 by (simp add: sg_ok_def)
    moreover have "touches (gc_id a) e"
      using a(1) ok \<open>gc_edge e\<close>
      by (auto simp: getSourceCell_def touches_def getCell_def model_ok_def coll_get_Some split: option.splits if_splits)
    ultimately show "\<exists>n \<in> set (sg_nodes s2). touches (gc_id n) e" by blast
  qed (auto simp: touches_def)
  then show "set (getSubGraph cells m) =
      with_ends m (set cells) \<union> {e \<in> cells_of m. gc_edge e \<and> joins m (with_ends m (set cells)) e}"
    unfolding g using 2 3 f by auto
qed


section \<open>What a paste adds\<close>

lemma uniq_cells_id: "distinct (map gc_id cs) \<Longrightarrow> uniq_cells cs = cs"
proof -
  have "distinct (map gc_id (r @ cs)) \<Longrightarrow> fold (\<lambda>c r. if gc_id c \<in> gc_id ` set r then r else r @ [c]) cs r = r @ cs" for r
  proof (induction cs arbitrary: r)
    case (Cons c cs)
    then show ?case using Cons.IH[of "r @ [c]"] by auto
  qed simp
  from this[of "[]"] show "distinct (map gc_id cs) \<Longrightarrow> uniq_cells cs = cs" by (simp add: uniq_cells_def)
qed

text \<open>The renaming of ids that the clones of a list of cells make.\<close>

definition renaming :: "(nat \<Rightarrow> string) \<Rightarrow> nat \<Rightarrow> gcell list \<Rightarrow> (string \<rightharpoonup> string)" where
  "renaming gen n cs = map_of (zip (map gc_id cs) (map gen [n..<n + length cs]))"

definition renamed :: "(string \<rightharpoonup> string) \<Rightarrow> string \<Rightarrow> string" where
  "renamed ids i = (case ids i of Some j \<Rightarrow> j | None \<Rightarrow> i)"

lemma renaming_ok:
  assumes "distinct (map gc_id cs)" and "inj gen"
  shows "dom (renaming gen n cs) = gc_id ` set cs" and "inj_on (renamed (renaming gen n cs)) (gc_id ` set cs)"
    and "renamed (renaming gen n cs) ` gc_id ` set cs = gen ` {n..<n + length cs}"
proof -
  let ?ks = "map gc_id cs" and ?vs = "map gen [n..<n + length cs]"
  have l: "length ?ks = length ?vs" by simp
  show "dom (renaming gen n cs) = gc_id ` set cs" unfolding renaming_def dom_map_of_zip[OF l] by simp
  have at: "renamed (renaming gen n cs) (?ks ! k) = ?vs ! k" if "k < length cs" for k
    using map_of_zip_nth[OF l assms(1), of k] that by (simp add: renamed_def renaming_def)
  have ks: "gc_id ` set cs = (\<lambda>k. ?ks ! k) ` {..<length cs}"
    unfolding set_map[symmetric] set_conv_nth by auto
  have "inj_on (\<lambda>k. ?vs ! k) {..<length cs}"
    by (rule inj_onI) (use injD[OF assms(2)] in fastforce)
  then show "inj_on (renamed (renaming gen n cs)) (gc_id ` set cs)"
    unfolding ks using at by (auto simp: inj_on_def)
  show "renamed (renaming gen n cs) ` gc_id ` set cs = gen ` {n..<n + length cs}"
    unfolding ks image_image
  proof (intro equalityI subsetI)
    fix x assume "x \<in> gen ` {n..<n + length cs}"
    then obtain y where y: "n \<le> y" "y < n + length cs" "x = gen y" by auto
    then obtain k where "k < length cs" "x = gen (n + k)" by (metis add_less_cancel_left le_Suc_ex)
    then show "x \<in> (\<lambda>k. renamed (renaming gen n cs) (?ks ! k)) ` {..<length cs}"
      using at[of k] by (intro image_eqI[of _ _ k]) auto
  qed (use at in auto)
qed

lemma copy_cells:
  fixes n :: nat
  assumes d: "distinct (map gc_id cs)" and g: "inj gen" and e: "[] \<notin> gc_id ` set cs"
  defines "cloned \<equiv> map (\<lambda>c. (gc_id c, clone_cell (renaming gen n cs) c)) cs"
  defines "out \<equiv> map (\<lambda>k. the (map_of cloned k)) (key_order (map fst cloned))"
  shows "set out = clone_cell (renaming gen n cs) ` set cs" and "distinct (map gc_id out)"
    and "c \<in> set cs \<Longrightarrow> gc_id (clone_cell (renaming gen n cs) c) = renamed (renaming gen n cs) (gc_id c)"
    and "clone_end (renaming gen n cs) t = map_option (renamed (renaming gen n cs)) t"
proof -
  let ?r = "renaming gen n cs"
  note R = renaming_ok[OF d g, of n]
  have keys: "map fst cloned = map gc_id cs" by (simp add: cloned_def comp_def)
  have get: "the (map_of cloned (gc_id c)) = clone_cell ?r c" if "c \<in> set cs" for c
  proof -
    have "(gc_id c, clone_cell ?r c) \<in> set cloned" using that by (auto simp: cloned_def)
    then show ?thesis using map_of_is_SomeI[of cloned "gc_id c"] keys d by simp
  qed
  have id: "gc_id (clone_cell ?r c) = renamed ?r (gc_id c)" if "c \<in> set cs" for c
  proof -
    have "gc_id c \<in> dom ?r" using R(1) that by blast
    then show ?thesis by (auto simp: clone_cell_def renamed_def Let_def)
  qed
  then show "c \<in> set cs \<Longrightarrow> gc_id (clone_cell ?r c) = renamed ?r (gc_id c)" .
  have "set out = (\<lambda>k. the (map_of cloned k)) ` gc_id ` set cs" by (simp add: out_def keys)
  then show set: "set out = clone_cell ?r ` set cs" using get by (simp add: image_image)
  have ids: "map gc_id out = map (renamed ?r) (key_order (map gc_id cs))"
    using get id by (auto simp: out_def keys)
  show "distinct (map gc_id out)"
    unfolding ids distinct_map using R(2) d by simp
  have "?r [] = None" using R(1) e by (metis domIff)
  then show "clone_end ?r t = map_option (renamed ?r) t"
    by (auto simp: clone_end_def renamed_def split: option.splits)
qed

lemma fold_addCell:
  "model_ok m \<Longrightarrow> distinct (map gc_id cs) \<Longrightarrow> gc_id ` set cs \<inter> gc_id ` cells_of m = {} \<Longrightarrow> \<forall>c \<in> set cs. gc_z c = None \<Longrightarrow>
   model_ok (fold addCell cs m) \<and>
   (\<exists>z. cells_of (fold addCell cs m) = cells_of m \<union> (\<lambda>c. c\<lparr>gc_z := Some (z (gc_id c))\<rparr>) ` set cs)"
proof (induction cs arbitrary: m)
  case (Cons c cs)
  note add = addCell_ok[OF Cons.prems(1), of c]
  have "gc_id c \<notin> gc_id ` cells_of m" using Cons.prems(3) by auto
  then have one: "model_ok (addCell c m)" "cells_of (addCell c m) = insert (prepareCell m c) (cells_of m)" using add by simp_all
  have p: "prepareCell m c = c\<lparr>gc_z := Some (getMaxZIndex m + 1)\<rparr>" using Cons.prems(4) by (simp add: prepareCell_def)
  have "gc_id ` set cs \<inter> gc_id ` cells_of (addCell c m) = {}" using Cons.prems(2,3) by (auto simp: one(2) p)
  then obtain z where z: "model_ok (fold addCell cs (addCell c m))"
    "cells_of (fold addCell cs (addCell c m)) = cells_of (addCell c m) \<union> (\<lambda>c. c\<lparr>gc_z := Some (z (gc_id c))\<rparr>) ` set cs"
    using Cons.IH[OF one(1)] Cons.prems by auto
  let ?z = "z(gc_id c := getMaxZIndex m + 1)"
  have "(\<lambda>c. c\<lparr>gc_z := Some (z (gc_id c))\<rparr>) ` set cs = (\<lambda>c. c\<lparr>gc_z := Some (?z (gc_id c))\<rparr>) ` set cs"
  proof (rule image_cong)
    fix x assume "x \<in> set cs"
    then have "gc_id x \<in> gc_id ` set cs" "gc_id c \<notin> gc_id ` set cs" using Cons.prems(2) by simp_all
    then have "gc_id x \<noteq> gc_id c" by metis
    then show "x\<lparr>gc_z := Some (z (gc_id x))\<rparr> = x\<lparr>gc_z := Some (?z (gc_id x))\<rparr>" by simp
  qed simp
  then have eq: "cells_of (fold addCell (c # cs) m) = cells_of m \<union> (\<lambda>c. c\<lparr>gc_z := Some (?z (gc_id c))\<rparr>) ` set (c # cs)"
    using z(2) one(2) p by auto
  have "model_ok (fold addCell (c # cs) m)" using z(1) by simp
  then show ?case using eq by blast
qed auto

lemma paste_cell_id [simp]: "gc_id (paste_cell dx dy c) = gc_id c" "gc_edge (paste_cell dx dy c) = gc_edge c"
  "gc_source (paste_cell dx dy c) = gc_source c" "gc_target (paste_cell dx dy c) = gc_target c" "gc_z (paste_cell dx dy c) = None"
  by (auto simp: paste_cell_def cell_translate_def edge_translate_def node_translate_def Let_def split: jv.splits)

text \<open>
  What a move by an offset does to the properties of a cell, said without the code's functions: the
  position of a node and every vertex of an edge get the offset added to their coordinates (one that
  is missing or no number counts as zero), every other property stays, and an edge without vertices
  stays as it is; the offset zero changes nothing.
\<close>

definition coord :: "string \<Rightarrow> jv \<Rightarrow> int" where
  "coord k p = (case p of JObj o' \<Rightarrow> (case oget o' k of JNum n \<Rightarrow> n | _ \<Rightarrow> 0) | _ \<Rightarrow> 0)"

definition point_moved :: "int \<Rightarrow> int \<Rightarrow> jv \<Rightarrow> jv \<Rightarrow> bool" where
  "point_moved dx dy p q \<longleftrightarrow>
     q = JObj [(''x'', JNum (coord ''x'' p + dx)), (''y'', JNum (coord ''y'' p + dy))]"

definition props_moved :: "bool \<Rightarrow> int \<Rightarrow> int \<Rightarrow> (string \<times> jv) list \<Rightarrow> (string \<times> jv) list \<Rightarrow> bool" where
  "props_moved e dx dy old new \<longleftrightarrow>
     (if dx = 0 \<and> dy = 0 then new = old
      else if e
      then (\<forall>k. k \<noteq> ''vertices'' \<longrightarrow> oget new k = oget old k) \<and>
        (case oget old ''vertices'' of
           JArr vs \<Rightarrow> \<exists>ws. oget new ''vertices'' = JArr ws \<and> list_all2 (point_moved dx dy) vs ws
         | _ \<Rightarrow> new = old)
      else (\<forall>k. k \<noteq> ''position'' \<longrightarrow> oget new k = oget old k) \<and>
        point_moved dx dy (oget old ''position'') (oget new ''position''))"

lemma shift_point_moved: "point_moved dx dy p (shift_point dx dy p)"
  by (auto simp: point_moved_def shift_point_def shifted_def coord_def split: jv.splits)

lemma paste_cell_moved: "props_moved (gc_edge c) dx dy (gc_props c) (gc_props (paste_cell dx dy c))"
proof (cases "gc_edge c")
  case True
  then show ?thesis
    by (auto simp: props_moved_def paste_cell_def cell_translate_def edge_translate_def Let_def list_all2_map2
        list_all2_same shift_point_moved split: jv.splits)
next
  case False
  then show ?thesis
    by (auto simp: props_moved_def paste_cell_def cell_translate_def node_translate_def Let_def shift_point_moved)
qed

text \<open>A pasted cell: renamed, moved, with ends renamed, at some z index.\<close>

definition is_copy :: "(string \<Rightarrow> string) \<Rightarrow> int \<Rightarrow> int \<Rightarrow> gcell \<Rightarrow> gcell \<Rightarrow> bool" where
  "is_copy f dx dy c p \<longleftrightarrow>
     gc_id p = f (gc_id c) \<and> gc_edge p = gc_edge c \<and> props_moved (gc_edge c) dx dy (gc_props c) (gc_props p) \<and>
     gc_source p = (if gc_edge c then map_option f (gc_source c) else gc_source c) \<and>
     gc_target p = (if gc_edge c then map_option f (gc_target c) else gc_target c)"

definition copied :: "(string \<Rightarrow> string) \<Rightarrow> int \<Rightarrow> int \<Rightarrow> gcell set \<Rightarrow> gcell set \<Rightarrow> bool" where
  "copied f dx dy S P \<longleftrightarrow> inj_on f (gc_id ` S) \<and> gc_id ` P = f ` gc_id ` S \<and> inj_on gc_id P \<and>
     (\<forall>c \<in> S. \<exists>p \<in> P. is_copy f dx dy c p)"

lemma clone_cell_simps: "gc_edge (clone_cell r c) = gc_edge c" "gc_props (clone_cell r c) = gc_props c"
  "gc_source (clone_cell r c) = (if gc_edge c then clone_end r (gc_source c) else gc_source c)"
  "gc_target (clone_cell r c) = (if gc_edge c then clone_end r (gc_target c) else gc_target c)"
  by (simp_all add: clone_cell_def Let_def)

lemma clone_is_copy:
  assumes "gc_id (clone_cell r c) = f (gc_id c)" and "\<And>t. clone_end r t = map_option f t"
  shows "is_copy f dx dy c ((paste_cell dx dy (clone_cell r c))\<lparr>gc_z := z\<rparr>)"
  using assms paste_cell_moved[of "clone_cell r c" dx dy] by (simp add: is_copy_def clone_cell_simps)

text \<open>C37: In a graph whose edges end at nodes (\<open>ends_are_nodes\<close>; the editor connects nothing else),
  a selection is copied with the ends of its edges and with all edges between its nodes, every cell
  once. Without that condition an edge that joins two collected edges is not copied.\<close>
theorem getSubGraph_exact:
  assumes "model_ok m" and "set cells \<subseteq> cells_of m" and "ends_are_nodes m"
  shows "distinct (map gc_id (getSubGraph cells m)) \<and> set (getSubGraph cells m) =
    with_ends m (set cells) \<union> {e \<in> cells_of m. gc_edge e \<and> joins m (with_ends m (set cells)) e}"
  using getSubGraph_ok[OF assms(1,2)] assms(3) by blast

text \<open>C15: Pasting a copied selection adds exactly one cell for each cell of its subgraph, with a new
  distinct id; a node's position and an edge's vertices are those of the original with the offset
  added, all other properties are the same, the edges among them connect the new cells as the old
  ones, and all other cells of the graph are as before. Conditions: the id generator is injective and
  gives no id of the graph, no cell has the empty id, and the graph has not changed since the copy.
  Only the z index of a copy is left open.\<close>
theorem paste_copies_subgraph:
  assumes "model_ok m" and "set cells \<subseteq> cells_of m" and "inj gen" and "[] \<notin> gc_id ` cells_of m"
    and "\<forall>k \<ge> cb_next cb. gen k \<notin> gc_id ` cells_of m"
    and "cb_paste gen dx dy m (cb_copy gen cells m cb) = (pasted, m', cb')"
  shows "\<exists>f. copied f dx dy (set (getSubGraph cells m)) (set pasted) \<and> (\<forall>i. i \<notin> gc_id ` set (getSubGraph cells m) \<longrightarrow> f i = i) \<and>
    gc_id ` set pasted \<inter> gc_id ` cells_of m = {} \<and> cells_of m' = cells_of m \<union> set pasted \<and> model_ok m'"
proof -
  define sub where "sub = getSubGraph cells m"
  define n where "n = cb_next cb"
  define r where "r = renaming gen n sub"
  define f where "f = renamed r"
  have sub: "distinct (map gc_id sub)" "set sub \<subseteq> cells_of m" using getSubGraph_ok(1)[OF assms(1,2)] by (simp_all add: sub_def)
  have e: "[] \<notin> gc_id ` set sub" using sub(2) assms(4) by blast
  note R = renaming_ok[OF sub(1) assms(3), of n, folded r_def, folded f_def]
  define out where "out = map (\<lambda>k. the (map_of (map (\<lambda>c. (gc_id c, clone_cell r c)) sub) k))
    (key_order (map fst (map (\<lambda>c. (gc_id c, clone_cell r c)) sub)))"
  note O = copy_cells[OF sub(1) assms(3) e, where n = n, folded r_def, folded out_def f_def]
  define cs where "cs = cb_cells (cb_copy gen cells m cb)"
  have cs: "cs = sort_key (\<lambda>c. if gc_edge c then 2 else (1 :: nat)) out"
    using uniq_cells_id[OF sub(1)] unfolding cs_def out_def r_def n_def renaming_def sub_def
    by (simp add: cb_copy_def cloneSubGraph_def cloneCells_def Let_def)
  then have set_cs: "set cs = clone_cell r ` set sub" and dist_cs: "distinct (map gc_id cs)"
    using O(1,2) by (simp_all add: distinct_map)
  define ps where "ps = map (paste_cell dx dy) cs"
  have ids_cs: "gc_id ` set cs = f ` gc_id ` set sub" using O(3) unfolding set_cs by (auto simp: image_iff)
  then have ids: "gc_id ` set ps = f ` gc_id ` set sub" by (simp add: ps_def image_image)
  have fresh: "f ` gc_id ` set sub \<inter> gc_id ` cells_of m = {}" unfolding R(3) using assms(5) by (auto simp: n_def)
  define m0 where "m0 = (if ps = [] then startBatch ''paste'' m else startBatch ''add'' (startBatch ''paste'' m))"
  have m0: "model_ok m0" "cells_of m0 = cells_of m" using assms(1)
    by (simp_all add: m0_def) (simp_all add: cells_of_def startBatch_def)
  have "distinct (map gc_id ps)" using dist_cs by (simp add: ps_def comp_def)
  then obtain z where z: "model_ok (fold addCell ps m0)"
    "cells_of (fold addCell ps m0) = cells_of m \<union> (\<lambda>c. c\<lparr>gc_z := Some (z (gc_id c))\<rparr>) ` set ps"
    using fold_addCell[OF m0(1) \<open>distinct (map gc_id ps)\<close>] fresh unfolding m0(2) ids by (auto simp: ps_def)
  have m': "m' = batchUpdate ''paste'' (addCells ps) m"
    and pasted: "pasted = map (\<lambda>c. the (getCell (gc_id c) m')) ps"
    using assms(6) by (auto simp: cb_paste_def Let_def cs_def ps_def)
  have ok': "model_ok m'" and cells': "cells_of m' = cells_of m \<union> (\<lambda>c. c\<lparr>gc_z := Some (z (gc_id c))\<rparr>) ` set ps"
    using z by (auto simp: m' batchUpdate_def addCells_def m0_def cells_of_def stopBatch_def model_ok_def split: if_splits)
  have get: "the (getCell (gc_id c) m') = c\<lparr>gc_z := Some (z (gc_id c))\<rparr>" if "c \<in> set ps" for c
  proof -
    have "c\<lparr>gc_z := Some (z (gc_id c))\<rparr> \<in> cells_of m'" unfolding cells' using that by blast
    then have "getCell (gc_id c) m' = Some (c\<lparr>gc_z := Some (z (gc_id c))\<rparr>)"
      using ok' by (simp add: getCell_def model_ok_def coll_get_Some cells_of_def)
    then show ?thesis by simp
  qed
  have set_p: "set pasted = (\<lambda>c. c\<lparr>gc_z := Some (z (gc_id c))\<rparr>) ` set ps" using get by (auto simp: pasted image_iff)
  then have ids_p: "gc_id ` set pasted = f ` gc_id ` set sub" using ids by (simp add: image_image)
  have "\<exists>p \<in> set pasted. is_copy f dx dy c p" if "c \<in> set sub" for c
  proof -
    let ?p = "paste_cell dx dy (clone_cell r c)"
    have "?p \<in> set ps" using that set_cs by (auto simp: ps_def)
    then have "?p\<lparr>gc_z := Some (z (gc_id ?p))\<rparr> \<in> set pasted" unfolding set_p by blast
    then show ?thesis using clone_is_copy[of r c f] O(3)[OF that] O(4) by blast
  qed
  moreover have "inj_on gc_id (set pasted)" by (rule inj_on_subset[OF cells_inj[OF ok']]) (auto simp: cells' set_p)
  moreover have "f i = i" if "i \<notin> gc_id ` set sub" for i
  proof -
    have "i \<notin> dom r" unfolding R(1) by (rule that)
    then have "r i = None" by (simp add: domIff)
    then show ?thesis by (simp add: f_def renamed_def)
  qed
  ultimately show ?thesis
    using R(2) ids_p fresh cells' set_p ok' unfolding copied_def sub_def by (intro exI[of _ f]) simp
qed


text \<open>A graph with two nodes and an edge between them.\<close>

definition ex_copy :: gmodel where
  "ex_copy = fold addCell
     [\<lparr>gc_id = ''a'', gc_edge = False, gc_source = None, gc_target = None, gc_z = None,
        gc_props = [(''position'', JObj [(''x'', JNum 10), (''y'', JNum 20)])]\<rparr>,
      \<lparr>gc_id = ''b'', gc_edge = False, gc_source = None, gc_target = None, gc_z = None, gc_props = []\<rparr>,
      \<lparr>gc_id = ''e'', gc_edge = True, gc_source = Some ''a'', gc_target = Some ''b'', gc_z = None, gc_props = []\<rparr>] newModel"

lemma ex_copy_facts: "model_ok ex_copy" "gc_id ` cells_of ex_copy = {''a'', ''b'', ''e''}"
  "ends_are_nodes ex_copy"
proof -
  show "model_ok ex_copy" by (simp add: ex_copy_def addCell_ok[THEN conjunct1] model_ok_new)
  show "gc_id ` cells_of ex_copy = {''a'', ''b'', ''e''}" by code_simp
  show "ends_are_nodes ex_copy" by code_simp
qed

lemma getSubGraph_exact_witness:
  "distinct (map gc_id (getSubGraph (filter gc_edge (getCells ex_copy)) ex_copy)) \<and>
   set (getSubGraph (filter gc_edge (getCells ex_copy)) ex_copy) =
     with_ends ex_copy (set (filter gc_edge (getCells ex_copy))) \<union>
     {e \<in> cells_of ex_copy. gc_edge e \<and> joins ex_copy (with_ends ex_copy (set (filter gc_edge (getCells ex_copy)))) e}"
  by (rule getSubGraph_exact) (auto simp: ex_copy_facts getCells_def cells_of_def)

definition ex_gen :: "nat \<Rightarrow> string" where
  "ex_gen k = replicate (k + 2) CHR ''u''"

lemma paste_copies_subgraph_witness:
  "\<exists>pasted m' cb' f. cb_paste ex_gen 32 32 ex_copy (cb_copy ex_gen (getCells ex_copy) ex_copy \<lparr>cb_cells = [], cb_next = 0\<rparr>) = (pasted, m', cb') \<and>
     copied f 32 32 (set (getSubGraph (getCells ex_copy) ex_copy)) (set pasted) \<and>
     gc_id ` set pasted \<inter> gc_id ` cells_of ex_copy = {} \<and> cells_of m' = cells_of ex_copy \<union> set pasted \<and> model_ok m'"
proof -
  obtain pasted m' cb' where p: "cb_paste ex_gen 32 32 ex_copy
      (cb_copy ex_gen (getCells ex_copy) ex_copy \<lparr>cb_cells = [], cb_next = 0\<rparr>) = (pasted, m', cb')"
    by (metis prod.collapse)
  have i: "inj ex_gen" by (rule injI) (metis add_right_cancel ex_gen_def length_replicate)
  have c: "set (getCells ex_copy) \<subseteq> cells_of ex_copy" by (simp add: getCells_def cells_of_def)
  have e: "[] \<notin> gc_id ` cells_of ex_copy" unfolding ex_copy_facts(2) by simp
  have "ex_gen k \<notin> {''a'', ''b'', ''e''}" for k by (auto simp: ex_gen_def)
  then have f: "\<forall>k \<ge> cb_next \<lparr>cb_cells = [], cb_next = 0\<rparr>. ex_gen k \<notin> gc_id ` cells_of ex_copy"
    unfolding ex_copy_facts(2) by blast
  from paste_copies_subgraph[OF ex_copy_facts(1) c i e f p] p show ?thesis by blast
qed

end
