(* ===== verification/Component_Sync.thy ===== *)
theory Component_Sync
  imports Prelude
begin

text \<open>
  The synchronisation of the two ends of a port of the simulator (internal/core/ahead_port/sync.go):
  the cycle the upstream component has completed, and the decisions of the downstream component
  whether it is ready in a cycle, up to which all cycles are ready and beyond it in an array. The
  operations are atomic steps: the code runs each under a lock. An operation that would wait is None;
  the wake-up channels that end the wait are left out. Panics are None of the updates.
\<close>

section \<open>State\<close>

datatype rstate = StateUnset | StateReady | StateNotReady

record csync =
  cs_done :: int
  cs_readyUntil :: int
  cs_readyStates :: "rstate list"

definition NewComponentSync :: csync where
  "NewComponentSync = \<lparr>cs_done = -1, cs_readyUntil = 0, cs_readyStates = []\<rparr>"

definition SetDone :: "int \<Rightarrow> csync \<Rightarrow> csync" where
  "SetDone cycle cs = cs\<lparr>cs_done := cycle\<rparr>"

definition GetDone :: "csync \<Rightarrow> int" where
  "GetDone cs = cs_done cs"

text \<open>None while the upstream component has not completed the cycle.\<close>

definition WaitDone :: "int \<Rightarrow> csync \<Rightarrow> unit option" where
  "WaitDone targetCycle cs = (if cs_done cs \<ge> targetCycle then Some () else None)"

section \<open>Asking\<close>

text \<open>The result: whether the cycle is decided, the decision, and the pruned state.\<close>

definition checkStatesAndPrune :: "int \<Rightarrow> csync \<Rightarrow> bool \<times> bool \<times> csync" where
  "checkStatesAndPrune cycle cs =
     (let offset = cycle - cs_readyUntil cs
      in if offset < 0 then (True, True, cs)
         else if offset \<ge> int (length (cs_readyStates cs)) then (False, False, cs)
         else (let state = cs_readyStates cs ! nat offset
               in if state = StateUnset then (False, False, cs)
                  else (True, state = StateReady,
                        cs\<lparr>cs_readyStates := drop (nat offset + 1) (cs_readyStates cs), cs_readyUntil := cycle + 1\<rparr>)))"

definition Ready :: "int \<Rightarrow> csync \<Rightarrow> (bool \<times> csync) option" where
  "Ready cycle cs =
     (if cycle < cs_readyUntil cs then Some (True, cs)
      else (case checkStatesAndPrune cycle cs of
              (found, result, cs') \<Rightarrow> if found then Some (result, cs') else None))"

text \<open>The decision and whether there is one.\<close>

definition IsReadyNonBlocking :: "int \<Rightarrow> csync \<Rightarrow> bool \<times> bool" where
  "IsReadyNonBlocking cycle cs =
     (if cycle < cs_readyUntil cs then (True, True)
      else (let offset = cycle - cs_readyUntil cs
            in if offset \<ge> int (length (cs_readyStates cs)) then (False, False)
               else (let state = cs_readyStates cs ! nat offset
                     in if state = StateUnset then (False, False) else (True, state = StateReady))))"

section \<open>Deciding\<close>

text \<open>The loop that takes the ready cycles off the front of the array.\<close>

fun compact :: "int \<Rightarrow> rstate list \<Rightarrow> int \<times> rstate list" where
  "compact readyUntil (s # states) =
     (if s = StateReady then compact (readyUntil + 1) states else (readyUntil, s # states))"
| "compact readyUntil [] = (readyUntil, [])"

definition extend_states :: "nat \<Rightarrow> rstate list \<Rightarrow> rstate list" where
  "extend_states offset states =
     (if offset \<ge> length states then states @ replicate (offset + 1 - length states) StateUnset else states)"

text \<open>None is the panic at a changed decision.\<close>

definition UpdateReady :: "int \<Rightarrow> bool \<Rightarrow> csync \<Rightarrow> csync option" where
  "UpdateReady cycle ready cs =
     (if ready \<and> cs_readyUntil cs = cycle \<and> cs_readyStates cs = []
      then Some (cs\<lparr>cs_readyUntil := cycle + 1\<rparr>)
      else if cycle < cs_readyUntil cs then (if \<not> ready then None else Some cs)
      else (let offset = nat (cycle - cs_readyUntil cs); states = extend_states offset (cs_readyStates cs)
            in if states ! offset \<noteq> StateUnset
               then (if (states ! offset = StateReady) \<noteq> ready then None else Some (cs\<lparr>cs_readyStates := states\<rparr>))
               else (case compact (cs_readyUntil cs) (states[offset := if ready then StateReady else StateNotReady]) of
                       (readyUntil, states') \<Rightarrow> Some (cs\<lparr>cs_readyUntil := readyUntil, cs_readyStates := states'\<rparr>))))"

definition SetReadyUntil :: "int \<Rightarrow> csync \<Rightarrow> csync" where
  "SetReadyUntil cycle cs =
     (let current = cs_readyUntil cs
      in if cycle \<le> current then cs
         else (let diff = nat (cycle - current)
               in cs\<lparr>cs_readyStates := (if diff < length (cs_readyStates cs) then drop diff (cs_readyStates cs) else []),
                     cs_readyUntil := cycle\<rparr>))"

definition InitReady :: "int \<Rightarrow> csync \<Rightarrow> csync" where
  "InitReady limit cs = SetReadyUntil limit cs"

section \<open>The decisions a state stands for\<close>

fun decision :: "rstate \<Rightarrow> bool option" where
  "decision StateUnset = None"
| "decision StateReady = Some True"
| "decision StateNotReady = Some False"

definition state_at :: "rstate list \<Rightarrow> nat \<Rightarrow> rstate" where
  "state_at states i = (if i < length states then states ! i else StateUnset)"

definition decided :: "csync \<Rightarrow> int \<rightharpoonup> bool" where
  "decided cs = (\<lambda>c. if c < cs_readyUntil cs then Some True
     else decision (state_at (cs_readyStates cs) (nat (c - cs_readyUntil cs))))"

lemma state_at_extend [simp]: "state_at (extend_states n states) i = state_at states i"
  by (auto simp: state_at_def extend_states_def nth_append)

lemma length_extend: "n < length (extend_states n states)"
  by (simp add: extend_states_def)

lemma state_at_update: "n < length states \<Longrightarrow> state_at (states[n := s]) i = (if i = n then s else state_at states i)"
  by (auto simp: state_at_def)

lemma decided_compact:
  "compact u states = (u', states') \<Longrightarrow>
   decided \<lparr>cs_done = d, cs_readyUntil = u', cs_readyStates = states'\<rparr> =
   decided \<lparr>cs_done = d, cs_readyUntil = u, cs_readyStates = states\<rparr>"
proof (induction u states rule: compact.induct)
  case (1 u s states)
  show ?case
  proof (cases "s = StateReady")
    case True
    have "decided \<lparr>cs_done = d, cs_readyUntil = u + 1, cs_readyStates = states\<rparr> c =
        decided \<lparr>cs_done = d, cs_readyUntil = u, cs_readyStates = s # states\<rparr> c" for c
    proof -
      consider "c < u" | "c = u" | "c > u" by linarith
      then show ?thesis
      proof cases
        case 3
        then have "nat (c - u) = Suc (nat (c - (u + 1)))" by linarith
        then show ?thesis using 3 by (simp add: decided_def state_at_def)
      qed (simp_all add: decided_def state_at_def True)
    qed
    then show ?thesis using 1 True by (simp add: fun_eq_iff)
  next
    case False
    then show ?thesis using 1 by simp
  qed
qed simp

lemma decided_cong: "cs_readyUntil a = cs_readyUntil b \<Longrightarrow> cs_readyStates a = cs_readyStates b \<Longrightarrow> decided a = decided b"
  by (simp only: decided_def)

text \<open>An update records its decision and nothing else; it panics exactly at a different decision.\<close>

lemma UpdateReady_None: "UpdateReady cycle ready cs = None \<longleftrightarrow> decided cs cycle = Some (\<not> ready)"
proof (cases "cycle < cs_readyUntil cs")
  case True
  then show ?thesis by (auto simp: UpdateReady_def decided_def)
next
  case False
  define offset where "offset = nat (cycle - cs_readyUntil cs)"
  define states where "states = extend_states offset (cs_readyStates cs)"
  have st: "states ! offset = state_at (cs_readyStates cs) offset"
    using length_extend[of offset] state_at_extend[of offset "cs_readyStates cs" offset]
    by (simp add: states_def state_at_def)
  have e: "UpdateReady cycle ready cs =
      (if ready \<and> cs_readyUntil cs = cycle \<and> cs_readyStates cs = [] then Some (cs\<lparr>cs_readyUntil := cycle + 1\<rparr>)
       else if states ! offset \<noteq> StateUnset
       then (if (states ! offset = StateReady) \<noteq> ready then None else Some (cs\<lparr>cs_readyStates := states\<rparr>))
       else (case compact (cs_readyUntil cs) (states[offset := if ready then StateReady else StateNotReady]) of
               (readyUntil, states') \<Rightarrow> Some (cs\<lparr>cs_readyUntil := readyUntil, cs_readyStates := states'\<rparr>)))"
    using False by (simp add: UpdateReady_def Let_def offset_def states_def)
  have d: "decided cs cycle = decision (state_at (cs_readyStates cs) offset)"
    using False by (simp add: decided_def offset_def)
  show ?thesis unfolding e st d
    by (cases "state_at (cs_readyStates cs) offset") (auto simp: state_at_def split: prod.splits)
qed

lemma UpdateReady_Some:
  assumes u: "UpdateReady cycle ready cs = Some cs'"
  shows "decided cs' = (decided cs)(cycle \<mapsto> ready)" and "cs_done cs' = cs_done cs"
proof -
  have nc: "decided cs cycle \<noteq> Some (\<not> ready)" using UpdateReady_None[of cycle ready cs] u by auto
  have same: "decided cs = (decided cs)(cycle \<mapsto> ready)" if "decided cs cycle \<noteq> None"
  proof -
    have "decided cs cycle = Some ready" using that nc by (cases "decided cs cycle"; cases ready) auto
    then show ?thesis by (simp add: fun_upd_idem)
  qed
  define offset where "offset = nat (cycle - cs_readyUntil cs)"
  define states where "states = extend_states offset (cs_readyStates cs)"
  have st: "states ! offset = state_at (cs_readyStates cs) offset" and len: "offset < length states"
    using length_extend[of offset] state_at_extend[of offset "cs_readyStates cs" offset]
    by (simp_all add: states_def state_at_def)
  consider (front) "ready" "cs_readyUntil cs = cycle" "cs_readyStates cs = []" "cs' = cs\<lparr>cs_readyUntil := cycle + 1\<rparr>"
    | (below) "cycle < cs_readyUntil cs" "cs' = cs"
    | (again) "cs_readyUntil cs \<le> cycle" "states ! offset \<noteq> StateUnset" "cs' = cs\<lparr>cs_readyStates := states\<rparr>"
    | (new) u' states' where "cs_readyUntil cs \<le> cycle" "states ! offset = StateUnset"
        "compact (cs_readyUntil cs) (states[offset := if ready then StateReady else StateNotReady]) = (u', states')"
        "cs' = cs\<lparr>cs_readyUntil := u', cs_readyStates := states'\<rparr>"
    using u by (auto simp: UpdateReady_def Let_def offset_def states_def split: if_splits prod.splits)
  then have "decided cs' = (decided cs)(cycle \<mapsto> ready) \<and> cs_done cs' = cs_done cs"
  proof cases
    case front
    then show ?thesis by (auto simp: decided_def state_at_def fun_eq_iff)
  next
    case below
    then show ?thesis using same by (simp add: decided_def)
  next
    case again
    have "decided cs cycle \<noteq> None"
      using again(1,2) st by (cases "state_at (cs_readyStates cs) offset") (simp_all add: decided_def offset_def)
    moreover have "decided cs' = decided cs"
      using again(3) by (simp add: decided_def states_def fun_eq_iff)
    ultimately show ?thesis using same again(3) by simp
  next
    case new
    have "decided cs' = decided \<lparr>cs_done = cs_done cs, cs_readyUntil = u', cs_readyStates = states'\<rparr>"
      by (rule decided_cong) (simp_all add: new(4))
    also have "\<dots> = decided \<lparr>cs_done = cs_done cs, cs_readyUntil = cs_readyUntil cs,
        cs_readyStates = states[offset := if ready then StateReady else StateNotReady]\<rparr>"
      by (rule decided_compact[OF new(3)])
    also have "\<dots> = (decided cs)(cycle \<mapsto> ready)"
    proof
      fix c
      have "nat (c - cs_readyUntil cs) = offset \<longleftrightarrow> c = cycle" if "cs_readyUntil cs \<le> c"
        using that new(1) by (auto simp: offset_def)
      then show "decided \<lparr>cs_done = cs_done cs, cs_readyUntil = cs_readyUntil cs,
        cs_readyStates = states[offset := if ready then StateReady else StateNotReady]\<rparr> c = ((decided cs)(cycle \<mapsto> ready)) c"
        using new(1) len by (auto simp: decided_def state_at_update) (simp_all add: states_def)
    qed
    finally show ?thesis using new(4) by simp
  qed
  then show "decided cs' = (decided cs)(cycle \<mapsto> ready)" "cs_done cs' = cs_done cs" by simp_all
qed

text \<open>An answer is the decision; asking makes every cycle up to the one asked for ready afterwards.\<close>

lemma Ready_None: "Ready cycle cs = None \<longleftrightarrow> decided cs cycle = None"
proof -
  have "state_at (cs_readyStates cs) (nat (cycle - cs_readyUntil cs)) = StateUnset \<Longrightarrow>
      cycle - cs_readyUntil cs < int (length (cs_readyStates cs)) \<Longrightarrow> \<not> cycle < cs_readyUntil cs \<Longrightarrow>
      cs_readyStates cs ! nat (cycle - cs_readyUntil cs) = StateUnset"
    by (auto simp: state_at_def nat_less_iff)
  then show ?thesis
    by (cases "state_at (cs_readyStates cs) (nat (cycle - cs_readyUntil cs))")
      (auto simp: Ready_def checkStatesAndPrune_def decided_def Let_def state_at_def nat_less_iff split: if_splits)
qed

lemma Ready_Some:
  assumes "Ready cycle cs = Some (r, cs')"
  shows "decided cs cycle = Some r" and "cs_done cs' = cs_done cs"
    and "decided cs' = (if cycle < cs_readyUntil cs then decided cs
      else (\<lambda>c. if c \<le> cycle then Some True else decided cs c))"
proof -
  let ?o = "nat (cycle - cs_readyUntil cs)"
  consider (below) "cycle < cs_readyUntil cs" "r" "cs' = cs"
    | (here) "cs_readyUntil cs \<le> cycle" "?o < length (cs_readyStates cs)" "cs_readyStates cs ! ?o \<noteq> StateUnset"
      "r = (cs_readyStates cs ! ?o = StateReady)"
      "cs' = cs\<lparr>cs_readyStates := drop (?o + 1) (cs_readyStates cs), cs_readyUntil := cycle + 1\<rparr>"
    using assms
    by (auto simp: Ready_def checkStatesAndPrune_def Let_def nat_less_iff not_less split: if_splits)
  then have "decided cs cycle = Some r \<and> cs_done cs' = cs_done cs \<and>
    decided cs' = (if cycle < cs_readyUntil cs then decided cs
      else (\<lambda>c. if c \<le> cycle then Some True else decided cs c))"
  proof cases
    case below
    then show ?thesis by (simp add: decided_def)
  next
    case here
    have "decided cs cycle = Some r"
      using here(1-4) by (cases "cs_readyStates cs ! ?o") (simp_all add: decided_def state_at_def)
    moreover have "decided cs' c = (if c \<le> cycle then Some True else decided cs c)" for c
    proof (cases "c \<le> cycle")
      case False
      then have "nat (c - cs_readyUntil cs) = Suc (nat (cycle - cs_readyUntil cs)) + nat (c - (cycle + 1))"
        using here(1) by linarith
      then show ?thesis using False here(1,5) by (auto simp: decided_def state_at_def)
    qed (simp add: decided_def here(5))
    ultimately show ?thesis using here(1,5) by auto
  qed
  then show "decided cs cycle = Some r" "cs_done cs' = cs_done cs"
    "decided cs' = (if cycle < cs_readyUntil cs then decided cs
      else (\<lambda>c. if c \<le> cycle then Some True else decided cs c))" by simp_all
qed

lemma IsReadyNonBlocking_decided:
  "IsReadyNonBlocking cycle cs = (case decided cs cycle of None \<Rightarrow> (False, False) | Some r \<Rightarrow> (True, r))"
  by (cases "state_at (cs_readyStates cs) (nat (cycle - cs_readyUntil cs))")
    (auto simp: IsReadyNonBlocking_def decided_def Let_def state_at_def nat_less_iff not_less split: if_splits)

section \<open>Decisions and answers\<close>

datatype sync_op = Decide int bool | Ask int

datatype sync_out = Decided | Panic | Answer bool | Waits

text \<open>An asker that waits asks again later; a panic ends the run.\<close>

fun sync_run :: "sync_op list \<Rightarrow> csync \<Rightarrow> sync_out list" where
  "sync_run [] cs = []"
| "sync_run (Decide c r # ops) cs =
     (case UpdateReady c r cs of None \<Rightarrow> [Panic] | Some cs' \<Rightarrow> Decided # sync_run ops cs')"
| "sync_run (Ask c # ops) cs =
     (case Ready c cs of None \<Rightarrow> Waits # sync_run ops cs | Some (r, cs') \<Rightarrow> Answer r # sync_run ops cs')"

text \<open>The specification: decisions are made once and answers are the decisions.\<close>

fun spec_run :: "sync_op list \<Rightarrow> (int \<rightharpoonup> bool) \<Rightarrow> sync_out list" where
  "spec_run [] dec = []"
| "spec_run (Decide c r # ops) dec =
     (if dec c = Some (\<not> r) then [Panic] else Decided # spec_run ops (dec(c \<mapsto> r)))"
| "spec_run (Ask c # ops) dec = (case dec c of None \<Rightarrow> Waits | Some r \<Rightarrow> Answer r) # spec_run ops dec"

text \<open>The upstream component asks for later and later cycles, and only the cycles after the last answer
  are decided.\<close>

fun forward :: "sync_op list \<Rightarrow> int \<Rightarrow> (int \<rightharpoonup> bool) \<Rightarrow> bool" where
  "forward [] latest dec = True"
| "forward (Decide c r # ops) latest dec \<longleftrightarrow> latest < c \<and> forward ops latest (dec(c \<mapsto> r))"
| "forward (Ask c # ops) latest dec \<longleftrightarrow> latest < c \<and> forward ops (if dec c = None then latest else c) dec"

lemma sync_run_spec:
  "forward ops latest dec \<Longrightarrow> \<forall>c > latest. decided cs c = dec c \<Longrightarrow> sync_run ops cs = spec_run ops dec"
proof (induction ops arbitrary: latest dec cs)
  case (Cons op ops)
  show ?case
  proof (cases op)
    case (Decide c r)
    then have c: "latest < c" "decided cs c = dec c" "forward ops latest (dec(c \<mapsto> r))" using Cons.prems by auto
    show ?thesis
    proof (cases "UpdateReady c r cs")
      case None
      then show ?thesis using Decide UpdateReady_None[of c r cs] c by simp
    next
      case (Some cs')
      then have "dec c \<noteq> Some (\<not> r)" using UpdateReady_None[of c r cs] c by auto
      moreover have "sync_run ops cs' = spec_run ops (dec(c \<mapsto> r))"
        by (rule Cons.IH[OF c(3)]) (use UpdateReady_Some(1)[OF Some] Cons.prems(2) in simp)
      ultimately show ?thesis using Decide Some by simp
    qed
  next
    case (Ask c)
    then have c: "latest < c" "decided cs c = dec c" "forward ops (if dec c = None then latest else c) dec"
      using Cons.prems by auto
    show ?thesis
    proof (cases "Ready c cs")
      case None
      then have "dec c = None" using Ready_None[of c cs] c by simp
      then show ?thesis using Ask None Cons.IH[of latest dec cs] Cons.prems(2) c(3) by simp
    next
      case (Some p)
      obtain r cs' where p: "p = (r, cs')" by (cases p)
      have d: "dec c = Some r" using Ready_Some(1)[of c cs r cs'] Some p c by simp
      have "\<forall>x > c. decided cs' x = dec x"
        using Ready_Some(3)[of c cs r cs'] Some p Cons.prems(2) c(1) by (auto split: if_splits)
      then show ?thesis using Ask Some p d Cons.IH[of c dec cs'] c(3) by simp
    qed
  qed
qed simp

text \<open>C33: As long as the upstream component asks for later and later cycles and decisions are made for
  the cycles after the last answer, a ComponentSync behaves as a table of decisions: each cycle is
  decided once, a changed decision panics, every answer is the decision of its cycle, and asking waits
  exactly while there is none.\<close>
theorem ready_answers_decisions:
  assumes "forward ops (-1) (\<lambda>c. if c < 0 then Some True else None)"
  shows "sync_run ops NewComponentSync = spec_run ops (\<lambda>c. if c < 0 then Some True else None)"
  by (rule sync_run_spec[OF assms]) (simp add: decided_def NewComponentSync_def state_at_def)

lemma ready_answers_decisions_witness:
  "sync_run [Decide 0 True, Ask 0, Ask 1, Decide 2 True, Decide 1 False, Ask 1, Ask 2] NewComponentSync =
     [Decided, Answer True, Waits, Decided, Decided, Answer False, Answer True]"
  by (subst ready_answers_decisions) simp_all

text \<open>Outside of that order the decision not to be ready is lost: it is answered once.\<close>

lemma not_ready_forgotten:
  assumes "UpdateReady c False cs = Some cs1"
  shows "\<exists>cs2. Ready c cs1 = Some (False, cs2) \<and> Ready c cs2 = Some (True, cs2)"
proof -
  have "decided cs1 c = Some False" using UpdateReady_Some(1)[OF assms] by simp
  then obtain r cs2 where r: "Ready c cs1 = Some (r, cs2)" "r = False" using Ready_None[of c cs1] Ready_Some(1)[of c cs1]
    by (cases "Ready c cs1") auto
  have "\<not> c < cs_readyUntil cs1" using r by (auto simp: Ready_def)
  then have "c < cs_readyUntil cs2"
    using r by (auto simp: Ready_def checkStatesAndPrune_def Let_def split: if_splits)
  then show ?thesis using r by (auto simp: Ready_def)
qed

end
