(* ===== verification/Ahead_Port.thy ===== *)
theory Ahead_Port
  imports Component_Sync
begin

text \<open>
  The ports that connect the components of the simulator (internal/core/ahead_port/port.go): a channel
  of packets with the cycle they were sent in, the synchronisation of both ends, and the packets taken
  from the channel before their cycle is received. An operation that would wait for the other end
  leaves the port as it is while it waits. The profiling counters are left out.
\<close>

text \<open>How an operation of a component ends: done, waiting, with an error, or with a panic.\<close>

datatype 's go = Ok 's | Wait 's | Error 's | Panics

type_synonym 'p pwc = "int \<times> 'p"

record 'p port =
  po_channel :: "'p pwc list"
  po_upstreamSync :: csync
  po_downstreamSync :: csync
  po_pendingPackets :: "int \<Rightarrow> 'p list"

definition channel_cap :: nat where "channel_cap = 64"

definition NewPort :: "'p port" where
  "NewPort = \<lparr>po_channel = [], po_upstreamSync = NewComponentSync, po_downstreamSync = NewComponentSync,
     po_pendingPackets = (\<lambda>c. [])\<rparr>"

section \<open>The upstream end\<close>

definition IsReady :: "int \<Rightarrow> 'p port \<Rightarrow> (bool \<times> 'p port) option" where
  "IsReady cycle p =
     (case Ready cycle (po_downstreamSync p) of
        None \<Rightarrow> None
      | Some (r, ds) \<Rightarrow> Some (r, p\<lparr>po_downstreamSync := ds\<rparr>))"

definition PeekReady :: "int \<Rightarrow> 'p port \<Rightarrow> bool \<times> bool" where
  "PeekReady cycle p = IsReadyNonBlocking cycle (po_downstreamSync p)"

text \<open>A send waits for the decision of the cycle, and for room in the channel.\<close>

definition TrySend :: "int \<Rightarrow> 'p pwc \<Rightarrow> 'p port \<Rightarrow> (bool \<times> 'p port) go" where
  "TrySend cycle pkt p =
     (case IsReady cycle p of
        None \<Rightarrow> Wait (False, p)
      | Some (r, p') \<Rightarrow>
          if \<not> r then Ok (False, p')
          else if length (po_channel p') < channel_cap
          then Ok (True, p'\<lparr>po_channel := po_channel p' @ [pkt]\<rparr>)
          else Wait (False, p'))"

definition MarkDone :: "int \<Rightarrow> 'p port \<Rightarrow> 'p port" where
  "MarkDone cycle p = p\<lparr>po_upstreamSync := SetDone cycle (po_upstreamSync p)\<rparr>"

section \<open>The downstream end\<close>

definition cache_packet :: "'p pwc \<Rightarrow> (int \<Rightarrow> 'p list) \<Rightarrow> (int \<Rightarrow> 'p list)" where
  "cache_packet pwc pend = pend(fst pwc := pend (fst pwc) @ [snd pwc])"

definition drainChannel :: "'p port \<Rightarrow> 'p port" where
  "drainChannel p =
     p\<lparr>po_channel := [], po_pendingPackets := fold cache_packet (po_channel p) (po_pendingPackets p)\<rparr>"

definition port_WaitDone :: "int \<Rightarrow> 'p port \<Rightarrow> unit option" where
  "port_WaitDone cycle p = WaitDone cycle (po_upstreamSync p)"

definition PeekDone :: "'p port \<Rightarrow> int" where
  "PeekDone p = GetDone (po_upstreamSync p)"

definition Receive :: "int \<Rightarrow> 'p port \<Rightarrow> ('p list \<times> 'p port) go" where
  "Receive cycle p =
     (let p = drainChannel p
      in case port_WaitDone cycle p of
           None \<Rightarrow> Wait ([], p)
         | Some _ \<Rightarrow>
             (let p = drainChannel p; pkts = po_pendingPackets p cycle
              in Ok (pkts, p\<lparr>po_pendingPackets := (po_pendingPackets p)(cycle := [])\<rparr>)))"

definition port_UpdateReady :: "int \<Rightarrow> bool \<Rightarrow> 'p port \<Rightarrow> 'p port option" where
  "port_UpdateReady cycle ready p =
     map_option (\<lambda>ds. p\<lparr>po_downstreamSync := ds\<rparr>) (UpdateReady cycle ready (po_downstreamSync p))"

section \<open>Laws\<close>

definition dec :: "'p port \<Rightarrow> int \<rightharpoonup> bool" where
  "dec p = decided (po_downstreamSync p)"

lemma port_UpdateReady_None: "port_UpdateReady c r p = None \<longleftrightarrow> dec p c = Some (\<not> r)"
  by (simp add: port_UpdateReady_def dec_def UpdateReady_None)

lemma port_UpdateReady_Some:
  "port_UpdateReady c r p = Some p' \<Longrightarrow> dec p' = (dec p)(c \<mapsto> r) \<and> po_channel p' = po_channel p \<and>
     po_upstreamSync p' = po_upstreamSync p \<and> po_pendingPackets p' = po_pendingPackets p"
  by (auto simp: port_UpdateReady_def dec_def dest: UpdateReady_Some(1))

lemma fold_cache_packet:
  "fold cache_packet ch pend c = pend c @ map snd (filter (\<lambda>pwc. fst pwc = c) ch)"
  by (induction ch arbitrary: pend) (auto simp: cache_packet_def)

text \<open>With a decision there is no waiting for it; a cycle after the asked one keeps its decision.\<close>

lemma IsReady_decided:
  assumes "dec p c = Some r"
  shows "\<exists>p'. IsReady c p = Some (r, p') \<and> po_channel p' = po_channel p \<and> po_upstreamSync p' = po_upstreamSync p \<and>
    po_pendingPackets p' = po_pendingPackets p \<and> (\<forall>d > c. dec p' d = dec p d)  \<and> (r \<longrightarrow> dec p' c = Some True)"
proof -
  obtain r' ds where R: "Ready c (po_downstreamSync p) = Some (r', ds)"
    using Ready_None[of c "po_downstreamSync p"] assms by (cases "Ready c (po_downstreamSync p)") (auto simp: dec_def)
  have "r' = r" using Ready_Some(1)[OF R] assms by (simp add: dec_def)
  then show ?thesis using R Ready_Some(1,3)[OF R] assms
    by (auto simp: IsReady_def dec_def)
qed

end
