(* ===== verification/Output_Queue.thy ===== *)
theory Output_Queue
  imports Ahead_Port
begin

text \<open>
  The output queue of a node of the simulator (internal/core/queue/output_queue.go): a ring buffer that
  is filled by \<open>InjectPackets\<close> and emptied into the downstream port by \<open>Tick\<close>, at most \<open>outBandwidth\<close>
  packets in a cycle and strictly first in, first out. Hooks and logging are left out.
\<close>

record 'p oqueue =
  oq_buffer :: "'p pwc option list"
  oq_head :: nat
  oq_tail :: nat
  oq_count :: nat
  oq_capacity :: nat
  oq_outBandwidth :: nat

text \<open>None is the panic at a bandwidth that is not positive.\<close>

definition NewOutputQueue :: "int \<Rightarrow> int \<Rightarrow> 'p oqueue option" where
  "NewOutputQueue capacity outBandwidth =
     (let capacity = (if capacity \<le> 0 then 8 else capacity)
      in if outBandwidth \<le> 0 then None
         else Some \<lparr>oq_buffer = replicate (nat capacity) None, oq_head = 0, oq_tail = 0, oq_count = 0,
                    oq_capacity = nat capacity, oq_outBandwidth = nat outBandwidth\<rparr>)"

definition inject_one :: "int \<Rightarrow> 'p \<Rightarrow> 'p oqueue \<Rightarrow> 'p oqueue" where
  "inject_one cycle pkt q =
     q\<lparr>oq_buffer := (oq_buffer q)[oq_tail q := Some (cycle, pkt)],
       oq_tail := (oq_tail q + 1) mod oq_capacity q, oq_count := oq_count q + 1\<rparr>"

text \<open>All packets or none: None is the error.\<close>

definition InjectPackets :: "int \<Rightarrow> 'p list \<Rightarrow> 'p oqueue \<Rightarrow> 'p oqueue option" where
  "InjectPackets cycle packets q =
     (if packets = [] then Some q
      else if oq_count q + length packets > oq_capacity q then None
      else Some (fold (inject_one cycle) packets q))"

text \<open>The sending loop, with the number of packets the bandwidth still allows.\<close>

fun send_loop :: "nat \<Rightarrow> int \<Rightarrow> 'p oqueue \<times> 'p port \<Rightarrow> ('p oqueue \<times> 'p port) go" where
  "send_loop 0 cycle (q, p) = Ok (q, p)"
| "send_loop (Suc n) cycle (q, p) =
     (if oq_count q = 0 then Ok (q, p)
      else (case TrySend cycle (cycle, snd (the (oq_buffer q ! oq_head q))) p of
              Ok (sent, p') \<Rightarrow>
                if sent then send_loop n cycle
                  (q\<lparr>oq_head := (oq_head q + 1) mod oq_capacity q, oq_count := oq_count q - 1\<rparr>, p')
                else Ok (q, p')
            | Wait (sent, p') \<Rightarrow> Wait (q, p')
            | Error (sent, p') \<Rightarrow> Error (q, p')
            | Panics \<Rightarrow> Panics))"

definition oq_Tick :: "int \<Rightarrow> 'p oqueue \<times> 'p port \<Rightarrow> ('p oqueue \<times> 'p port) go" where
  "oq_Tick cycle s =
     (case send_loop (oq_outBandwidth (fst s)) cycle s of
        Ok (q, p) \<Rightarrow> Ok (q, MarkDone cycle p)
      | r \<Rightarrow> r)"

definition oq_IsFull :: "'p oqueue \<Rightarrow> bool" where
  "oq_IsFull q \<longleftrightarrow> oq_count q \<ge> oq_capacity q"

section \<open>The queue as a list\<close>

definition oq_ok :: "'p oqueue \<Rightarrow> bool" where
  "oq_ok q \<longleftrightarrow> length (oq_buffer q) = oq_capacity q \<and> 0 < oq_capacity q \<and> oq_count q \<le> oq_capacity q \<and>
     oq_head q < oq_capacity q \<and> oq_tail q = (oq_head q + oq_count q) mod oq_capacity q \<and>
     (\<forall>i < oq_count q. oq_buffer q ! ((oq_head q + i) mod oq_capacity q) \<noteq> None)"

definition oq_list :: "'p oqueue \<Rightarrow> 'p list" where
  "oq_list q = map (\<lambda>i. snd (the (oq_buffer q ! ((oq_head q + i) mod oq_capacity q)))) [0..<oq_count q]"

lemma length_oq_list [simp]: "length (oq_list q) = oq_count q"
  by (simp add: oq_list_def)

lemma ring_le: "i \<le> j \<Longrightarrow> j < n \<Longrightarrow> (h + i) mod n = (h + j) mod n \<Longrightarrow> i = j" for i j n h :: nat
proof -
  assume ij: "i \<le> j" "j < n" and e: "(h + i) mod n = (h + j) mod n"
  have "n dvd (h + j) - (h + i)" using mod_eq_dvd_iff_nat[of "h + i" "h + j" n] e ij(1) by simp
  then have "n dvd j - i" by simp
  then show "i = j" using ij by (auto dest: dvd_imp_le)
qed

lemma ring_inj: "i < n \<Longrightarrow> j < n \<Longrightarrow> (h + i) mod n = (h + j) mod n \<Longrightarrow> i = j" for i j n h :: nat
  using ring_le[of i j n h] ring_le[of j i n h] by (cases "i \<le> j") auto

lemma inject_one_ok:
  assumes ok: "oq_ok q" and room: "oq_count q < oq_capacity q"
  shows "oq_ok (inject_one cycle pkt q)" and "oq_list (inject_one cycle pkt q) = oq_list q @ [pkt]"
    and "oq_count (inject_one cycle pkt q) = oq_count q + 1"
    and "oq_capacity (inject_one cycle pkt q) = oq_capacity q"
    and "oq_outBandwidth (inject_one cycle pkt q) = oq_outBandwidth q"
proof -
  let ?n = "oq_capacity q" and ?t = "(oq_head q + oq_count q) mod oq_capacity q"
  have t: "oq_tail q = ?t" "?t < length (oq_buffer q)" using ok by (auto simp: oq_ok_def)
  have other: "(oq_head q + i) mod ?n \<noteq> ?t" if "i < oq_count q" for i
    using ring_inj[of i ?n "oq_count q" "oq_head q"] that room by auto
  have upd: "oq_buffer (inject_one cycle pkt q) ! ((oq_head q + i) mod ?n) =
      (if i < oq_count q then oq_buffer q ! ((oq_head q + i) mod ?n) else Some (cycle, pkt))"
    if "i < oq_count q + 1" for i
    using that t other[of i] by (auto simp: inject_one_def less_Suc_eq)
  have tail: "(oq_tail q + 1) mod ?n = (oq_head q + (oq_count q + 1)) mod ?n"
    unfolding t(1) by (metis add.assoc mod_add_left_eq)
  show "oq_ok (inject_one cycle pkt q)"
    unfolding oq_ok_def
  proof (intro conjI allI impI)
    fix i assume "i < oq_count (inject_one cycle pkt q)"
    then have i: "i < oq_count q + 1" by (simp add: inject_one_def)
    show "oq_buffer (inject_one cycle pkt q) ! ((oq_head (inject_one cycle pkt q) + i) mod oq_capacity (inject_one cycle pkt q)) \<noteq> None"
      using upd[OF i] ok by (simp add: inject_one_def oq_ok_def)
  qed (use ok room tail in \<open>simp_all add: oq_ok_def inject_one_def\<close>)
  have "oq_list (inject_one cycle pkt q) =
      map (\<lambda>i. snd (the (oq_buffer (inject_one cycle pkt q) ! ((oq_head q + i) mod ?n)))) [0..<oq_count q + 1]"
    by (simp add: oq_list_def inject_one_def)
  also have "\<dots> = oq_list q @ [pkt]"
    using upd by (simp add: oq_list_def)
  finally show "oq_list (inject_one cycle pkt q) = oq_list q @ [pkt]" .
qed (simp_all add: inject_one_def)

lemma inject_fold:
  "oq_ok q \<Longrightarrow> oq_count q + length pkts \<le> oq_capacity q \<Longrightarrow>
   oq_ok (fold (inject_one cycle) pkts q) \<and> oq_list (fold (inject_one cycle) pkts q) = oq_list q @ pkts \<and>
   oq_capacity (fold (inject_one cycle) pkts q) = oq_capacity q \<and>
   oq_outBandwidth (fold (inject_one cycle) pkts q) = oq_outBandwidth q"
proof (induction pkts arbitrary: q)
  case (Cons pkt pkts)
  have "oq_count q < oq_capacity q" using Cons.prems(2) by simp
  note one = inject_one_ok[OF Cons.prems(1) this, of cycle pkt]
  show ?case using Cons.IH[OF one(1)] one(2-5) Cons.prems(2) by simp
qed simp

lemma InjectPackets_ok:
  assumes "oq_ok q"
  shows "InjectPackets cycle pkts q = None \<longleftrightarrow> pkts \<noteq> [] \<and> oq_count q + length pkts > oq_capacity q"
    and "InjectPackets cycle pkts q = Some q' \<Longrightarrow> oq_ok q' \<and> oq_list q' = oq_list q @ pkts \<and>
      oq_capacity q' = oq_capacity q \<and> oq_outBandwidth q' = oq_outBandwidth q"
  using inject_fold[OF assms, of pkts cycle] assms by (auto simp: InjectPackets_def split: if_splits)

lemma take_head_ok:
  assumes ok: "oq_ok q" and c: "oq_count q \<noteq> 0"
  defines "q' \<equiv> q\<lparr>oq_head := (oq_head q + 1) mod oq_capacity q, oq_count := oq_count q - 1\<rparr>"
  shows "oq_ok q'" and "oq_list q = snd (the (oq_buffer q ! oq_head q)) # oq_list q'"
proof -
  let ?n = "oq_capacity q"
  have idx: "((oq_head q + 1) mod ?n + i) mod ?n = (oq_head q + Suc i) mod ?n" for i
    by (metis Suc_eq_plus1_left add.assoc mod_add_left_eq)
  have cnt: "oq_count q = Suc (oq_count q - 1)" using c by simp
  show "oq_ok q'"
    unfolding oq_ok_def
  proof (intro conjI allI impI)
    show "oq_tail q' = (oq_head q' + oq_count q') mod oq_capacity q'"
      using ok idx[of "oq_count q - 1"] cnt by (simp add: oq_ok_def q'_def)
    fix i assume "i < oq_count q'"
    then have "Suc i < oq_count q" by (simp add: q'_def)
    then have "oq_buffer q ! ((oq_head q + Suc i) mod ?n) \<noteq> None" using ok unfolding oq_ok_def by blast
    then show "oq_buffer q' ! ((oq_head q' + i) mod oq_capacity q') \<noteq> None" using idx[of i] by (simp add: q'_def)
  qed (use ok in \<open>auto simp: oq_ok_def q'_def\<close>)
  have "oq_list q = map (\<lambda>i. snd (the (oq_buffer q ! ((oq_head q + i) mod ?n)))) [0..<Suc (oq_count q - 1)]"
    using cnt by (simp add: oq_list_def)
  also have "\<dots> = snd (the (oq_buffer q ! ((oq_head q + 0) mod ?n))) #
      map (\<lambda>i. snd (the (oq_buffer q ! ((oq_head q + Suc i) mod ?n)))) [0..<oq_count q - 1]"
    unfolding map_upt_Suc ..
  also have "\<dots> = snd (the (oq_buffer q ! oq_head q)) # oq_list q'"
  proof -
    have "(Suc (oq_head q) mod ?n + i) mod ?n = Suc (oq_head q + i) mod ?n" for i using idx[of i] by simp
    then show ?thesis using ok by (simp add: oq_list_def q'_def oq_ok_def)
  qed
  finally show "oq_list q = snd (the (oq_buffer q ! oq_head q)) # oq_list q'" .
qed

section \<open>Sending\<close>

text \<open>What an operation at the upstream end in a cycle leaves alone.\<close>

definition port_later :: "int \<Rightarrow> 'p port \<Rightarrow> 'p port \<Rightarrow> bool" where
  "port_later c p p' \<longleftrightarrow> po_upstreamSync p' = po_upstreamSync p \<and> po_pendingPackets p' = po_pendingPackets p \<and>
     (\<forall>d > c. dec p' d = dec p d) \<and> (dec p c = Some True \<longrightarrow> dec p' c = Some True)"

lemma port_later_refl [simp]: "port_later c p p"
  by (simp add: port_later_def)

lemma port_later_trans: "port_later c p p' \<Longrightarrow> port_later c p' p'' \<Longrightarrow> port_later c p p''"
  by (simp add: port_later_def)

lemma TrySend_ready:
  assumes "dec p c = Some True" and "length (po_channel p) < channel_cap"
  shows "\<exists>p'. TrySend c pkt p = Ok (True, p') \<and> po_channel p' = po_channel p @ [pkt] \<and> port_later c p p' \<and>
    dec p' c = Some True"
  using IsReady_decided[OF assms(1)] assms(2) by (auto simp: TrySend_def port_later_def dec_def)

lemma TrySend_not_ready:
  assumes "dec p c = Some False"
  shows "\<exists>p'. TrySend c pkt p = Ok (False, p') \<and> po_channel p' = po_channel p \<and> port_later c p p'"
  using IsReady_decided[OF assms] assms by (auto simp: TrySend_def port_later_def)

lemma send_loop_ready:
  "oq_ok q \<Longrightarrow> dec p c = Some True \<Longrightarrow> length (po_channel p) + n \<le> channel_cap \<Longrightarrow>
   \<exists>q' p'. send_loop n c (q, p) = Ok (q', p') \<and> oq_ok q' \<and> oq_list q' = drop n (oq_list q) \<and>
     oq_capacity q' = oq_capacity q \<and> oq_outBandwidth q' = oq_outBandwidth q \<and>
     po_channel p' = po_channel p @ map (Pair c) (take n (oq_list q)) \<and> port_later c p p'"
proof (induction n arbitrary: q p)
  case (Suc n)
  show ?case
  proof (cases "oq_count q = 0")
    case True
    then have "oq_list q = []" using length_oq_list[of q] by (simp del: length_oq_list)
    then show ?thesis using True Suc.prems(1) by simp
  next
    case False
    define q1 where "q1 = q\<lparr>oq_head := (oq_head q + 1) mod oq_capacity q, oq_count := oq_count q - 1\<rparr>"
    define x where "x = snd (the (oq_buffer q ! oq_head q))"
    have q1: "oq_ok q1" "oq_list q = x # oq_list q1" "oq_capacity q1 = oq_capacity q" "oq_outBandwidth q1 = oq_outBandwidth q"
      using take_head_ok[OF Suc.prems(1) False] by (simp_all add: q1_def x_def)
    obtain p1 where p1: "TrySend c (c, x) p = Ok (True, p1)" "po_channel p1 = po_channel p @ [(c, x)]"
      "port_later c p p1" "dec p1 c = Some True"
      using TrySend_ready[OF Suc.prems(2)] Suc.prems(3) by fastforce
    have "send_loop (Suc n) c (q, p) = send_loop n c (q1, p1)"
      using False p1(1) by (simp add: q1_def x_def)
    moreover obtain q' p' where "send_loop n c (q1, p1) = Ok (q', p')" "oq_ok q'" "oq_list q' = drop n (oq_list q1)"
      "oq_capacity q' = oq_capacity q1" "oq_outBandwidth q' = oq_outBandwidth q1"
      "po_channel p' = po_channel p1 @ map (Pair c) (take n (oq_list q1))" "port_later c p1 p'"
      using Suc.IH[OF q1(1) p1(4)] p1(2) Suc.prems(3) by auto
    ultimately show ?thesis
      using q1 p1(2) port_later_trans[OF p1(3)] by simp
  qed
qed simp

lemma send_loop_not_ready:
  "oq_ok q \<Longrightarrow> dec p c = Some False \<Longrightarrow>
   \<exists>p'. send_loop n c (q, p) = Ok (q, p') \<and> po_channel p' = po_channel p \<and> port_later c p p'"
proof (cases n)
  case (Suc m)
  assume "dec p c = Some False"
  from TrySend_not_ready[OF this] obtain p' where
    "TrySend c (c, snd (the (oq_buffer q ! oq_head q))) p = Ok (False, p')" "po_channel p' = po_channel p" "port_later c p p'"
    by blast
  then show ?thesis using Suc by (cases "oq_count q = 0") auto
qed simp

text \<open>The packets a tick sends.\<close>

definition oq_sent :: "'p oqueue \<Rightarrow> bool \<Rightarrow> 'p list" where
  "oq_sent q ready = (if ready then take (oq_outBandwidth q) (oq_list q) else [])"

lemma oq_Tick_sends:
  assumes "oq_ok q" and "dec p c = Some r" and "length (po_channel p) + oq_outBandwidth q \<le> channel_cap"
  shows "\<exists>q' p'. oq_Tick c (q, p) = Ok (q', p') \<and> oq_ok q' \<and>
    oq_list q' = (if r then drop (oq_outBandwidth q) (oq_list q) else oq_list q) \<and>
    oq_capacity q' = oq_capacity q \<and> oq_outBandwidth q' = oq_outBandwidth q \<and>
    po_channel p' = po_channel p @ map (Pair c) (oq_sent q r) \<and>
    cs_done (po_upstreamSync p') = c \<and> po_pendingPackets p' = po_pendingPackets p \<and> (\<forall>d > c. dec p' d = dec p d) \<and>
    (dec p c = Some True \<longrightarrow> dec p' c = Some True)"
proof (cases r)
  case True
  then show ?thesis using send_loop_ready[OF assms(1), of p c "oq_outBandwidth q"] assms(2,3)
    by (auto simp: oq_Tick_def MarkDone_def SetDone_def port_later_def dec_def oq_sent_def)
next
  case False
  then show ?thesis using send_loop_not_ready[OF assms(1), of p c "oq_outBandwidth q"] assms(1,2)
    by (auto simp: oq_Tick_def MarkDone_def SetDone_def port_later_def dec_def oq_sent_def)
qed

lemma NewOutputQueue_ok:
  "NewOutputQueue cap bw = Some q \<Longrightarrow> oq_ok q \<and> oq_list q = []"
  by (auto simp: NewOutputQueue_def oq_ok_def oq_list_def Let_def split: if_splits)

end
