(* ===== verification/Input_Queue.thy ===== *)
theory Input_Queue
  imports Ahead_Port "HOL-Library.Word" "HOL-Library.Multiset"
begin

text \<open>
  The input queue of a node of the simulator (internal/core/queue/input_queue.go): slots for packets
  with a bitmap of the free ones and a word of reasons that block each, filled by \<open>Tick\<close> from the
  upstream port and emptied by the node. After each cycle it tells the upstream component for how
  many cycles it is ready. \<open>sort.Slice\<close>, which need not be stable, is a parameter of the operations
  that read the queue. Hooks, logging and the scratch buffer are left out.
\<close>

unbundle bit_operations_syntax

section \<open>State\<close>

record 'p iqueue =
  iq_slots :: "'p pwc option list"
  iq_freeBitmap :: "bool list"
  iq_blockReasons :: "64 word list"
  iq_capacity :: nat
  iq_inBandwidth :: nat
  iq_nextUpdateCycle :: int
  iq_length :: int
  iq_lastCyclePackets :: "'p list"

text \<open>None is a panic.\<close>

definition NewInputQueue :: "int \<Rightarrow> int \<Rightarrow> 'p iqueue option" where
  "NewInputQueue capacity inBandwidth =
     (if capacity \<le> 0 then None
      else if inBandwidth \<le> 0 then None
      else Some \<lparr>iq_slots = replicate (nat capacity) None, iq_freeBitmap = replicate (nat capacity) True,
                 iq_blockReasons = replicate (nat capacity) 0, iq_capacity = nat capacity,
                 iq_inBandwidth = nat inBandwidth, iq_nextUpdateCycle = 0, iq_length = 0, iq_lastCyclePackets = []\<rparr>)"

definition SetUpstreamPort :: "'p iqueue \<Rightarrow> 'p port \<Rightarrow> 'p port option" where
  "SetUpstreamPort q p =
     (let hasCapacity = iq_length q < int (iq_capacity q)
      in Option.bind (port_UpdateReady 0 hasCapacity p) (port_UpdateReady 1 hasCapacity))"

fun free_from :: "nat \<Rightarrow> bool list \<Rightarrow> nat option" where
  "free_from i [] = None"
| "free_from i (b # bs) = (if b then Some i else free_from (i + 1) bs)"

text \<open>None is the result -1.\<close>

definition findFreeSlot :: "'p iqueue \<Rightarrow> nat option" where
  "findFreeSlot q = free_from 0 (iq_freeBitmap q)"

definition iq_IsFull :: "'p iqueue \<Rightarrow> bool" where
  "iq_IsFull q \<longleftrightarrow> findFreeSlot q = None"

section \<open>Receiving\<close>

definition store_packet :: "int \<Rightarrow> 'p \<Rightarrow> nat \<Rightarrow> 'p iqueue \<Rightarrow> 'p iqueue" where
  "store_packet cycle pkt slot q =
     q\<lparr>iq_slots := (iq_slots q)[slot := Some (cycle, pkt)], iq_freeBitmap := (iq_freeBitmap q)[slot := False],
       iq_blockReasons := (iq_blockReasons q)[slot := 0], iq_length := iq_length q + 1\<rparr>"

text \<open>The loop over the received packets: whether all were stored.\<close>

fun store_all :: "int \<Rightarrow> 'p list \<Rightarrow> 'p iqueue \<Rightarrow> bool \<times> 'p iqueue" where
  "store_all cycle [] q = (True, q)"
| "store_all cycle (pkt # pkts) q =
     (case findFreeSlot q of
        None \<Rightarrow> (False, q)
      | Some slot \<Rightarrow> store_all cycle pkts (store_packet cycle pkt slot q))"

text \<open>The loop that declares cycles ready, with the number of cycles to go.\<close>

fun ready_loop :: "nat \<Rightarrow> 'p iqueue \<times> 'p port \<Rightarrow> ('p iqueue \<times> 'p port) go" where
  "ready_loop 0 (q, p) = Ok (q, p)"
| "ready_loop (Suc n) (q, p) =
     (let i = iq_nextUpdateCycle q
      in case port_UpdateReady i True p of
           None \<Rightarrow> Panics
         | Some p' \<Rightarrow> ready_loop n (q\<lparr>iq_nextUpdateCycle := i + 1\<rparr>, p'))"

definition update_ready :: "int \<Rightarrow> 'p iqueue \<times> 'p port \<Rightarrow> ('p iqueue \<times> 'p port) go" where
  "update_ready cycle s =
     (case s of (q, p) \<Rightarrow>
        (let remainReadyCycle = (int (iq_capacity q) - iq_length q) div int (iq_inBandwidth q)
         in if remainReadyCycle = 0
            then (case port_UpdateReady (cycle + 1) False p of
                    None \<Rightarrow> Panics
                  | Some p' \<Rightarrow> Ok (q\<lparr>iq_nextUpdateCycle := cycle + 2\<rparr>, p'))
            else ready_loop (nat (cycle + remainReadyCycle + 1 - iq_nextUpdateCycle q)) (q, p)))"

definition iq_Tick :: "int \<Rightarrow> 'p iqueue \<times> 'p port \<Rightarrow> ('p iqueue \<times> 'p port) go" where
  "iq_Tick cycle s =
     (case s of (q, p) \<Rightarrow>
        (case Receive cycle p of
           Ok (packets, p) \<Rightarrow>
             (case store_all cycle packets q of
                (stored, q) \<Rightarrow>
                  if \<not> stored then Error (q, p)
                  else update_ready cycle (q\<lparr>iq_lastCyclePackets := packets\<rparr>, p))
         | Wait (packets, p) \<Rightarrow> Wait (q, p)
         | Error (packets, p) \<Rightarrow> Error (q, p)
         | Panics \<Rightarrow> Panics))"

section \<open>Reading\<close>

definition occupied :: "'p iqueue \<Rightarrow> nat \<Rightarrow> bool" where
  "occupied q i \<longleftrightarrow> \<not> iq_freeBitmap q ! i \<and> iq_blockReasons q ! i = 0"

definition slot_cycle :: "'p iqueue \<Rightarrow> nat \<Rightarrow> int" where
  "slot_cycle q i = (case iq_slots q ! i of None \<Rightarrow> 0 | Some (c, pkt) \<Rightarrow> c)"

type_synonym sorter = "(nat \<Rightarrow> int) \<Rightarrow> nat list \<Rightarrow> nat list"

definition candidates :: "sorter \<Rightarrow> 'p iqueue \<Rightarrow> nat list" where
  "candidates sort_slice q = sort_slice (slot_cycle q) (filter (occupied q) [0..<iq_capacity q])"

text \<open>\<open>PeekPickTo\<close> fills a buffer of a given length with packets and their slots.\<close>

definition PeekPickTo :: "sorter \<Rightarrow> nat \<Rightarrow> 'p iqueue \<Rightarrow> ('p \<times> nat) list" where
  "PeekPickTo sort_slice maxOut q =
     (if iq_length q = 0 then []
      else map (\<lambda>i. (snd (the (iq_slots q ! i)), i)) (take maxOut (candidates sort_slice q)))"

definition free_slot :: "nat \<Rightarrow> 'p iqueue \<Rightarrow> 'p iqueue" where
  "free_slot i q =
     q\<lparr>iq_freeBitmap := (iq_freeBitmap q)[i := True], iq_blockReasons := (iq_blockReasons q)[i := 0],
       iq_length := iq_length q - 1\<rparr>"

definition Free :: "int \<Rightarrow> 'p iqueue \<Rightarrow> 'p iqueue" where
  "Free slot q =
     (if slot \<ge> 0 \<and> slot < int (iq_capacity q)
      then (if \<not> iq_freeBitmap q ! nat slot then free_slot (nat slot) q else q)
      else q)"

definition Block :: "int \<Rightarrow> 64 word \<Rightarrow> 'p iqueue \<Rightarrow> 'p iqueue" where
  "Block slot reason q =
     (if slot \<ge> 0 \<and> slot < int (iq_capacity q)
      then q\<lparr>iq_blockReasons := (iq_blockReasons q)[nat slot := iq_blockReasons q ! nat slot OR reason]\<rparr>
      else q)"

definition Pick :: "sorter \<Rightarrow> 'p iqueue \<Rightarrow> 'p list \<times> 'p iqueue" where
  "Pick sort_slice q =
     (let free = candidates sort_slice q
      in (map (\<lambda>i. snd (the (iq_slots q ! i))) free, fold free_slot free q))"

section \<open>The invariant\<close>

text \<open>The cached length counts the occupied slots, and occupied slots hold packets.\<close>

definition iq_ok :: "'p iqueue \<Rightarrow> bool" where
  "iq_ok q \<longleftrightarrow> length (iq_slots q) = iq_capacity q \<and> length (iq_freeBitmap q) = iq_capacity q \<and>
     length (iq_blockReasons q) = iq_capacity q \<and> 0 < iq_inBandwidth q \<and>
     iq_length q = int (length (filter Not (iq_freeBitmap q))) \<and>
     (\<forall>i < iq_capacity q. \<not> iq_freeBitmap q ! i \<longrightarrow> iq_slots q ! i \<noteq> None)"

lemma count_update_False:
  "i < length bs \<Longrightarrow> bs ! i \<Longrightarrow> length (filter Not (bs[i := False])) = length (filter Not bs) + 1"
proof (induction bs arbitrary: i)
  case (Cons b bs)
  then show ?case by (cases i) auto
qed simp

lemma count_update_True:
  "i < length bs \<Longrightarrow> \<not> bs ! i \<Longrightarrow> length (filter Not bs) = length (filter Not (bs[i := True])) + 1"
proof (induction bs arbitrary: i)
  case (Cons b bs)
  then show ?case by (cases i) auto
qed simp

lemma free_from_Some: "free_from i bs = Some j \<Longrightarrow> i \<le> j \<and> j < i + length bs \<and> bs ! (j - i)"
proof (induction bs arbitrary: i)
  case (Cons b bs)
  show ?case
  proof (cases b)
    case False
    then have f: "Suc i \<le> j \<and> j < Suc i + length bs \<and> bs ! (j - Suc i)" using Cons.IH[of "Suc i"] Cons.prems by simp
    then have "j - i = Suc (j - Suc i)" by linarith
    then show ?thesis using f by simp
  qed (use Cons.prems in simp)
qed simp

lemma free_from_None: "free_from i bs = None \<Longrightarrow> length (filter Not bs) = length bs"
  by (induction bs arbitrary: i) (auto split: if_splits)

lemma iq_ok_length: "iq_ok q \<Longrightarrow> 0 \<le> iq_length q \<and> iq_length q \<le> int (iq_capacity q)"
  by (auto simp: iq_ok_def) (metis length_filter_le)

lemma findFreeSlot_Some:
  "iq_ok q \<Longrightarrow> findFreeSlot q = Some i \<Longrightarrow> i < iq_capacity q \<and> iq_freeBitmap q ! i"
  using free_from_Some[of 0 "iq_freeBitmap q" i] by (auto simp: findFreeSlot_def iq_ok_def)

lemma findFreeSlot_None: "iq_ok q \<Longrightarrow> findFreeSlot q = None \<longleftrightarrow> iq_length q = int (iq_capacity q)"
proof
  assume "iq_ok q" "findFreeSlot q = None"
  then show "iq_length q = int (iq_capacity q)"
    using free_from_None[of 0 "iq_freeBitmap q"] by (simp add: findFreeSlot_def iq_ok_def)
next
  assume q: "iq_ok q" and full: "iq_length q = int (iq_capacity q)"
  show "findFreeSlot q = None"
  proof (cases "findFreeSlot q")
    case (Some i)
    then have "i < length (iq_freeBitmap q)" "iq_freeBitmap q ! i" using findFreeSlot_Some[OF q Some] q by (auto simp: iq_ok_def)
    then have "length (filter Not ((iq_freeBitmap q)[i := False])) = length (filter Not (iq_freeBitmap q)) + 1"
      by (rule count_update_False)
    moreover have "length (filter Not ((iq_freeBitmap q)[i := False])) \<le> length (iq_freeBitmap q)"
      by (metis length_filter_le length_list_update)
    ultimately show ?thesis using full q by (simp add: iq_ok_def)
  qed
qed

lemma store_packet_ok:
  assumes ok: "iq_ok q" and i: "i < iq_capacity q" "iq_freeBitmap q ! i"
  shows "iq_ok (store_packet cycle pkt i q)" and "iq_length (store_packet cycle pkt i q) = iq_length q + 1"
    and "iq_capacity (store_packet cycle pkt i q) = iq_capacity q"
    and "iq_inBandwidth (store_packet cycle pkt i q) = iq_inBandwidth q"
    and "iq_nextUpdateCycle (store_packet cycle pkt i q) = iq_nextUpdateCycle q"
proof -
  have "length (filter Not ((iq_freeBitmap q)[i := False])) = length (filter Not (iq_freeBitmap q)) + 1"
    using ok i by (intro count_update_False) (simp_all add: iq_ok_def)
  then show "iq_ok (store_packet cycle pkt i q)"
    using ok i by (auto simp: iq_ok_def store_packet_def nth_list_update)
qed (simp_all add: store_packet_def)

lemma store_all_ok:
  "iq_ok q \<Longrightarrow> iq_length q + int (length pkts) \<le> int (iq_capacity q) \<Longrightarrow>
   \<exists>q'. store_all cycle pkts q = (True, q') \<and> iq_ok q' \<and> iq_length q' = iq_length q + int (length pkts) \<and>
     iq_capacity q' = iq_capacity q \<and> iq_inBandwidth q' = iq_inBandwidth q \<and>
     iq_nextUpdateCycle q' = iq_nextUpdateCycle q"
proof (induction pkts arbitrary: q)
  case (Cons pkt pkts)
  obtain i where i: "findFreeSlot q = Some i"
    using findFreeSlot_None[OF Cons.prems(1)] Cons.prems(2) by (cases "findFreeSlot q") auto
  have i': "i < iq_capacity q" "iq_freeBitmap q ! i" using findFreeSlot_Some[OF Cons.prems(1) i] by simp_all
  note one = store_packet_ok[OF Cons.prems(1) i', of cycle pkt]
  obtain q' where q': "store_all cycle pkts (store_packet cycle pkt i q) = (True, q')" "iq_ok q'"
    "iq_length q' = iq_length (store_packet cycle pkt i q) + int (length pkts)"
    "iq_capacity q' = iq_capacity (store_packet cycle pkt i q)"
    "iq_inBandwidth q' = iq_inBandwidth (store_packet cycle pkt i q)"
    "iq_nextUpdateCycle q' = iq_nextUpdateCycle (store_packet cycle pkt i q)"
    using Cons.IH[OF one(1)] one(2-5) Cons.prems(2) by auto
  then show ?case using i one(2-5) by simp
qed simp

text \<open>The node's operations keep the invariant and never add packets.\<close>

definition emptier :: "'p iqueue \<Rightarrow> 'p iqueue \<Rightarrow> bool" where
  "emptier q q' \<longleftrightarrow> iq_ok q' \<and> iq_length q' \<le> iq_length q \<and> iq_capacity q' = iq_capacity q \<and>
     iq_inBandwidth q' = iq_inBandwidth q \<and> iq_nextUpdateCycle q' = iq_nextUpdateCycle q"

lemma emptier_refl: "iq_ok q \<Longrightarrow> emptier q q"
  by (simp add: emptier_def)

lemma emptier_trans: "emptier q q' \<Longrightarrow> emptier q' q'' \<Longrightarrow> emptier q q''"
  by (simp add: emptier_def)

lemma free_slot_ok:
  assumes ok: "iq_ok q" and i: "i < iq_capacity q" "\<not> iq_freeBitmap q ! i"
  shows "emptier q (free_slot i q)"
proof -
  have "length (filter Not (iq_freeBitmap q)) = length (filter Not ((iq_freeBitmap q)[i := True])) + 1"
    using ok i by (intro count_update_True) (simp_all add: iq_ok_def)
  then show ?thesis using ok i by (auto simp: emptier_def iq_ok_def free_slot_def nth_list_update)
qed

lemma Free_ok: "iq_ok q \<Longrightarrow> emptier q (Free slot q)"
  using free_slot_ok[of q "nat slot"] by (auto simp: Free_def emptier_refl nat_less_iff)

lemma Block_ok: "iq_ok q \<Longrightarrow> emptier q (Block slot reason q)"
  by (auto simp: Block_def emptier_def iq_ok_def)

lemma free_slots_ok:
  "iq_ok q \<Longrightarrow> distinct is \<Longrightarrow> \<forall>i \<in> set is. i < iq_capacity q \<and> \<not> iq_freeBitmap q ! i \<Longrightarrow>
   emptier q (fold free_slot is q)"
proof (induction "is" arbitrary: q)
  case (Cons i js)
  have e: "emptier q (free_slot i q)" using free_slot_ok[of q i] Cons.prems by simp
  have "\<forall>j \<in> set js. j < iq_capacity (free_slot i q) \<and> \<not> iq_freeBitmap (free_slot i q) ! j"
  proof
    fix j assume "j \<in> set js"
    then show "j < iq_capacity (free_slot i q) \<and> \<not> iq_freeBitmap (free_slot i q) ! j"
      using Cons.prems by (cases "i = j") (auto simp: free_slot_def)
  qed
  then have "emptier (free_slot i q) (fold free_slot js (free_slot i q))"
    using Cons.IH[of "free_slot i q"] e Cons.prems(2) by (simp add: emptier_def)
  then show ?case using e emptier_trans by simp
qed (simp add: emptier_refl)

text \<open>What the library promises of \<open>sort.Slice\<close>: the same elements in ascending order of the key.\<close>

definition sorts :: "sorter \<Rightarrow> bool" where
  "sorts srt \<longleftrightarrow> (\<forall>key is. mset (srt key is) = mset is \<and> sorted (map key (srt key is)))"

lemma sorts_sort_key: "sorts (\<lambda>key. sort_key key)"
  by (simp add: sorts_def)

lemma candidates_ok:
  "sorts srt \<Longrightarrow> iq_ok q \<Longrightarrow> distinct (candidates srt q) \<and>
     (\<forall>i. i \<in> set (candidates srt q) \<longleftrightarrow> i < iq_capacity q \<and> occupied q i)"
proof -
  assume "sorts srt" "iq_ok q"
  then have m: "mset (candidates srt q) = mset (filter (occupied q) [0..<iq_capacity q])"
    by (simp add: candidates_def sorts_def)
  then have "distinct (candidates srt q)" using mset_eq_imp_distinct_iff[OF m] by simp
  moreover have "set (candidates srt q) = set (filter (occupied q) [0..<iq_capacity q])"
    using m by (rule mset_eq_setD)
  ultimately show ?thesis by auto
qed

lemma Pick_ok: "sorts srt \<Longrightarrow> iq_ok q \<Longrightarrow> emptier q (snd (Pick srt q))"
  using candidates_ok[of srt q] free_slots_ok[of q "candidates srt q"]
  by (auto simp: Pick_def Let_def occupied_def)

section \<open>Readiness\<close>

text \<open>Before the tick of cycle \<open>t\<close>: each cycle declared ready leaves room for full bursts up to it, the
  cycle is decided, so are those below the next one to declare, and no later one is declared not
  ready.\<close>

definition promised :: "int \<Rightarrow> 'p iqueue \<Rightarrow> 'p port \<Rightarrow> bool" where
  "promised t q p \<longleftrightarrow> iq_ok q \<and> dec p t \<noteq> None \<and>
     (\<forall>c \<ge> t. dec p c = Some True \<longrightarrow>
        (c - t + 1) * int (iq_inBandwidth q) \<le> int (iq_capacity q) - iq_length q) \<and>
     (\<forall>c > t. dec p c \<noteq> Some False) \<and>
     (\<forall>c > t. c < iq_nextUpdateCycle q \<longrightarrow> dec p c \<noteq> None) \<and>
     (t < iq_nextUpdateCycle q \<or> t = iq_nextUpdateCycle q \<and> dec p t = Some True)"

lemma promised_emptier: "promised t q p \<Longrightarrow> emptier q q' \<Longrightarrow> promised t q' p"
proof -
  assume p: "promised t q p" and e: "emptier q q'"
  have "(c - t + 1) * int (iq_inBandwidth q') \<le> int (iq_capacity q') - iq_length q'"
    if "c \<ge> t" "dec p c = Some True" for c
  proof -
    have "(c - t + 1) * int (iq_inBandwidth q) \<le> int (iq_capacity q) - iq_length q"
      using p that by (simp add: promised_def)
    then show ?thesis using e by (simp add: emptier_def)
  qed
  then show ?thesis using p e by (simp add: promised_def emptier_def)
qed

lemma ready_loop_ok:
  "(\<forall>c \<ge> iq_nextUpdateCycle q. c < iq_nextUpdateCycle q + int n \<longrightarrow> dec p c \<noteq> Some False) \<Longrightarrow>
   \<exists>q' p'. ready_loop n (q, p) = Ok (q', p') \<and> q' = q\<lparr>iq_nextUpdateCycle := iq_nextUpdateCycle q + int n\<rparr> \<and>
     dec p' = (\<lambda>c. if iq_nextUpdateCycle q \<le> c \<and> c < iq_nextUpdateCycle q + int n then Some True else dec p c) \<and>
     po_channel p' = po_channel p \<and> po_upstreamSync p' = po_upstreamSync p \<and> po_pendingPackets p' = po_pendingPackets p"
proof (induction n arbitrary: q p)
  case (Suc n)
  let ?i = "iq_nextUpdateCycle q"
  have "dec p ?i \<noteq> Some False" using Suc.prems by simp
  then obtain p1 where p1: "port_UpdateReady ?i True p = Some p1"
    using port_UpdateReady_None[of ?i True p] by (cases "port_UpdateReady ?i True p") auto
  note u = port_UpdateReady_Some[OF p1]
  let ?q1 = "q\<lparr>iq_nextUpdateCycle := ?i + 1\<rparr>"
  have "\<forall>c \<ge> iq_nextUpdateCycle ?q1. c < iq_nextUpdateCycle ?q1 + int n \<longrightarrow> dec p1 c \<noteq> Some False"
    using Suc.prems u by auto
  from Suc.IH[OF this] obtain q' p' where r: "ready_loop n (?q1, p1) = Ok (q', p')"
    "q' = ?q1\<lparr>iq_nextUpdateCycle := ?i + 1 + int n\<rparr>"
    "dec p' = (\<lambda>c. if ?i + 1 \<le> c \<and> c < ?i + 1 + int n then Some True else dec p1 c)"
    "po_channel p' = po_channel p1" "po_upstreamSync p' = po_upstreamSync p1" "po_pendingPackets p' = po_pendingPackets p1"
    by auto
  have "dec p' c = (if ?i \<le> c \<and> c < ?i + int (Suc n) then Some True else dec p c)" for c
    using r(3) u by (auto simp: fun_eq_iff)
  then show ?case using r p1 u by (auto simp: Let_def fun_eq_iff)
qed (auto simp: fun_eq_iff)

lemma update_ready_ok:
  assumes ok: "iq_ok q"
    and room: "\<And>c. c > t \<Longrightarrow> dec p c = Some True \<Longrightarrow> (c - t) * int (iq_inBandwidth q) \<le> int (iq_capacity q) - iq_length q"
    and later: "\<And>c. c > t \<Longrightarrow> dec p c \<noteq> Some False"
    and below: "\<And>c. c > t \<Longrightarrow> c < iq_nextUpdateCycle q \<Longrightarrow> dec p c \<noteq> None"
    and nxt: "t < iq_nextUpdateCycle q \<or> t = iq_nextUpdateCycle q \<and> dec p t = Some True"
  shows "\<exists>q' p'. update_ready t (q, p) = Ok (q', p') \<and> promised (t + 1) q' p' \<and>
    (\<exists>n. q' = q\<lparr>iq_nextUpdateCycle := n\<rparr>) \<and> po_channel p' = po_channel p \<and>
    po_upstreamSync p' = po_upstreamSync p \<and> po_pendingPackets p' = po_pendingPackets p"
proof -
  define rem where "rem = (int (iq_capacity q) - iq_length q) div int (iq_inBandwidth q)"
  have bw: "0 < int (iq_inBandwidth q)" using ok by (simp add: iq_ok_def)
  have nn: "0 \<le> int (iq_capacity q) - iq_length q" using iq_ok_length[OF ok] by simp
  have rem: "0 \<le> rem" "rem * int (iq_inBandwidth q) \<le> int (iq_capacity q) - iq_length q"
    "int (iq_capacity q) - iq_length q < (rem + 1) * int (iq_inBandwidth q)"
  proof -
    let ?m = "int (iq_capacity q) - iq_length q" and ?b = "int (iq_inBandwidth q)"
    have m: "rem * ?b + ?m mod ?b = ?m" unfolding rem_def by (rule div_mult_mod_eq)
    have "0 \<le> ?m mod ?b" "?m mod ?b < ?b" using bw by simp_all
    then show "rem * ?b \<le> ?m" "?m < (rem + 1) * ?b" using m by (simp_all add: distrib_right)
    show "0 \<le> rem" unfolding rem_def using bw nn by (simp add: pos_imp_zdiv_nonneg_iff)
  qed
  have okn: "iq_ok (q\<lparr>iq_nextUpdateCycle := n\<rparr>)" for n using ok by (simp add: iq_ok_def)
  show ?thesis
  proof (cases "rem = 0")
    case True
    have "dec p (t + 1) \<noteq> Some True" using room[of "t + 1"] rem(3) True by auto
    then obtain p' where p': "port_UpdateReady (t + 1) False p = Some p'"
      using port_UpdateReady_None[of "t + 1" False p] by (cases "port_UpdateReady (t + 1) False p") auto
    note u = port_UpdateReady_Some[OF p']
    have "promised (t + 1) (q\<lparr>iq_nextUpdateCycle := t + 2\<rparr>) p'"
      unfolding promised_def
    proof (intro conjI allI impI)
      show "(c - (t + 1) + 1) * int (iq_inBandwidth (q\<lparr>iq_nextUpdateCycle := t + 2\<rparr>))
          \<le> int (iq_capacity (q\<lparr>iq_nextUpdateCycle := t + 2\<rparr>)) - iq_length (q\<lparr>iq_nextUpdateCycle := t + 2\<rparr>)"
        if "t + 1 \<le> c" "dec p' c = Some True" for c
        using room[of c] that u by (simp split: if_splits)
      show "dec p' c \<noteq> Some False" if "t + 1 < c" for c using later[of c] that u by simp
    qed (use okn u in simp_all)
    then show ?thesis using p' True u by (auto simp: update_ready_def rem_def[symmetric] Let_def)
  next
    case False
    let ?n = "nat (t + rem + 1 - iq_nextUpdateCycle q)"
    have "\<forall>c \<ge> iq_nextUpdateCycle q. c < iq_nextUpdateCycle q + int ?n \<longrightarrow> dec p c \<noteq> Some False"
    proof (intro allI impI)
      fix c assume c: "c \<ge> iq_nextUpdateCycle q"
      show "dec p c \<noteq> Some False"
      proof (cases "c > t")
        case False
        then have "c = t" "dec p t = Some True" using c nxt by auto
        then show ?thesis by simp
      qed (rule later)
    qed
    from ready_loop_ok[OF this] obtain q' p' where r: "ready_loop ?n (q, p) = Ok (q', p')"
      "q' = q\<lparr>iq_nextUpdateCycle := iq_nextUpdateCycle q + int ?n\<rparr>"
      "dec p' = (\<lambda>c. if iq_nextUpdateCycle q \<le> c \<and> c < iq_nextUpdateCycle q + int ?n then Some True else dec p c)"
      "po_channel p' = po_channel p" "po_upstreamSync p' = po_upstreamSync p" "po_pendingPackets p' = po_pendingPackets p"
      by blast
    have nx: "iq_nextUpdateCycle q + int ?n = max (iq_nextUpdateCycle q) (t + rem + 1)" by simp
    have big: "t + 1 < iq_nextUpdateCycle q + int ?n" using False rem(1) nx by linarith
    have room': "(c - (t + 1) + 1) * int (iq_inBandwidth q) \<le> int (iq_capacity q) - iq_length q"
      if c: "c \<ge> t + 1" "dec p' c = Some True" for c
    proof (cases "iq_nextUpdateCycle q \<le> c \<and> c < iq_nextUpdateCycle q + int ?n")
      case True
      then have "c - t \<le> rem" using nx by linarith
      then have "(c - t) * int (iq_inBandwidth q) \<le> rem * int (iq_inBandwidth q)" using bw by (simp add: mult_right_mono)
      then show ?thesis using rem(2) by simp
    next
      case False
      then show ?thesis using room[of c] c r(3) by auto
    qed
    have "promised (t + 1) q' p'"
      unfolding promised_def
    proof (intro conjI allI impI)
      show "iq_ok q'" using okn r(2) by simp
      show "dec p' (t + 1) \<noteq> None" using below[of "t + 1"] r(3) big by auto
      show "(c - (t + 1) + 1) * int (iq_inBandwidth q') \<le> int (iq_capacity q') - iq_length q'"
        if "t + 1 \<le> c" "dec p' c = Some True" for c using room'[OF that] r(2) by simp
      show "dec p' c \<noteq> Some False" if "t + 1 < c" for c using later[of c] that r(3) by auto
      show "dec p' c \<noteq> None" if "t + 1 < c" "c < iq_nextUpdateCycle q'" for c
        using below[of c] that r(2,3) by auto
      show "t + 1 < iq_nextUpdateCycle q' \<or> t + 1 = iq_nextUpdateCycle q' \<and> dec p' (t + 1) = Some True"
        using big r(2) by simp
    qed
    moreover have "update_ready t (q, p) = Ok (q', p')"
      using False r(1) by (simp add: update_ready_def rem_def[symmetric] Let_def)
    ultimately show ?thesis using r by blast
  qed
qed

end
