(* ===== verification/Queue_Pipeline.thy ===== *)
theory Queue_Pipeline
  imports Output_Queue Input_Queue
begin

text \<open>
  An output queue, the port it sends to and the input queue behind the port, run in step: in each
  cycle the node injects packets, the output queue ticks, the input queue ticks, and the receiving
  node picks, frees or blocks slots. The queues run in goroutines of their own in the code; the port
  makes each wait for the other, and this is the schedule in which nobody runs ahead.
\<close>

section \<open>One side\<close>

lemma Receive_cycle:
  assumes "po_channel p = map (Pair t) pkts" and "po_pendingPackets p = (\<lambda>c. [])"
    and "t \<le> cs_done (po_upstreamSync p)"
  shows "\<exists>p'. Receive t p = Ok (pkts, p') \<and> po_channel p' = [] \<and> po_pendingPackets p' = (\<lambda>c. []) \<and>
    dec p' = dec p \<and> po_upstreamSync p' = po_upstreamSync p"
proof -
  have f: "fold cache_packet (map (Pair t) pkts) (\<lambda>c. []) = (\<lambda>c. if c = t then pkts else [])"
    by (rule ext) (auto simp: fold_cache_packet filter_map o_def)
  have "port_WaitDone t (drainChannel p) = Some ()"
    using assms(3) by (simp add: port_WaitDone_def WaitDone_def drainChannel_def)
  moreover have "drainChannel p = p\<lparr>po_channel := [], po_pendingPackets := (\<lambda>c. if c = t then pkts else [])\<rparr>"
    using f assms(1,2) by (simp add: drainChannel_def)
  ultimately show ?thesis
    by (simp add: Receive_def) (simp add: drainChannel_def dec_def fun_eq_iff)
qed

lemma iq_Tick_ok:
  assumes pr: "promised t q p" and later: "\<forall>d > t. dec p1 d = dec p d"
    and now: "dec p t = Some True \<longrightarrow> dec p1 t = Some True"
    and ch: "po_channel p1 = map (Pair t) pkts" "po_pendingPackets p1 = (\<lambda>c. [])" "t \<le> cs_done (po_upstreamSync p1)"
    and few: "length pkts \<le> iq_inBandwidth q" "dec p t = Some False \<longrightarrow> pkts = []"
  shows "\<exists>q' p'. iq_Tick t (q, p1) = Ok (q', p') \<and> promised (t + 1) q' p' \<and> po_channel p' = [] \<and>
    po_pendingPackets p' = (\<lambda>c. []) \<and> iq_lastCyclePackets q' = pkts \<and>
    iq_inBandwidth q' = iq_inBandwidth q \<and> iq_capacity q' = iq_capacity q"
proof -
  let ?b = "int (iq_inBandwidth q)" and ?k = "int (length pkts)"
  have ok: "iq_ok q" and d: "dec p t \<noteq> None" using pr by (simp_all add: promised_def)
  have room: "(c - t + 1) * ?b \<le> int (iq_capacity q) - iq_length q" if "c \<ge> t" "dec p c = Some True" for c
    using pr that by (simp add: promised_def)
  obtain p2 where p2: "Receive t p1 = Ok (pkts, p2)" "po_channel p2 = []" "po_pendingPackets p2 = (\<lambda>c. [])"
    "dec p2 = dec p1" using Receive_cycle[OF ch] by blast
  have "iq_length q + ?k \<le> int (iq_capacity q)"
  proof (cases "dec p t = Some True")
    case True
    then show ?thesis using room[of t] few(1) by simp
  next
    case False
    then have "pkts = []" using d few(2) by (cases "dec p t") auto
    then show ?thesis using iq_ok_length[OF ok] by simp
  qed
  from store_all_ok[OF ok this] obtain q2 where q2: "store_all t pkts q = (True, q2)" "iq_ok q2"
    "iq_length q2 = iq_length q + ?k" "iq_capacity q2 = iq_capacity q" "iq_inBandwidth q2 = iq_inBandwidth q"
    "iq_nextUpdateCycle q2 = iq_nextUpdateCycle q" by blast
  let ?q2 = "q2\<lparr>iq_lastCyclePackets := pkts\<rparr>"
  have ok2: "iq_ok ?q2" using q2(2) by (simp add: iq_ok_def)
  have room2: "(c - t) * int (iq_inBandwidth ?q2) \<le> int (iq_capacity ?q2) - iq_length ?q2"
    if c: "c > t" "dec p2 c = Some True" for c
  proof -
    have r: "(c - t + 1) * ?b \<le> int (iq_capacity q) - iq_length q" using room[of c] c later p2(4) by simp
    have "?k \<le> ?b" using few(1) by simp
    moreover have "(c - t + 1) * ?b = (c - t) * ?b + ?b" by (simp add: algebra_simps)
    ultimately show ?thesis using r q2(3-5) by simp
  qed
  have "dec p2 c \<noteq> Some False" if "c > t" for c using pr later p2(4) that by (simp add: promised_def)
  moreover have "dec p2 c \<noteq> None" if "c > t" "c < iq_nextUpdateCycle ?q2" for c
    using pr later p2(4) that q2(6) by (simp add: promised_def)
  moreover have "t < iq_nextUpdateCycle ?q2 \<or> t = iq_nextUpdateCycle ?q2 \<and> dec p2 t = Some True"
    using pr now p2(4) q2(6) by (auto simp: promised_def)
  ultimately obtain q' p' where u: "update_ready t (?q2, p2) = Ok (q', p')" "promised (t + 1) q' p'"
    "\<exists>n. q' = ?q2\<lparr>iq_nextUpdateCycle := n\<rparr>" "po_channel p' = po_channel p2" "po_pendingPackets p' = po_pendingPackets p2"
    using update_ready_ok[OF ok2 room2] by blast
  have "iq_Tick t (q, p1) = Ok (q', p')" using p2(1) q2(1) u(1) by (simp add: iq_Tick_def)
  then show ?thesis using u p2 q2 by auto
qed

section \<open>The pipeline\<close>

datatype node_act = ActFree int | ActBlock int "64 word" | ActPick

fun do_act :: "sorter \<Rightarrow> node_act \<Rightarrow> 'p iqueue \<Rightarrow> 'p iqueue" where
  "do_act srt (ActFree i) q = Free i q"
| "do_act srt (ActBlock i r) q = Block i r q"
| "do_act srt ActPick q = snd (Pick srt q)"

lemma node_acts_emptier: "sorts srt \<Longrightarrow> iq_ok q \<Longrightarrow> emptier q (fold (do_act srt) acts q)"
proof (induction acts arbitrary: q)
  case (Cons a acts)
  have e: "emptier q (do_act srt a q)"
    using Cons.prems by (cases a) (simp_all add: Free_ok Block_ok Pick_ok)
  then have "emptier (do_act srt a q) (fold (do_act srt) acts (do_act srt a q))"
    using Cons.IH Cons.prems(1) by (simp add: emptier_def)
  then show ?case using e emptier_trans by simp
qed (simp add: emptier_refl)

type_synonym 'p pipe = "'p oqueue \<times> 'p port \<times> 'p iqueue"

text \<open>A cycle: the packets the node injects, which are refused together when there is no room, and what
  the receiving node does. The result has the packets accepted and those received; None is a wait,
  an error or a panic.\<close>

definition pipe_step :: "sorter \<Rightarrow> int \<Rightarrow> 'p list \<times> node_act list \<Rightarrow> 'p pipe \<Rightarrow> ('p pipe \<times> 'p list \<times> 'p list) option" where
  "pipe_step srt t input s =
     (case s of (out, p, inq) \<Rightarrow>
        (let (out1, accepted) = (case InjectPackets t (fst input) out of None \<Rightarrow> (out, []) | Some out' \<Rightarrow> (out', fst input))
         in case oq_Tick t (out1, p) of
              Ok (out2, p2) \<Rightarrow>
                (case iq_Tick t (inq, p2) of
                   Ok (inq2, p3) \<Rightarrow>
                     Some ((out2, p3, fold (do_act srt) (snd input) inq2), accepted, iq_lastCyclePackets inq2)
                 | _ \<Rightarrow> None)
            | _ \<Rightarrow> None))"

fun pipe_run :: "sorter \<Rightarrow> int \<Rightarrow> ('p list \<times> node_act list) list \<Rightarrow> 'p pipe \<Rightarrow> ('p pipe \<times> 'p list \<times> 'p list) option" where
  "pipe_run srt t [] s = Some (s, [], [])"
| "pipe_run srt t (i # inputs) s =
     Option.bind (pipe_step srt t i s) (\<lambda>(s', acc, rec).
       map_option (\<lambda>(s'', acc', rec'). (s'', acc @ acc', rec @ rec')) (pipe_run srt (t + 1) inputs s'))"

definition pipe_ok :: "int \<Rightarrow> 'p pipe \<Rightarrow> bool" where
  "pipe_ok t s \<longleftrightarrow> (case s of (out, p, inq) \<Rightarrow>
     oq_ok out \<and> promised t inq p \<and> po_channel p = [] \<and> po_pendingPackets p = (\<lambda>c. []) \<and>
     oq_outBandwidth out \<le> iq_inBandwidth inq \<and> oq_outBandwidth out \<le> channel_cap)"

lemma pipe_step_ok:
  assumes srt: "sorts srt" and ok: "pipe_ok t (out, p, inq)"
  shows "\<exists>out' p' inq' acc rec. pipe_step srt t input (out, p, inq) = Some ((out', p', inq'), acc, rec) \<and>
    pipe_ok (t + 1) (out', p', inq') \<and> oq_list out @ acc = rec @ oq_list out'"
proof -
  note K = ok[unfolded pipe_ok_def prod.case]
  obtain out1 acc where a: "(case InjectPackets t (fst input) out of None \<Rightarrow> (out, []) | Some out' \<Rightarrow> (out', fst input)) = (out1, acc)"
    by fastforce
  have o1: "oq_ok out1" "oq_list out1 = oq_list out @ acc" "oq_outBandwidth out1 = oq_outBandwidth out"
    using a K InjectPackets_ok(2)[of out t "fst input"] by (auto split: option.splits)
  obtain r where r: "dec p t = Some r" using K by (auto simp: promised_def)
  obtain out2 p2 where o2: "oq_Tick t (out1, p) = Ok (out2, p2)" "oq_ok out2"
    "oq_list out2 = (if r then drop (oq_outBandwidth out1) (oq_list out1) else oq_list out1)"
    "oq_outBandwidth out2 = oq_outBandwidth out1" "po_channel p2 = map (Pair t) (oq_sent out1 r)"
    "cs_done (po_upstreamSync p2) = t" "po_pendingPackets p2 = (\<lambda>c. [])" "\<forall>d > t. dec p2 d = dec p d"
    "dec p t = Some True \<longrightarrow> dec p2 t = Some True"
    using oq_Tick_sends[OF o1(1) r] K o1(3) by auto
  have few: "length (oq_sent out1 r) \<le> iq_inBandwidth inq" "dec p t = Some False \<longrightarrow> oq_sent out1 r = []"
    using K o1(3) r by (auto simp: oq_sent_def)
  obtain q2 p3 where q2: "iq_Tick t (inq, p2) = Ok (q2, p3)" "promised (t + 1) q2 p3" "po_channel p3 = []"
    "po_pendingPackets p3 = (\<lambda>c. [])" "iq_lastCyclePackets q2 = oq_sent out1 r" "iq_inBandwidth q2 = iq_inBandwidth inq"
    using iq_Tick_ok[OF _ o2(8,9,5,7) _ few] K o2(6) by auto
  have e: "emptier q2 (fold (do_act srt) (snd input) q2)"
    using node_acts_emptier[OF srt, of q2] q2(2) by (auto simp: promised_def)
  have step: "pipe_step srt t input (out, p, inq) =
      Some ((out2, p3, fold (do_act srt) (snd input) q2), acc, oq_sent out1 r)"
    using a o2(1) q2(1,5) by (simp add: pipe_step_def)
  have "pipe_ok (t + 1) (out2, p3, fold (do_act srt) (snd input) q2)"
    unfolding pipe_ok_def using promised_emptier[OF q2(2) e] o2(2,4) q2(3,4,6) K o1(3) e
    by (simp add: emptier_def)
  moreover have "oq_list out @ acc = oq_sent out1 r @ oq_list out2"
    unfolding o1(2)[symmetric] using o2(3) by (simp add: oq_sent_def)
  ultimately show ?thesis using step by blast
qed

lemma pipe_run_ok:
  "sorts srt \<Longrightarrow> pipe_ok t (out, p, inq) \<Longrightarrow>
   \<exists>out' p' inq' acc rec. pipe_run srt t inputs (out, p, inq) = Some ((out', p', inq'), acc, rec) \<and>
     pipe_ok (t + int (length inputs)) (out', p', inq') \<and> oq_list out @ acc = rec @ oq_list out'"
proof (induction inputs arbitrary: t out p inq)
  case (Cons i inputs)
  obtain out1 p1 inq1 acc rec where s: "pipe_step srt t i (out, p, inq) = Some ((out1, p1, inq1), acc, rec)"
    "pipe_ok (t + 1) (out1, p1, inq1)" "oq_list out @ acc = rec @ oq_list out1"
    using pipe_step_ok[OF Cons.prems] by blast
  obtain out2 p2 inq2 acc' rec' where r: "pipe_run srt (t + 1) inputs (out1, p1, inq1) = Some ((out2, p2, inq2), acc', rec')"
    "pipe_ok (t + 1 + int (length inputs)) (out2, p2, inq2)" "oq_list out1 @ acc' = rec' @ oq_list out2"
    using Cons.IH[OF Cons.prems(1) s(2)] by blast
  have "pipe_run srt t (i # inputs) (out, p, inq) = Some ((out2, p2, inq2), acc @ acc', rec @ rec')"
    using s(1) r(1) by simp
  moreover have "oq_list out @ acc @ acc' = (rec @ rec') @ oq_list out2"
    using s(3) r(3) by (metis append.assoc)
  moreover have "pipe_ok (t + int (length (i # inputs))) (out2, p2, inq2)" using r(2) by (simp add: algebra_simps)
  ultimately show ?case by blast
qed simp

text \<open>A new pipeline: both queues made with their sizes, and the port given to the input queue.\<close>

definition new_pipe :: "int \<Rightarrow> int \<Rightarrow> int \<Rightarrow> int \<Rightarrow> 'p pipe option" where
  "new_pipe outCapacity outBandwidth inCapacity inBandwidth =
     Option.bind (NewOutputQueue outCapacity outBandwidth) (\<lambda>out.
       Option.bind (NewInputQueue inCapacity inBandwidth) (\<lambda>inq.
         map_option (\<lambda>p. (out, p, inq)) (SetUpstreamPort inq NewPort)))"

lemma new_input_ok:
  assumes "0 < inCapacity" and "0 < inBandwidth"
  shows "\<exists>q p. NewInputQueue inCapacity inBandwidth = Some (q :: 'p iqueue) \<and> SetUpstreamPort q NewPort = Some p \<and>
    iq_ok q \<and> iq_length q = 0 \<and> iq_capacity q = nat inCapacity \<and> iq_inBandwidth q = nat inBandwidth \<and>
    iq_nextUpdateCycle q = 0 \<and> dec p = (\<lambda>c. if c < 2 then Some True else None) \<and>
    po_channel p = [] \<and> po_pendingPackets p = (\<lambda>c. [])"
proof -
  define q :: "'p iqueue" where "q = the (NewInputQueue inCapacity inBandwidth)"
  have q: "NewInputQueue inCapacity inBandwidth = Some q" "iq_ok q" "iq_length q = 0"
    "iq_capacity q = nat inCapacity" "iq_inBandwidth q = nat inBandwidth" "iq_nextUpdateCycle q = 0"
    using assms by (simp_all add: q_def NewInputQueue_def iq_ok_def)
  have d0: "dec (NewPort :: 'p port) = (\<lambda>c. if c < 0 then Some True else None)"
    by (simp add: dec_def NewPort_def NewComponentSync_def decided_def state_at_def fun_eq_iff)
  obtain p1 where p1: "port_UpdateReady 0 True (NewPort :: 'p port) = Some p1"
    using port_UpdateReady_None[of 0 True "NewPort :: 'p port"] d0 by (cases "port_UpdateReady 0 True (NewPort :: 'p port)") auto
  note u1 = port_UpdateReady_Some[OF p1]
  obtain p where p: "port_UpdateReady 1 True p1 = Some p"
    using port_UpdateReady_None[of 1 True p1] u1 d0 by (cases "port_UpdateReady 1 True p1") auto
  note u = port_UpdateReady_Some[OF p]
  have "dec p = (\<lambda>c. if c < 2 then Some True else None)"
    using u u1 d0 by (auto simp: fun_eq_iff)
  moreover have "SetUpstreamPort q NewPort = Some p"
    using q(3,4) assms p1 p by (simp add: SetUpstreamPort_def Let_def)
  moreover have "po_channel p = []" "po_pendingPackets p = (\<lambda>c. [])" using u u1 by (simp_all add: NewPort_def)
  ultimately show ?thesis using q by blast
qed

lemma new_pipe_ok:
  assumes "0 < outBandwidth" and "outBandwidth \<le> inBandwidth" and "outBandwidth \<le> int channel_cap"
    and "2 * inBandwidth \<le> inCapacity"
  shows "\<exists>out (p :: 'p port) inq. new_pipe outCapacity outBandwidth inCapacity inBandwidth = Some (out, p, inq) \<and>
    pipe_ok 0 (out, p, inq) \<and> oq_list out = []"
proof -
  have in_pos: "0 < inBandwidth" "0 < inCapacity" using assms by linarith+
  obtain out :: "'p oqueue" where out: "NewOutputQueue outCapacity outBandwidth = Some out" "oq_outBandwidth out = nat outBandwidth"
    using assms(1) by (auto simp: NewOutputQueue_def Let_def)
  obtain inq :: "'p iqueue" and p where inq: "NewInputQueue inCapacity inBandwidth = Some inq"
    "SetUpstreamPort inq NewPort = Some p" "iq_ok inq" "iq_length inq = 0" "iq_capacity inq = nat inCapacity"
    "iq_inBandwidth inq = nat inBandwidth" "iq_nextUpdateCycle inq = 0"
    and dp: "dec p = (\<lambda>c. if c < 2 then Some True else None)"
    and p: "po_channel p = []" "po_pendingPackets p = (\<lambda>c. [])"
    using new_input_ok[OF in_pos(2,1)] by blast
  have "promised 0 inq p"
    unfolding promised_def
  proof (intro conjI allI impI)
    fix c assume c: "0 \<le> c" "dec p c = Some True"
    then have "c - 0 + 1 \<le> 2" using dp by (simp split: if_splits)
    then have "(c - 0 + 1) * inBandwidth \<le> 2 * inBandwidth" using in_pos by (intro mult_right_mono) auto
    moreover have "int (iq_inBandwidth inq) = inBandwidth" "int (iq_capacity inq) - iq_length inq = inCapacity"
      using inq(4-6) in_pos by simp_all
    ultimately show "(c - 0 + 1) * int (iq_inBandwidth inq) \<le> int (iq_capacity inq) - iq_length inq"
      using assms(4) by (simp only:)
  qed (use inq dp in auto)
  then have "pipe_ok 0 (out, p, inq)"
    unfolding pipe_ok_def using NewOutputQueue_ok[OF out(1)] out(2) inq(6) assms p by (simp add: nat_le_iff nat_mono)
  then show ?thesis using out(1) inq(1,2) NewOutputQueue_ok[OF out(1)] by (auto simp: new_pipe_def)
qed



section \<open>Too small a queue\<close>

text \<open>The port of a new queue as \<open>new_pipe\<close> makes it, at the end of cycle 0 when the upstream end has sent
  the packets.\<close>

definition first_burst :: "'p list \<Rightarrow> 'p port \<Rightarrow> 'p port" where
  "first_burst pkts p = MarkDone 0 (p\<lparr>po_channel := map (Pair 0) pkts\<rparr>)"

text \<open>C34: An input queue that holds one burst but not two panics in its first cycle when a full burst
  arrives: its port was told at the start that cycle 1 is ready, and the tick takes that back.\<close>
theorem small_queue_panics:
  assumes "int (length pkts) \<le> inCapacity" and "inCapacity - int (length pkts) < inBandwidth" and "0 < inCapacity"
  shows "\<exists>q p. NewInputQueue inCapacity inBandwidth = Some q \<and> SetUpstreamPort q NewPort = Some p \<and>
    iq_Tick 0 (q, first_burst pkts p) = Panics"
proof -
  have pos: "0 < inBandwidth" using assms by linarith
  obtain q :: "'a iqueue" and p where q: "NewInputQueue inCapacity inBandwidth = Some q" "iq_ok q" "iq_length q = 0"
    "iq_capacity q = nat inCapacity" "iq_inBandwidth q = nat inBandwidth"
    and p: "SetUpstreamPort q NewPort = Some p" "dec p = (\<lambda>c. if c < 2 then Some True else None)"
      "po_pendingPackets p = (\<lambda>c. [])"
    using new_input_ok[OF assms(3) pos] by blast
  let ?p1 = "first_burst pkts p"
  obtain p2 where p2: "Receive 0 ?p1 = Ok (pkts, p2)" "dec p2 = dec p"
    using Receive_cycle[of ?p1 0 pkts] p(3) by (auto simp: first_burst_def MarkDone_def SetDone_def dec_def)
  obtain q2 where q2: "store_all 0 pkts q = (True, q2)" "iq_length q2 = int (length pkts)"
    "iq_capacity q2 = iq_capacity q" "iq_inBandwidth q2 = iq_inBandwidth q"
    using store_all_ok[OF q(2), of pkts 0] q(3,4) assms(1,3) by auto
  have "(int (iq_capacity q2) - iq_length q2) div int (iq_inBandwidth q2) = 0"
    using q2(2-4) q(4,5) assms pos by (simp add: div_pos_pos_trivial)
  moreover have "port_UpdateReady 1 False p2 = None"
    using port_UpdateReady_None[of 1 False p2] p(2) p2(2) by simp
  ultimately have "iq_Tick 0 (q, ?p1) = Panics"
    using p2(1) q2(1) by (simp add: iq_Tick_def update_ready_def)
  then show ?thesis using q(1) p(1) by blast
qed

lemma small_queue_panics_witness:
  "\<exists>q p. NewInputQueue 8 8 = Some q \<and> SetUpstreamPort q NewPort = Some p \<and>
     iq_Tick 0 (q, first_burst [1 :: int] p) = Panics"
  using small_queue_panics[of "[1 :: int]" 8 8] by simp

end
