(* ===== verification/View_Flags.thy ===== *)
theory View_Flags
  imports Prelude "HOL-Library.Word"
begin

text \<open>
  The actions of cell views as bits of a number (class \<open>FlagManager\<close> of x6's view/flag.js), the
  flags reserved for mounting and unmounting (view/cell), and \<open>confirmUpdate\<close> of the views of
  nodes and edges, which runs the pending actions of a flag and returns those it leaves. The
  bitwise operators of JavaScript work on 32 bits, and \<open>1 << n\<close> takes \<open>n\<close> modulo 32. The view is
  asked which attributes of its cell changed; what an action draws is left out, the sequence of the
  actions run is kept. Labels and attributes are own properties of the objects that hold them.
\<close>

unbundle bit_operations_syntax

type_synonym flag = "32 word"

definition FLAG_INSERT :: flag where "FLAG_INSERT = push_bit 30 1"
definition FLAG_REMOVE :: flag where "FLAG_REMOVE = push_bit 29 1"

definition shifted_one :: "nat \<Rightarrow> flag" where
  "shifted_one shift = push_bit (shift mod 32) 1"

section \<open>The flag manager\<close>

record flag_manager =
  fm_flags :: "string \<rightharpoonup> flag"
  fm_attrs :: "(string \<times> flag) list"
  fm_bootstrap :: "string list"

text \<open>A label that has no flag gets the next one; the second component counts the shifts.\<close>

definition flag_of :: "(string \<rightharpoonup> flag) \<Rightarrow> string \<Rightarrow> flag" where
  "flag_of flags label = (case flags label of None \<Rightarrow> 0 | Some f \<Rightarrow> f)"

definition assign_flag :: "string \<Rightarrow> (string \<rightharpoonup> flag) \<times> nat \<Rightarrow> (string \<rightharpoonup> flag) \<times> nat" where
  "assign_flag label fs =
     (case fs of (flags, shift) \<Rightarrow>
        if flag_of flags label = 0 then (flags(label \<mapsto> shifted_one (shift + 1)), shift + 1)
        else (flags, shift))"

definition attr_flag :: "(string \<times> flag) list \<Rightarrow> string \<Rightarrow> flag" where
  "attr_flag attrs attr = (case map_of attrs attr of None \<Rightarrow> 0 | Some f \<Rightarrow> f)"

definition add_action_label ::
  "string \<Rightarrow> string \<Rightarrow> ((string \<rightharpoonup> flag) \<times> nat) \<times> (string \<times> flag) list \<Rightarrow>
   ((string \<rightharpoonup> flag) \<times> nat) \<times> (string \<times> flag) list" where
  "add_action_label attr label st =
     (case st of (fs, attrs) \<Rightarrow>
        let fs = assign_flag label fs
        in (fs, map_put attrs attr (attr_flag attrs attr OR flag_of (fst fs) label)))"

definition new_FlagManager :: "(string \<times> string list) list \<Rightarrow> string list \<Rightarrow> flag_manager option" where
  "new_FlagManager actions bootstrap =
     (let (fs, attrs) =
        fold (\<lambda>(attr, labels). fold (add_action_label attr) labels) actions ((Map.empty, 0), []);
        (flags, shift) = fold assign_flag bootstrap fs
      in if shift > 25 then None
         else Some \<lparr>fm_flags = flags, fm_attrs = attrs, fm_bootstrap = bootstrap\<rparr>)"

definition getFlag :: "flag_manager \<Rightarrow> string list \<Rightarrow> flag" where
  "getFlag fm labels = fold (\<lambda>key memo. memo OR flag_of (fm_flags fm) key) labels 0"

definition hasAction :: "flag_manager \<Rightarrow> flag \<Rightarrow> string list \<Rightarrow> bool" where
  "hasAction fm f labels \<longleftrightarrow> f AND getFlag fm labels \<noteq> 0"

definition removeAction :: "flag_manager \<Rightarrow> flag \<Rightarrow> string list \<Rightarrow> flag" where
  "removeAction fm f labels = f XOR (f AND getFlag fm labels)"

definition getBootstrapFlag :: "flag_manager \<Rightarrow> flag" where
  "getBootstrapFlag fm = getFlag fm (fm_bootstrap fm)"

definition getChangedFlag :: "flag_manager \<Rightarrow> (string \<Rightarrow> bool) \<Rightarrow> flag" where
  "getChangedFlag fm hasChanged =
     fold (\<lambda>(attr, f) flag. if hasChanged attr then flag OR f else flag) (fm_attrs fm) 0"

section \<open>The views\<close>

text \<open>\<open>config\<close> merges the options of a class into those of the class it extends; the flag managers
  of node views and of edge views, whose parent class has neither actions nor bootstrap.\<close>

definition node_actions :: "(string \<times> string list) list" where
  "node_actions =
     [(''view'', [''render'']), (''markup'', [''render'']), (''attrs'', [''update'']),
      (''size'', [''resize'', ''ports'', ''tools'']), (''angle'', [''rotate'', ''tools'']),
      (''position'', [''translate'', ''tools'']), (''ports'', [''ports'']), (''tools'', [''tools''])]"

definition node_bootstrap :: "string list" where
  "node_bootstrap = [''render'']"

definition edge_actions :: "(string \<times> string list) list" where
  "edge_actions =
     [(''view'', [''render'']), (''markup'', [''render'']), (''attrs'', [''update'']),
      (''source'', [''source'', ''update'']), (''target'', [''target'', ''update'']),
      (''router'', [''update'']), (''connector'', [''update'']), (''labels'', [''labels'']),
      (''defaultLabel'', [''labels'']), (''tools'', [''tools'']), (''vertices'', [''vertices'', ''update''])]"

definition edge_bootstrap :: "string list" where
  "edge_bootstrap = [''render'', ''source'', ''target'']"

definition node_flags :: flag_manager where
  "node_flags = the (new_FlagManager node_actions node_bootstrap)"

definition edge_flags :: flag_manager where
  "edge_flags = the (new_FlagManager edge_actions edge_bootstrap)"

text \<open>The actions a view runs, in order.\<close>

datatype view_act = ARemovePorts | ARender | AResize | AUpdate | ATranslate | ARotate | ARenderPorts
  | ARenderTools | AUpdateTools | ALabels | ATerminal bool

definition handleAction ::
  "flag_manager \<Rightarrow> string \<Rightarrow> view_act \<Rightarrow> string list \<Rightarrow> flag \<times> view_act list \<Rightarrow> flag \<times> view_act list" where
  "handleAction fm action act additional r =
     (case r of (f, acts) \<Rightarrow>
        if hasAction fm f [action] then (removeAction fm f (action # additional), acts @ [act])
        else (f, acts))"

definition node_confirmUpdate :: "flag_manager \<Rightarrow> bool \<Rightarrow> flag \<Rightarrow> flag \<times> view_act list" where
  "node_confirmUpdate fm useCSSSelector f =
     (let acts = (if hasAction fm f [''ports''] then [ARemovePorts] else [])
      in if hasAction fm f [''render'']
         then (removeAction fm f [''render'', ''update'', ''resize'', ''translate'', ''rotate'', ''ports'', ''tools''],
               acts @ [ARender])
         else (handleAction fm ''tools'' (if getFlag fm [''tools''] = f then ARenderTools else AUpdateTools) [] \<circ>
               handleAction fm ''ports'' ARenderPorts [] \<circ>
               handleAction fm ''rotate'' ARotate [] \<circ>
               handleAction fm ''translate'' ATranslate [] \<circ>
               handleAction fm ''update'' AUpdate (if useCSSSelector then [''ports''] else []) \<circ>
               handleAction fm ''resize'' AResize [''update'']) (f, acts))"

text \<open>\<open>updateTerminalProperties\<close> finds the view of an end (or the end is a point), or the end's
  cell has no view, or it throws since the graph has no such cell.\<close>

datatype terminal_state = TReady | TNoView | TMissing

definition edge_confirmUpdate ::
  "flag_manager \<Rightarrow> (bool \<Rightarrow> terminal_state) \<Rightarrow> flag \<Rightarrow> (flag \<times> view_act list) option" where
  "edge_confirmUpdate fm terminal f =
     (let ends = (\<lambda>name isSource (f, acts).
         if hasAction fm f [name]
         then (case terminal isSource of
                 TReady \<Rightarrow> Inl (removeAction fm f [name], acts @ [ATerminal isSource])
               | TNoView \<Rightarrow> Inr (Some (f, acts))
               | TMissing \<Rightarrow> Inr None)
         else Inl (f, acts))
      in case ends ''source'' True (f, []) of
           Inr r \<Rightarrow> r
         | Inl fa \<Rightarrow>
             (case ends ''target'' False fa of
                Inr r \<Rightarrow> r
              | Inl (f, acts) \<Rightarrow>
                  if hasAction fm f [''render'']
                  then Some (removeAction fm f [''render'', ''update'', ''labels'', ''tools''], acts @ [ARender])
                  else Some ((handleAction fm ''tools'' ARenderTools [] \<circ>
                              handleAction fm ''labels'' ALabels [] \<circ>
                              handleAction fm ''update'' AUpdate []) (f, acts))))"

text \<open>\<open>onAttrsChange\<close>: the flag a change of the cell requests, if any.\<close>

definition onAttrsChange :: "flag_manager \<Rightarrow> (string \<Rightarrow> bool) \<Rightarrow> bool \<Rightarrow> bool \<Rightarrow> flag option" where
  "onAttrsChange fm hasChanged updated dirty =
     (let f = getChangedFlag fm hasChanged
      in if updated \<or> f = 0 then None
         else Some (if dirty \<and> hasAction fm f [''update''] then f OR getFlag fm [''render''] else f))"

section \<open>Flags are sets of labels\<close>

text \<open>The labels whose flag is among the bits of a number, and the labels a manager is made for.\<close>

definition labels_in :: "flag_manager \<Rightarrow> flag \<Rightarrow> string set" where
  "labels_in fm f = {l. f AND flag_of (fm_flags fm) l \<noteq> 0}"

definition all_labels :: "(string \<times> string list) list \<Rightarrow> string list \<Rightarrow> string set" where
  "all_labels actions bootstrap = (\<Union>(a, labels) \<in> set actions. set labels) \<union> set bootstrap"

text \<open>\<open>k\<close> numbers the labels from one on, in the order in which they got their flags.\<close>

definition numbered :: "(string \<Rightarrow> nat) \<Rightarrow> (string \<rightharpoonup> flag) \<times> nat \<Rightarrow> bool" where
  "numbered k fs \<longleftrightarrow> bij_betw k (dom (fst fs)) {1..snd fs} \<and>
     (\<forall>l \<in> dom (fst fs). fst fs l = Some (shifted_one (k l)))"

lemma shifted_one_nz [simp]: "shifted_one n \<noteq> 0"
proof
  assume "shifted_one n = 0"
  then have "bit (shifted_one n) (n mod 32) = bit (0 :: flag) (n mod 32)" by simp
  then show False by (simp add: shifted_one_def bit_simps)
qed

lemma bit_shifted_one: "n \<le> 25 \<Longrightarrow> bit (shifted_one n) m \<longleftrightarrow> m = n"
  by (auto simp: shifted_one_def bit_simps)

lemma numbered_fresh: "numbered k fs \<Longrightarrow> flag_of (fst fs) l = 0 \<longleftrightarrow> l \<notin> dom (fst fs)"
  by (cases "fst fs l") (force simp: numbered_def flag_of_def)+

lemma numbered_dom: "numbered k fs \<Longrightarrow> finite (dom (fst fs)) \<and> card (dom (fst fs)) = snd fs"
  unfolding numbered_def by (metis bij_betw_finite bij_betw_same_card card_atLeastAtMost
      diff_Suc_1 finite_atLeastAtMost)

lemma numbered_assign:
  assumes "numbered k fs"
  shows "\<exists>k'. numbered k' (assign_flag l fs)"
    and "dom (fst (assign_flag l fs)) = insert l (dom (fst fs))"
    and "\<And>x. x \<in> dom (fst fs) \<Longrightarrow> fst (assign_flag l fs) x = fst fs x"
proof -
  obtain flags shift where fs: "fs = (flags, shift)" by (cases fs)
  note fresh = numbered_fresh [OF assms, of l]
  show "\<exists>k'. numbered k' (assign_flag l fs)"
  proof (cases "flag_of flags l = 0")
    case True
    then have l: "l \<notin> dom flags" using fresh fs by simp
    have "bij_betw (k(l := Suc shift)) (insert l (dom flags)) {1..Suc shift}"
    proof -
      have "bij_betw (k(l := Suc shift)) (dom flags) {1..shift}"
      proof (rule bij_betw_cong [THEN iffD2])
        show "bij_betw k (dom flags) {1..shift}" using assms by (simp add: numbered_def fs)
        show "(k(l := Suc shift)) x = k x" if "x \<in> dom flags" for x using that l by auto
      qed
      then have "bij_betw (k(l := Suc shift)) (dom flags \<union> {l}) ({1..shift} \<union> {Suc shift})"
        using l by (intro bij_betw_combine) (auto simp: bij_betw_def)
      moreover have "{1..shift} \<union> {Suc shift} = {1..Suc shift}" by auto
      ultimately show ?thesis by simp
    qed
    then have "numbered (k(l := Suc shift)) (assign_flag l fs)"
      using True l assms by (auto simp: numbered_def assign_flag_def fs)
    then show ?thesis by blast
  qed (use assms fs in \<open>auto simp: assign_flag_def\<close>)
  show "dom (fst (assign_flag l fs)) = insert l (dom (fst fs))"
    using fresh by (auto simp: assign_flag_def fs)
  show "fst (assign_flag l fs) x = fst fs x" if "x \<in> dom (fst fs)" for x
    using that fresh by (auto simp: assign_flag_def fs)
qed

lemma flag_of_assign:
  assumes "numbered k fs"
  shows "x \<in> dom (fst fs) \<Longrightarrow> flag_of (fst (assign_flag l fs)) x = flag_of (fst fs) x"
  using numbered_assign(3) [OF assms] by (simp add: flag_of_def)

lemma numbered_assign_fold:
  assumes "numbered k fs"
  shows "(\<exists>k'. numbered k' (fold assign_flag ls fs)) \<and>
    dom (fst (fold assign_flag ls fs)) = dom (fst fs) \<union> set ls \<and>
    (\<forall>x \<in> dom (fst fs). flag_of (fst (fold assign_flag ls fs)) x = flag_of (fst fs) x)"
  using assms
proof (induction ls arbitrary: fs k)
  case (Cons l ls)
  obtain k' where k': "numbered k' (assign_flag l fs)" using numbered_assign(1) [OF Cons.prems] by blast
  show ?case
    using Cons.IH [OF k'] numbered_assign(2) [OF Cons.prems, of l] flag_of_assign [OF Cons.prems, of _ l]
    by auto
qed auto

text \<open>What the loop over the actions keeps: \<open>P\<close> holds the attributes with the labels seen.\<close>

definition actions_inv ::
  "(string \<times> string) set \<Rightarrow> ((string \<rightharpoonup> flag) \<times> nat) \<times> (string \<times> flag) list \<Rightarrow> bool" where
  "actions_inv P st \<longleftrightarrow> (\<exists>k. numbered k (fst st)) \<and> dom (fst (fst st)) = snd ` P \<and>
     distinct (map fst (snd st)) \<and>
     (\<forall>a n. bit (attr_flag (snd st) a) n \<longleftrightarrow> (\<exists>l. (a, l) \<in> P \<and> bit (flag_of (fst (fst st)) l) n))"

lemma actions_inv_label:
  assumes "actions_inv P st"
  shows "actions_inv (insert (a, l) P) (add_action_label a l st)"
proof -
  obtain fs attrs where st: "st = (fs, attrs)" by (cases st)
  obtain k where k: "numbered k fs" using assms by (auto simp: actions_inv_def st)
  have old: "flag_of (fst (assign_flag l fs)) x = flag_of (fst fs) x" if "(b, x) \<in> P" for b x
    using flag_of_assign [OF k, of x l] that assms by (force simp: actions_inv_def st)
  have d: "dom (fst (assign_flag l fs)) = insert l (snd ` P)"
    using numbered_assign(2) [OF k] assms by (simp add: actions_inv_def st)
  have at: "attr_flag (map_put attrs a f) b = (if b = a then f else attr_flag attrs b)" for f b
    by (simp add: attr_flag_def)
  have "bit (attr_flag attrs b) n \<longleftrightarrow> (\<exists>x. (b, x) \<in> P \<and> bit (flag_of (fst (assign_flag l fs)) x) n)" for b n
    using assms old by (auto simp: actions_inv_def st)
  then have "bit (attr_flag (map_put attrs a (attr_flag attrs a OR flag_of (fst (assign_flag l fs)) l)) b) n \<longleftrightarrow>
      (\<exists>x. (b, x) \<in> insert (a, l) P \<and> bit (flag_of (fst (assign_flag l fs)) x) n)" for b n
    unfolding at by (auto simp: bit_or_iff)
  then show ?thesis
    using assms numbered_assign(1) [OF k, of l] d
    by (simp add: actions_inv_def add_action_label_def st Let_def)
qed

lemma actions_inv_labels:
  "actions_inv P st \<Longrightarrow> actions_inv (P \<union> {a} \<times> set ls) (fold (add_action_label a) ls st)"
proof (induction ls arbitrary: P st)
  case (Cons l ls)
  have "P \<union> {a} \<times> set (l # ls) = insert (a, l) P \<union> {a} \<times> set ls" by auto
  then show ?case using Cons.IH [OF actions_inv_label [OF Cons.prems]] by simp
qed simp

lemma actions_inv_fold:
  "actions_inv P st \<Longrightarrow>
   actions_inv (P \<union> {(a, l) | a l ls. (a, ls) \<in> set as \<and> l \<in> set ls})
     (fold (\<lambda>(attr, labels). fold (add_action_label attr) labels) as st)"
proof (induction as arbitrary: P st)
  case (Cons x as)
  obtain a ls where x: "x = (a, ls)" by (cases x)
  have "P \<union> {(a, l) | a l ls. (a, ls) \<in> set (x # as) \<and> l \<in> set ls} =
    P \<union> {a} \<times> set ls \<union> {(a, l) | a l ls. (a, ls) \<in> set as \<and> l \<in> set ls}" by (auto simp: x)
  then show ?case using Cons.IH [OF actions_inv_labels [OF Cons.prems, of a ls]] by (simp add: x)
qed simp

lemma new_FlagManager_spec:
  fixes actions bootstrap
  defines "r \<equiv> fold (\<lambda>(attr, labels). fold (add_action_label attr) labels) actions ((Map.empty, 0), [])"
  defines "fs \<equiv> fold assign_flag bootstrap (fst r)"
  obtains k where "numbered k fs" "dom (fst fs) = all_labels actions bootstrap"
    "snd fs = card (all_labels actions bootstrap)" "distinct (map fst (snd r))"
    "\<And>a n. bit (attr_flag (snd r) a) n \<longleftrightarrow>
       (\<exists>ls l. (a, ls) \<in> set actions \<and> l \<in> set ls \<and> bit (flag_of (fst fs) l) n)"
    "new_FlagManager actions bootstrap =
       (if card (all_labels actions bootstrap) > 25 then None
        else Some \<lparr>fm_flags = fst fs, fm_attrs = snd r, fm_bootstrap = bootstrap\<rparr>)"
proof -
  let ?P = "{(a, l) | a l ls. (a, ls) \<in> set actions \<and> l \<in> set ls}"
  have "actions_inv {} ((Map.empty, 0), [])"
    by (auto simp: actions_inv_def numbered_def attr_flag_def bij_betw_def)
  from actions_inv_fold [OF this, of actions] have inv: "actions_inv ?P r" by (simp add: r_def)
  then obtain k where k: "numbered k (fst r)" by (auto simp: actions_inv_def)
  note B = numbered_assign_fold [OF k, of bootstrap, folded fs_def]
  then obtain k' where k': "numbered k' fs" by blast
  have dr: "dom (fst (fst r)) = (\<Union>(a, labels) \<in> set actions. set labels)"
  proof -
    have "dom (fst (fst r)) = snd ` ?P" using inv by (simp add: actions_inv_def)
    also have "\<dots> = (\<Union>(a, labels) \<in> set actions. set labels)" by (auto simp: image_iff) blast
    finally show ?thesis .
  qed
  then have d: "dom (fst fs) = all_labels actions bootstrap" using B by (simp add: all_labels_def)
  have c: "snd fs = card (all_labels actions bootstrap)" using numbered_dom [OF k'] d by simp
  have "bit (attr_flag (snd r) a) n \<longleftrightarrow>
       (\<exists>ls l. (a, ls) \<in> set actions \<and> l \<in> set ls \<and> bit (flag_of (fst fs) l) n)" for a n
  proof -
    have eq: "(a, ls) \<in> set actions \<and> l \<in> set ls \<and> bit (flag_of (fst fs) l) n \<longleftrightarrow>
        (a, ls) \<in> set actions \<and> l \<in> set ls \<and> bit (flag_of (fst (fst r)) l) n" for ls l
      using B dr by auto
    have "bit (attr_flag (snd r) a) n \<longleftrightarrow> (\<exists>l. (a, l) \<in> ?P \<and> bit (flag_of (fst (fst r)) l) n)"
      using inv by (simp only: actions_inv_def)
    then show ?thesis unfolding eq by auto
  qed
  moreover have "new_FlagManager actions bootstrap =
       (if card (all_labels actions bootstrap) > 25 then None
        else Some \<lparr>fm_flags = fst fs, fm_attrs = snd r, fm_bootstrap = bootstrap\<rparr>)"
    unfolding new_FlagManager_def r_def [symmetric]
    unfolding Let_def case_prod_beta fs_def [symmetric] c by (rule refl)
  moreover have "distinct (map fst (snd r))" using inv by (simp add: actions_inv_def)
  ultimately show thesis using k' d c by (intro that)
qed

text \<open>A manager that is made gives its labels different bits from the second on.\<close>

definition manager_ok :: "flag_manager \<Rightarrow> (string \<Rightarrow> nat) \<Rightarrow> bool" where
  "manager_ok fm k \<longleftrightarrow> inj_on k (dom (fm_flags fm)) \<and>
     (\<forall>l \<in> dom (fm_flags fm). 1 \<le> k l \<and> k l \<le> 25 \<and> fm_flags fm l = Some (shifted_one (k l)))"

lemma manager_bit:
  assumes "manager_ok fm k"
  shows "bit (flag_of (fm_flags fm) l) n \<longleftrightarrow> l \<in> dom (fm_flags fm) \<and> n = k l"
proof (cases "l \<in> dom (fm_flags fm)")
  case True
  then show ?thesis using assms by (auto simp: manager_ok_def flag_of_def bit_shifted_one)
qed (simp add: flag_of_def domIff)

lemma manager_inj:
  "manager_ok fm k \<Longrightarrow> k l = k l' \<Longrightarrow> fm_flags fm l = Some f \<Longrightarrow> fm_flags fm l' = Some f' \<Longrightarrow> l = l'"
  unfolding manager_ok_def by (blast dest: inj_onD)

lemma word_nz_bit: "(f :: flag) \<noteq> 0 \<longleftrightarrow> (\<exists>n. bit f n)"
  using bit_word_eqI [of f 0] by auto

lemma labels_in_bit:
  "manager_ok fm k \<Longrightarrow> l \<in> labels_in fm f \<longleftrightarrow> l \<in> dom (fm_flags fm) \<and> bit f (k l)"
  by (auto simp: labels_in_def word_nz_bit bit_and_iff manager_bit)

lemma getFlag_bit:
  assumes "manager_ok fm k"
  shows "bit (getFlag fm ls) n \<longleftrightarrow> (\<exists>l \<in> set ls. l \<in> dom (fm_flags fm) \<and> n = k l)"
proof -
  have "bit (fold (\<lambda>key memo. memo OR flag_of (fm_flags fm) key) ls f) n \<longleftrightarrow>
      bit f n \<or> (\<exists>l \<in> set ls. l \<in> dom (fm_flags fm) \<and> n = k l)" for f
    by (induction ls arbitrary: f) (auto simp: bit_or_iff manager_bit [OF assms])
  then show ?thesis by (simp add: getFlag_def)
qed

lemma labels_in_getFlag:
  "manager_ok fm k \<Longrightarrow> labels_in fm (getFlag fm ls) = set ls \<inter> dom (fm_flags fm)"
  by (rule set_eqI) (auto simp: labels_in_bit getFlag_bit dest: manager_inj)

lemma hasAction_labels:
  "manager_ok fm k \<Longrightarrow> hasAction fm f ls \<longleftrightarrow> labels_in fm f \<inter> set ls \<noteq> {}"
  by (simp add: hasAction_def word_nz_bit bit_and_iff getFlag_bit set_eq_iff labels_in_bit) blast

lemma removeAction_bit:
  assumes "manager_ok fm k"
  shows "bit (removeAction fm f ls) n \<longleftrightarrow> bit f n \<and> \<not> (\<exists>l \<in> set ls. l \<in> dom (fm_flags fm) \<and> n = k l)"
  by (auto simp: removeAction_def bit_xor_iff bit_and_iff getFlag_bit [OF assms])

lemma labels_in_removeAction:
  "manager_ok fm k \<Longrightarrow> labels_in fm (removeAction fm f ls) = labels_in fm f - set ls"
  by (rule set_eqI) (auto simp: labels_in_bit removeAction_bit dest: manager_inj)

lemma reserved_bits: "bit (FLAG_INSERT OR FLAG_REMOVE) n \<longleftrightarrow> n = 29 \<or> n = 30"
  unfolding FLAG_INSERT_def FLAG_REMOVE_def bit_or_iff bit_push_bit_iff
  by (simp add: bit_1_iff del: push_bit_numeral push_bit_Suc) auto

lemma manager_low: "manager_ok fm k \<Longrightarrow> l \<in> dom (fm_flags fm) \<Longrightarrow> k l \<noteq> 29 \<and> k l \<noteq> 30"
  unfolding manager_ok_def by (drule conjunct2, drule (1) bspec) linarith

lemma reserved_removeAction:
  assumes "manager_ok fm k"
  shows "removeAction fm f ls AND (FLAG_INSERT OR FLAG_REMOVE) = f AND (FLAG_INSERT OR FLAG_REMOVE)"
proof (rule bit_eqI)
  fix n
  have "n \<noteq> 29 \<and> n \<noteq> 30" if "l \<in> dom (fm_flags fm)" "n = k l" for l
    using that manager_low [OF assms] by simp
  then show "bit (removeAction fm f ls AND (FLAG_INSERT OR FLAG_REMOVE)) n \<longleftrightarrow>
      bit (f AND (FLAG_INSERT OR FLAG_REMOVE)) n"
    unfolding bit_and_iff removeAction_bit [OF assms] reserved_bits by blast
qed

lemma getChangedFlag_bit:
  assumes "distinct (map fst (fm_attrs fm))"
  shows "bit (getChangedFlag fm ch) n \<longleftrightarrow> (\<exists>a. ch a \<and> bit (attr_flag (fm_attrs fm) a) n)"
proof -
  have "bit (fold (\<lambda>(attr, f) flag. if ch attr then flag OR f else flag) xs g) n \<longleftrightarrow>
      bit g n \<or> (\<exists>a f. (a, f) \<in> set xs \<and> ch a \<and> bit f n)" for xs and g :: flag
  proof (induction xs arbitrary: g)
    case (Cons x xs)
    then show ?case by (cases x) (simp add: bit_or_iff split: if_splits, blast)
  qed simp
  moreover have "(\<exists>a f. (a, f) \<in> set (fm_attrs fm) \<and> ch a \<and> bit f n) \<longleftrightarrow>
      (\<exists>a. ch a \<and> bit (attr_flag (fm_attrs fm) a) n)"
    using assms by (auto simp: attr_flag_def split: option.splits dest: map_of_SomeD)
      (metis bit_0_eq bot_apply bot_bool_def map_of_eq_Some_iff option.case_eq_if option.sel option.simps(5))
  ultimately show ?thesis by (simp add: getChangedFlag_def)
qed

lemma manager_made:
  assumes "new_FlagManager actions bootstrap = Some fm"
  obtains k where "manager_ok fm k" "dom (fm_flags fm) = all_labels actions bootstrap"
    "distinct (map fst (fm_attrs fm))" "fm_bootstrap fm = bootstrap"
    "\<And>a n. bit (attr_flag (fm_attrs fm) a) n \<longleftrightarrow>
       (\<exists>ls l. (a, ls) \<in> set actions \<and> l \<in> set ls \<and> bit (flag_of (fm_flags fm) l) n)"
proof -
  obtain k fs attrs where N: "numbered k fs" "dom (fst fs) = all_labels actions bootstrap"
    "snd fs = card (all_labels actions bootstrap)" "distinct (map fst attrs)"
    "\<And>a n. bit (attr_flag attrs a) n \<longleftrightarrow>
       (\<exists>ls l. (a, ls) \<in> set actions \<and> l \<in> set ls \<and> bit (flag_of (fst fs) l) n)"
    "new_FlagManager actions bootstrap =
       (if card (all_labels actions bootstrap) > 25 then None
        else Some \<lparr>fm_flags = fst fs, fm_attrs = attrs, fm_bootstrap = bootstrap\<rparr>)"
    by (rule new_FlagManager_spec [where actions = actions and bootstrap = bootstrap])
       (rule that, assumption+)
  then have F: "fm_flags fm = fst fs" "fm_attrs fm = attrs" "fm_bootstrap fm = bootstrap"
    "card (all_labels actions bootstrap) \<le> 25"
    using assms by (auto split: if_splits)
  have b: "bij_betw k (all_labels actions bootstrap) {1..card (all_labels actions bootstrap)}"
    using N(1,2,3) by (simp add: numbered_def)
  have "1 \<le> k l \<and> k l \<le> 25" if "l \<in> all_labels actions bootstrap" for l
    using bij_betw_apply [OF b that] F(4) by simp
  then have "manager_ok fm k" using b N(1,2) F(1) by (simp add: manager_ok_def numbered_def bij_betw_def)
  then show thesis using F N by (intro that) simp_all
qed

lemma label_sets:
  fixes actions bootstrap
  defines "L \<equiv> all_labels actions bootstrap"
  shows "new_FlagManager actions bootstrap = None \<longleftrightarrow> card L > 25"
    and "new_FlagManager actions bootstrap = Some fm \<Longrightarrow>
      labels_in fm (getFlag fm ls) = set ls \<inter> L \<and>
      (hasAction fm f ls \<longleftrightarrow> labels_in fm f \<inter> set ls \<noteq> {}) \<and>
      labels_in fm (removeAction fm f ls) = labels_in fm f - set ls \<and>
      labels_in fm (getBootstrapFlag fm) = set bootstrap \<and>
      labels_in fm (getChangedFlag fm changed) =
        (\<Union>(a, labels) \<in> {(a, labels) \<in> set actions. changed a}. set labels) \<and>
      getFlag fm ls AND (FLAG_INSERT OR FLAG_REMOVE) = 0 \<and>
      removeAction fm f ls AND (FLAG_INSERT OR FLAG_REMOVE) = f AND (FLAG_INSERT OR FLAG_REMOVE)"
proof -
  show "new_FlagManager actions bootstrap = None \<longleftrightarrow> card L > 25"
    unfolding L_def by (cases rule: new_FlagManager_spec [where actions = actions and bootstrap = bootstrap]) simp
  assume fm: "new_FlagManager actions bootstrap = Some fm"
  obtain k where ok: "manager_ok fm k" and dom: "dom (fm_flags fm) = L"
    and F: "distinct (map fst (fm_attrs fm))" "fm_bootstrap fm = bootstrap"
    "\<And>a n. bit (attr_flag (fm_attrs fm) a) n \<longleftrightarrow>
       (\<exists>ls l. (a, ls) \<in> set actions \<and> l \<in> set ls \<and> bit (flag_of (fm_flags fm) l) n)"
    by (rule manager_made [OF fm, folded L_def]) (rule that, assumption+)
  have boot: "set bootstrap \<inter> L = set bootstrap" by (auto simp: L_def all_labels_def)
  have "l \<in> labels_in fm (getChangedFlag fm changed) \<longleftrightarrow>
      (\<exists>a labels. (a, labels) \<in> set actions \<and> changed a \<and> l \<in> set labels)" for l
  proof -
    have "l \<in> labels_in fm (getChangedFlag fm changed) \<longleftrightarrow>
        l \<in> L \<and> (\<exists>a ls l'. changed a \<and> (a, ls) \<in> set actions \<and> l' \<in> set ls \<and> l' \<in> L \<and> k l = k l')"
      using F(1) by (simp add: labels_in_bit [OF ok] getChangedFlag_bit F(3) dom manager_bit [OF ok])
    also have "\<dots> \<longleftrightarrow> (\<exists>a labels. (a, labels) \<in> set actions \<and> changed a \<and> l \<in> set labels)"
    proof -
      have "l' = l" if "l \<in> L" "l' \<in> L" "k l = k l'" for l'
        using inj_onD [of k L l l'] that ok dom by (simp add: manager_ok_def)
      moreover have "x \<in> L" if "(a, ls) \<in> set actions" "x \<in> set ls" for a ls x
        using that by (auto simp: L_def all_labels_def)
      ultimately show ?thesis by metis
    qed
    finally show ?thesis .
  qed
  then have "labels_in fm (getChangedFlag fm changed) =
        (\<Union>(a, labels) \<in> {(a, labels) \<in> set actions. changed a}. set labels)" by auto
  moreover have "getFlag fm ls AND (FLAG_INSERT OR FLAG_REMOVE) = 0"
    using manager_low [OF ok] by (intro bit_eqI) (auto simp: bit_and_iff getFlag_bit [OF ok] reserved_bits)
  ultimately show "labels_in fm (getFlag fm ls) = set ls \<inter> L \<and>
      (hasAction fm f ls \<longleftrightarrow> labels_in fm f \<inter> set ls \<noteq> {}) \<and>
      labels_in fm (removeAction fm f ls) = labels_in fm f - set ls \<and>
      labels_in fm (getBootstrapFlag fm) = set bootstrap \<and>
      labels_in fm (getChangedFlag fm changed) =
        (\<Union>(a, labels) \<in> {(a, labels) \<in> set actions. changed a}. set labels) \<and>
      getFlag fm ls AND (FLAG_INSERT OR FLAG_REMOVE) = 0 \<and>
      removeAction fm f ls AND (FLAG_INSERT OR FLAG_REMOVE) = f AND (FLAG_INSERT OR FLAG_REMOVE)"
    using labels_in_getFlag [OF ok] hasAction_labels [OF ok] labels_in_removeAction [OF ok]
      reserved_removeAction [OF ok] dom boot F(2)
    by (simp add: getBootstrapFlag_def)
qed

text \<open>C38: Flags represent sets of labels: a manager is made unless there are more than 25 labels,
  and then the flag of some labels holds exactly these, testing and removing act on the labels
  alone, the changed flag has the labels of the changed attributes, and no operation touches the
  two bits reserved for mounting.\<close>

theorem flags_are_label_sets:
  "(new_FlagManager actions bootstrap = None \<longleftrightarrow> card (all_labels actions bootstrap) > 25) \<and>
   (\<forall>fm f ls changed. new_FlagManager actions bootstrap = Some fm \<longrightarrow>
      labels_in fm (getFlag fm ls) = set ls \<inter> all_labels actions bootstrap \<and>
      (hasAction fm f ls \<longleftrightarrow> labels_in fm f \<inter> set ls \<noteq> {}) \<and>
      labels_in fm (removeAction fm f ls) = labels_in fm f - set ls \<and>
      labels_in fm (getBootstrapFlag fm) = set bootstrap \<and>
      labels_in fm (getChangedFlag fm changed) =
        (\<Union>(a, labels) \<in> {(a, labels) \<in> set actions. changed a}. set labels) \<and>
      getFlag fm ls AND (FLAG_INSERT OR FLAG_REMOVE) = 0 \<and>
      removeAction fm f ls AND (FLAG_INSERT OR FLAG_REMOVE) = f AND (FLAG_INSERT OR FLAG_REMOVE))"
  by (rule conjI [OF label_sets(1)]) (intro allI impI label_sets(2))

lemma node_flags_made: "new_FlagManager node_actions node_bootstrap = Some node_flags"
proof -
  have "card (all_labels node_actions node_bootstrap) \<le> 25"
    by (simp add: all_labels_def node_actions_def node_bootstrap_def card_insert_if)
  then show ?thesis
    by (cases rule: new_FlagManager_spec [where actions = node_actions and bootstrap = node_bootstrap])
       (simp add: node_flags_def)
qed

lemma flags_are_label_sets_witness:
  "labels_in node_flags (removeAction node_flags (getFlag node_flags [''resize'', ''tools'']) [''tools'']) = {''resize''}"
  using flags_are_label_sets [THEN conjunct2, rule_format, OF node_flags_made]
  by (auto simp: all_labels_def node_actions_def)

section \<open>Views run what is pending\<close>

lemma edge_flags_made: "new_FlagManager edge_actions edge_bootstrap = Some edge_flags"
proof -
  have "card (all_labels edge_actions edge_bootstrap) \<le> 25"
    by (simp add: all_labels_def edge_actions_def edge_bootstrap_def card_insert_if)
  then show ?thesis
    by (cases rule: new_FlagManager_spec [where actions = edge_actions and bootstrap = edge_bootstrap])
       (simp add: edge_flags_def)
qed

lemma made_labels:
  assumes "new_FlagManager actions bootstrap = Some fm"
  shows "hasAction fm f ls \<longleftrightarrow> labels_in fm f \<inter> set ls \<noteq> {}"
    and "labels_in fm (removeAction fm f ls) = labels_in fm f - set ls"
    and "labels_in fm f \<subseteq> all_labels actions bootstrap"
    and "labels_in fm (getFlag fm ls) = set ls \<inter> all_labels actions bootstrap"
    and "getFlag fm ls AND (FLAG_INSERT OR FLAG_REMOVE) = 0"
    and "getChangedFlag fm ch AND (FLAG_INSERT OR FLAG_REMOVE) = 0"
proof -
  obtain k where k: "manager_ok fm k" "dom (fm_flags fm) = all_labels actions bootstrap"
    "distinct (map fst (fm_attrs fm))"
    "\<And>a n. bit (attr_flag (fm_attrs fm) a) n \<longleftrightarrow>
       (\<exists>ls l. (a, ls) \<in> set actions \<and> l \<in> set ls \<and> bit (flag_of (fm_flags fm) l) n)"
    by (rule manager_made [OF assms]) (rule that, assumption+)
  show "getFlag fm ls AND (FLAG_INSERT OR FLAG_REMOVE) = 0"
    using manager_low [OF k(1)] by (intro bit_eqI) (auto simp: bit_and_iff getFlag_bit [OF k(1)] reserved_bits)
  show "getChangedFlag fm ch AND (FLAG_INSERT OR FLAG_REMOVE) = 0"
    using manager_low [OF k(1)]
    by (intro bit_eqI) (auto simp: bit_and_iff getChangedFlag_bit [OF k(3)] k(4) manager_bit [OF k(1)] reserved_bits)
  show "hasAction fm f ls \<longleftrightarrow> labels_in fm f \<inter> set ls \<noteq> {}" by (rule hasAction_labels [OF k(1)])
  show "labels_in fm (removeAction fm f ls) = labels_in fm f - set ls"
    by (rule labels_in_removeAction [OF k(1)])
  show "labels_in fm (getFlag fm ls) = set ls \<inter> all_labels actions bootstrap"
    unfolding k(2) [symmetric] by (rule labels_in_getFlag [OF k(1)])
  show "labels_in fm f \<subseteq> all_labels actions bootstrap" using k(2) by (auto simp: labels_in_bit [OF k(1)])
qed

lemmas node_labels = made_labels [OF node_flags_made]
lemmas edge_labels = made_labels [OF edge_flags_made]

lemma node_label_set:
  "labels_in node_flags f \<subseteq> {''render'', ''update'', ''resize'', ''translate'', ''rotate'', ''ports'', ''tools''}"
  by (rule order_trans [OF node_labels(3)]) (simp add: all_labels_def node_actions_def node_bootstrap_def)

lemma edge_label_set:
  "labels_in edge_flags f \<subseteq> {''render'', ''update'', ''source'', ''target'', ''labels'', ''tools'', ''vertices''}"
  by (rule order_trans [OF edge_labels(3)]) (simp add: all_labels_def edge_actions_def edge_bootstrap_def)

text \<open>The labels left and the actions run by a step, as membership conditions.\<close>

lemma handleAction_labels:
  assumes "\<And>f ls. hasAction fm f ls \<longleftrightarrow> labels_in fm f \<inter> set ls \<noteq> {}"
    and "\<And>f ls. labels_in fm (removeAction fm f ls) = labels_in fm f - set ls"
  shows "x \<in> labels_in fm (fst (handleAction fm a act add r)) \<longleftrightarrow>
      x \<in> labels_in fm (fst r) \<and> \<not> (a \<in> labels_in fm (fst r) \<and> x \<in> insert a (set add))"
    and "snd (handleAction fm a act add r) = snd r @ (if a \<in> labels_in fm (fst r) then [act] else [])"
  by (auto simp: handleAction_def assms split: prod.splits)

lemmas node_handle = handleAction_labels [OF node_labels(1,2)]
lemmas edge_handle = handleAction_labels [OF edge_labels(1,2)]

lemma node_view_updates:
  shows "labels_in node_flags (fst (node_confirmUpdate node_flags css f)) = {}"
    and "snd (node_confirmUpdate node_flags css f) =
      (let p = (\<lambda>l. l \<in> labels_in node_flags f);
           act = (\<lambda>l a. if p l then [a] else [])
       in act ''ports'' ARemovePorts @
          (if p ''render'' then [ARender]
           else act ''resize'' AResize @ (if p ''resize'' then [] else act ''update'' AUpdate) @
                act ''translate'' ATranslate @ act ''rotate'' ARotate @
                (if css \<and> p ''update'' \<and> \<not> p ''resize'' then [] else act ''ports'' ARenderPorts) @
                act ''tools'' (if getFlag node_flags [''tools''] = f then ARenderTools else AUpdateTools)))"
proof -
  let ?S = "labels_in node_flags f"
  note evals = node_confirmUpdate_def node_labels(1,2) Let_def node_handle
  have "x \<notin> labels_in node_flags (fst (node_confirmUpdate node_flags css f))" if "x \<in> ?S" for x
  proof (cases "''render'' \<in> ?S")
    case True
    then show ?thesis using subsetD [OF node_label_set that] by (simp add: evals)
  next
    case False
    then have "x \<in> {''update'', ''resize'', ''translate'', ''rotate'', ''ports'', ''tools''}"
    proof -
      have "x \<noteq> ''render''" using that False by metis
      then show ?thesis using subsetD [OF node_label_set that] by simp
    qed
    then show ?thesis using False by (elim insertE emptyE) (auto simp: evals)
  qed
  moreover have "x \<in> ?S" if "x \<in> labels_in node_flags (fst (node_confirmUpdate node_flags css f))" for x
    using that by (simp add: evals split: if_splits)
  ultimately show "labels_in node_flags (fst (node_confirmUpdate node_flags css f)) = {}" by blast
  show "snd (node_confirmUpdate node_flags css f) =
      (let p = (\<lambda>l. l \<in> labels_in node_flags f);
           act = (\<lambda>l a. if p l then [a] else [])
       in act ''ports'' ARemovePorts @
          (if p ''render'' then [ARender]
           else act ''resize'' AResize @ (if p ''resize'' then [] else act ''update'' AUpdate) @
                act ''translate'' ATranslate @ act ''rotate'' ARotate @
                (if css \<and> p ''update'' \<and> \<not> p ''resize'' then [] else act ''ports'' ARenderPorts) @
                act ''tools'' (if getFlag node_flags [''tools''] = f then ARenderTools else AUpdateTools)))"
    by (auto simp: evals)
qed

text \<open>What a view of an edge does, in terms of the pending labels: \<open>t\<close> says of the source (\<open>True\<close>)
  and of the target whether its view is there.\<close>

lemma edge_view_updates:
  "map_option (\<lambda>(h, acts). (labels_in edge_flags h, acts)) (edge_confirmUpdate edge_flags t g) =
    (let S = labels_in edge_flags g;
         act = (\<lambda>l a. if l \<in> S then [a] else [])
     in if ''source'' \<in> S \<and> t True = TMissing then None
        else if ''source'' \<in> S \<and> t True = TNoView then Some (S, [])
        else if ''target'' \<in> S \<and> t False = TMissing then None
        else if ''target'' \<in> S \<and> t False = TNoView
        then Some (S - {''source''}, act ''source'' (ATerminal True))
        else Some (S \<inter> {''vertices''},
          act ''source'' (ATerminal True) @ act ''target'' (ATerminal False) @
          (if ''render'' \<in> S then [ARender]
           else act ''update'' AUpdate @ act ''labels'' ALabels @ act ''tools'' ARenderTools)))"
proof -
  let ?S = "labels_in edge_flags g"
  have ends: "hasAction edge_flags f [l] \<longleftrightarrow> l \<in> labels_in edge_flags f" for f l
    by (simp add: edge_labels(1))
  define g1 where "g1 = (if ''source'' \<in> ?S then removeAction edge_flags g [''source''] else g)"
  define g2 where "g2 = (if ''target'' \<in> ?S then removeAction edge_flags g1 [''target''] else g1)"
  have g1: "labels_in edge_flags g1 = ?S - {''source''}" by (simp add: g1_def edge_labels(2))
  have g2: "labels_in edge_flags g2 = ?S - {''source'', ''target''}"
    by (auto simp: g2_def edge_labels(2) g1)
  have S: "x \<in> {''render'', ''update'', ''source'', ''target'', ''labels'', ''tools'', ''vertices''}" if "x \<in> ?S" for x
    using subsetD [OF edge_label_set that] .
  have drawn: "labels_in edge_flags (removeAction edge_flags g2 [''render'', ''update'', ''labels'', ''tools'']) =
      ?S \<inter> {''vertices''}"
  proof (rule set_eqI)
    fix x
    show "x \<in> labels_in edge_flags (removeAction edge_flags g2 [''render'', ''update'', ''labels'', ''tools'']) \<longleftrightarrow>
        x \<in> ?S \<inter> {''vertices''}"
    proof (cases "x \<in> ?S")
      case True
      from S [OF True] show ?thesis
        using True by (elim insertE emptyE) (simp_all add: edge_labels(2) g2)
    qed (simp add: edge_labels(2) g2)
  qed
  have stepped: "labels_in edge_flags (fst ((handleAction edge_flags ''tools'' ARenderTools [] \<circ>
      handleAction edge_flags ''labels'' ALabels [] \<circ> handleAction edge_flags ''update'' AUpdate []) (g2, acts))) =
      ?S \<inter> {''vertices''}" if no: "''render'' \<notin> ?S" for acts
  proof (rule set_eqI)
    fix x
    show "x \<in> labels_in edge_flags (fst ((handleAction edge_flags ''tools'' ARenderTools [] \<circ>
        handleAction edge_flags ''labels'' ALabels [] \<circ> handleAction edge_flags ''update'' AUpdate []) (g2, acts))) \<longleftrightarrow>
        x \<in> ?S \<inter> {''vertices''}"
    proof (cases "x \<in> ?S")
      case True
      from S [OF True] show ?thesis
        using True no by (elim insertE emptyE) (simp_all add: edge_handle g2)
    qed (simp add: edge_handle g2)
  qed
  show ?thesis
  proof (cases "''source'' \<in> ?S \<and> t True \<noteq> TReady")
    case True
    then show ?thesis by (cases "t True") (simp_all add: edge_confirmUpdate_def ends)
  next
    case False
    then have one: "''source'' \<in> ?S \<Longrightarrow> t True = TReady" by simp
    show ?thesis
    proof (cases "''target'' \<in> ?S \<and> t False \<noteq> TReady")
      case True
      then show ?thesis
        using one by (cases "t False") (auto simp: edge_confirmUpdate_def ends edge_labels(2))
    next
      case False
      then have two: "''target'' \<in> ?S \<Longrightarrow> t False = TReady" by simp
      let ?acts = "(if ''source'' \<in> ?S then [ATerminal True] else []) @ (if ''target'' \<in> ?S then [ATerminal False] else [])"
      have "edge_confirmUpdate edge_flags t g =
          (if ''render'' \<in> ?S
           then Some (removeAction edge_flags g2 [''render'', ''update'', ''labels'', ''tools''], ?acts @ [ARender])
           else Some ((handleAction edge_flags ''tools'' ARenderTools [] \<circ>
              handleAction edge_flags ''labels'' ALabels [] \<circ> handleAction edge_flags ''update'' AUpdate []) (g2, ?acts)))"
        using one two by (simp add: edge_confirmUpdate_def ends g1_def g2_def edge_labels(2))
      moreover have "snd ((handleAction edge_flags ''tools'' ARenderTools [] \<circ>
          handleAction edge_flags ''labels'' ALabels [] \<circ> handleAction edge_flags ''update'' AUpdate []) (g2, ?acts)) =
          ?acts @ (if ''update'' \<in> ?S then [AUpdate] else []) @ (if ''labels'' \<in> ?S then [ALabels] else []) @
          (if ''tools'' \<in> ?S then [ARenderTools] else [])"
        by (simp add: edge_handle g2)
      ultimately show ?thesis
        using one two stepped [of ?acts] drawn by (auto simp: case_prod_beta simp del: o_apply)
    qed
  qed
qed

text \<open>C39: Whatever actions are pending for the view of a node, \<open>confirmUpdate\<close> leaves none: a
  pending render draws everything once, otherwise each pending action runs once, a resize in place of
  the update, in a fixed order. The view of an edge takes its source first and then its target, each
  only when it is pending: an end whose cell is not in the graph makes it throw; an end that has no
  view yet stops it with that end and everything behind it still pending; when both ends are there it
  connects them and draws once, or runs each pending action once, and leaves at most the label of the
  vertices, which no step handles.\<close>

theorem views_run_pending:
  "labels_in node_flags (fst (node_confirmUpdate node_flags css f)) = {} \<and>
   snd (node_confirmUpdate node_flags css f) =
      (let p = (\<lambda>l. l \<in> labels_in node_flags f);
           act = (\<lambda>l a. if p l then [a] else [])
       in act ''ports'' ARemovePorts @
          (if p ''render'' then [ARender]
           else act ''resize'' AResize @ (if p ''resize'' then [] else act ''update'' AUpdate) @
                act ''translate'' ATranslate @ act ''rotate'' ARotate @
                (if css \<and> p ''update'' \<and> \<not> p ''resize'' then [] else act ''ports'' ARenderPorts) @
                act ''tools'' (if getFlag node_flags [''tools''] = f then ARenderTools else AUpdateTools))) \<and>
   map_option (\<lambda>(h, acts). (labels_in edge_flags h, acts)) (edge_confirmUpdate edge_flags t g) =
    (let S = labels_in edge_flags g;
         act = (\<lambda>l a. if l \<in> S then [a] else [])
     in if ''source'' \<in> S \<and> t True = TMissing then None
        else if ''source'' \<in> S \<and> t True = TNoView then Some (S, [])
        else if ''target'' \<in> S \<and> t False = TMissing then None
        else if ''target'' \<in> S \<and> t False = TNoView
        then Some (S - {''source''}, act ''source'' (ATerminal True))
        else Some (S \<inter> {''vertices''},
          act ''source'' (ATerminal True) @ act ''target'' (ATerminal False) @
          (if ''render'' \<in> S then [ARender]
           else act ''update'' AUpdate @ act ''labels'' ALabels @ act ''tools'' ARenderTools)))"
  by (intro conjI node_view_updates edge_view_updates)

lemma views_run_pending_witness:
  "edge_confirmUpdate edge_flags (\<lambda>s. if s then TReady else TMissing) (getFlag edge_flags [''target'']) = None"
  using views_run_pending [THEN conjunct2, THEN conjunct2, of "\<lambda>s. if s then TReady else TMissing"
      "getFlag edge_flags [''target'']"]
  by (simp add: edge_labels(4) all_labels_def edge_actions_def)

end
