(* ===== verification/Scheduler.thy ===== *)
theory Scheduler
  imports Graph_Search Job_Queue View_Flags
begin

text \<open>
  The scheduler of the renderer (class \<open>Scheduler\<close> of x6's renderer/scheduler.js): the views of the
  cells, the children of the stage with the comment nodes that separate the z-indexes, and the jobs
  it puts into the job queue of theory \<open>Job_Queue\<close>. A job's callback is a closure: the queue holds
  its number (\<open>CEffect n\<close>) and the scheduler the closure itself, which is run over the scheduler's
  state when the queue calls it. The graph model is an argument, as the events of the model leave it.
  A call gives the new state and whether it threw. Left out: what is drawn, and disposal. Chains of
  edges that are attached to edges are followed as far as there are cells; a cycle of such edges,
  in which the code's recursion does not end, is cut there.
\<close>

section \<open>Views, jobs and the stage\<close>

record sview =
  sv_no :: nat
  sv_cell :: string
  sv_edge :: bool

record ropts =
  ro_sync :: bool
  ro_queue :: "nat option"

datatype view_state = CREATED | MOUNTED | WAITING

record view_item =
  vi_view :: sview
  vi_flag :: flag
  vi_opts :: ropts
  vi_state :: view_state

datatype closure = CRender sview flag ropts | CUpdate sview flag | CRemove sview

text \<open>The children of the stage: the comment of a z-index and the element of a view.\<close>

datatype stage_child = Pivot int | Elem nat

datatype render_event = EvMounted nat | EvUnmounted nat | EvActs nat "view_act list" | EvDone

record scheduler =
  sc_views :: "(string \<times> view_item) list"
  sc_willRemove :: "(string \<times> view_item) list"
  sc_zPivots :: "int list"
  sc_stage :: "stage_child list"
  sc_hidden :: "nat \<Rightarrow> bool"
  sc_area :: "nat option"
  sc_jq :: jobq
  sc_closures :: "closure list"
  sc_arrays :: "string list list"
  sc_log :: "render_event list"
  sc_next :: nat

text \<open>What the scheduler asks of the graph's options, the window and the geometry.\<close>

record env =
  en_async :: bool
  en_virtual :: bool
  en_css :: bool
  en_window :: window
  en_norender :: "gcell \<Rightarrow> bool"
  en_meets :: "nat \<Rightarrow> string \<Rightarrow> bool"

definition new_Scheduler :: scheduler where
  "new_Scheduler = \<lparr>sc_views = [], sc_willRemove = [], sc_zPivots = [], sc_stage = [],
     sc_hidden = (\<lambda>_. False), sc_area = None, sc_jq = new_JobQueue, sc_closures = [],
     sc_arrays = [], sc_log = [], sc_next = 0\<rparr>"

definition flags_of :: "sview \<Rightarrow> flag_manager" where
  "flags_of v = (if sv_edge v then edge_flags else node_flags)"

definition view_at :: "string \<Rightarrow> scheduler \<Rightarrow> view_item option" where
  "view_at i s = map_of (sc_views s) i"

definition upd_item :: "string \<Rightarrow> (view_item \<Rightarrow> view_item) \<Rightarrow> scheduler \<Rightarrow> scheduler" where
  "upd_item i f s =
     (case view_at i s of None \<Rightarrow> s | Some it \<Rightarrow> s\<lparr>sc_views := map_put (sc_views s) i (f it)\<rparr>)"

definition trigger_ev :: "render_event \<Rightarrow> scheduler \<Rightarrow> scheduler" where
  "trigger_ev e s = s\<lparr>sc_log := sc_log s @ [e]\<rparr>"

text \<open>Calls that may throw, one after another.\<close>

definition then_call :: "'s \<times> bool \<Rightarrow> ('s \<Rightarrow> 's \<times> bool) \<Rightarrow> 's \<times> bool" where
  "then_call r f = (if snd r then r else f (fst r))"

definition calls :: "('a \<Rightarrow> 's \<Rightarrow> 's \<times> bool) \<Rightarrow> 'a list \<Rightarrow> 's \<Rightarrow> 's \<times> bool" where
  "calls f xs s = fold (\<lambda>x r. then_call r (f x)) xs (s, False)"

section \<open>The stage\<close>

definition insert_before :: "'a \<Rightarrow> 'a option \<Rightarrow> 'a list \<Rightarrow> 'a list" where
  "insert_before x ref xs =
     (let xs = removeAll x xs
      in case ref of None \<Rightarrow> xs @ [x]
         | Some r \<Rightarrow> takeWhile (\<lambda>y. y \<noteq> r) xs @ x # dropWhile (\<lambda>y. y \<noteq> r) xs)"

definition nextSibling :: "'a \<Rightarrow> 'a list \<Rightarrow> 'a option" where
  "nextSibling r xs = (case dropWhile (\<lambda>y. y \<noteq> r) xs of _ # y # _ \<Rightarrow> Some y | _ \<Rightarrow> None)"

text \<open>The greatest key below \<open>z\<close>; None stands for minus infinity.\<close>

definition neighborZ :: "int \<Rightarrow> int list \<Rightarrow> int option" where
  "neighborZ z keys =
     fold (\<lambda>k n. if k < z \<and> (case n of None \<Rightarrow> True | Some n \<Rightarrow> k > n) then Some k else n) keys None"

definition addZPivot :: "int \<Rightarrow> scheduler \<Rightarrow> scheduler" where
  "addZPivot z s =
     (if z \<in> set (sc_zPivots s) then s
      else let keys = sc_zPivots s @ [z]
           in s\<lparr>sc_zPivots := keys,
                sc_stage :=
                  (case neighborZ z keys of
                     Some n \<Rightarrow> insert_before (Pivot z) (nextSibling (Pivot n) (sc_stage s)) (sc_stage s)
                   | None \<Rightarrow> insert_before (Pivot z) (case sc_stage s of [] \<Rightarrow> None | c # _ \<Rightarrow> Some c) (sc_stage s))\<rparr>)"

definition is_pivot :: "stage_child \<Rightarrow> bool" where
  "is_pivot c = (case c of Pivot _ \<Rightarrow> True | Elem _ \<Rightarrow> False)"

definition removeZPivots :: "scheduler \<Rightarrow> scheduler" where
  "removeZPivots s =
     s\<lparr>sc_stage := filter (\<lambda>c. case c of Pivot z \<Rightarrow> z \<notin> set (sc_zPivots s) | Elem _ \<Rightarrow> True) (sc_stage s),
       sc_zPivots := []\<rparr>"

definition unmount :: "sview \<Rightarrow> scheduler \<Rightarrow> scheduler" where
  "unmount v s = s\<lparr>sc_stage := removeAll (Elem (sv_no v)) (sc_stage s)\<rparr>"

section \<open>Visibility\<close>

definition isVisible :: "gcell \<Rightarrow> bool" where
  "isVisible c \<longleftrightarrow> map_of (gc_props c) ''visible'' \<noteq> Some (JBool False)"

definition shown :: "gcell option \<Rightarrow> bool" where
  "shown c = (case c of None \<Rightarrow> True | Some c \<Rightarrow> isVisible c)"

fun toggleVisible :: "nat \<Rightarrow> gmodel \<Rightarrow> string \<Rightarrow> bool \<Rightarrow> scheduler \<Rightarrow> scheduler" where
  "toggleVisible 0 m i visible s = s"
| "toggleVisible (Suc n) m i visible s =
     (let s = fold (\<lambda>edge s.
            if visible
            then (if \<not> shown (getSourceCell edge m) \<or> \<not> shown (getTargetCell edge m) then s
                  else toggleVisible n m (gc_id edge) True s)
            else toggleVisible n m (gc_id edge) False s)
          (getConnectedEdges i True True m) s
      in case view_at i s of None \<Rightarrow> s
         | Some it \<Rightarrow> s\<lparr>sc_hidden := (sc_hidden s)(sv_no (vi_view it) := \<not> visible)\<rparr>)"

definition cell_fuel :: "gmodel \<Rightarrow> nat" where
  "cell_fuel m = length (getCells m) + 1"

section \<open>Mounting and updating\<close>

definition insertView :: "gmodel \<Rightarrow> sview \<Rightarrow> scheduler \<Rightarrow> scheduler" where
  "insertView m v s =
     (case (view_at (sv_cell v) s, getCell (sv_cell v) m) of
        (Some _, Some c) \<Rightarrow>
          (let s = addZPivot (z_of c) s;
               s = s\<lparr>sc_stage := insert_before (Elem (sv_no v)) (Some (Pivot (z_of c))) (sc_stage s)\<rparr>;
               s = (if \<not> isVisible c then toggleVisible (cell_fuel m) m (sv_cell v) False s else s);
               s = upd_item (sv_cell v) (\<lambda>it. it\<lparr>vi_state := MOUNTED\<rparr>) s
           in trigger_ev (EvMounted (sv_no v)) s)
      | _ \<Rightarrow> s)"

definition terminal_state :: "gmodel \<Rightarrow> sview \<Rightarrow> scheduler \<Rightarrow> bool \<Rightarrow> terminal_state" where
  "terminal_state m v s isSource =
     (case Option.bind (getCell (sv_cell v) m) (if isSource then gc_source else gc_target) of
        None \<Rightarrow> TReady
      | Some i \<Rightarrow> if i = [] then TReady else if getCell i m = None then TMissing
                  else if view_at i s = None then TNoView else TReady)"

text \<open>The flag an update leaves, or None if it throws.\<close>

definition confirmUpdate :: "env \<Rightarrow> gmodel \<Rightarrow> sview \<Rightarrow> flag \<Rightarrow> scheduler \<Rightarrow> flag option \<times> scheduler" where
  "confirmUpdate env m v f s =
     (case (if sv_edge v then edge_confirmUpdate (flags_of v) (terminal_state m v s) f
            else Some (node_confirmUpdate (flags_of v) (en_css env) f)) of
        None \<Rightarrow> (None, s)
      | Some (r, acts) \<Rightarrow> (Some r, trigger_ev (EvActs (sv_no v) acts) s))"

text \<open>With the flag for removal the code asks for the view of a cell's cell and throws.\<close>

definition updateView :: "env \<Rightarrow> gmodel \<Rightarrow> sview \<Rightarrow> flag \<Rightarrow> scheduler \<Rightarrow> flag option \<times> scheduler" where
  "updateView env m v f s =
     (if f AND FLAG_REMOVE \<noteq> 0 then (None, s)
      else let (f, s) = (if f AND FLAG_INSERT \<noteq> 0 then (f XOR FLAG_INSERT, insertView m v s) else (f, s))
           in if f = 0 then (Some 0, s) else confirmUpdate env m v f s)"

definition removeView :: "sview \<Rightarrow> scheduler \<Rightarrow> scheduler" where
  "removeView v s =
     (case map_of (sc_willRemove s) (sv_cell v) of
        None \<Rightarrow> s
      | Some it \<Rightarrow>
          trigger_ev (EvUnmounted (sv_no v))
            ((unmount (vi_view it) s)\<lparr>sc_willRemove := map_del (sc_willRemove s) (sv_cell v)\<rparr>))"

definition isUpdatable :: "env \<Rightarrow> gmodel \<Rightarrow> sview \<Rightarrow> scheduler \<Rightarrow> bool" where
  "isUpdatable env m v s =
     (case sc_area s of
        None \<Rightarrow> True
      | Some area \<Rightarrow>
          if \<not> sv_edge v then en_meets env area (sv_cell v)
          else if en_virtual env then en_meets env area (sv_cell v)
          else (case getCell (sv_cell v) m of
                  None \<Rightarrow> True
                | Some e \<Rightarrow>
                    (case (getSourceCell e m, getTargetCell e m) of
                       (Some a, Some b) \<Rightarrow> en_meets env area (gc_id a) \<or> en_meets env area (gc_id b)
                     | _ \<Rightarrow> True)))"

section \<open>Jobs\<close>

definition getRenderPriority :: "sview \<Rightarrow> int" where
  "getRenderPriority v = (if sv_edge v then JOB_RenderEdge else JOB_RenderNode)"

definition queue_closure :: "string \<Rightarrow> int \<Rightarrow> closure \<Rightarrow> scheduler \<Rightarrow> scheduler" where
  "queue_closure i p cl s =
     s\<lparr>sc_jq := queueJob (sc_jq s) i p [CEffect (length (sc_closures s))],
       sc_closures := sc_closures s @ [cl]\<rparr>"

definition renderViewInArea ::
  "env \<Rightarrow> gmodel \<Rightarrow> sview \<Rightarrow> flag \<Rightarrow> scheduler \<Rightarrow> scheduler \<times> bool" where
  "renderViewInArea env m v f s =
     (let i = sv_cell v in
      case view_at i s of
        None \<Rightarrow> (s, False)
      | Some item \<Rightarrow>
          if isUpdatable env m v s
          then (case updateView env m v f s of
                  (None, s) \<Rightarrow> (s, True)
                | (Some r, s) \<Rightarrow>
                    let s = upd_item i (\<lambda>it. it\<lparr>vi_flag := r\<rparr>) s
                    in if r \<noteq> 0 \<and> sv_edge v \<and> r AND getFlag (flags_of v) [''source'', ''target''] = 0
                       then (queue_closure i JOB_RenderEdge (CUpdate v f) s, False)
                       else (s, False))
          else let s = (if vi_state item = MOUNTED
                        then trigger_ev (EvUnmounted (sv_no v)) (unmount v s) else s)
               in (upd_item i (\<lambda>it. it\<lparr>vi_state := WAITING,
                                      vi_flag := f OR FLAG_INSERT OR getBootstrapFlag (flags_of v)\<rparr>) s, False))"

text \<open>The end of a rendering job: the cell leaves the array of the options, and an empty array
  means that all is drawn.\<close>

definition note_rendered :: "sview \<Rightarrow> ropts \<Rightarrow> scheduler \<Rightarrow> scheduler" where
  "note_rendered v opts s =
     (case ro_queue opts of
        None \<Rightarrow> s
      | Some a \<Rightarrow>
          let left = remove1 (sv_cell v) (sc_arrays s ! a);
              s = s\<lparr>sc_arrays := (sc_arrays s)[a := left]\<rparr>
          in if left = [] then trigger_ev EvDone s else s)"

definition run_closure :: "env \<Rightarrow> gmodel \<Rightarrow> closure \<Rightarrow> scheduler \<Rightarrow> scheduler \<times> bool" where
  "run_closure env m cl s =
     (case cl of
        CRender v f opts \<Rightarrow>
          then_call (renderViewInArea env m v f s) (\<lambda>s. (note_rendered v opts s, False))
      | CUpdate v f \<Rightarrow> (case updateView env m v f s of (r, s) \<Rightarrow> (s, r = None))
      | CRemove v \<Rightarrow> (removeView v s, False))"

section \<open>Flushing\<close>

definition upd_jq :: "(jobq \<Rightarrow> jobq) \<Rightarrow> scheduler \<Rightarrow> scheduler" where
  "upd_jq f s = s\<lparr>sc_jq := f (sc_jq s)\<rparr>"

definition numbered_closure :: "closure list \<Rightarrow> qcmd list \<Rightarrow> closure option" where
  "numbered_closure cls cb =
     (case cb of [CEffect n] \<Rightarrow> if n < length cls then Some (cls ! n) else None | _ \<Rightarrow> None)"

definition closure_of :: "scheduler \<Rightarrow> nat \<Rightarrow> closure option" where
  "closure_of s a = numbered_closure (sc_closures s) (job_cb (objs (sc_jq s) ! a))"

definition run_job :: "env \<Rightarrow> gmodel \<Rightarrow> nat \<Rightarrow> scheduler \<Rightarrow> scheduler \<times> bool" where
  "run_job env m a s = (case closure_of s a of None \<Rightarrow> (s, False) | Some cl \<Rightarrow> run_closure env m cl s)"

definition pop_job :: "nat list \<Rightarrow> scheduler \<Rightarrow> scheduler" where
  "pop_job as = upd_jq (\<lambda>q. q\<lparr>queue := as\<rparr>)"

text \<open>\<open>flushJobsSync\<close> catches what a job throws; the number of jobs run is bounded by fuel.\<close>

fun flush_sync_loop :: "nat \<Rightarrow> env \<Rightarrow> gmodel \<Rightarrow> scheduler \<Rightarrow> scheduler" where
  "flush_sync_loop n env m s =
     (case queue (sc_jq s) of
        [] \<Rightarrow> upd_jq (\<lambda>q. q\<lparr>isFlushing := False\<rparr>) s
      | a # as \<Rightarrow>
          (case n of 0 \<Rightarrow> s
           | Suc n \<Rightarrow>
               let i = job_id (objs (sc_jq s) ! a);
                   s = fst (run_job env m a (pop_job as s))
               in flush_sync_loop n env m (upd_jq (delete_pending i) s)))"

text \<open>\<open>flushJobs\<close> runs jobs until the time is used up; what a job throws leaves the loop.\<close>

fun flush_loop :: "nat \<Rightarrow> env \<Rightarrow> gmodel \<Rightarrow> nat \<Rightarrow> nat \<Rightarrow> scheduler \<Rightarrow> scheduler" where
  "flush_loop n env m t0 budget s =
     (case queue (sc_jq s) of
        [] \<Rightarrow> upd_jq (end_flush (en_window env)) s
      | a # as \<Rightarrow>
          (case n of 0 \<Rightarrow> s
           | Suc n \<Rightarrow>
               let i = job_id (objs (sc_jq s) ! a) in
               case run_job env m a (pop_job as s) of
                 (s, True) \<Rightarrow> s
               | (s, False) \<Rightarrow>
                   let (t, q) = read_clock (en_window env) (delete_pending i (sc_jq s));
                       s = s\<lparr>sc_jq := q\<rparr>
                   in if int t - int t0 \<ge> int budget then upd_jq (end_flush (en_window env)) s
                      else flush_loop n env m t0 budget s))"

declare flush_sync_loop.simps [simp del] flush_loop.simps [simp del]

text \<open>A job may put one more job into the queue, the second update of an edge, which puts none.\<close>

definition job_weight :: "scheduler \<Rightarrow> nat \<Rightarrow> nat" where
  "job_weight s a = (case closure_of s a of Some (CRender _ _ _) \<Rightarrow> 2 | _ \<Rightarrow> 1)"

definition flush_fuel :: "scheduler \<Rightarrow> nat" where
  "flush_fuel s = (\<Sum>a\<leftarrow>queue (sc_jq s). job_weight s a)"

definition flush :: "env \<Rightarrow> gmodel \<Rightarrow> scheduler \<Rightarrow> scheduler" where
  "flush env m s =
     (if en_async env then upd_jq (queueFlush (en_window env)) s
      else if \<not> isFlushing (sc_jq s) \<and> \<not> isFlushPending (sc_jq s)
      then flush_sync_loop (flush_fuel s) env m (upd_jq start_flush s)
      else s)"

text \<open>The browser runs the outstanding request.\<close>

definition fire :: "env \<Rightarrow> gmodel \<Rightarrow> nat option \<Rightarrow> scheduler \<Rightarrow> scheduler" where
  "fire env m deadline s =
     (case handles (sc_jq s) of
        [] \<Rightarrow> s
      | h # hs \<Rightarrow>
          let (t, q) = read_clock (en_window env) (start_flush ((sc_jq s)\<lparr>handles := hs\<rparr>));
              budget = (case deadline of None \<Rightarrow> frameInterval | Some remain \<Rightarrow> max 0 (min frameInterval remain))
          in flush_loop (flush_fuel s) env m t budget (s\<lparr>sc_jq := q\<rparr>))"

section \<open>Requests\<close>

definition isViewMounted :: "sview \<Rightarrow> scheduler \<Rightarrow> bool" where
  "isViewMounted v s \<longleftrightarrow> (case view_at (sv_cell v) s of None \<Rightarrow> False | Some it \<Rightarrow> vi_state it = MOUNTED)"

definition getEffectedEdges :: "gmodel \<Rightarrow> sview \<Rightarrow> scheduler \<Rightarrow> (sview \<times> flag) list" where
  "getEffectedEdges m v s =
     List.map_filter (\<lambda>edge.
         case view_at (gc_id edge) s of
           None \<Rightarrow> None
         | Some it \<Rightarrow>
             if \<not> isViewMounted (vi_view it) s then None
             else Some (vi_view it,
               getFlag (flags_of (vi_view it))
                 ([''update''] @
                  (if map_option gc_id (getTargetCell edge m) = Some (sv_cell v) then [''target''] else []) @
                  (if map_option gc_id (getSourceCell edge m) = Some (sv_cell v) then [''source''] else []))))
       (getConnectedEdges (sv_cell v) True True m)"

definition insert_id :: "string \<Rightarrow> string" where
  "insert_id i = i @ ''#insert''"

definition job_key :: "string \<Rightarrow> flag \<Rightarrow> string" where
  "job_key i f = (if f AND FLAG_INSERT \<noteq> 0 then insert_id i else i)"

text \<open>\<open>queueJob\<close> of the job queue runs prior jobs at once and puts the others into the queue.\<close>

definition submit :: "env \<Rightarrow> gmodel \<Rightarrow> string \<Rightarrow> int \<Rightarrow> closure \<Rightarrow> scheduler \<Rightarrow> scheduler \<times> bool" where
  "submit env m i p cl s =
     (if is_prior p then run_closure env m cl s else (queue_closure i p cl s, False))"

text \<open>A request queues the job of a view and those of the mounted edges at its cell.\<close>

fun request_jobs ::
  "nat \<Rightarrow> env \<Rightarrow> gmodel \<Rightarrow> sview \<Rightarrow> flag \<Rightarrow> ropts \<Rightarrow> int \<Rightarrow> scheduler \<Rightarrow> scheduler \<times> bool" where
  "request_jobs 0 env m v f opts p s = (s, False)"
| "request_jobs (Suc n) env m v f opts p s =
     (case view_at (sv_cell v) s of
        None \<Rightarrow> (s, False)
      | Some _ \<Rightarrow>
          let s = upd_item (sv_cell v) (\<lambda>it. it\<lparr>vi_flag := f, vi_opts := opts\<rparr>) s;
              prior = hasAction (flags_of v) f [''translate'', ''resize'', ''rotate''] \<or> ro_sync opts;
              p = (if prior then JOB_PRIOR else p)
          in then_call (submit env m (job_key (sv_cell v) f) p (CRender v f opts) s)
               (\<lambda>s. calls (\<lambda>e. request_jobs n env m (fst e) (snd e) opts p) (getEffectedEdges m v s) s))"

definition requestViewUpdate ::
  "env \<Rightarrow> gmodel \<Rightarrow> sview \<Rightarrow> flag \<Rightarrow> ropts \<Rightarrow> int \<Rightarrow> bool \<Rightarrow> scheduler \<Rightarrow> scheduler \<times> bool" where
  "requestViewUpdate env m v f opts p fl s =
     then_call (request_jobs (cell_fuel m) env m v f opts p s)
       (\<lambda>s1. if fl \<and> view_at (sv_cell v) s \<noteq> None \<and>
                \<not> (hasAction (flags_of v) f [''translate'', ''resize'', ''rotate''] \<or> ro_sync opts)
             then (flush env m s1, False) else (s1, False))"

text \<open>The comparison of \<open>renderViews\<close> puts nodes before edges and keeps the order otherwise.\<close>

definition create_view :: "env \<Rightarrow> gcell \<Rightarrow> scheduler \<Rightarrow> sview option \<times> scheduler" where
  "create_view env c s =
     (if en_norender env c then (None, s)
      else (Some \<lparr>sv_no = sc_next s, sv_cell = gc_id c, sv_edge = gc_edge c\<rparr>, s\<lparr>sc_next := sc_next s + 1\<rparr>))"

definition render_cell :: "env \<Rightarrow> gmodel \<Rightarrow> ropts \<Rightarrow> gcell \<Rightarrow> scheduler \<Rightarrow> scheduler \<times> bool" where
  "render_cell env m opts c s =
     (case view_at (gc_id c) s of
        Some it \<Rightarrow>
          requestViewUpdate env m (vi_view it) FLAG_INSERT opts (getRenderPriority (vi_view it)) False s
      | None \<Rightarrow>
          (case create_view env c s of
             (None, s) \<Rightarrow> (s, False)
           | (Some v, s) \<Rightarrow>
               let f = FLAG_INSERT OR getBootstrapFlag (flags_of v);
                   it = \<lparr>vi_view = v, vi_flag = f, vi_opts = opts, vi_state = CREATED\<rparr>
               in requestViewUpdate env m v f opts (getRenderPriority v) False
                    (s\<lparr>sc_views := map_put (sc_views s) (gc_id c) it\<rparr>)))"

definition renderViews :: "env \<Rightarrow> gmodel \<Rightarrow> gcell list \<Rightarrow> ropts \<Rightarrow> scheduler \<Rightarrow> scheduler \<times> bool" where
  "renderViews env m cells opts s =
     then_call (calls (render_cell env m opts) (sort_key (\<lambda>c. if gc_edge c then 1 else 0 :: nat) cells) s)
       (\<lambda>s. (flush env m s, False))"

definition removeViews :: "env \<Rightarrow> gmodel \<Rightarrow> string list \<Rightarrow> scheduler \<Rightarrow> scheduler" where
  "removeViews env m is s =
     flush env m
       (fold (\<lambda>i s. case view_at i s of
                None \<Rightarrow> s
              | Some it \<Rightarrow>
                  queue_closure i (getRenderPriority (vi_view it)) (CRemove (vi_view it))
                    (s\<lparr>sc_willRemove := map_put (sc_willRemove s) i it, sc_views := map_del (sc_views s) i\<rparr>))
          is s)"

definition resetViews :: "scheduler \<Rightarrow> scheduler" where
  "resetViews s =
     (let s = s\<lparr>sc_willRemove := fold (\<lambda>i w. map_put w i (the (map_of (sc_willRemove s) i)))
                                     (map fst (sc_willRemove s)) (sc_views s)\<rparr>;
          s = fold (\<lambda>i s. case map_of (sc_willRemove s) i of None \<Rightarrow> s | Some it \<Rightarrow> removeView (vi_view it) s)
                (key_order (map fst (sc_willRemove s))) s
      in s\<lparr>sc_views := [], sc_willRemove := []\<rparr>)"

section \<open>The model's events\<close>

definition default_opts :: ropts where
  "default_opts = \<lparr>ro_sync = False, ro_queue = None\<rparr>"

text \<open>With \<open>diff\<close> the code leaves out the cells that are among the previous ones, comparing the cell
  objects: \<open>kept\<close> lists the ids of the cells of the model that are the very objects of before (ids
  are unique in a model, so they name the objects).\<close>

definition onModelReseted :: "env \<Rightarrow> gmodel \<Rightarrow> bool \<Rightarrow> bool \<Rightarrow> string list \<Rightarrow> scheduler \<Rightarrow> scheduler \<times> bool" where
  "onModelReseted env m sync diff kept s =
     (let (cells, s) =
        (if \<not> diff then (getCells m, resetViews (removeZPivots (upd_jq clearJobs s)))
         else (filter (\<lambda>c. gc_id c \<notin> set kept) (getCells m), s))
      in renderViews env m cells \<lparr>ro_sync = sync, ro_queue = Some (length (sc_arrays s))\<rparr>
           (s\<lparr>sc_arrays := sc_arrays s @ [map gc_id cells]\<rparr>))"

definition onCellAddedView :: "env \<Rightarrow> gmodel \<Rightarrow> gcell \<Rightarrow> ropts \<Rightarrow> scheduler \<Rightarrow> scheduler \<times> bool" where
  "onCellAddedView env m c opts s = renderViews env m [c] opts s"

definition onCellRemovedView :: "env \<Rightarrow> gmodel \<Rightarrow> string \<Rightarrow> scheduler \<Rightarrow> scheduler" where
  "onCellRemovedView env m i s = removeViews env m [i] s"

definition onCellZIndexChanged :: "env \<Rightarrow> gmodel \<Rightarrow> string \<Rightarrow> ropts \<Rightarrow> scheduler \<Rightarrow> scheduler \<times> bool" where
  "onCellZIndexChanged env m i opts s =
     (case view_at i s of
        None \<Rightarrow> (s, False)
      | Some it \<Rightarrow> requestViewUpdate env m (vi_view it) FLAG_INSERT opts JOB_Update True s)"

definition onCellVisibleChanged :: "gmodel \<Rightarrow> string \<Rightarrow> bool \<Rightarrow> scheduler \<Rightarrow> scheduler" where
  "onCellVisibleChanged m i current s = toggleVisible (cell_fuel m) m i current s"

text \<open>A view hears of the change of its cell and requests the actions of the changed attributes;
  changes of tools are drawn at once.\<close>

definition onCellChanged ::
  "env \<Rightarrow> gmodel \<Rightarrow> sview \<Rightarrow> (string \<Rightarrow> bool) \<Rightarrow> bool \<Rightarrow> bool \<Rightarrow> bool \<Rightarrow> ropts \<Rightarrow> scheduler \<Rightarrow> scheduler \<times> bool" where
  "onCellChanged env m v hasChanged updated dirty tool opts s =
     (case onAttrsChange (flags_of v) hasChanged updated dirty of
        None \<Rightarrow> (s, False)
      | Some f \<Rightarrow>
          requestViewUpdate env m v f (if tool then opts\<lparr>ro_sync := True\<rparr> else opts) JOB_Update True s)"

section \<open>The render area\<close>

definition flushWaitingViews :: "env \<Rightarrow> gmodel \<Rightarrow> scheduler \<Rightarrow> scheduler \<times> bool" where
  "flushWaitingViews env m s =
     then_call
       (calls (\<lambda>i s.
            case view_at i s of
              None \<Rightarrow> (s, False)
            | Some it \<Rightarrow>
                if vi_state it = WAITING
                then requestViewUpdate env m (vi_view it) (vi_flag it) (vi_opts it)
                       (getRenderPriority (vi_view it)) False s
                else (s, False))
          (key_order (map fst (sc_views s))) s)
       (\<lambda>s. (flush env m s, False))"

definition leave_area :: "env \<Rightarrow> gmodel \<Rightarrow> string \<Rightarrow> scheduler \<Rightarrow> scheduler" where
  "leave_area env m i s =
     (case view_at i s of
        None \<Rightarrow> s
      | Some it \<Rightarrow>
          if vi_state it = MOUNTED \<and> \<not> isUpdatable env m (vi_view it) s
          then upd_item i (\<lambda>it. it\<lparr>vi_state := WAITING,
                   vi_flag := vi_flag it OR (FLAG_INSERT OR getBootstrapFlag (flags_of (vi_view it)))\<rparr>)
                 (trigger_ev (EvUnmounted (sv_no (vi_view it))) (unmount (vi_view it) s))
          else s)"

definition setRenderArea :: "env \<Rightarrow> gmodel \<Rightarrow> nat option \<Rightarrow> scheduler \<Rightarrow> scheduler \<times> bool" where
  "setRenderArea env m area s =
     (let s = s\<lparr>sc_area := area\<rparr>;
          s = fold (leave_area env m) (key_order (map fst (sc_views s))) s
      in flushWaitingViews env m s)"

definition init_Scheduler :: "env \<Rightarrow> gmodel \<Rightarrow> scheduler \<times> bool" where
  "init_Scheduler env m = renderViews env m (getCells m) default_opts new_Scheduler"

text \<open>Lookups of the renderer (renderer/renderer.js).\<close>

definition findViewByCell :: "string \<Rightarrow> scheduler \<Rightarrow> sview option" where
  "findViewByCell i s = map_option vi_view (view_at i s)"

end
