(* ===== verification/Scheduler_Stage.thy ===== *)
theory Scheduler_Stage
  imports Scheduler
begin

text \<open>
  The stage is painted in bands: for every z-index in ascending order the elements of its views and
  then the comment that closes the band, behind all bands the elements that have lost their
  band. Every operation of the scheduler keeps this form, and mounting moves a view to the end of
  the band of its cell's z-index.
\<close>

section \<open>Bands\<close>

definition band :: "(int \<Rightarrow> nat list) \<Rightarrow> int \<Rightarrow> stage_child list" where
  "band B z = map Elem (B z) @ [Pivot z]"

definition painted :: "int list \<Rightarrow> (int \<Rightarrow> nat list) \<Rightarrow> nat list \<Rightarrow> stage_child list" where
  "painted zs B lost = concat (map (band B) zs) @ map Elem lost"

lemma painted_append: "painted (xs @ z # ys) B lost = concat (map (band B) xs) @ map Elem (B z) @ Pivot z # painted ys B lost"
  by (simp add: painted_def band_def)

lemma pivot_in_bands [simp]: "Pivot z \<in> set (concat (map (band B) zs)) \<longleftrightarrow> z \<in> set zs"
  by (auto simp: band_def)

lemma elem_in_bands [simp]: "Elem n \<in> set (concat (map (band B) zs)) \<longleftrightarrow> (\<exists>z \<in> set zs. n \<in> set (B z))"
  by (auto simp: band_def)

lemma pivot_in_painted [simp]: "Pivot z \<in> set (painted zs B lost) \<longleftrightarrow> z \<in> set zs"
  by (auto simp: painted_def band_def)

lemma elem_in_painted [simp]:
  "Elem n \<in> set (painted zs B lost) \<longleftrightarrow> (\<exists>z \<in> set zs. n \<in> set (B z)) \<or> n \<in> set lost"
  by (auto simp: painted_def band_def)

lemma painted_cong:
  "zs = zs' \<Longrightarrow> (\<And>z. z \<in> set zs' \<Longrightarrow> B z = B' z) \<Longrightarrow> painted zs B lost = painted zs' B' lost"
  by (simp add: painted_def band_def cong: map_cong)

section \<open>Changing the list of children\<close>

lemma dropWhile_split: "r \<notin> set xs \<Longrightarrow> dropWhile (\<lambda>y. y \<noteq> r) (xs @ r # ys) = r # ys"
  by (induction xs) auto

lemma takeWhile_split: "r \<notin> set xs \<Longrightarrow> takeWhile (\<lambda>y. y \<noteq> r) (xs @ r # ys) = xs"
  by (induction xs) auto

lemma insert_before_split:
  "r \<notin> set xs \<Longrightarrow> r \<noteq> x \<Longrightarrow>
   insert_before x (Some r) (xs @ r # ys) = removeAll x xs @ x # r # removeAll x ys"
  using dropWhile_split [of r "removeAll x xs" "removeAll x ys"]
    takeWhile_split [of r "removeAll x xs" "removeAll x ys"]
  by (simp add: insert_before_def Let_def)

lemma insert_front:
  "x \<notin> set xs \<Longrightarrow> insert_before x (case xs of [] \<Rightarrow> None | c # _ \<Rightarrow> Some c) xs = x # xs"
  by (cases xs) (auto simp: insert_before_def)

lemma insert_behind:
  assumes "distinct (xs @ r # ys)" "x \<notin> set (xs @ r # ys)"
  shows "insert_before x (nextSibling r (xs @ r # ys)) (xs @ r # ys) = xs @ r # x # ys"
proof (cases ys)
  case Nil
  then show ?thesis using assms dropWhile_split [of r xs "[]"] by (simp add: insert_before_def nextSibling_def)
next
  case (Cons y ys')
  have "nextSibling r (xs @ r # ys) = Some y"
    using assms dropWhile_split [of r xs ys] by (simp add: nextSibling_def Cons)
  then show ?thesis
    using insert_before_split [of y "xs @ [r]" x ys'] assms by (auto simp: Cons)
qed

lemma Max_step:
  "finite T \<Longrightarrow> Max (insert n (insert k T)) = Max (insert (if n < k then k else n) T)" for n k :: int
  by (cases "T = {}") (auto simp: max_def)

lemma neighborZ_fold:
  fixes z :: int
  assumes "n0 = None \<or> (\<exists>n. n0 = Some n \<and> n < z)"
  shows "fold (\<lambda>k n. if k < z \<and> (case n of None \<Rightarrow> True | Some n \<Rightarrow> k > n) then Some k else n) ks n0 =
    (let S = set_option n0 \<union> {k \<in> set ks. k < z} in if S = {} then None else Some (Max S))"
  using assms
proof (induction ks arbitrary: n0)
  case Nil
  then show ?case by (cases n0) (auto simp: Let_def)
next
  case (Cons k ks)
  let ?n1 = "if k < z \<and> (case n0 of None \<Rightarrow> True | Some n \<Rightarrow> k > n) then Some k else n0"
  let ?S = "set_option n0 \<union> {x \<in> set (k # ks). x < z}" and ?T = "set_option ?n1 \<union> {x \<in> set ks. x < z}"
  have p: "?n1 = None \<or> (\<exists>n. ?n1 = Some n \<and> n < z)" using Cons.prems by (auto split: option.splits)
  have "(if ?S = {} then None else Some (Max ?S)) = (if ?T = {} then None else Some (Max ?T))"
  proof (cases "k < z")
    case False
    then have "?S = ?T" by auto
    then show ?thesis by simp
  next
    case k: True
    show ?thesis
    proof (cases n0)
      case None
      then have "?S = ?T" using k by auto
      then show ?thesis by simp
    next
      case (Some n)
      have "Max ?S = Max (insert n (insert k {x \<in> set ks. x < z}))"
        using Some k by (intro arg_cong [of _ _ Max]) auto
      also have "\<dots> = Max (insert (if n < k then k else n) {x \<in> set ks. x < z})"
        by (rule Max_step) simp
      also have "\<dots> = Max ?T" using Some k by (intro arg_cong [of _ _ Max]) auto
      finally show ?thesis using Some k by (auto split: if_splits)
    qed
  qed
  then show ?case using Cons.IH [OF p] by (simp only: fold.simps comp_def Let_def)
qed

lemma neighborZ_Max:
  "neighborZ z ks = (let S = {k \<in> set ks. k < z} in if S = {} then None else Some (Max S))"
  unfolding neighborZ_def using neighborZ_fold [of None z ks] by simp

section \<open>Operations on bands\<close>

text \<open>A new band goes behind the nearest lower one, or to the front.\<close>

lemma sorted_split:
  fixes z :: int
  assumes "sorted zs" "distinct zs" "z \<notin> set zs"
  shows "zs = filter (\<lambda>x. x < z) zs @ filter (\<lambda>x. z < x) zs"
  using assms
proof (induction zs)
  case (Cons a zs)
  show ?case
  proof (cases "a < z")
    case False
    then have "z < x" if "x \<in> set (a # zs)" for x using that Cons.prems by force
    then have "filter (\<lambda>x. z < x) (a # zs) = a # zs" "filter (\<lambda>x. x < z) (a # zs) = []"
      by (auto simp: filter_id_conv filter_empty_conv dest: less_trans)
    then show ?thesis by simp
  qed (use Cons in auto)
qed simp

lemma insort_mid: "(\<And>a. a \<in> set A \<Longrightarrow> a < z) \<Longrightarrow> (\<And>c. c \<in> set C \<Longrightarrow> z < c) \<Longrightarrow> insort z (A @ C) = A @ z # C"
  for z :: int
  by (induction A) (cases C, auto simp: less_imp_le not_le [symmetric])

lemma painted_new_band:
  assumes zs: "sorted zs" "distinct zs" "z \<notin> set zs" and d: "distinct (painted zs B lost)"
    and keys: "set keys = insert z (set zs)"
  defines "st \<equiv> painted zs B lost"
  shows "(case neighborZ z keys of
            Some n \<Rightarrow> insert_before (Pivot z) (nextSibling (Pivot n) st) st
          | None \<Rightarrow> insert_before (Pivot z) (case st of [] \<Rightarrow> None | c # _ \<Rightarrow> Some c) st) =
         painted (insort z zs) (B(z := [])) lost"
proof -
  define A where "A = filter (\<lambda>x. x < z) zs"
  define C where "C = filter (\<lambda>x. z < x) zs"
  have zs': "zs = A @ C" using sorted_split [OF zs] by (simp add: A_def C_def)
  have A: "a < z" if "a \<in> set A" for a using that by (simp add: A_def)
  have C: "z < c" if "c \<in> set C" for c using that by (simp add: C_def)
  have ins: "insort z zs = A @ z # C" using insort_mid [OF A C] by (simp add: zs')
  let ?B = "B(z := [])"
  have st: "st = painted (A @ C) ?B lost"
    unfolding st_def zs' using A C by (intro painted_cong) force+
  have fresh: "Pivot z \<notin> set st" using zs(3) by (simp add: st_def)
  have low: "{k \<in> set keys. k < z} = set A" using keys zs(3) by (auto simp: A_def)
  show ?thesis
  proof (cases "A = []")
    case True
    then have "neighborZ z keys = None" using low by (simp add: neighborZ_Max)
    moreover have "painted (insort z zs) ?B lost = Pivot z # st"
      unfolding ins st True by (simp add: painted_def band_def)
    ultimately show ?thesis using insert_front [OF fresh] by simp
  next
    case False
    then obtain A' n where A': "A = A' @ [n]" by (metis rev_exhaust)
    have "sorted A" using zs(1) by (simp add: A_def sorted_wrt_filter)
    then have "\<forall>a \<in> set A'. a \<le> n" by (simp add: A' sorted_append)
    then have "Max (set A) = n" by (intro Max_eqI) (auto simp: A')
    then have nb: "neighborZ z keys = Some n" using low False by (simp add: neighborZ_Max)
    let ?X = "concat (map (band ?B) A') @ map Elem (?B n)" and ?Y = "painted C ?B lost"
    have s: "st = ?X @ Pivot n # ?Y" unfolding st A' using painted_append [of A' n C ?B lost] by simp
    have "painted (insort z zs) ?B lost = ?X @ Pivot n # Pivot z # ?Y"
      unfolding ins A' using painted_append [of A' n "z # C" ?B lost] by (simp add: painted_def band_def)
    moreover have "insert_before (Pivot z) (nextSibling (Pivot n) st) st = ?X @ Pivot n # Pivot z # ?Y"
      unfolding s by (rule insert_behind) (use d fresh in \<open>simp_all only: s st_def [symmetric], auto\<close>)
    ultimately show ?thesis by (simp add: nb)
  qed
qed

text \<open>Removing an element takes it out of its band; mounting moves it to the end of one.\<close>

lemma removeAll_painted:
  "removeAll (Elem n) (painted zs B lost) = painted zs (\<lambda>z. removeAll n (B z)) (removeAll n lost)"
proof -
  have e: "removeAll (Elem n) (map Elem xs) = map Elem (removeAll n xs)" for xs by (induction xs) auto
  have "removeAll (Elem n) (concat (map (band B) zs)) = concat (map (band (\<lambda>z. removeAll n (B z))) zs)"
    by (induction zs) (simp_all add: band_def e removeAll_append)
  then show ?thesis by (simp add: painted_def e removeAll_append)
qed

lemma painted_mount:
  assumes "distinct zs" "z \<in> set zs"
  shows "insert_before (Elem n) (Some (Pivot z)) (painted zs B lost) =
    painted zs (\<lambda>y. if y = z then removeAll n (B z) @ [n] else removeAll n (B y)) (removeAll n lost)"
proof -
  obtain A C where zs: "zs = A @ z # C" using assms(2) by (metis split_list)
  let ?R = "\<lambda>z. removeAll n (B z)"
  let ?B = "\<lambda>y. if y = z then ?R z @ [n] else ?R y"
  let ?X = "concat (map (band ?R) A) @ map Elem (?R z)"
  have AC: "z \<notin> set A" "z \<notin> set C" using assms(1) by (auto simp: zs)
  have e: "removeAll (Elem n) (painted zs B lost) = ?X @ Pivot z # painted C ?R (removeAll n lost)"
    unfolding removeAll_painted zs by (simp add: painted_append)
  have "insert_before (Elem n) (Some (Pivot z)) (painted zs B lost) =
      ?X @ Elem n # Pivot z # painted C ?R (removeAll n lost)"
  proof -
    have "Pivot z \<notin> set ?X" using AC(1) pivot_in_bands [of z ?R A] by (auto simp del: pivot_in_bands)
    note dropWhile_split [OF this] takeWhile_split [OF this]
    then show ?thesis unfolding insert_before_def Let_def e by (simp only: option.case)
  qed
  also have "\<dots> = painted zs ?B (removeAll n lost)"
  proof -
    have "map (band ?B) A = map (band ?R) A" "map (band ?B) C = map (band ?R) C"
      using AC by (auto simp: band_def)
    then show ?thesis unfolding zs painted_append painted_def by (simp add: band_def [of _ z] del: map_eq_conv)
  qed
  finally show ?thesis .
qed

section \<open>The state of the scheduler\<close>

text \<open>Every element is in one place.\<close>

definition once :: "(int \<Rightarrow> nat list) \<Rightarrow> nat list \<Rightarrow> bool" where
  "once B lost \<longleftrightarrow> (\<forall>z. distinct (B z)) \<and> (\<forall>y z n. n \<in> set (B y) \<longrightarrow> n \<in> set (B z) \<longrightarrow> y = z) \<and>
     distinct lost \<and> (\<forall>z. set (B z) \<inter> set lost = {})"

lemma distinct_painted: "distinct zs \<Longrightarrow> once B lost \<Longrightarrow> distinct (painted zs B lost)"
proof (induction zs)
  case Nil
  then show ?case by (simp add: painted_def once_def distinct_map inj_on_def)
next
  case (Cons z zs)
  have "painted (z # zs) B lost = map Elem (B z) @ Pivot z # painted zs B lost"
    using painted_append [of "[]" z zs] by simp
  moreover have "distinct (map Elem (B z))" using Cons.prems by (simp add: once_def distinct_map inj_on_def)
  moreover have "n \<notin> set lost \<and> (\<forall>y \<in> set zs. n \<notin> set (B y))" if "n \<in> set (B z)" for n
    using that Cons.prems unfolding once_def by force
  ultimately show ?case using Cons by auto
qed

definition stage_rel :: "scheduler \<Rightarrow> (int \<Rightarrow> nat list) \<Rightarrow> nat list \<Rightarrow> bool" where
  "stage_rel s B lost \<longleftrightarrow> distinct (sc_zPivots s) \<and> once B lost \<and>
     sc_stage s = painted (sort (sc_zPivots s)) B lost \<and> (\<forall>z. z \<notin> set (sc_zPivots s) \<longrightarrow> B z = [])"

definition stage_ok :: "scheduler \<Rightarrow> bool" where
  "stage_ok s \<longleftrightarrow> (\<exists>B lost. stage_rel s B lost)"

definition drop_elem :: "(int \<Rightarrow> nat list) \<Rightarrow> nat \<Rightarrow> int \<Rightarrow> nat list" where
  "drop_elem B n = (\<lambda>z. removeAll n (B z))"

definition mount_elem :: "(int \<Rightarrow> nat list) \<Rightarrow> nat \<Rightarrow> int \<Rightarrow> int \<Rightarrow> nat list" where
  "mount_elem B n z = (\<lambda>y. if y = z then removeAll n (B z) @ [n] else removeAll n (B y))"

lemma once_drop: "once B lost \<Longrightarrow> once (drop_elem B n) (removeAll n lost)"
  unfolding once_def drop_elem_def by (simp add: distinct_removeAll) blast

lemma once_mount: "once B lost \<Longrightarrow> once (mount_elem B n z) (removeAll n lost)"
  unfolding once_def mount_elem_def by (simp add: distinct_removeAll) blast

lemma stage_rel_cong:
  "sc_zPivots s' = sc_zPivots s \<Longrightarrow> sc_stage s' = sc_stage s \<Longrightarrow> stage_rel s' B lost = stage_rel s B lost"
  by (simp add: stage_rel_def)

lemma sort_snoc_fresh: "sort (xs @ [z]) = insort z (sort xs)" for z :: int
  by (rule properties_for_sort) (auto simp: sorted_insort)

lemma stage_rel_pivot:
  assumes "stage_rel s B lost"
  shows "stage_rel (addZPivot z s) B lost" and "z \<in> set (sc_zPivots (addZPivot z s))"
proof -
  note R = assms[unfolded stage_rel_def]
  show "stage_rel (addZPivot z s) B lost"
  proof (cases "z \<in> set (sc_zPivots s)")
    case False
    then have B: "B(z := []) = B" using R by (simp add: fun_upd_idem)
    let ?zs = "sort (sc_zPivots s)"
    have st: "(case neighborZ z (sc_zPivots s @ [z]) of
           Some n \<Rightarrow> insert_before (Pivot z) (nextSibling (Pivot n) (sc_stage s)) (sc_stage s)
         | None \<Rightarrow> insert_before (Pivot z) (case sc_stage s of [] \<Rightarrow> None | c # _ \<Rightarrow> Some c) (sc_stage s)) =
       painted (insort z ?zs) B lost"
      using painted_new_band [of ?zs z B lost "sc_zPivots s @ [z]"] R False
      by (simp only: B) (simp add: distinct_painted)
    show ?thesis
      using R False st by (simp add: stage_rel_def addZPivot_def Let_def sort_snoc_fresh)
  qed (use assms in \<open>simp add: addZPivot_def\<close>)
  show "z \<in> set (sc_zPivots (addZPivot z s))" by (simp add: addZPivot_def Let_def)
qed

lemma stage_rel_mount:
  assumes "stage_rel s B lost" "z \<in> set (sc_zPivots s)"
  shows "stage_rel (s\<lparr>sc_stage := insert_before (Elem n) (Some (Pivot z)) (sc_stage s)\<rparr>)
    (mount_elem B n z) (removeAll n lost)"
  using assms painted_mount [of "sort (sc_zPivots s)" z n B lost]
    once_mount [of B lost n z]
  by (auto simp: stage_rel_def mount_elem_def)

lemma stage_rel_unmount:
  "stage_rel s B lost \<Longrightarrow> stage_rel (unmount v s) (drop_elem B (sv_no v)) (removeAll (sv_no v) lost)"
  by (simp add: stage_rel_def unmount_def removeAll_painted once_drop) (simp add: drop_elem_def)

lemma stage_rel_removeZPivots:
  assumes "stage_rel s B lost"
  shows "stage_rel (removeZPivots s) (\<lambda>_. []) (concat (map B (sort (sc_zPivots s))) @ lost)"
proof -
  note R = assms[unfolded stage_rel_def]
  let ?P = "\<lambda>c. case c of Pivot z \<Rightarrow> z \<notin> set (sc_zPivots s) | Elem _ \<Rightarrow> True"
  have b: "filter ?P (concat (map (band B) zs)) = map Elem (concat (map B zs))" if "set zs \<subseteq> set (sc_zPivots s)" for zs
    using that by (induction zs) (auto simp: band_def)
  have "filter ?P (map Elem lost) = map Elem lost" by (simp add: filter_id_conv)
  then have st: "sc_stage (removeZPivots s) = map Elem (concat (map B (sort (sc_zPivots s))) @ lost)"
    using R b [of "sort (sc_zPivots s)"] by (simp add: removeZPivots_def painted_def)
  have "distinct (painted (sort (sc_zPivots s)) B lost)" using R distinct_painted by simp
  then have "distinct (sc_stage s)" using R by simp
  then have "distinct (map Elem (concat (map B (sort (sc_zPivots s))) @ lost))"
    unfolding st [symmetric] by (simp add: removeZPivots_def)
  then have "distinct (concat (map B (sort (sc_zPivots s))) @ lost)" by (simp only: distinct_map)
  then show ?thesis using st by (simp add: stage_rel_def once_def painted_def removeZPivots_def)
qed

section \<open>Every operation keeps the bands\<close>

named_theorems stage_intros

lemma stage_okI [stage_intros]: "stage_rel s B lost \<Longrightarrow> stage_ok s"
  by (auto simp: stage_ok_def)

text \<open>Updates of the other fields of the state.\<close>

lemma stage_ok_frame [simp]:
  "stage_ok (s\<lparr>sc_views := x1\<rparr>) = stage_ok s" "stage_ok (s\<lparr>sc_willRemove := x2\<rparr>) = stage_ok s"
  "stage_ok (s\<lparr>sc_hidden := x3\<rparr>) = stage_ok s" "stage_ok (s\<lparr>sc_area := x4\<rparr>) = stage_ok s"
  "stage_ok (s\<lparr>sc_jq := x5\<rparr>) = stage_ok s" "stage_ok (s\<lparr>sc_closures := x6\<rparr>) = stage_ok s"
  "stage_ok (s\<lparr>sc_arrays := x7\<rparr>) = stage_ok s" "stage_ok (s\<lparr>sc_log := x8\<rparr>) = stage_ok s"
  "stage_ok (s\<lparr>sc_next := x9\<rparr>) = stage_ok s"
  by (simp_all add: stage_ok_def stage_rel_def)

lemma stage_ok_updates [simp]:
  "stage_ok (upd_item i f s) = stage_ok s" "stage_ok (trigger_ev e s) = stage_ok s"
  "stage_ok (queue_closure i p cl s) = stage_ok s" "stage_ok (upd_jq g s) = stage_ok s"
  "stage_ok (pop_job as s) = stage_ok s"
  by (simp_all add: upd_item_def trigger_ev_def queue_closure_def upd_jq_def pop_job_def split: option.splits)

lemma stage_ok_new: "stage_ok new_Scheduler"
  unfolding stage_ok_def stage_rel_def new_Scheduler_def
  by (intro exI [of _ "\<lambda>_. []"] exI [of _ "[]"]) (simp add: painted_def once_def)

lemma toggleVisible_frame:
  "sc_stage (toggleVisible n m i b s) = sc_stage s \<and> sc_zPivots (toggleVisible n m i b s) = sc_zPivots s"
proof (induction n arbitrary: i b s)
  case (Suc n)
  let ?f = "\<lambda>edge s. if b then (if \<not> shown (getSourceCell edge m) \<or> \<not> shown (getTargetCell edge m) then s
                  else toggleVisible n m (gc_id edge) True s) else toggleVisible n m (gc_id edge) False s"
  have "sc_stage (fold ?f es s) = sc_stage s \<and> sc_zPivots (fold ?f es s) = sc_zPivots s" for es s
    by (induction es arbitrary: s) (simp_all add: Suc)
  then show ?case by (simp add: Let_def split: option.splits)
qed simp

lemma stage_ok_toggleVisible [simp]: "stage_ok (toggleVisible n m i b s) = stage_ok s"
  using toggleVisible_frame [of n m i b s] by (simp add: stage_ok_def stage_rel_def)

lemma stage_ok_unmount: "stage_ok s \<Longrightarrow> stage_ok (unmount v s)"
  unfolding stage_ok_def by (blast intro: stage_rel_unmount)

lemma stage_ok_insertView: "stage_ok s \<Longrightarrow> stage_ok (insertView m v s)"
proof -
  assume "stage_ok s"
  then obtain B lost where R: "stage_rel s B lost" by (auto simp: stage_ok_def)
  have "stage_ok (let t = addZPivot z s in t\<lparr>sc_stage := insert_before (Elem (sv_no v)) (Some (Pivot z)) (sc_stage t)\<rparr>)" for z
    using stage_rel_mount [OF stage_rel_pivot [OF R]] by (auto simp: stage_ok_def Let_def)
  then show ?thesis using \<open>stage_ok s\<close> by (simp add: insertView_def Let_def split: option.splits)
qed

lemma stage_ok_updateView:
  assumes "stage_ok s" and "updateView env m v f s = (r, s')" shows "stage_ok s'"
  using assms stage_ok_insertView [OF assms(1), of m v]
  by (auto simp: updateView_def confirmUpdate_def Let_def split: if_splits option.splits prod.splits)

lemma stage_ok_removeView: "stage_ok s \<Longrightarrow> stage_ok (removeView v s)"
  by (simp add: removeView_def stage_ok_unmount split: option.splits)

lemma stage_ok_renderViewInArea:
  assumes "stage_ok s" shows "stage_ok (fst (renderViewInArea env m v f s))"
  using assms
  by (auto simp: renderViewInArea_def Let_def stage_ok_unmount split: option.splits prod.splits
      dest: stage_ok_updateView)

lemma stage_ok_note_rendered [simp]: "stage_ok (note_rendered v opts s) = stage_ok s"
  by (simp add: note_rendered_def Let_def split: option.splits)

lemma stage_ok_run_closure:
  assumes "stage_ok s" shows "stage_ok (fst (run_closure env m cl s))"
proof (cases cl)
  case (CRender v f opts)
  then show ?thesis using stage_ok_renderViewInArea [OF assms, of env m v f]
    by (simp add: run_closure_def then_call_def)
next
  case (CUpdate v f)
  then show ?thesis using stage_ok_updateView [OF assms] by (simp add: run_closure_def split: prod.splits)
next
  case (CRemove v)
  then show ?thesis using stage_ok_removeView [OF assms] by (simp add: run_closure_def)
qed

lemma stage_ok_run_job: "stage_ok s \<Longrightarrow> stage_ok (fst (run_job env m a s))"
  by (simp add: run_job_def stage_ok_run_closure split: option.splits)

lemma stage_ok_flush_sync_loop: "stage_ok s \<Longrightarrow> stage_ok (flush_sync_loop n env m s)"
proof (induction n arbitrary: s)
  case 0
  then show ?case by (simp add: flush_sync_loop.simps split: list.splits)
next
  case (Suc n)
  then show ?case
    by (subst flush_sync_loop.simps) (simp add: Let_def stage_ok_run_job split: list.splits)
qed

text \<open>The loop, by the state of the queue and the outcome of the job.\<close>

definition after_job :: "env \<Rightarrow> string \<Rightarrow> scheduler \<Rightarrow> nat \<times> scheduler" where
  "after_job env i s =
     (let (t, q) = read_clock (en_window env) (delete_pending i (sc_jq s)) in (t, s\<lparr>sc_jq := q\<rparr>))"

lemma flush_loop_Nil: "queue (sc_jq s) = [] \<Longrightarrow> flush_loop n env m t0 b s = upd_jq (end_flush (en_window env)) s"
  by (simp add: flush_loop.simps)

lemma flush_loop_Cons:
  assumes "queue (sc_jq s) = a # as" "run_job env m a (pop_job as s) = (s1, thrown)"
    "after_job env (job_id (objs (sc_jq s) ! a)) s1 = (t, s2)"
  shows "flush_loop (Suc n) env m t0 b s =
     (if thrown then s1 else if int t - int t0 \<ge> int b then upd_jq (end_flush (en_window env)) s2
      else flush_loop n env m t0 b s2)"
  using assms by (subst flush_loop.simps) (auto simp: after_job_def Let_def split: prod.splits bool.splits)

lemma stage_ok_after_job [simp]: "stage_ok (snd (after_job env i s)) = stage_ok s"
  by (simp add: after_job_def split: prod.splits)

lemma stage_ok_flush_loop: "stage_ok s \<Longrightarrow> stage_ok (flush_loop n env m t0 b s)"
proof (induction n arbitrary: s)
  case 0
  then show ?case by (simp add: flush_loop.simps split: list.splits)
next
  case (Suc n)
  show ?case
  proof (cases "queue (sc_jq s)")
    case (Cons a as)
    obtain s1 thrown where r: "run_job env m a (pop_job as s) = (s1, thrown)" by (meson surj_pair)
    obtain t s2 where t: "after_job env (job_id (objs (sc_jq s) ! a)) s1 = (t, s2)" by (meson surj_pair)
    have "stage_ok s1" using stage_ok_run_job [of "pop_job as s" env m a] Suc.prems r by simp
    then have "stage_ok s2" using stage_ok_after_job [of env "job_id (objs (sc_jq s) ! a)" s1] t by simp
    then show ?thesis using Suc.IH \<open>stage_ok s1\<close> by (simp add: flush_loop_Cons [OF Cons r t])
  qed (use Suc.prems in \<open>simp add: flush_loop_Nil\<close>)
qed

lemma stage_ok_flush: "stage_ok s \<Longrightarrow> stage_ok (flush env m s)"
  by (simp add: flush_def stage_ok_flush_sync_loop)

lemma stage_ok_fire: "stage_ok s \<Longrightarrow> stage_ok (fire env m d s)"
  by (simp add: fire_def Let_def stage_ok_flush_loop split: list.splits prod.splits)

lemma stage_ok_submit: "stage_ok s \<Longrightarrow> stage_ok (fst (submit env m i p cl s))"
  by (simp add: submit_def stage_ok_run_closure)

lemma then_call_inv: "P (fst r) \<Longrightarrow> (\<And>s. P s \<Longrightarrow> P (fst (f s))) \<Longrightarrow> P (fst (then_call r f))"
  by (simp add: then_call_def)

lemma calls_inv:
  assumes "P s" and "\<And>x s. x \<in> set xs \<Longrightarrow> P s \<Longrightarrow> P (fst (f x s))"
  shows "P (fst (calls f xs s))"
proof -
  have "P (fst (fold (\<lambda>x r. then_call r (f x)) xs r))" if "P (fst r)" for r
    using that assms(2)
  proof (induction xs arbitrary: r)
    case (Cons x xs)
    have "P (fst (then_call r (f x)))" by (rule then_call_inv [of P]) (use Cons.prems in auto)
    then show ?case using Cons.IH Cons.prems(2) by simp
  qed simp
  then show ?thesis using assms(1) by (simp add: calls_def)
qed

lemmas stage_then = then_call_inv [of stage_ok]
lemmas stage_calls = calls_inv [of stage_ok]

lemma stage_ok_request_jobs: "stage_ok s \<Longrightarrow> stage_ok (fst (request_jobs n env m v f opts p s))"
proof (induction n arbitrary: v f p s)
  case (Suc n)
  then show ?case
    by (simp add: Let_def split: option.splits) (intro conjI allI impI stage_then stage_calls stage_ok_submit; simp)
qed simp

lemma stage_ok_request: "stage_ok s \<Longrightarrow> stage_ok (fst (requestViewUpdate env m v f opts p fl s))"
  unfolding requestViewUpdate_def by (rule stage_then) (simp_all add: stage_ok_request_jobs stage_ok_flush)

lemma stage_ok_render_cell: "stage_ok s \<Longrightarrow> stage_ok (fst (render_cell env m opts c s))"
  by (simp add: render_cell_def create_view_def stage_ok_request Let_def split: option.splits)

lemma stage_ok_renderViews: "stage_ok s \<Longrightarrow> stage_ok (fst (renderViews env m cells opts s))"
  unfolding renderViews_def
  by (intro stage_then stage_calls) (simp_all add: stage_ok_render_cell stage_ok_flush)

lemma stage_ok_flushWaitingViews: "stage_ok s \<Longrightarrow> stage_ok (fst (flushWaitingViews env m s))"
  unfolding flushWaitingViews_def
  by (intro stage_then stage_calls) (simp_all add: stage_ok_request stage_ok_flush split: option.splits)

lemma stage_ok_removeViews:
  assumes "stage_ok s" shows "stage_ok (removeViews env m is s)"
proof -
  have "stage_ok (fold (\<lambda>i s. case view_at i s of None \<Rightarrow> s
      | Some it \<Rightarrow> queue_closure i (getRenderPriority (vi_view it)) (CRemove (vi_view it))
          (s\<lparr>sc_willRemove := map_put (sc_willRemove s) i it, sc_views := map_del (sc_views s) i\<rparr>)) is s)"
    using assms by (induction "is" arbitrary: s) (simp_all split: option.splits)
  then show ?thesis by (simp add: removeViews_def stage_ok_flush)
qed

lemma stage_ok_removeZPivots: "stage_ok s \<Longrightarrow> stage_ok (removeZPivots s)"
  unfolding stage_ok_def by (blast intro: stage_rel_removeZPivots)

lemma stage_ok_resetViews: "stage_ok s \<Longrightarrow> stage_ok (resetViews s)"
proof -
  have "stage_ok (fold (\<lambda>i s. case map_of (sc_willRemove s) i of None \<Rightarrow> s | Some it \<Rightarrow> removeView (vi_view it) s) is t)"
    if "stage_ok t" for "is" t
    using that by (induction "is" arbitrary: t) (simp_all add: stage_ok_removeView split: option.splits)
  then show "stage_ok s \<Longrightarrow> stage_ok (resetViews s)" by (simp add: resetViews_def Let_def)
qed

lemma stage_ok_leave_area: "stage_ok s \<Longrightarrow> stage_ok (leave_area env m i s)"
  by (simp add: leave_area_def stage_ok_unmount split: option.splits)

section \<open>Events\<close>

text \<open>What happens to the scheduler, together with the model as it is then.\<close>

datatype sched_event = ECellAdded gcell ropts | ECellRemoved string | EZIndex string ropts
  | EVisible string bool | EReseted bool bool "string list"
  | EChanged string "string list" bool bool bool ropts | EArea "nat option" | EFire "nat option"

definition sched_step :: "env \<Rightarrow> gmodel \<times> sched_event \<Rightarrow> scheduler \<Rightarrow> scheduler" where
  "sched_step env e s =
     (case e of (m, ev) \<Rightarrow>
        case ev of
          ECellAdded c opts \<Rightarrow> fst (onCellAddedView env m c opts s)
        | ECellRemoved i \<Rightarrow> onCellRemovedView env m i s
        | EZIndex i opts \<Rightarrow> fst (onCellZIndexChanged env m i opts s)
        | EVisible i b \<Rightarrow> onCellVisibleChanged m i b s
        | EReseted sync diff previous \<Rightarrow> fst (onModelReseted env m sync diff previous s)
        | EChanged i keys updated dirty tool opts \<Rightarrow>
            (case view_at i s of
               None \<Rightarrow> s
             | Some it \<Rightarrow> fst (onCellChanged env m (vi_view it) (\<lambda>k. k \<in> set keys) updated dirty tool opts s))
        | EArea area \<Rightarrow> fst (setRenderArea env m area s)
        | EFire deadline \<Rightarrow> fire env m deadline s)"

lemma stage_ok_setRenderArea: "stage_ok s \<Longrightarrow> stage_ok (fst (setRenderArea env m area s))"
proof -
  have "stage_ok (fold (leave_area env m) is t)" if "stage_ok t" for "is" t
    using that by (induction "is" arbitrary: t) (simp_all add: stage_ok_leave_area)
  then show "stage_ok s \<Longrightarrow> stage_ok (fst (setRenderArea env m area s))"
    by (simp add: setRenderArea_def Let_def stage_ok_flushWaitingViews)
qed

lemma stage_ok_step:
  assumes "stage_ok s" shows "stage_ok (sched_step env e s)"
proof -
  obtain m ev where e: "e = (m, ev)" by (cases e)
  show ?thesis
    using assms unfolding e
    by (cases ev)
       (auto simp: sched_step_def onCellAddedView_def onCellRemovedView_def onCellZIndexChanged_def
          onCellVisibleChanged_def onModelReseted_def onCellChanged_def Let_def stage_ok_renderViews
          stage_ok_removeViews stage_ok_request stage_ok_resetViews stage_ok_removeZPivots
          stage_ok_setRenderArea stage_ok_fire split: option.splits prod.splits if_splits)
qed

lemma stage_ok_steps: "stage_ok s \<Longrightarrow> stage_ok (fold (sched_step env) evs s)"
  by (induction evs arbitrary: s) (simp_all add: stage_ok_step)

lemma stage_rel_insertView:
  assumes "stage_rel s B lost" "view_at (sv_cell v) s \<noteq> None" "getCell (sv_cell v) m = Some c"
  shows "stage_rel (insertView m v s) (mount_elem B (sv_no v) (z_of c)) (removeAll (sv_no v) lost)"
proof -
  let ?z = "z_of c" and ?s = "addZPivot (z_of c) s"
  define s1 where "s1 = ?s\<lparr>sc_stage := insert_before (Elem (sv_no v)) (Some (Pivot ?z)) (sc_stage ?s)\<rparr>"
  have R: "stage_rel s1 (mount_elem B (sv_no v) ?z) (removeAll (sv_no v) lost)"
    unfolding s1_def by (rule stage_rel_mount [OF stage_rel_pivot [OF assms(1)]])
  define s2 where "s2 = (if \<not> isVisible c then toggleVisible (cell_fuel m) m (sv_cell v) False s1 else s1)"
  have f: "sc_zPivots (insertView m v s) = sc_zPivots s2" "sc_stage (insertView m v s) = sc_stage s2"
    using assms(2,3)
    by (auto simp: insertView_def s1_def s2_def Let_def trigger_ev_def upd_item_def split: option.splits)
  have "sc_zPivots s2 = sc_zPivots s1" "sc_stage s2 = sc_stage s1"
    using toggleVisible_frame by (simp_all add: s2_def)
  then show ?thesis using R f by (simp add: stage_rel_def)
qed

text \<open>A model with one node, whose view waits in the queue.\<close>

definition shown_cell :: gcell where
  "shown_cell = \<lparr>gc_id = ''a'', gc_edge = False, gc_source = None, gc_target = None, gc_z = Some 2, gc_props = []\<rparr>"

definition shown_model :: gmodel where
  "shown_model = addCell shown_cell newModel"

definition shown_env :: env where
  "shown_env = \<lparr>en_async = True, en_virtual = False, en_css = True,
     en_window = \<lparr>has_raf = True, has_idle = False, clock = (\<lambda>n. n)\<rparr>,
     en_norender = (\<lambda>_. False), en_meets = (\<lambda>_ _. True)\<rparr>"

definition shown_view :: sview where
  "shown_view = \<lparr>sv_no = 0, sv_cell = ''a'', sv_edge = False\<rparr>"

definition shown_sched :: scheduler where
  "shown_sched = fold (sched_step shown_env) [(shown_model, ECellAdded shown_cell default_opts)] new_Scheduler"


lemma shown_model_cells: "getCell ''a'' shown_model = Some shown_cell"
  by code_simp

lemma ex_fuel: "cell_fuel shown_model = Suc 1"
  by code_simp
lemma ex_edges: "getConnectedEdges ''a'' True True shown_model = []"
  by code_simp
lemma ex_flag: "\<not> hasAction node_flags (FLAG_INSERT OR getBootstrapFlag node_flags) [''translate'', ''resize'', ''rotate'']"
  by code_simp


lemma shown_sched_views: "view_at ''a'' shown_sched \<noteq> None" "sc_zPivots shown_sched = []"
proof -
  let ?s = "new_Scheduler\<lparr>sc_next := 1,
    sc_views := [(''a'', \<lparr>vi_view = shown_view, vi_flag = FLAG_INSERT OR getBootstrapFlag node_flags,
      vi_opts = default_opts, vi_state = CREATED\<rparr>)]\<rparr>"
  have e: "getEffectedEdges shown_model shown_view t = []" for t
    by (simp add: getEffectedEdges_def shown_view_def ex_edges)
  have v: "\<lparr>sv_no = 0, sv_cell = ''a'', sv_edge = False\<rparr> = shown_view" by (simp add: shown_view_def)
  have f: "flags_of shown_view = node_flags" "sv_cell shown_view = ''a''" "sv_edge shown_view = False"
    by (simp_all add: shown_view_def flags_of_def)
  have n: "gc_id shown_cell = ''a''" "gc_edge shown_cell = False" by (simp_all add: shown_cell_def)
  have "render_cell shown_env shown_model default_opts shown_cell new_Scheduler =
      (queue_closure (job_key ''a'' (FLAG_INSERT OR getBootstrapFlag node_flags)) JOB_RenderNode
        (CRender shown_view (FLAG_INSERT OR getBootstrapFlag node_flags) default_opts) ?s, False)"
    by (simp add: render_cell_def create_view_def requestViewUpdate_def ex_fuel f v n e ex_flag
      new_Scheduler_def view_at_def upd_item_def shown_env_def calls_def then_call_def submit_def
      default_opts_def getRenderPriority_def is_prior_def JOB_RenderNode_def JOB_PRIOR_def Let_def)
  then have "sc_views shown_sched = sc_views ?s" "sc_zPivots shown_sched = []"
    by (simp_all add: shown_sched_def sched_step_def onCellAddedView_def renderViews_def calls_def
      then_call_def flush_def shown_env_def upd_jq_def queue_closure_def new_Scheduler_def)
  then show "view_at ''a'' shown_sched \<noteq> None" "sc_zPivots shown_sched = []" by (simp_all add: view_at_def)
qed

lemma ex_pivots: "sc_zPivots (insertView shown_model shown_view shown_sched) = [2]"
  using shown_sched_views toggleVisible_frame
  by (auto simp: insertView_def shown_view_def shown_model_cells shown_cell_def z_of_def Let_def addZPivot_def upd_item_def
    trigger_ev_def isVisible_def split: option.splits)

text \<open>C40: Whatever happens to the model and to the scheduler, in whatever order and with whatever
  jobs pending, the children of the stage are the bands of the z-indexes in ascending order, every
  element in one place; and mounting a view moves its element to the end of the band of its cell's
  z-index and leaves the order of all others as it is.\<close>

theorem stage_stays_stacked:
  fixes env evs
  defines "s \<equiv> fold (sched_step env) evs new_Scheduler"
  shows "\<exists>B lost. once B lost \<and> sc_stage s = painted (sort (sc_zPivots s)) B lost \<and>
    (\<forall>m v c. view_at (sv_cell v) s \<noteq> None \<longrightarrow> getCell (sv_cell v) m = Some c \<longrightarrow>
      sc_stage (insertView m v s) =
        painted (sort (sc_zPivots (insertView m v s)))
          (\<lambda>y. removeAll (sv_no v) (B y) @ (if y = z_of c then [sv_no v] else []))
          (removeAll (sv_no v) lost))"
proof -
  have "stage_ok s" unfolding s_def by (rule stage_ok_steps [OF stage_ok_new])
  then obtain B lost where R: "stage_rel s B lost" by (auto simp: stage_ok_def)
  have "sc_stage (insertView m v s) =
        painted (sort (sc_zPivots (insertView m v s)))
          (\<lambda>y. removeAll (sv_no v) (B y) @ (if y = z_of c then [sv_no v] else []))
          (removeAll (sv_no v) lost)"
    if "view_at (sv_cell v) s \<noteq> None" "getCell (sv_cell v) m = Some c" for m v c
  proof -
    have "mount_elem B (sv_no v) (z_of c) =
        (\<lambda>y. removeAll (sv_no v) (B y) @ (if y = z_of c then [sv_no v] else []))"
      by (auto simp: mount_elem_def)
    then show ?thesis using stage_rel_insertView [OF R that] by (simp add: stage_rel_def)
  qed
  then show ?thesis using R unfolding stage_rel_def by blast
qed

lemma stage_stays_stacked_witness:
  "\<exists>B lost. sc_stage (insertView shown_model shown_view shown_sched) =
     map Elem (B @ [0]) @ [Pivot 2] @ map Elem lost"
proof -
  have c: "getCell (sv_cell shown_view) shown_model = Some shown_cell" "z_of shown_cell = 2"
    using shown_model_cells by (simp_all add: shown_view_def shown_cell_def z_of_def)
  have v: "view_at (sv_cell shown_view) shown_sched \<noteq> None" using shown_sched_views by (simp add: shown_view_def)
  obtain B lost where R: "\<And>m v c. view_at (sv_cell v) shown_sched \<noteq> None \<Longrightarrow> getCell (sv_cell v) m = Some c \<Longrightarrow>
      sc_stage (insertView m v shown_sched) =
        painted (sort (sc_zPivots (insertView m v shown_sched)))
          (\<lambda>y. removeAll (sv_no v) (B y) @ (if y = z_of c then [sv_no v] else []))
          (removeAll (sv_no v) lost)"
    using stage_stays_stacked [of shown_env "[(shown_model, ECellAdded shown_cell default_opts)]"]
    unfolding shown_sched_def by blast
  have "sc_stage (insertView shown_model shown_view shown_sched) =
      map Elem (removeAll 0 (B 2) @ [0]) @ [Pivot 2] @ map Elem (removeAll 0 lost)"
    using R [OF v c(1)] by (simp add: painted_def band_def ex_pivots c(2)) (simp add: shown_view_def)
  then show ?thesis by blast
qed

end
