(* ===== verification/Scheduler_Jobs.thy ===== *)
theory Scheduler_Jobs
  imports Scheduler_Stage
begin

text \<open>
  The job queue as its clients see it: a table from the keys of jobs to what will be run for them.
  Queueing a job enters it, a job that is run is taken out, and a job queued under the key of the job
  that is being run is lost. The scheduler's view of the table has closures in place of numbers.
\<close>

section \<open>The table of the queue\<close>

definition job_table :: "jobq \<Rightarrow> string \<Rightarrow> qcmd list option" where
  "job_table q k =
     (case pendingJobs q k of
        None \<Rightarrow> None
      | Some a \<Rightarrow> if a \<in> set (queue q) then Some (job_cb (objs q ! a)) else None)"

text \<open>Between two jobs all that is pending is queued; while a job runs it is pending but not queued.\<close>

definition table_ok :: "string option \<Rightarrow> jobq \<Rightarrow> bool" where
  "table_ok run q \<longleftrightarrow> objs_ok q \<and>
     (\<forall>a \<in> set (queue q). pendingJobs q (job_id (objs q ! a)) = Some a) \<and>
     (\<forall>k a. pendingJobs q k = Some a \<longrightarrow> a \<in> set (queue q) \<or> run = Some k) \<and>
     (\<forall>k. run = Some k \<longrightarrow> (\<exists>a. pendingJobs q k = Some a \<and> a \<notin> set (queue q)))"

lemma table_queued:
  "table_ok run q \<Longrightarrow> a \<in> set (queue q) \<Longrightarrow> job_table q (job_id (objs q ! a)) = Some (job_cb (objs q ! a))"
  by (simp add: table_ok_def job_table_def)

lemma table_lookup:
  assumes "table_ok run q" "job_table q k = Some cb"
  obtains a where "a \<in> set (queue q)" "job_id (objs q ! a) = k" "job_cb (objs q ! a) = cb"
  using assms by (auto simp: table_ok_def job_table_def dest: objs_okD(4) split: option.splits if_splits)

lemma set_splice_in [simp]: "set (splice_in k a xs) = insert a (set xs)"
proof -
  have "set xs = set (take k xs) \<union> set (drop k xs)" by (metis append_take_drop_id set_append)
  then show ?thesis by (auto simp: splice_in_def)
qed

lemma set_queue_requeue: "objs_ok q \<Longrightarrow> set (queue (requeue q a p cb)) = set (queue q)"
  using objs_okD(2) [of q] by (auto simp: requeue_def Let_def)

lemma objs_requeue:
  assumes "a < length (objs q)"
  shows "job_id (objs (requeue q a p cb) ! b) = job_id (objs q ! b)"
    and "job_cb (objs (requeue q a p cb) ! b) = (if b = a then cb else job_cb (objs q ! b))"
  using assms by (auto simp: requeue_def Let_def nth_list_update)

lemma pending_requeue: "pendingJobs (requeue q a p cb) = pendingJobs q"
  by (simp add: requeue_def Let_def)

lemma queueJob_table:
  assumes ok: "table_ok run q"
  shows "table_ok run (queueJob q k p cb)"
    and "job_table (queueJob q k p cb) = (if run = Some k then job_table q else (job_table q)(k \<mapsto> cb))"
proof -
  note T = ok[unfolded table_ok_def]
  then have o: "objs_ok q" by simp
  have "table_ok run (queueJob q k p cb) \<and>
    job_table (queueJob q k p cb) = (if run = Some k then job_table q else (job_table q)(k \<mapsto> cb))"
  proof (cases "pendingJobs q k")
    case (Some a)
    note a = objs_okD(3,4) [OF o Some]
    have q: "queueJob q k p cb = requeue q a p cb" by (simp add: queueJob_def Some)
    have other: "b \<noteq> a" if "pendingJobs q j = Some b" "j \<noteq> k" for j b
      using objs_okD(4) [OF o that(1)] a(2) that(2) by auto
    show ?thesis
      using T a objs_ok_requeue [OF o a(1)] Some other
      by (auto simp: q table_ok_def job_table_def set_queue_requeue [OF o] objs_requeue [OF a(1)]
          pending_requeue fun_eq_iff split: option.splits)
  next
    case None
    then have run: "run \<noteq> Some k" using T by auto
    let ?a = "length (objs q)" and ?q = "enqueue_new q k p cb"
    have q: "queueJob q k p cb = ?q" by (simp add: queueJob_def None)
    have f: "set (queue ?q) = insert ?a (set (queue q))" "pendingJobs ?q = (pendingJobs q)(k \<mapsto> ?a)"
      "objs ?q = objs q @ [\<lparr>job_id = k, job_priority = p, job_cb = cb\<rparr>]"
      by (simp_all add: enqueue_new_def Let_def)
    have lt: "b < ?a" if "b \<in> set (queue q)" for b using objs_okD(1) [OF o that] .
    have lt': "b < ?a" if "pendingJobs q j = Some b" for j b using objs_okD(3) [OF o that] .
    have ne: "job_id (objs q ! b) \<noteq> k" if "b \<in> set (queue q)" for b using T that None by force
    have "table_ok run ?q"
      using T run objs_ok_enqueue_new [OF o, of k p cb] lt lt' ne
      by (auto simp: table_ok_def f nth_append) (metis less_irrefl)+
    moreover have "job_table ?q j = ((job_table q)(k \<mapsto> cb)) j" for j
      using lt lt' by (auto simp: job_table_def f nth_append split: option.splits)
    ultimately show ?thesis using run by (simp add: q fun_eq_iff)
  qed
  then show "table_ok run (queueJob q k p cb)"
    "job_table (queueJob q k p cb) = (if run = Some k then job_table q else (job_table q)(k \<mapsto> cb))"
    by blast+
qed

lemma pop_table:
  assumes ok: "table_ok None q" and q: "queue q = a # as"
  defines "k \<equiv> job_id (objs q ! a)"
  shows "table_ok (Some k) (q\<lparr>queue := as\<rparr>)" and "job_table (q\<lparr>queue := as\<rparr>) = (job_table q)(k := None)"
proof -
  note T = ok[unfolded table_ok_def]
  then have o: "objs_ok q" by simp
  have d: "distinct (a # as)" using objs_okD(2) [OF o] q by simp
  have pk: "pendingJobs q k = Some a" using T q by (simp add: k_def)
  have "objs_ok (q\<lparr>queue := as\<rparr>)"
    using o q by (auto simp: objs_ok_def obj_priority_def [abs_def] desc_def)
  moreover have "\<forall>b \<in> set as. pendingJobs q (job_id (objs q ! b)) = Some b" using T q by simp
  moreover have "b \<in> set as \<or> k = j" if "pendingJobs q j = Some b" for j b
  proof -
    have "b = a \<or> b \<in> set as" using T q that by auto
    then show ?thesis using objs_okD(4) [OF o that] by (auto simp: k_def)
  qed
  ultimately show "table_ok (Some k) (q\<lparr>queue := as\<rparr>)" using d pk by (simp add: table_ok_def)
  have "job_table (q\<lparr>queue := as\<rparr>) j = ((job_table q)(k := None)) j" for j
  proof (cases "pendingJobs q j")
    case (Some b)
    have "b = a \<longleftrightarrow> j = k" using objs_okD(4) [OF o Some] pk Some by (metis k_def option.inject)
    then show ?thesis using Some d q by (auto simp: job_table_def)
  qed (simp add: job_table_def)
  then show "job_table (q\<lparr>queue := as\<rparr>) = (job_table q)(k := None)" by (rule ext)
qed

lemma delete_table:
  assumes "table_ok (Some k) q"
  shows "table_ok None (delete_pending k q)" and "job_table (delete_pending k q) = job_table q"
proof -
  note T = assms[unfolded table_ok_def]
  obtain a where a: "pendingJobs q k = Some a" "a \<notin> set (queue q)" using T by auto
  have ne: "job_id (objs q ! b) \<noteq> k" if "b \<in> set (queue q)" for b using T that a by force
  have "objs_ok (delete_pending k q)"
    using T by (simp add: objs_ok_def delete_pending_def obj_priority_def [abs_def])
  then show "table_ok None (delete_pending k q)" using T ne by (auto simp: table_ok_def delete_pending_def)
  show "job_table (delete_pending k q) = job_table q"
    using a by (auto simp: job_table_def delete_pending_def fun_eq_iff split: option.splits)
qed

lemma table_frame:
  "queue q' = queue q \<Longrightarrow> objs q' = objs q \<Longrightarrow> pendingJobs q' = pendingJobs q \<Longrightarrow>
   table_ok run q' = table_ok run q \<and> job_table q' = job_table q"
  using objs_ok_cong [of q' q] by (simp add: table_ok_def job_table_def [abs_def] cong: option.case_cong if_cong)

lemma clearJobs_table: "table_ok None (clearJobs q) \<and> job_table (clearJobs q) = Map.empty"
proof -
  have f: "queue (clearJobs q) = []" "pendingJobs (clearJobs q) = Map.empty"
    by (simp_all add: clearJobs_def cancelScheduleJob_def)
  then have "objs_ok (clearJobs q)" by (simp add: objs_ok_def desc_def)
  then show ?thesis using f by (simp add: table_ok_def job_table_def fun_eq_iff)
qed

section \<open>The table of closures\<close>

text \<open>\<open>J s k\<close> is the closure queued under the key \<open>k\<close>. In a well-formed state every callback of the
  queue is the number of a closure.\<close>

definition J :: "scheduler \<Rightarrow> string \<Rightarrow> closure option" where
  "J s k = Option.bind (job_table (sc_jq s) k) (numbered_closure (sc_closures s))"

definition numbered_cb :: "scheduler \<Rightarrow> qcmd list \<Rightarrow> bool" where
  "numbered_cb s cb \<longleftrightarrow> (\<exists>n < length (sc_closures s). cb = [CEffect n])"

lemma numbered_closure_Some:
  "numbered_cb s cb \<Longrightarrow> numbered_closure (sc_closures s) cb \<noteq> None"
  "numbered_cb s cb \<Longrightarrow> numbered_closure (sc_closures s @ cls) cb = numbered_closure (sc_closures s) cb"
  by (auto simp: numbered_cb_def numbered_closure_def nth_append)

definition jobs_ok :: "string option \<Rightarrow> scheduler \<Rightarrow> bool" where
  "jobs_ok run s \<longleftrightarrow> table_ok run (sc_jq s) \<and> (\<forall>k cb. job_table (sc_jq s) k = Some cb \<longrightarrow> numbered_cb s cb)"

lemma J_frame:
  "job_table (sc_jq s') = job_table (sc_jq s) \<Longrightarrow> sc_closures s' = sc_closures s \<Longrightarrow> J s' = J s"
  by (simp add: J_def fun_eq_iff)

lemma jobs_ok_frame:
  "sc_jq s' = sc_jq s \<Longrightarrow> sc_closures s' = sc_closures s \<Longrightarrow> jobs_ok run s' = jobs_ok run s \<and> J s' = J s"
  by (simp add: jobs_ok_def numbered_cb_def J_def fun_eq_iff)

lemma queue_closure_jobs:
  assumes "jobs_ok run s"
  shows "jobs_ok run (queue_closure k p cl s)"
    and "J (queue_closure k p cl s) = (if run = Some k then J s else (J s)(k \<mapsto> cl))"
proof -
  let ?q = "sc_jq s" and ?n = "length (sc_closures s)"
  note A = assms[unfolded jobs_ok_def]
  note T = queueJob_table [OF conjunct1 [OF A], of k p "[CEffect ?n]"]
  show "jobs_ok run (queue_closure k p cl s)"
    using A T by (auto simp: jobs_ok_def queue_closure_def numbered_cb_def less_Suc_eq split: if_splits)
  have old: "J (queue_closure k p cl s) j = J s j"
    if "job_table (sc_jq (queue_closure k p cl s)) j = job_table ?q j" for j
  proof (cases "job_table ?q j")
    case (Some cb)
    then have "numbered_cb s cb" using A by blast
    then show ?thesis using Some that numbered_closure_Some(2) by (simp add: J_def queue_closure_def)
  qed (use that in \<open>simp add: J_def\<close>)
  show "J (queue_closure k p cl s) = (if run = Some k then J s else (J s)(k \<mapsto> cl))"
  proof
    fix j
    show "J (queue_closure k p cl s) j = (if run = Some k then J s else (J s)(k \<mapsto> cl)) j"
    proof (cases "run = Some k \<or> j \<noteq> k")
      case True
      then show ?thesis using old [of j] T(2) by (auto simp: queue_closure_def)
    next
      case False
      then show ?thesis using T(2) by (simp add: J_def queue_closure_def numbered_closure_def)
    qed
  qed
qed

lemma closure_of_J:
  assumes "jobs_ok run s" "a \<in> set (queue (sc_jq s))"
  shows "closure_of s a = J s (job_id (objs (sc_jq s) ! a))" and "closure_of s a \<noteq> None"
proof -
  note A = assms(1)[unfolded jobs_ok_def]
  have t: "job_table (sc_jq s) (job_id (objs (sc_jq s) ! a)) = Some (job_cb (objs (sc_jq s) ! a))"
    using A table_queued assms(2) by blast
  then show "closure_of s a = J s (job_id (objs (sc_jq s) ! a))"
    by (simp add: closure_of_def J_def)
  show "closure_of s a \<noteq> None" using A t numbered_closure_Some(1) by (simp add: closure_of_def)
qed

lemma pop_jobs:
  assumes "jobs_ok None s" "queue (sc_jq s) = a # as"
  defines "k \<equiv> job_id (objs (sc_jq s) ! a)"
  shows "jobs_ok (Some k) (pop_job as s)" and "J (pop_job as s) = (J s)(k := None)"
    and "run_job env m a (pop_job as s) = run_closure env m (the (J s k)) (pop_job as s)" and "J s k \<noteq> None"
proof -
  note A = assms(1)[unfolded jobs_ok_def]
  note T = pop_table [OF conjunct1 [OF A] assms(2), folded k_def]
  show "jobs_ok (Some k) (pop_job as s)"
    using A T by (auto simp: jobs_ok_def pop_job_def upd_jq_def numbered_cb_def split: if_splits)
  show "J (pop_job as s) = (J s)(k := None)" using T(2) by (auto simp: J_def pop_job_def upd_jq_def)
  have c: "closure_of s a = J s k" "closure_of s a \<noteq> None"
    using closure_of_J [OF assms(1), of a] assms(2) by (simp_all add: k_def)
  moreover have "closure_of (pop_job as s) a = closure_of s a" by (simp add: closure_of_def pop_job_def upd_jq_def)
  ultimately show "run_job env m a (pop_job as s) = run_closure env m (the (J s k)) (pop_job as s)"
    by (auto simp: run_job_def split: option.splits)
  show "J s k \<noteq> None" using c by simp
qed

lemma after_job_jobs:
  assumes "jobs_ok (Some k) s"
  shows "jobs_ok None (snd (after_job env k s))" and "J (snd (after_job env k s)) = J s"
proof -
  note A = assms[unfolded jobs_ok_def]
  note D = delete_table [OF conjunct1 [OF A]]
  define q where "q = snd (read_clock (en_window env) (delete_pending k (sc_jq s)))"
  have s: "snd (after_job env k s) = s\<lparr>sc_jq := q\<rparr>"
    by (simp add: after_job_def q_def Let_def case_prod_beta)
  have "table_ok None q = table_ok None (delete_pending k (sc_jq s)) \<and>
      job_table q = job_table (delete_pending k (sc_jq s))"
    by (rule table_frame) (simp_all add: q_def read_clock_def)
  then have "table_ok None q" "job_table q = job_table (sc_jq s)" using D by simp_all
  then show "jobs_ok None (snd (after_job env k s))" "J (snd (after_job env k s)) = J s"
    using A unfolding s by (auto simp: jobs_ok_def numbered_cb_def J_def)
qed

end
