(* ===== verification/Scheduler_Laws.thy ===== *)
theory Scheduler_Laws
  imports Scheduler_Jobs Graph_Removal
begin

text \<open>
  What the scheduler promises: while cells come, go and change, every cell of the model has a view,
  which is in the stage or will be put there by a queued job, and every other element in the stage
  has a queued job that removes it. So, once no flush is outstanding, the stage shows the views of
  the model's cells and nothing else, stacked by their z-indexes; and outstanding flushes come to an
  end. The whole area is rendered and every cell has a view; ids are not used again while jobs of
  the earlier cell are queued.
\<close>

unbundle bit_operations_syntax

section \<open>The invariant\<close>

definition plain :: "string \<Rightarrow> bool" where
  "plain i \<longleftrightarrow> (\<forall>j. i \<noteq> insert_id j)"

definition end_ok :: "gmodel \<Rightarrow> string option \<Rightarrow> bool" where
  "end_ok m e \<longleftrightarrow> (case e of None \<Rightarrow> True | Some i \<Rightarrow> i = [] \<or> getCell i m \<noteq> None)"

definition proper :: "gmodel \<Rightarrow> bool" where
  "proper m \<longleftrightarrow> model_ok m \<and>
     (\<forall>c \<in> cells_of m. plain (gc_id c) \<and> (gc_edge c \<longrightarrow> end_ok m (gc_source c) \<and> end_ok m (gc_target c)))"

text \<open>\<open>G\<close> gives the cells of the model of which the scheduler has heard.\<close>

definition part_of :: "gmodel \<Rightarrow> (string \<Rightarrow> gcell option) \<Rightarrow> bool" where
  "part_of m G \<longleftrightarrow> proper m \<and> (\<forall>i c. G i = Some c \<longrightarrow> getCell i m = Some c)"

text \<open>The views of cells and of removed cells, as far as the invariant reads them.\<close>

definition vw :: "scheduler \<Rightarrow> string \<Rightarrow> (sview \<times> view_state) option" where
  "vw s i = map_option (\<lambda>it. (vi_view it, vi_state it)) (view_at i s)"

definition wr :: "scheduler \<Rightarrow> string \<Rightarrow> sview option" where
  "wr s i = map_option vi_view (map_of (sc_willRemove s) i)"

definition known :: "scheduler \<Rightarrow> string \<Rightarrow> sview \<Rightarrow> bool" where
  "known s i v \<longleftrightarrow> map_option fst (vw s i) = Some v \<or> wr s i = Some v"

text \<open>The jobs that may be in the queue.\<close>

definition job_ok :: "scheduler \<Rightarrow> string \<Rightarrow> closure \<Rightarrow> bool" where
  "job_ok s k cl =
     (case cl of
        CRender v f opts \<Rightarrow> k = job_key (sv_cell v) f \<and> plain (sv_cell v) \<and> f AND FLAG_REMOVE = 0 \<and>
          (case vw s (sv_cell v) of None \<Rightarrow> f AND FLAG_INSERT \<noteq> 0 | Some (v', _) \<Rightarrow> v' = v)
      | CUpdate v f \<Rightarrow> k = sv_cell v \<and> plain k \<and> f AND FLAG_REMOVE = 0 \<and> map_option fst (vw s k) = Some v
      | CRemove v \<Rightarrow> k = sv_cell v \<and> plain k \<and> wr s k \<noteq> None)"

definition in_stage :: "(string \<Rightarrow> gcell option) \<Rightarrow> (int \<Rightarrow> nat list) \<Rightarrow> string \<Rightarrow> sview \<Rightarrow> bool" where
  "in_stage G B i v \<longleftrightarrow> (\<forall>c. G i = Some c \<longrightarrow> sv_no v \<in> set (B (z_of c)))"

definition insertion :: "(string \<Rightarrow> closure option) \<Rightarrow> string \<Rightarrow> sview \<Rightarrow> bool" where
  "insertion T i v \<longleftrightarrow> (\<exists>f opts. T (insert_id i) = Some (CRender v f opts) \<and> f AND FLAG_INSERT \<noteq> 0)"

definition stage_inv :: "(string \<Rightarrow> gcell option) \<Rightarrow> scheduler \<Rightarrow> (string \<Rightarrow> closure option) \<Rightarrow> (int \<Rightarrow> nat list) \<Rightarrow> bool" where
  "stage_inv G s T B \<longleftrightarrow> stage_rel s B [] \<and> sc_area s = None \<and>
     (\<forall>i. vw s i = None \<longleftrightarrow> G i = None) \<and>
     (\<forall>i c v st. G i = Some c \<longrightarrow> vw s i = Some (v, st) \<longrightarrow> sv_edge v = gc_edge c) \<and>
     (\<forall>i v. known s i v \<longrightarrow> sv_cell v = i \<and> plain i \<and> sv_no v < sc_next s) \<and>
     (\<forall>i v j v'. known s i v \<longrightarrow> known s j v' \<longrightarrow> sv_no v = sv_no v' \<longrightarrow> i = j) \<and>
     (\<forall>i v. wr s i = Some v \<longrightarrow> vw s i = None \<and> (\<exists>v. T i = Some (CRemove v))) \<and>
     (\<forall>i v st. vw s i = Some (v, st) \<longrightarrow> (st = MOUNTED \<and> in_stage G B i v) \<or> insertion T i v) \<and>
     (\<forall>n z. n \<in> set (B z) \<longrightarrow> (\<exists>i v. known s i v \<and> sv_no v = n)) \<and>
     (\<forall>k cl. T k = Some cl \<longrightarrow> job_ok s k cl)"

lemma invD:
  assumes "stage_inv G s T B"
  shows "stage_rel s B []" "sc_area s = None"
    and "\<And>i. vw s i = None \<longleftrightarrow> G i = None"
    and "\<And>i c v st. G i = Some c \<Longrightarrow> vw s i = Some (v, st) \<Longrightarrow> sv_edge v = gc_edge c"
    and "\<And>i v. known s i v \<Longrightarrow> sv_cell v = i"
    and "\<And>i v. known s i v \<Longrightarrow> plain i"
    and "\<And>i v. known s i v \<Longrightarrow> sv_no v < sc_next s"
    and "\<And>i v j v'. known s i v \<Longrightarrow> known s j v' \<Longrightarrow> sv_no v = sv_no v' \<Longrightarrow> i = j"
    and "\<And>i v. wr s i = Some v \<Longrightarrow> vw s i = None"
    and "\<And>i v. wr s i = Some v \<Longrightarrow> \<exists>v. T i = Some (CRemove v)"
    and "\<And>i v st. vw s i = Some (v, st) \<Longrightarrow> (st = MOUNTED \<and> in_stage G B i v) \<or> insertion T i v"
    and "\<And>n z. n \<in> set (B z) \<Longrightarrow> \<exists>i v. known s i v \<and> sv_no v = n"
    and "\<And>k cl. T k = Some cl \<Longrightarrow> job_ok s k cl"
  using assms unfolding stage_inv_def by blast+

lemma invI:
  assumes "stage_rel s B []" "sc_area s = None"
    and "\<And>i. vw s i = None \<longleftrightarrow> G i = None"
    and "\<And>i c v st. G i = Some c \<Longrightarrow> vw s i = Some (v, st) \<Longrightarrow> sv_edge v = gc_edge c"
    and "\<And>i v. known s i v \<Longrightarrow> sv_cell v = i \<and> plain i \<and> sv_no v < sc_next s"
    and "\<And>i v j v'. known s i v \<Longrightarrow> known s j v' \<Longrightarrow> sv_no v = sv_no v' \<Longrightarrow> i = j"
    and "\<And>i v. wr s i = Some v \<Longrightarrow> vw s i = None \<and> (\<exists>v. T i = Some (CRemove v))"
    and "\<And>i v st. vw s i = Some (v, st) \<Longrightarrow> (st = MOUNTED \<and> in_stage G B i v) \<or> insertion T i v"
    and "\<And>n z. n \<in> set (B z) \<Longrightarrow> \<exists>i v. known s i v \<and> sv_no v = n"
    and "\<And>k cl. T k = Some cl \<Longrightarrow> job_ok s k cl"
  shows "stage_inv G s T B"
  using assms unfolding stage_inv_def by blast

lemma plain_insert_id: "plain i \<Longrightarrow> i \<noteq> insert_id j" "plain i \<Longrightarrow> insert_id j \<noteq> i"
  by (auto simp: plain_def)

lemma insert_id_inj [simp]: "insert_id i = insert_id j \<longleftrightarrow> i = j"
  by (simp add: insert_id_def)

lemma not_plain [simp]: "\<not> plain (insert_id i)"
  by (auto simp: plain_def)

lemma known_cong: "vw s' = vw s \<Longrightarrow> wr s' = wr s \<Longrightarrow> known s' = known s"
  by (simp add: known_def fun_eq_iff)

lemma job_ok_cong: "vw s' = vw s \<Longrightarrow> wr s' = wr s \<Longrightarrow> job_ok s' = job_ok s"
  by (simp add: job_ok_def [abs_def])

lemma inv_cong:
  assumes "stage_inv G s T B"
    and "sc_stage s' = sc_stage s" "sc_zPivots s' = sc_zPivots s" "sc_area s' = sc_area s"
    and "sc_next s' = sc_next s" "vw s' = vw s" "wr s' = wr s"
  shows "stage_inv G s' T B"
  using assms(1) known_cong [OF assms(6,7)] job_ok_cong [OF assms(6,7)]
    stage_rel_cong [OF assms(3,2), of B "[]"] assms(4-7)
  by (simp add: stage_inv_def)

text \<open>The views of the cells stay the same objects.\<close>

definition same_views :: "scheduler \<Rightarrow> scheduler \<Rightarrow> bool" where
  "same_views s s' \<longleftrightarrow> (\<forall>i. map_option fst (vw s' i) = map_option fst (vw s i)) \<and> wr s' = wr s"

lemma same_views_refl [simp]: "same_views s s" "vw s' = vw s \<Longrightarrow> wr s' = wr s \<Longrightarrow> same_views s s'"
  by (simp_all add: same_views_def)

lemma same_views_trans: "same_views a b \<Longrightarrow> same_views b c \<Longrightarrow> same_views a c"
  by (simp add: same_views_def)

lemma same_viewsD: "same_views s s' \<Longrightarrow> vw s i = Some (v, st) \<Longrightarrow> \<exists>st'. vw s' i = Some (v, st')"
  unfolding same_views_def by (drule conjunct1, drule spec [of _ i]) auto

lemma vw_frame: "sc_views s' = sc_views s \<Longrightarrow> vw s' = vw s"
  by (simp add: vw_def view_at_def fun_eq_iff)

lemma wr_frame: "sc_willRemove s' = sc_willRemove s \<Longrightarrow> wr s' = wr s"
  by (simp add: wr_def fun_eq_iff)

lemma vw_queue_closure [simp]: "vw (queue_closure i p cl s) = vw s"
  by (simp add: queue_closure_def vw_def [abs_def] view_at_def)

lemma wr_queue_closure [simp]: "wr (queue_closure i p cl s) = wr s"
  by (simp add: queue_closure_def wr_def [abs_def])

lemma vw_jq [simp]: "vw (s\<lparr>sc_jq := q\<rparr>) = vw s" "wr (s\<lparr>sc_jq := q\<rparr>) = wr s"
  by (simp_all add: vw_def [abs_def] view_at_def wr_def [abs_def])

lemma inv_queue_closure: "stage_inv G s T B \<Longrightarrow> stage_inv G (queue_closure i p cl s) T B"
  by (erule inv_cong) (simp_all add: queue_closure_def vw_def [abs_def] view_at_def wr_def [abs_def])

lemma vw_upd_item:
  "vw (upd_item i f s) = (case view_at i s of None \<Rightarrow> vw s
     | Some it \<Rightarrow> (vw s)(i \<mapsto> (vi_view (f it), vi_state (f it))))"
  by (auto simp: vw_def upd_item_def view_at_def fun_eq_iff split: option.splits)

lemma vw_upd_flag:
  "vw (upd_item i (\<lambda>it. it\<lparr>vi_flag := f, vi_opts := opts\<rparr>) s) = vw s"
  "vw (upd_item i (\<lambda>it. it\<lparr>vi_flag := f\<rparr>) s) = vw s"
  by (auto simp: vw_upd_item fun_eq_iff vw_def split: option.splits)

lemma getCell_iff: "model_ok m \<Longrightarrow> getCell i m = Some c \<longleftrightarrow> c \<in> cells_of m \<and> gc_id c = i"
  by (simp add: getCell_def cells_of_def model_ok_def coll_get_Some)

text \<open>Changing the table at one key: a job is entered, taken out or replaced.\<close>

lemma inv_set:
  assumes I: "stage_inv G s T B" and same: "\<And>j. j \<noteq> k \<Longrightarrow> T' j = T j"
    and job: "\<And>cl. T' k = Some cl \<Longrightarrow> job_ok s k cl" and wr: "wr s k = None"
    and ins: "\<And>i v st. k = insert_id i \<Longrightarrow> vw s i = Some (v, st) \<Longrightarrow>
      (st = MOUNTED \<and> in_stage G B i v) \<or> insertion T' i v"
  shows "stage_inv G s T' B"
proof -
  note D = invD [OF I]
  have W: "\<exists>v. T' i = Some (CRemove v)" if "wr s i = Some w" for i w
    using D(10) [OF that] same [of i] wr that by force
  have S: "st = MOUNTED \<and> in_stage G B i v \<or> insertion T' i v" if "vw s i = Some (v, st)" for i v st
  proof (cases "k = insert_id i")
    case False
    then show ?thesis using D(11) [OF that] same [of "insert_id i"] by (auto simp: insertion_def)
  qed (use ins that in blast)
  have Jk: "job_ok s j cl" if "T' j = Some cl" for j cl
    using that D(13) [of j cl] same [of j] job by (cases "j = k") auto
  show ?thesis
    by (rule invI [OF D(1,2,3,4) _ D(8) _ S D(12) Jk]) (use D(5,6,7,9) W in blast)+
qed

lemma inv_plain: "stage_inv G s T B \<Longrightarrow> vw s i = Some (v, st) \<Longrightarrow> plain i"
  using invD(6) [of G s T B i v] by (simp add: known_def)

lemma no_removal: "stage_inv G s T B \<Longrightarrow> vw s i = Some x \<Longrightarrow> wr s i = None"
  using invD(9) [of G s T B i] by (cases "wr s i") auto

lemma no_removal_insert: "stage_inv G s T B \<Longrightarrow> wr s (insert_id i) = None"
  using invD(6) [of G s T B "insert_id i"] by (cases "wr s (insert_id i)") (auto simp: known_def)

lemma inv_enter:
  assumes I: "stage_inv G s T B" and v: "vw s (sv_cell v) = Some (v, st)" and f: "f AND FLAG_REMOVE = 0"
  shows "stage_inv G s (T(job_key (sv_cell v) f \<mapsto> CRender v f opts)) B"
proof -
  have p: "plain (sv_cell v)" by (rule inv_plain [OF I v])
  show ?thesis
  proof (rule inv_set [OF I])
    show "wr s (job_key (sv_cell v) f) = None"
      using no_removal [OF I v] no_removal_insert [OF I] by (simp add: job_key_def)
    show "job_ok s (job_key (sv_cell v) f) cl"
      if "(T(job_key (sv_cell v) f \<mapsto> CRender v f opts)) (job_key (sv_cell v) f) = Some cl" for cl
      using that p f v by (auto simp: job_ok_def)
    show "(st' = MOUNTED \<and> in_stage G B i w) \<or> insertion (T(job_key (sv_cell v) f \<mapsto> CRender v f opts)) i w"
      if "job_key (sv_cell v) f = insert_id i" "vw s i = Some (w, st')" for i w st'
      using that p v by (auto simp: job_key_def insertion_def split: if_splits)
  qed simp
qed

lemma inv_enter_update:
  assumes I: "stage_inv G s T B" and v: "vw s (sv_cell v) = Some (v, st)" and f: "f AND FLAG_REMOVE = 0"
  shows "stage_inv G s (T(sv_cell v \<mapsto> CUpdate v f)) B"
proof -
  have p: "plain (sv_cell v)" by (rule inv_plain [OF I v])
  show ?thesis
    by (rule inv_set [OF I]) (use p f v no_removal [OF I v] in \<open>auto simp: job_ok_def\<close>)
qed

text \<open>Taking out a job that is not an insertion.\<close>

lemma inv_drop:
  assumes I: "stage_inv G s (T(k \<mapsto> cl)) B" and k: "plain k" "wr s k = None"
    and job: "\<And>cl. T k = Some cl \<Longrightarrow> job_ok s k cl"
  shows "stage_inv G s T B"
  by (rule inv_set [OF I]) (use k job in auto)

section \<open>Running a job\<close>

lemma vw_trigger [simp]: "vw (trigger_ev e s) = vw s" "wr (trigger_ev e s) = wr s"
  by (rule vw_frame wr_frame; simp add: trigger_ev_def)+

lemma wr_upd_item [simp]: "wr (upd_item i f s) = wr s"
  by (simp add: wr_def upd_item_def fun_eq_iff split: option.splits)

lemma toggleVisible_views:
  "sc_views (toggleVisible n m i b s) = sc_views s \<and> sc_willRemove (toggleVisible n m i b s) = sc_willRemove s \<and>
   sc_area (toggleVisible n m i b s) = sc_area s \<and> sc_next (toggleVisible n m i b s) = sc_next s \<and>
   sc_jq (toggleVisible n m i b s) = sc_jq s \<and> sc_closures (toggleVisible n m i b s) = sc_closures s"
  (is "?F (toggleVisible n m i b s) s")
proof (induction n arbitrary: i b s)
  case (Suc n)
  let ?f = "\<lambda>edge s. if b then (if \<not> shown (getSourceCell edge m) \<or> \<not> shown (getTargetCell edge m) then s
                  else toggleVisible n m (gc_id edge) True s) else toggleVisible n m (gc_id edge) False s"
  have "?F (fold ?f es s) s" for es s
    by (induction es arbitrary: s) (simp_all add: Suc)
  then show ?case by (simp add: Let_def split: option.splits)
qed simp

text \<open>What mounting changes of the state.\<close>

lemma insertView_state:
  assumes "view_at (sv_cell v) s = Some it" "getCell (sv_cell v) m = Some c"
  shows "sc_willRemove (insertView m v s) = sc_willRemove s" "sc_area (insertView m v s) = sc_area s"
    "sc_next (insertView m v s) = sc_next s" "sc_jq (insertView m v s) = sc_jq s"
    "sc_closures (insertView m v s) = sc_closures s"
    "vw (insertView m v s) = (vw s)(sv_cell v \<mapsto> (vi_view it, MOUNTED))"
proof -
  let ?z = "z_of c" and ?s = "addZPivot (z_of c) s"
  have a: "sc_views ?s = sc_views s" "sc_willRemove ?s = sc_willRemove s" "sc_area ?s = sc_area s"
    "sc_next ?s = sc_next s" "sc_jq ?s = sc_jq s" "sc_closures ?s = sc_closures s"
    by (simp_all add: addZPivot_def Let_def)
  define s1 where "s1 = ?s\<lparr>sc_stage := insert_before (Elem (sv_no v)) (Some (Pivot ?z)) (sc_stage ?s)\<rparr>"
  define s2 where "s2 = (if \<not> isVisible c then toggleVisible (cell_fuel m) m (sv_cell v) False s1 else s1)"
  have b: "sc_views s2 = sc_views s" "sc_willRemove s2 = sc_willRemove s" "sc_area s2 = sc_area s"
    "sc_next s2 = sc_next s" "sc_jq s2 = sc_jq s" "sc_closures s2 = sc_closures s"
    using toggleVisible_views a by (simp_all add: s2_def s1_def)
  have e: "insertView m v s =
      trigger_ev (EvMounted (sv_no v)) (upd_item (sv_cell v) (\<lambda>it. it\<lparr>vi_state := MOUNTED\<rparr>) s2)"
    using assms by (simp add: insertView_def s1_def s2_def Let_def)
  have "view_at (sv_cell v) s2 = Some it" using assms(1) b(1) by (simp add: view_at_def)
  then show "sc_willRemove (insertView m v s) = sc_willRemove s" "sc_area (insertView m v s) = sc_area s"
    "sc_next (insertView m v s) = sc_next s" "sc_jq (insertView m v s) = sc_jq s"
    "sc_closures (insertView m v s) = sc_closures s"
    "vw (insertView m v s) = (vw s)(sv_cell v \<mapsto> (vi_view it, MOUNTED))"
    using b vw_frame [OF b(1)] unfolding e by (simp_all add: trigger_ev_def upd_item_def vw_upd_item vw_def view_at_def fun_eq_iff)
qed

lemma mem_mount_elem: "k \<in> set (mount_elem B n z y) \<longleftrightarrow> (if k = n then y = z else k \<in> set (B y))"
  by (auto simp: mount_elem_def)

text \<open>Mounting the view of a cell; a queued insertion of it is then dispensable.\<close>

lemma inv_insertView:
  assumes P: "part_of m G" and I: "stage_inv G s T B" and v: "vw s (sv_cell v) = Some (v, st)"
    and T': "T' = T \<or> (\<exists>f opts. T = T'(insert_id (sv_cell v) \<mapsto> CRender v f opts))"
    and J': "\<And>cl. T' (insert_id (sv_cell v)) = Some cl \<Longrightarrow> job_ok s (insert_id (sv_cell v)) cl"
  shows "\<exists>B'. stage_inv G (insertView m v s) T' B'"
proof -
  let ?i = "sv_cell v" and ?s = "insertView m v s"
  note D = invD [OF I]
  obtain c where g: "G ?i = Some c" using D(3) [of ?i] v by auto
  then have c: "getCell ?i m = Some c" using P by (simp add: part_of_def)
  obtain it where it: "view_at ?i s = Some it" "vi_view it = v" using v by (auto simp: vw_def)
  note F = insertView_state [OF it(1) c]
  let ?B = "mount_elem B (sv_no v) (z_of c)"
  have R: "stage_rel ?s ?B []" using stage_rel_insertView [OF D(1) _ c] it(1) by simp
  have vw': "vw ?s = (vw s)(?i \<mapsto> (v, MOUNTED))" using F(6) it(2) by simp
  have wr': "wr ?s = wr s" by (rule wr_frame [OF F(1)])
  have kn: "known ?s j w = known s j w" for j w using v by (simp add: known_def vw' wr')
  have k: "known s ?i v" using v by (simp add: known_def)
  have jo: "job_ok ?s k cl = job_ok s k cl" for k cl
    using v by (cases cl) (auto simp: job_ok_def vw' wr' split: option.splits)
  have T1: "T' j = T j" if "j \<noteq> insert_id ?i" for j using T' that by auto
  have W: "\<exists>v. T' j = Some (CRemove v)" if "wr s j = Some w" for j w
  proof -
    have "plain j" using D(6) [of j w] that by (simp add: known_def)
    then show ?thesis using D(10) [OF that] T1 [of j] plain_insert_id(1) by auto
  qed
  have S: "st' = MOUNTED \<and> in_stage G ?B j w \<or> insertion T' j w" if "vw ?s j = Some (w, st')" for j w st'
  proof (cases "j = ?i")
    case True
    then show ?thesis using that g by (auto simp: vw' in_stage_def mem_mount_elem)
  next
    case False
    then have w: "vw s j = Some (w, st')" using that by (simp add: vw')
    have "sv_no w \<noteq> sv_no v" using D(8) [of j w ?i v] k w False by (auto simp: known_def)
    then show ?thesis
      using D(11) [OF w] False T1 [of "insert_id j"] by (auto simp: in_stage_def mem_mount_elem insertion_def)
  qed
  have "stage_inv G ?s T' ?B"
  proof (rule invI)
    show "stage_rel ?s ?B []" by (rule R)
    show "sc_area ?s = None" using D(2) F(2) by simp
    show "vw ?s j = None \<longleftrightarrow> G j = None" for j using D(3) [of j] v by (auto simp: vw')
    show "sv_edge w = gc_edge d" if "G j = Some d" "vw ?s j = Some (w, st')" for j d w st'
      using D(4) [of j d] that v by (auto simp: vw' split: if_splits)
    show "sv_cell w = j \<and> plain j \<and> sv_no w < sc_next ?s" if "known ?s j w" for j w
      using D(5,6,7) that by (simp add: kn F(3))
    show "i = j" if "known ?s i w" "known ?s j w'" "sv_no w = sv_no w'" for i w j w'
      using D(8) that by (simp add: kn)
    show "vw ?s j = None \<and> (\<exists>v. T' j = Some (CRemove v))" if "wr ?s j = Some w" for j w
      using D(9) [of j w] W [of j w] that v by (auto simp: wr' vw')
    show "st' = MOUNTED \<and> in_stage G ?B j w \<or> insertion T' j w" if "vw ?s j = Some (w, st')" for j w st'
      by (rule S [OF that])
    show "\<exists>i w. known ?s i w \<and> sv_no w = n" if "n \<in> set (?B z)" for n z
      using that D(12) [of n z] k by (auto simp: mem_mount_elem kn split: if_splits)
    show "job_ok ?s j cl" if "T' j = Some cl" for j cl
      using that D(13) [of j cl] J' [of cl] T1 [of j] unfolding jo by (cases "j = insert_id ?i") auto
  qed
  then show ?thesis by blast
qed

lemma edge_confirm_None: "edge_confirmUpdate fm t f = None \<Longrightarrow> \<exists>x. t x = TMissing"
  by (auto simp: edge_confirmUpdate_def Let_def split: if_splits terminal_state.splits prod.splits)

lemma terminals_found:
  assumes P: "part_of m G" and I: "stage_inv G s T B" and v: "vw s (sv_cell v) = Some (v, st)" "sv_edge v"
  shows "terminal_state m v s x \<noteq> TMissing"
proof -
  obtain c where g: "G (sv_cell v) = Some c" using invD(3) [OF I, of "sv_cell v"] v by auto
  then have c: "getCell (sv_cell v) m = Some c" using P by (simp add: part_of_def)
  have "gc_edge c" using invD(4) [OF I g v(1)] v(2) by simp
  moreover have "c \<in> cells_of m" using c P getCell_iff by (auto simp: part_of_def proper_def)
  ultimately have "end_ok m (gc_source c)" "end_ok m (gc_target c)" using P by (auto simp: part_of_def proper_def)
  then show ?thesis using c by (auto simp: terminal_state_def end_ok_def split: option.splits if_splits)
qed

text \<open>What a job leaves as it is: the queue and the closures, up to jobs it queues itself.\<close>

definition same_jobs :: "scheduler \<Rightarrow> scheduler \<Rightarrow> bool" where
  "same_jobs s s' \<longleftrightarrow> sc_jq s' = sc_jq s \<and> sc_closures s' = sc_closures s"

lemma inv_updateView:
  assumes P: "part_of m G" and I: "stage_inv G s T B" and v: "vw s (sv_cell v) = Some (v, st)"
    and f: "f AND FLAG_REMOVE = 0"
    and T': "T' = T \<or> (\<exists>opts. T = T'(job_key (sv_cell v) f \<mapsto> CRender v f opts))"
    and J': "\<And>cl. T' (job_key (sv_cell v) f) = Some cl \<Longrightarrow> job_ok s (job_key (sv_cell v) f) cl"
  shows "\<exists>r s' B'. updateView env m v f s = (Some r, s') \<and> stage_inv G s' T' B' \<and> same_jobs s s' \<and>
    same_views s s'"
proof -
  define s1 where "s1 = (if f AND FLAG_INSERT \<noteq> 0 then insertView m v s else s)"
  define f1 where "f1 = (if f AND FLAG_INSERT \<noteq> 0 then f XOR FLAG_INSERT else f)"
  have u: "updateView env m v f s = (if f1 = 0 then (Some 0, s1) else confirmUpdate env m v f1 s1)"
    using f by (simp add: updateView_def s1_def f1_def)
  have p: "plain (sv_cell v)" by (rule inv_plain [OF I v])
  obtain c where g: "G (sv_cell v) = Some c" using invD(3) [OF I, of "sv_cell v"] v by auto
  then have c: "getCell (sv_cell v) m = Some c" using P by (simp add: part_of_def)
  obtain it where it: "view_at (sv_cell v) s = Some it" "vi_view it = v" using v by (auto simp: vw_def)
  have "\<exists>B'. stage_inv G s1 T' B' \<and> same_jobs s s1 \<and> same_views s s1"
  proof (cases "f AND FLAG_INSERT \<noteq> 0")
    case True
    have "\<exists>B'. stage_inv G (insertView m v s) T' B'"
      by (rule inv_insertView [OF P I v]) (use T' J' True in \<open>auto simp: job_key_def\<close>)
    then show ?thesis
      using True insertView_state [OF it(1) c] it(2) v wr_frame [of "insertView m v s" s] by (auto simp: s1_def same_jobs_def same_views_def)
  next
    case False
    have "stage_inv G s T' B"
    proof (cases "T' = T")
      case False
      then obtain opts where "T = T'(sv_cell v \<mapsto> CRender v f opts)"
        using T' \<open>\<not> (f AND FLAG_INSERT \<noteq> 0)\<close> by (auto simp: job_key_def)
      then show ?thesis
        using inv_drop [of G s T' "sv_cell v" "CRender v f opts" B] I p no_removal [OF I v] J'
          \<open>\<not> (f AND FLAG_INSERT \<noteq> 0)\<close> by (simp add: job_key_def)
    qed (use I in simp)
    then show ?thesis using False by (auto simp: s1_def same_jobs_def)
  qed
  then obtain B' where s1: "stage_inv G s1 T' B'" "same_jobs s s1" "same_views s s1" by blast
  then obtain st' where v1: "vw s1 (sv_cell v) = Some (v, st')" using same_viewsD [OF _ v] by blast
  show ?thesis
  proof (cases "f1 = 0")
    case False
    let ?r = "if sv_edge v then edge_confirmUpdate (flags_of v) (terminal_state m v s1) f1
            else Some (node_confirmUpdate (flags_of v) (en_css env) f1)"
    have "?r \<noteq> None"
      using terminals_found [OF P s1(1) v1] edge_confirm_None by (cases "sv_edge v") fastforce+
    then obtain r acts where r: "?r = Some (r, acts)" by auto
    let ?s = "trigger_ev (EvActs (sv_no v) acts) s1"
    have "stage_inv G ?s T' B'" by (rule inv_cong [OF s1(1)]) (simp_all, simp_all add: trigger_ev_def)
    moreover have "same_jobs s ?s" using s1(2) by (simp add: same_jobs_def trigger_ev_def)
    moreover have "updateView env m v f s = (Some r, ?s)" using u False r by (simp add: confirmUpdate_def)
    moreover have "same_views s ?s" using s1(3) by (simp add: same_views_def)
    ultimately show ?thesis by blast
  next
    case True
    then have "updateView env m v f s = (Some 0, s1)" using u by simp
    then show ?thesis using s1 by blast
  qed
qed

lemma upd_item_fields [simp]:
  "sc_stage (upd_item i g s) = sc_stage s" "sc_zPivots (upd_item i g s) = sc_zPivots s"
  "sc_area (upd_item i g s) = sc_area s" "sc_next (upd_item i g s) = sc_next s"
  "sc_willRemove (upd_item i g s) = sc_willRemove s" "sc_jq (upd_item i g s) = sc_jq s"
  "sc_closures (upd_item i g s) = sc_closures s"
  by (simp_all add: upd_item_def split: option.splits)

lemma same_jobs_refl [simp]: "same_jobs s s"
  by (simp add: same_jobs_def)

lemma inv_cong_item:
  assumes "stage_inv G s T B"
  shows "stage_inv G (upd_item i (\<lambda>it. it\<lparr>vi_flag := f\<rparr>) s) T B"
    and "stage_inv G (upd_item i (\<lambda>it. it\<lparr>vi_flag := f, vi_opts := opts\<rparr>) s) T B"
  by (rule inv_cong [OF assms]; simp add: vw_upd_flag)+

lemma vw_note_rendered [simp]: "vw (note_rendered v opts s) = vw s"
  by (auto simp: note_rendered_def trigger_ev_def Let_def vw_def view_at_def fun_eq_iff split: option.splits)

lemma wr_note_rendered [simp]: "wr (note_rendered v opts s) = wr s"
  by (auto simp: note_rendered_def trigger_ev_def Let_def wr_def fun_eq_iff split: option.splits)

lemma inv_note_rendered: "stage_inv G s T B \<Longrightarrow> stage_inv G (note_rendered v opts s) T B"
  by (erule inv_cong)
     (auto simp: note_rendered_def trigger_ev_def Let_def vw_def view_at_def wr_def split: option.splits)

lemma same_jobs_simps:
  "same_jobs s (upd_item i g s')  = same_jobs s s'" "same_jobs s (note_rendered v opts s') = same_jobs s s'"
  "same_jobs s (trigger_ev e s') = same_jobs s s'"
  by (auto simp: same_jobs_def upd_item_def note_rendered_def trigger_ev_def Let_def split: option.splits)

text \<open>After a job the table differs from the one before in the second update of an edge at most.\<close>

definition more_updates :: "(string \<Rightarrow> closure option) \<Rightarrow> (string \<Rightarrow> closure option) \<Rightarrow> bool" where
  "more_updates T T' \<longleftrightarrow> T' = T \<or> (\<exists>i v f. T' = T(i \<mapsto> CUpdate v f))"

definition same_sched :: "jobq \<Rightarrow> jobq \<Rightarrow> bool" where
  "same_sched q q' \<longleftrightarrow> isFlushing q' = isFlushing q \<and> isFlushPending q' = isFlushPending q \<and>
     scheduleId q' = scheduleId q \<and> handles q' = handles q \<and> next_handle q' = next_handle q"

lemma same_sched_refl [simp]: "same_sched q q"
  by (simp add: same_sched_def)

lemma same_sched_trans: "same_sched a b \<Longrightarrow> same_sched b c \<Longrightarrow> same_sched a c"
  by (simp add: same_sched_def)

lemma same_sched_queueJob: "same_sched q (queueJob q k p cb)"
  by (simp add: same_sched_def queueJob_frame)

lemma run_render:
  assumes P: "part_of m G" and J: "jobs_ok run s" and run: "run = None \<or> run = Some k"
    and I: "stage_inv G s ((J s)(k \<mapsto> CRender v f opts)) B"
    and old: "\<And>cl. J s k = Some cl \<Longrightarrow> job_ok s k cl"
  shows "\<exists>s' B'. run_closure env m (CRender v f opts) s = (s', False) \<and> stage_inv G s' (J s') B' \<and>
    jobs_ok run s' \<and> more_updates (J s) (J s') \<and> same_sched (sc_jq s) (sc_jq s') \<and> same_views s s'"
proof -
  let ?i = "sv_cell v"
  have jo: "job_ok s k (CRender v f opts)" using invD(13) [OF I, of k] by simp
  then have k: "k = job_key ?i f" and p: "plain ?i" and f: "f AND FLAG_REMOVE = 0" by (auto simp: job_ok_def)
  have upd: "isUpdatable env m v s" using invD(2) [OF I] by (simp add: isUpdatable_def)
  show ?thesis
  proof (cases "view_at ?i s")
    case None
    then have "vw s ?i = None" by (simp add: vw_def)
    then have fi: "k = insert_id ?i" using jo k by (auto simp: job_ok_def job_key_def)
    have "stage_inv G s (J s) B"
    proof (rule inv_set [OF I, of k])
      show "wr s k = None" unfolding fi by (rule no_removal_insert [OF I])
    qed (use old fi \<open>vw s ?i = None\<close> in auto)
    then have "stage_inv G (note_rendered v opts s) (J s) B" by (rule inv_note_rendered)
    moreover have "run_closure env m (CRender v f opts) s = (note_rendered v opts s, False)"
      using None by (simp add: run_closure_def renderViewInArea_def then_call_def)
    moreover have "same_jobs s (note_rendered v opts s)" by (simp add: same_jobs_simps)
    moreover have "same_views s (note_rendered v opts s)" by (simp add: vw_note_rendered)
    ultimately show ?thesis
      using J jobs_ok_frame [of "note_rendered v opts s" s run] by (auto simp: same_jobs_def more_updates_def)
  next
    case (Some it)
    then have v: "vw s ?i = Some (v, vi_state it)" using jo by (auto simp: job_ok_def vw_def)
    obtain r s1 B1 where u: "updateView env m v f s = (Some r, s1)" "stage_inv G s1 (J s) B1" "same_jobs s s1"
        "same_views s s1"
      using inv_updateView [OF P I v f, of "J s" env] old unfolding k by blast
    obtain st1 where v1: "vw s1 ?i = Some (v, st1)" using same_viewsD [OF u(4) v] by blast
    let ?s2 = "upd_item ?i (\<lambda>it. it\<lparr>vi_flag := r\<rparr>) s1"
    let ?retry = "r \<noteq> 0 \<and> sv_edge v \<and> r AND getFlag (flags_of v) [''source'', ''target''] = 0"
    let ?s3 = "if ?retry then queue_closure ?i JOB_RenderEdge (CUpdate v f) ?s2 else ?s2"
    have e: "run_closure env m (CRender v f opts) s = (note_rendered v opts ?s3, False)"
      using Some upd u(1) by (simp add: run_closure_def renderViewInArea_def then_call_def Let_def)
    have s2: "stage_inv G ?s2 (J s) B1" "same_jobs s ?s2" "vw ?s2 ?i = Some (v, st1)"
      using inv_cong_item(1) [OF u(2)] u(3) v1 by (simp_all add: same_jobs_simps vw_upd_flag)
    have vw3: "vw ?s3 = vw s1" "wr ?s3 = wr s1" by (simp_all add: vw_upd_flag)
    have J2: "jobs_ok run ?s2" "J ?s2 = J s"
      using jobs_ok_frame [of ?s2 s run] s2(2) J by (auto simp: same_jobs_def)
    have s3: "stage_inv G ?s3 (J ?s3) B1 \<and> jobs_ok run ?s3 \<and> more_updates (J s) (J ?s3) \<and> same_sched (sc_jq s) (sc_jq ?s3)"
    proof (cases ?retry)
      case True
      let ?q = "queue_closure ?i JOB_RenderEdge (CUpdate v f) ?s2"
      note Q = queue_closure_jobs [OF J2(1), of ?i JOB_RenderEdge "CUpdate v f"]
      have "stage_inv G ?s2 ((J s)(?i \<mapsto> CUpdate v f)) B1" by (rule inv_enter_update [OF s2(1,3) f])
      then have "stage_inv G ?s2 (J ?q) B1" using Q(2) J2(2) s2(1) by (auto split: if_splits)
      then have "stage_inv G ?q (J ?q) B1"
        by (rule inv_queue_closure)
      moreover have "same_sched (sc_jq s) (sc_jq ?q)"
        using s2(2) same_sched_queueJob by (simp add: queue_closure_def same_jobs_def)
      moreover have "more_updates (J s) (J ?q)" using Q(2) J2(2) by (auto simp: more_updates_def)
      ultimately show ?thesis using True Q(1) by auto
    next
      case False
      then have "?s3 = ?s2" by (simp only: if_False)
      then show ?thesis using s2(1,2) J2 by (simp only:) (simp add: more_updates_def same_jobs_def)
    qed
    let ?s4 = "note_rendered v opts ?s3"
    have "same_jobs ?s3 ?s4" by (simp add: same_jobs_simps)
    then have "jobs_ok run ?s4 = jobs_ok run ?s3" "J ?s4 = J ?s3" "sc_jq ?s4 = sc_jq ?s3"
      using jobs_ok_frame [of ?s4 ?s3 run] by (auto simp: same_jobs_def)
    moreover have "same_views s ?s4" using u(4) vw3 by (simp add: same_views_def vw_note_rendered)
    ultimately show ?thesis using e s3 inv_note_rendered [of G ?s3 "J ?s3" B1 v opts] by auto
  qed
qed

lemma run_update:
  assumes P: "part_of m G" and J: "jobs_ok run s" and I: "stage_inv G s ((J s)(k \<mapsto> CUpdate v f)) B" and n: "J s k = None"
  shows "\<exists>s' B'. run_closure env m (CUpdate v f) s = (s', False) \<and> stage_inv G s' (J s') B' \<and>
    jobs_ok run s' \<and> J s' = J s \<and> same_sched (sc_jq s) (sc_jq s')"
proof -
  have "job_ok s k (CUpdate v f)" using invD(13) [OF I, of k] by simp
  then obtain st where k: "k = sv_cell v" and p: "plain k" and f: "f AND FLAG_REMOVE = 0"
    and v: "vw s (sv_cell v) = Some (v, st)" by (auto simp: job_ok_def)
  have I': "stage_inv G s (J s) B"
    using inv_drop [OF I p] no_removal [OF I v] n by (simp add: k)
  have "job_ok s (job_key (sv_cell v) f) cl" if "J s (job_key (sv_cell v) f) = Some cl" for cl
    by (rule invD(13) [OF I' that])
  then obtain r s1 B1 where u: "updateView env m v f s = (Some r, s1)" "stage_inv G s1 (J s) B1" "same_jobs s s1"
    using inv_updateView [OF P I' v f, of "J s" env] by blast
  then show ?thesis
    using J jobs_ok_frame [of s1 s run] by (auto simp: run_closure_def same_jobs_def)
qed

lemma run_remove:
  assumes J: "jobs_ok run s" and I: "stage_inv G s ((J s)(k \<mapsto> CRemove v)) B" and n: "J s k = None"
  shows "\<exists>s' B'. run_closure env m (CRemove v) s = (s', False) \<and> stage_inv G s' (J s') B' \<and>
    jobs_ok run s' \<and> J s' = J s \<and> same_sched (sc_jq s) (sc_jq s')"
proof -
  note D = invD [OF I]
  have "job_ok s k (CRemove v)" using D(13) [of k] by simp
  then obtain it where k: "sv_cell v = k" and p: "plain k" and it: "map_of (sc_willRemove s) k = Some it"
    by (auto simp: job_ok_def wr_def)
  let ?w = "vi_view it" and ?s = "removeView v s"
  have w: "wr s k = Some ?w" by (simp add: wr_def it)
  have vk: "vw s k = None" by (rule D(9) [OF w])
  have kw: "known s k ?w" using w by (simp add: known_def)
  let ?B = "drop_elem B (sv_no ?w)"
  have e: "?s = trigger_ev (EvUnmounted (sv_no v)) ((unmount ?w s)\<lparr>sc_willRemove := map_del (sc_willRemove s) k\<rparr>)"
    by (simp add: removeView_def k it)
  have vw': "vw ?s = vw s" by (rule vw_frame) (simp add: e trigger_ev_def unmount_def)
  have wr': "wr ?s = (wr s)(k := None)" by (auto simp: e trigger_ev_def unmount_def wr_def fun_eq_iff)
  have kn: "known ?s j x \<longleftrightarrow> known s j x \<and> j \<noteq> k" for j x
    using vk by (auto simp: known_def vw' wr')
  have other: "sv_no x \<noteq> sv_no ?w" if "known s j x" "j \<noteq> k" for j x
    using D(8) [OF that(1) kw] that(2) by auto
  have "stage_inv G ?s (J s) ?B"
  proof (rule invI)
    show "stage_rel ?s ?B []"
      using stage_rel_unmount [OF D(1), of ?w] by (simp add: e trigger_ev_def stage_rel_def)
    show "sc_area ?s = None" using D(2) by (simp add: e trigger_ev_def unmount_def)
    show "vw ?s i = None \<longleftrightarrow> G i = None" for i using D(3) by (simp add: vw')
    show "sv_edge x = gc_edge c" if "G i = Some c" "vw ?s i = Some (x, st)" for i c x st
      using D(4) that by (simp add: vw')
    have "sc_next ?s = sc_next s" by (simp add: e trigger_ev_def unmount_def)
    then show "sv_cell x = i \<and> plain i \<and> sv_no x < sc_next ?s" if "known ?s i x" for i x
      using D(5,6,7) [of i x] that by (simp add: kn)
    show "i = j" if "known ?s i x" "known ?s j y" "sv_no x = sv_no y" for i x j y
      using D(8) that unfolding kn by blast
    show "vw ?s i = None \<and> (\<exists>v. J s i = Some (CRemove v))" if "wr ?s i = Some x" for i x
      using D(9,10) [of i x] that by (auto simp: wr' vw' split: if_splits)
    show "st = MOUNTED \<and> in_stage G ?B i x \<or> insertion (J s) i x" if "vw ?s i = Some (x, st)" for i x st
    proof -
      have "vw s i = Some (x, st)" "i \<noteq> k" using that vk by (auto simp: vw')
      then show ?thesis using D(11) [of i x st] other [of i x] p plain_insert_id(2) [of k i]
        by (auto simp: in_stage_def insertion_def drop_elem_def known_def split: if_splits)
    qed
    show "\<exists>i x. known ?s i x \<and> sv_no x = n" if n: "n \<in> set (?B z)" for n z
    proof -
      obtain i x where x: "known s i x" "sv_no x = n" using D(12) [of n z] n by (auto simp: drop_elem_def)
      then have "i \<noteq> k" using n D(5) kw w vk by (auto simp: drop_elem_def known_def)
      then show ?thesis using x kn by blast
    qed
    show "job_ok ?s j cl" if "J s j = Some cl" for j cl
    proof -
      have "j \<noteq> k" using that n by auto
      then show ?thesis using D(13) [of j cl] that
        by (auto simp: job_ok_def vw' wr' split: closure.splits)
    qed
  qed
  moreover have "same_jobs s ?s" by (simp add: same_jobs_def e trigger_ev_def unmount_def)
  ultimately show ?thesis
    using J jobs_ok_frame [of ?s s run] by (auto simp: run_closure_def same_jobs_def)
qed

text \<open>A job that was popped from the queue.\<close>

definition weight :: "closure \<Rightarrow> nat" where
  "weight cl = (case cl of CRender _ _ _ \<Rightarrow> 2 | _ \<Rightarrow> 1)"


lemma run_popped:
  assumes P: "part_of m G" and J: "jobs_ok (Some k) s" and n: "J s k = None" and I: "stage_inv G s ((J s)(k \<mapsto> cl)) B"
  shows "\<exists>s' B'. run_closure env m cl s = (s', False) \<and> stage_inv G s' (J s') B' \<and> jobs_ok (Some k) s' \<and>
    more_updates (J s) (J s') \<and> (weight cl = 1 \<longrightarrow> J s' = J s) \<and> same_sched (sc_jq s) (sc_jq s')"
proof (cases cl)
  case (CRender v f opts)
  then show ?thesis using run_render [OF P J _ I [unfolded CRender], of env] n by (auto simp: weight_def)
next
  case (CUpdate v f)
  then show ?thesis using run_update [OF P J I [unfolded CUpdate] n, of env] by (auto simp: more_updates_def)
next
  case (CRemove v)
  then show ?thesis using run_remove [OF J I [unfolded CRemove] n, of env m] by (auto simp: more_updates_def)
qed

section \<open>Flushes\<close>

definition table_weight :: "(string \<Rightarrow> closure option) \<Rightarrow> nat" where
  "table_weight T = (\<Sum>k \<in> dom T. weight (the (T k)))"

lemma weight_pos: "1 \<le> weight cl" "weight cl \<le> 2" "weight cl = 1 \<or> weight cl = 2"
  by (simp_all add: weight_def split: closure.splits)

lemma fuel_weight:
  assumes "jobs_ok run s"
  shows "flush_fuel s = table_weight (J s)" and "finite (dom (J s))"
proof -
  let ?q = "sc_jq s"
  let ?h = "\<lambda>a. job_id (objs ?q ! a)"
  note A = assms[unfolded jobs_ok_def table_ok_def]
  have inj: "inj_on ?h (set (queue ?q))" using A by (intro inj_onI) (metis option.inject)
  have c: "J s (?h a) = closure_of s a" "closure_of s a \<noteq> None" if "a \<in> set (queue ?q)" for a
    using closure_of_J [OF assms that] by simp_all
  have "k \<in> ?h ` set (queue ?q)" if "k \<in> dom (J s)" for k
  proof -
    have "\<exists>cb. job_table ?q k = Some cb" using that by (auto simp: J_def bind_eq_Some_conv)
    then show ?thesis using table_lookup [of run ?q k] assms by (auto simp: jobs_ok_def)
  qed
  then have dom: "dom (J s) = ?h ` set (queue ?q)" using c by force
  then show "finite (dom (J s))" by simp
  have "flush_fuel s = (\<Sum>a \<in> set (queue ?q). job_weight s a)"
    using A objs_okD(2) [of ?q] by (simp add: flush_fuel_def sum_list_distinct_conv_sum_set)
  also have "\<dots> = (\<Sum>a \<in> set (queue ?q). weight (the (J s (?h a))))"
  proof (rule sum.cong)
    fix a assume "a \<in> set (queue ?q)"
    then show "job_weight s a = weight (the (J s (?h a)))"
      using c [of a] by (auto simp: job_weight_def weight_def split: closure.splits)
  qed simp
  also have "\<dots> = table_weight (J s)" unfolding table_weight_def dom by (simp add: sum.reindex [OF inj])
  finally show "flush_fuel s = table_weight (J s)" .
qed

lemma table_weight_upd: "finite (dom T) \<Longrightarrow> T k = None \<Longrightarrow> table_weight (T(k \<mapsto> cl)) = weight cl + table_weight T"
proof -
  assume "finite (dom T)" "T k = None"
  then have "table_weight (T(k \<mapsto> cl)) = weight cl + (\<Sum>j \<in> dom T. weight (the ((T(k \<mapsto> cl)) j)))"
    by (simp add: table_weight_def domIff)
  also have "(\<Sum>j \<in> dom T. weight (the ((T(k \<mapsto> cl)) j))) = table_weight T"
    unfolding table_weight_def using \<open>T k = None\<close> by (intro sum.cong) auto
  finally show ?thesis .
qed

lemma table_weight_one_more:
  assumes "finite (dom T)" shows "table_weight (T(i \<mapsto> CUpdate v f)) \<le> table_weight T + 1"
proof (cases "T i")
  case None
  then show ?thesis using table_weight_upd [OF assms None] by (simp add: weight_def)
next
  case (Some cl)
  let ?T = "T(i := None)"
  have "T = ?T(i \<mapsto> cl)" using Some by (simp add: fun_upd_idem)
  then have "table_weight T = weight cl + table_weight ?T"
    using table_weight_upd [of ?T i cl] assms by (metis dom_fun_upd finite_Diff fun_upd_same)
  moreover have "table_weight (T(i \<mapsto> CUpdate v f)) = weight (CUpdate v f) + table_weight ?T"
    using table_weight_upd [of ?T i "CUpdate v f"] assms by simp
  ultimately show ?thesis by (simp add: weight_def)
qed

definition is_update :: "closure \<Rightarrow> bool" where
  "is_update cl = (case cl of CUpdate _ _ \<Rightarrow> True | _ \<Rightarrow> False)"

text \<open>No flush is running; without an outstanding one only second updates of edges are queued.\<close>

definition settled :: "scheduler \<Rightarrow> bool" where
  "settled s \<longleftrightarrow> sched_ok (sc_jq s) \<and> \<not> isFlushing (sc_jq s) \<and>
     (\<not> isFlushPending (sc_jq s) \<longrightarrow> (\<forall>k cl. J s k = Some cl \<longrightarrow> is_update cl))"

definition busy :: "scheduler \<Rightarrow> bool" where
  "busy s \<longleftrightarrow> sched_ok (sc_jq s) \<and> isFlushing (sc_jq s) \<and> \<not> isFlushPending (sc_jq s)"

lemma busy_same: "same_sched (sc_jq s) (sc_jq s') \<Longrightarrow> busy s \<Longrightarrow> busy s'"
  by (simp add: busy_def same_sched_def sched_ok_def)

lemma inv_jq: "stage_inv G (s\<lparr>sc_jq := q\<rparr>) T B = stage_inv G s T B"
  by (rule iffI; erule inv_cong; simp add: vw_def [abs_def] view_at_def wr_def [abs_def])

lemma inv_upd_jq [simp]: "stage_inv G (upd_jq g s) T B = stage_inv G s T B"
  by (simp add: upd_jq_def inv_jq)

lemma queue_empty: "jobs_ok None s \<Longrightarrow> queue (sc_jq s) = [] \<Longrightarrow> J s = Map.empty"
  by (auto simp: J_def job_table_def fun_eq_iff split: option.splits)

lemma end_flush_ok:
  assumes J: "jobs_ok None s" and b: "busy s"
  shows "settled (upd_jq (end_flush w) s)" "jobs_ok None (upd_jq (end_flush w) s)" "J (upd_jq (end_flush w) s) = J s"
proof -
  let ?q = "sc_jq s" and ?s = "upd_jq (end_flush w) s"
  have "table_ok None (end_flush w ?q) = table_ok None ?q \<and> job_table (end_flush w ?q) = job_table ?q"
    by (rule table_frame) (simp_all add: end_flush_def Let_def queueFlush_frame)
  then show "jobs_ok None ?s" and J': "J ?s = J s"
    using J by (simp_all add: jobs_ok_def numbered_cb_def upd_jq_def J_def [abs_def])
  have "jq_ok ?q" using J b by (simp add: jobs_ok_def table_ok_def busy_def jq_ok_def)
  then have "sched_ok (end_flush w ?q)" using jq_ok_end_flush by (auto simp: jq_ok_def)
  moreover have "\<not> isFlushing (end_flush w ?q)" by (simp add: end_flush_def Let_def queueFlush_frame)
  moreover have "queue ?q = []" if "\<not> isFlushPending (end_flush w ?q)"
    using queue_end_flush [OF that] by (simp add: end_flush_def Let_def queueFlush_frame split: if_splits)
  ultimately show "settled ?s" using queue_empty [OF J] J' by (simp add: settled_def upd_jq_def)
qed

lemma inv_after_job: "stage_inv G s T B \<Longrightarrow> stage_inv G (snd (after_job env k s)) T B"
  by (simp add: after_job_def inv_jq split: prod.splits)

lemma busy_after_job: "busy (snd (after_job env k s)) = busy s"
  by (simp add: after_job_def read_clock_def delete_pending_def busy_def sched_ok_def)

lemma busy_pop: "busy (pop_job as s) = busy s"
  by (simp add: pop_job_def upd_jq_def busy_def sched_ok_def)

text \<open>Running the first job of the queue.\<close>

lemma one_job:
  assumes P: "part_of m G" and J: "jobs_ok None s" and I: "stage_inv G s (J s) B" and b: "busy s"
    and q: "queue (sc_jq s) = a # as"
  defines "k \<equiv> job_id (objs (sc_jq s) ! a)"
  shows "\<exists>s1 B'. run_job env m a (pop_job as s) = (s1, False) \<and>
    (let s2 = snd (after_job env k s1) in
       stage_inv G s2 (J s2) B' \<and> jobs_ok None s2 \<and> busy s2 \<and> table_weight (J s2) < table_weight (J s))"
proof -
  note pj = pop_jobs [OF J q, folded k_def]
  obtain cl where cl: "J s k = Some cl" using pj(4) by auto
  have J0: "J (pop_job as s) k = None" using pj(2) by simp
  have "(J s)(k := None, k \<mapsto> cl) = J s" using cl by (simp add: fun_upd_idem)
  then have "stage_inv G (pop_job as s) ((J (pop_job as s))(k \<mapsto> cl)) B"
    using I pj(2) by (simp add: pop_job_def)
  from run_popped [OF P pj(1) J0 this, of env] obtain s1 B1 where
    r: "run_closure env m cl (pop_job as s) = (s1, False)" "stage_inv G s1 (J s1) B1" "jobs_ok (Some k) s1"
      "more_updates (J (pop_job as s)) (J s1)" "weight cl = 1 \<longrightarrow> J s1 = J (pop_job as s)"
      "same_sched (sc_jq (pop_job as s)) (sc_jq s1)" by blast
  let ?s2 = "snd (after_job env k s1)"
  note A = after_job_jobs [OF r(3), of env]
  have "busy ?s2" using busy_same [OF r(6)] b by (simp add: busy_after_job busy_pop)
  moreover have "table_weight (J ?s2) < table_weight (J s)"
  proof -
    let ?T = "(J s)(k := None)"
    have fin: "finite (dom ?T)" using fuel_weight(2) [OF J] by simp
    have "table_weight (J s) = weight cl + table_weight ?T"
      using table_weight_upd [OF fin, of k cl] cl by (simp add: fun_upd_idem)
    moreover have "table_weight (J s1) \<le> table_weight ?T + 1"
      using r(4) table_weight_one_more [OF fin] by (auto simp: more_updates_def pj(2))
    moreover have "weight cl = 1 \<Longrightarrow> table_weight (J s1) = table_weight ?T" using r(5) by (simp add: pj(2))
    ultimately show ?thesis using weight_pos(3) [of cl] A(2) by auto
  qed
  moreover have "run_job env m a (pop_job as s) = (s1, False)" using pj(3) cl r(1) by simp
  ultimately show ?thesis using inv_after_job [OF r(2)] A by (auto simp: Let_def)
qed

lemma job_weight_pos [simp]: "job_weight s a \<noteq> 0"
  by (simp add: job_weight_def split: option.splits closure.splits)

lemma flush_loop_inv:
  assumes "part_of m G" "jobs_ok None s" "stage_inv G s (J s) B" "busy s" "flush_fuel s \<le> n"
  shows "\<exists>B'. let s' = flush_loop n env m t0 b s in
    stage_inv G s' (J s') B' \<and> jobs_ok None s' \<and> settled s' \<and> table_weight (J s') \<le> table_weight (J s) \<and>
    (queue (sc_jq s) \<noteq> [] \<longrightarrow> table_weight (J s') < table_weight (J s))"
  using assms(2-)
proof (induction n arbitrary: s B)
  case 0
  then have "queue (sc_jq s) = []"
    by (cases "queue (sc_jq s)") (auto simp: flush_fuel_def)
  then show ?case
    using end_flush_ok [OF 0(1,3), of "en_window env"] 0(2) by (simp add: flush_loop_Nil Let_def) blast
next
  case (Suc n)
  show ?case
  proof (cases "queue (sc_jq s)")
    case Nil
    then show ?thesis
      using end_flush_ok [OF Suc.prems(1,3), of "en_window env"] Suc.prems(2)
      by (simp add: flush_loop_Nil Let_def) blast
  next
    case (Cons a as)
    let ?k = "job_id (objs (sc_jq s) ! a)"
    obtain s1 B1 where r: "run_job env m a (pop_job as s) = (s1, False)"
      "let s2 = snd (after_job env ?k s1) in
        stage_inv G s2 (J s2) B1 \<and> jobs_ok None s2 \<and> busy s2 \<and> table_weight (J s2) < table_weight (J s)"
      using one_job [OF assms(1) Suc.prems(1-3) Cons, of env] by blast
    obtain t s2 where t: "after_job env ?k s1 = (t, s2)" by (meson surj_pair)
    then have s2: "stage_inv G s2 (J s2) B1" "jobs_ok None s2" "busy s2" "table_weight (J s2) < table_weight (J s)"
      using r(2) by (simp_all add: Let_def)
    show ?thesis
    proof (cases "int t - int t0 \<ge> int b")
      case True
      then have e: "flush_loop (Suc n) env m t0 b s = upd_jq (end_flush (en_window env)) s2"
        using flush_loop_Cons [OF Cons r(1) t] by simp
      show ?thesis
        unfolding e using end_flush_ok [OF s2(2,3), of "en_window env"] s2(1,4) by (simp add: Let_def) (metis less_imp_le)
    next
      case False
      then have e: "flush_loop (Suc n) env m t0 b s = flush_loop n env m t0 b s2"
        using flush_loop_Cons [OF Cons r(1) t] by simp
      have "flush_fuel s2 \<le> n"
        using fuel_weight(1) [OF s2(2)] fuel_weight(1) [OF Suc.prems(1)] s2(4) Suc.prems(4) by simp
      from Suc.IH [OF s2(2,1,3) this] show ?thesis
        unfolding e using s2(4) by (auto simp: Let_def)
    qed
  qed
qed

text \<open>Between the events: the invariant holds and no flush is running.\<close>

definition consistent :: "(string \<Rightarrow> gcell option) \<Rightarrow> scheduler \<Rightarrow> bool" where
  "consistent G s \<longleftrightarrow> (\<exists>B. stage_inv G s (J s) B) \<and> jobs_ok None s \<and> sched_ok (sc_jq s) \<and> \<not> isFlushing (sc_jq s)"

lemma replace_jq:
  assumes "jobs_ok None s" "queue q = queue (sc_jq s)" "objs q = objs (sc_jq s)"
    "pendingJobs q = pendingJobs (sc_jq s)"
  shows "jobs_ok None (s\<lparr>sc_jq := q\<rparr>)" "J (s\<lparr>sc_jq := q\<rparr>) = J s"
  using assms table_frame [of q "sc_jq s" None] by (auto simp: jobs_ok_def numbered_cb_def J_def)

lemma flush_consistent:
  assumes a: "en_async env" and c: "consistent G s"
  shows "consistent G (flush env m s)" "settled (flush env m s)" "J (flush env m s) = J s"
    "isFlushPending (sc_jq (flush env m s))"
proof -
  let ?w = "en_window env"
  have f: "flush env m s = s\<lparr>sc_jq := queueFlush ?w (sc_jq s)\<rparr>" using a by (simp add: flush_def upd_jq_def)
  have j: "jobs_ok None s" "sched_ok (sc_jq s)" "\<not> isFlushing (sc_jq s)" using c by (auto simp: consistent_def)
  note r = replace_jq [OF j(1), of "queueFlush ?w (sc_jq s)", OF queueFlush_frame(1-3)]
  have "jq_ok (sc_jq s)" using j by (simp add: jq_ok_def jobs_ok_def table_ok_def)
  then have so: "sched_ok (queueFlush ?w (sc_jq s))" using jq_ok_queueFlush by (auto simp: jq_ok_def)
  have nf: "\<not> isFlushing (queueFlush ?w (sc_jq s))" using j(3) by (simp add: queueFlush_frame)
  have pe: "isFlushPending (queueFlush ?w (sc_jq s))"
    using j(3) by (simp add: queueFlush_def scheduleJob_def cancelScheduleJob_def Let_def)
  show "J (flush env m s) = J s" using r(2) f by simp
  show "consistent G (flush env m s)"
    using c r so nf by (simp add: consistent_def f inv_jq)
  show "settled (flush env m s)" using so nf pe by (simp add: settled_def f)
  show "isFlushPending (sc_jq (flush env m s))" using pe by (simp add: f)
qed

lemma fire_consistent:
  assumes P: "part_of m G" and c: "consistent G s" and st: "settled s"
  shows "consistent G (fire env m d s)" "settled (fire env m d s)"
    and "isFlushPending (sc_jq (fire env m d s)) \<Longrightarrow> table_weight (J (fire env m d s)) < table_weight (J s)"
proof -
  let ?q = "sc_jq s" and ?f = "fire env m d s"
  obtain B where I: "stage_inv G s (J s) B" and j: "jobs_ok None s" and so: "sched_ok ?q" "\<not> isFlushing ?q"
    using c by (auto simp: consistent_def)
  have "consistent G ?f \<and> settled ?f \<and> (isFlushPending (sc_jq ?f) \<longrightarrow> table_weight (J ?f) < table_weight (J s))"
  proof (cases "handles ?q")
    case Nil
    then have "\<not> isFlushPending ?q" using so by (auto simp: sched_ok_def)
    then show ?thesis using Nil c st by (simp add: fire_def)
  next
    case (Cons h hs)
    then have hs: "hs = []" using so by (auto simp: sched_ok_def split: if_splits)
    define tq where "tq = read_clock (en_window env) (start_flush (?q\<lparr>handles := hs\<rparr>))"
    define b where "b = (case d of None \<Rightarrow> frameInterval | Some remain \<Rightarrow> max 0 (min frameInterval remain))"
    let ?s = "s\<lparr>sc_jq := snd tq\<rparr>"
    have f: "?f = flush_loop (flush_fuel s) env m (fst tq) b ?s"
      by (simp add: fire_def Cons tq_def b_def Let_def case_prod_beta)
    have r: "jobs_ok None ?s" "J ?s = J s"
      using replace_jq [OF j, of "snd tq"] by (simp_all add: tq_def read_clock_def start_flush_def)
    have bs: "busy ?s" using so by (simp add: busy_def tq_def read_clock_def start_flush_def sched_ok_def hs)
    have fu: "flush_fuel ?s \<le> flush_fuel s" using fuel_weight(1) [OF r(1)] fuel_weight(1) [OF j] r(2) by simp
    have Is: "stage_inv G ?s (J ?s) B" using I r(2) by (simp add: inv_jq)
    from flush_loop_inv [OF P r(1) Is bs fu, of env "fst tq" b]
    obtain B' where L: "stage_inv G ?f (J ?f) B'" "jobs_ok None ?f" "settled ?f"
      "queue (sc_jq ?s) \<noteq> [] \<longrightarrow> table_weight (J ?f) < table_weight (J ?s)"
      unfolding f by (auto simp: Let_def)
    have "table_weight (J ?f) < table_weight (J s)" if p: "isFlushPending (sc_jq ?f)"
    proof (cases "queue (sc_jq ?s) = []")
      case True
      then have "?f = upd_jq (end_flush (en_window env)) ?s" by (simp add: f flush_loop_Nil)
      then have False using p bs True by (simp add: upd_jq_def end_flush_def busy_def)
      then show ?thesis ..
    qed (use L(4) r(2) in simp)
    then show ?thesis using L by (auto simp: consistent_def settled_def)
  qed
  then show "consistent G ?f" "settled ?f"
    "isFlushPending (sc_jq ?f) \<Longrightarrow> table_weight (J ?f) < table_weight (J s)" by auto
qed

section \<open>Requests\<close>

text \<open>Only second updates of edges are added, and what is scheduled stays.\<close>

definition only_updates :: "scheduler \<Rightarrow> scheduler \<Rightarrow> bool" where
  "only_updates s s' \<longleftrightarrow> (\<forall>k. J s' k = J s k \<or> (\<exists>v f. J s' k = Some (CUpdate v f)))"

lemma only_updates_refl [simp]: "only_updates s s"
  by (simp add: only_updates_def)

lemma only_updates_trans: "only_updates a b \<Longrightarrow> only_updates b c \<Longrightarrow> only_updates a c"
  unfolding only_updates_def by metis

lemma flags_reserved:
  "getFlag (flags_of v) ls AND FLAG_REMOVE = 0" "getFlag (flags_of v) ls AND FLAG_INSERT = 0"
  "getChangedFlag (flags_of v) ch AND FLAG_REMOVE = 0" "getChangedFlag (flags_of v) ch AND FLAG_INSERT = 0"
proof -
  have split: "f AND FLAG_REMOVE = 0 \<and> f AND FLAG_INSERT = 0" if "f AND (FLAG_INSERT OR FLAG_REMOVE) = 0" for f :: flag
  proof -
    have "\<not> (bit f n \<and> (bit FLAG_INSERT n \<or> bit FLAG_REMOVE n))" for n
      using that by (metis bit_and_iff bit_or_iff bit_0_eq bot_apply bot_bool_def)
    then show ?thesis by (auto intro!: bit_eqI simp: bit_and_iff)
  qed
  show "getFlag (flags_of v) ls AND FLAG_REMOVE = 0" "getFlag (flags_of v) ls AND FLAG_INSERT = 0"
    "getChangedFlag (flags_of v) ch AND FLAG_REMOVE = 0" "getChangedFlag (flags_of v) ch AND FLAG_INSERT = 0"
    using split [OF node_labels(5)] split [OF edge_labels(5)] split [OF node_labels(6)] split [OF edge_labels(6)]
    by (simp_all add: flags_of_def)
qed

text \<open>No insertion is queued for a cell without a view.\<close>

definition fresh_keys :: "scheduler \<Rightarrow> scheduler \<Rightarrow> bool" where
  "fresh_keys s s' \<longleftrightarrow> (\<forall>j. vw s j = None \<longrightarrow> J s' (insert_id j) = J s (insert_id j))"

lemma fresh_keys_trans: "same_views a b \<Longrightarrow> fresh_keys a b \<Longrightarrow> fresh_keys b c \<Longrightarrow> fresh_keys a c"
  unfolding fresh_keys_def same_views_def by (metis map_option_is_None)

lemma only_updates_fresh:
  assumes "only_updates s s'" "consistent G s'" shows "fresh_keys s s'"
proof -
  obtain B where I: "stage_inv G s' (J s') B" using assms(2) by (auto simp: consistent_def)
  have "J s' (insert_id j) = J s (insert_id j)" for j
  proof (rule ccontr)
    assume "J s' (insert_id j) \<noteq> J s (insert_id j)"
    then obtain v f where "J s' (insert_id j) = Some (CUpdate v f)" using assms(1) by (auto simp: only_updates_def)
    then show False using invD(13) [OF I, of "insert_id j"] by (simp add: job_ok_def)
  qed
  then show ?thesis by (simp add: fresh_keys_def)
qed

definition moved :: "(string \<Rightarrow> gcell option) \<Rightarrow> bool \<Rightarrow> scheduler \<Rightarrow> scheduler \<Rightarrow> bool" where
  "moved G prior s s' \<longleftrightarrow> consistent G s' \<and> same_views s s' \<and> (prior \<longrightarrow> only_updates s s') \<and>
     fresh_keys s s' \<and> same_sched (sc_jq s) (sc_jq s')"

lemma moved_trans: "moved G b s s' \<Longrightarrow> moved G b s' s'' \<Longrightarrow> moved G b s s''"
  unfolding moved_def by (blast intro: same_views_trans only_updates_trans same_sched_trans fresh_keys_trans)

lemma moved_prior: "moved G b s s' \<Longrightarrow> (b' \<Longrightarrow> b) \<Longrightarrow> moved G b' s s'"
  by (auto simp: moved_def)

text \<open>A job that is run at once or queued.\<close>

lemma submit_consistent:
  assumes P: "part_of m G" and j: "jobs_ok None s" "sched_ok (sc_jq s)" "\<not> isFlushing (sc_jq s)"
    and I: "stage_inv G s ((J s)(k \<mapsto> CRender v f opts)) B"
    and old: "\<And>cl. J s k = Some cl \<Longrightarrow> job_ok s k cl"
    and k: "k = job_key (sv_cell v) f" and v: "vw s (sv_cell v) = Some (v, st)"
  shows "\<exists>s'. submit env m k p (CRender v f opts) s = (s', False) \<and> moved G (is_prior p) s s'"
proof (cases "is_prior p")
  case True
  obtain s' B' where r: "run_closure env m (CRender v f opts) s = (s', False)" "stage_inv G s' (J s') B'"
    "jobs_ok None s'" "more_updates (J s) (J s')" "same_sched (sc_jq s) (sc_jq s')" "same_views s s'"
    using run_render [OF P j(1) _ I old, of env] by blast
  have "only_updates s s'" using r(4) by (auto simp: only_updates_def more_updates_def)
  moreover have "consistent G s'" using r j by (auto simp: consistent_def same_sched_def sched_ok_def)
  ultimately show ?thesis using True r only_updates_fresh by (auto simp: submit_def moved_def)
next
  case False
  let ?s = "queue_closure k p (CRender v f opts) s"
  note Q = queue_closure_jobs [OF j(1), of k p "CRender v f opts"]
  have s: "same_sched (sc_jq s) (sc_jq ?s)" by (simp add: queue_closure_def same_sched_queueJob)
  have "stage_inv G ?s (J ?s) B" using inv_queue_closure [OF I] Q(2) by simp
  then have "consistent G ?s" using Q(1) j s by (auto simp: consistent_def same_sched_def sched_ok_def)
  moreover have "J ?s (insert_id i) = J s (insert_id i)" if i: "vw s i = None" for i
  proof -
    have "k \<noteq> insert_id i" using i v inv_plain [OF I v] by (auto simp: k job_key_def)
    then show ?thesis using Q(2) by simp
  qed
  then have "fresh_keys s ?s" by (simp add: fresh_keys_def)
  ultimately show ?thesis using False s by (simp add: submit_def moved_def)
qed

lemma calls_ok:
  assumes "Q s" and "\<And>x s. x \<in> set xs \<Longrightarrow> Q s \<Longrightarrow> \<exists>s'. f x s = (s', False) \<and> Q s'"
  shows "\<exists>s'. calls f xs s = (s', False) \<and> Q s'"
proof -
  have "\<exists>s'. fold (\<lambda>x r. then_call r (f x)) xs (s, False) = (s', False) \<and> Q s'"
    using assms
  proof (induction xs arbitrary: s)
    case (Cons x xs)
    obtain s1 where s1: "f x s = (s1, False)" "Q s1" using Cons.prems(1) Cons.prems(2) [of x s] by auto
    from Cons.IH [OF s1(2) Cons.prems(2)] show ?case using s1(1) by (simp add: then_call_def)
  qed simp
  then show ?thesis by (simp add: calls_def)
qed

text \<open>The mounted edges at a cell.\<close>

lemma effected_edges:
  assumes I: "stage_inv G s T B" and e: "(w, f) \<in> set (getEffectedEdges m v s)"
  shows "f AND FLAG_REMOVE = 0" "\<exists>st. vw s (sv_cell w) = Some (w, st)"
proof -
  let ?ls = "\<lambda>edge. [''update''] @
      (if map_option gc_id (getTargetCell edge m) = Some (sv_cell v) then [''target''] else []) @
      (if map_option gc_id (getSourceCell edge m) = Some (sv_cell v) then [''source''] else [])"
  obtain edge where E: "(case view_at (gc_id edge) s of None \<Rightarrow> None
      | Some it \<Rightarrow> if \<not> isViewMounted (vi_view it) s then None
          else Some (vi_view it, getFlag (flags_of (vi_view it)) (?ls edge))) = Some (w, f)"
    using e unfolding getEffectedEdges_def set_map_filter by blast
  define ls where "ls = ?ls edge"
  note E [folded ls_def]
  then obtain it where it: "view_at (gc_id edge) s = Some it" "w = vi_view it"
    and f: "f = getFlag (flags_of w) ls"
    by (auto split: option.splits if_splits)
  show "f AND FLAG_REMOVE = 0" using f flags_reserved(1) by auto
  have vw: "vw s (gc_id edge) = Some (w, vi_state it)" using it by (simp add: vw_def)
  moreover have "sv_cell w = gc_id edge" using invD(5) [OF I, of "gc_id edge" w] vw by (simp add: known_def)
  ultimately show "\<exists>st. vw s (sv_cell w) = Some (w, st)" by auto
qed

definition prior_request :: "sview \<Rightarrow> flag \<Rightarrow> ropts \<Rightarrow> bool" where
  "prior_request v f opts \<longleftrightarrow> hasAction (flags_of v) f [''translate'', ''resize'', ''rotate''] \<or> ro_sync opts"

lemma is_prior_PRIOR [simp]: "is_prior JOB_PRIOR" "\<not> is_prior JOB_Update" "\<not> is_prior (getRenderPriority v)"
  by (simp_all add: is_prior_def JOB_PRIOR_def JOB_Update_def JOB_RenderEdge_def JOB_RenderNode_def getRenderPriority_def)

text \<open>A request whose own job completes the table: its cell may still lack one.\<close>

lemma request_step:
  assumes P: "part_of m G" and j: "jobs_ok None s" "sched_ok (sc_jq s)" "\<not> isFlushing (sc_jq s)"
    and I: "stage_inv G s ((J s)(job_key (sv_cell v) f \<mapsto> CRender v f opts)) B"
    and old: "\<And>cl. J s (job_key (sv_cell v) f) = Some cl \<Longrightarrow> job_ok s (job_key (sv_cell v) f) cl"
    and v: "vw s (sv_cell v) = Some (v, st)"
    and IH: "\<And>w f p s st. consistent G s \<Longrightarrow> vw s (sv_cell w) = Some (w, st) \<Longrightarrow> f AND FLAG_REMOVE = 0 \<Longrightarrow>
      \<exists>s'. request_jobs n env m w f opts p s = (s', False) \<and> moved G (is_prior p) s s'"
  shows "\<exists>s'. request_jobs (Suc n) env m v f opts p s = (s', False) \<and>
    moved G (is_prior p \<or> prior_request v f opts) s s'"
proof -
  let ?k = "job_key (sv_cell v) f"
  let ?s = "upd_item (sv_cell v) (\<lambda>it. it\<lparr>vi_flag := f, vi_opts := opts\<rparr>) s"
  define p' where "p' = (if prior_request v f opts then JOB_PRIOR else p)"
  have pp: "is_prior p' \<longleftrightarrow> is_prior p \<or> prior_request v f opts" by (simp add: p'_def)
  have J: "J ?s = J s" "jobs_ok None ?s" using jobs_ok_frame [of ?s s None] j(1) by auto
  have vwe: "vw ?s = vw s" by (rule vw_upd_flag)
  have jo: "job_ok ?s = job_ok s" by (rule job_ok_cong) (simp_all add: vwe)
  have I1: "stage_inv G ?s ((J ?s)(?k \<mapsto> CRender v f opts)) B" unfolding J(1) by (rule inv_cong_item(2) [OF I])
  obtain s1 where s1: "submit env m ?k p' (CRender v f opts) ?s = (s1, False)" "moved G (is_prior p') ?s s1"
    using submit_consistent [OF P J(2) _ _ I1, where env = env and p = p'] j(2,3) old v by (auto simp: J(1) jo vwe)
  have m1: "moved G (is_prior p') s s1"
    using s1(2) vwe J(1) by (simp add: moved_def same_views_def only_updates_def fresh_keys_def)
  obtain B1 where I2: "stage_inv G s1 (J s1) B1" using s1(2) by (auto simp: moved_def consistent_def)
  have "\<exists>s'. calls (\<lambda>e. request_jobs n env m (fst e) (snd e) opts p') (getEffectedEdges m v s1) s1 = (s', False) \<and>
      moved G (is_prior p') s1 s'"
  proof (rule calls_ok)
    show "moved G (is_prior p') s1 s1" using s1(2) by (simp add: moved_def fresh_keys_def)
    fix e s2 assume e: "e \<in> set (getEffectedEdges m v s1)" and m2: "moved G (is_prior p') s1 s2"
    obtain w fw where ew: "e = (w, fw)" by (cases e)
    note E = effected_edges [OF I2 e [unfolded ew]]
    obtain st' where "vw s2 (sv_cell w) = Some (w, st')"
      using E(2) m2 same_viewsD by (metis moved_def)
    then obtain s3 where "request_jobs n env m w fw opts p' s2 = (s3, False)" "moved G (is_prior p') s2 s3"
      using IH [of s2 w st' fw p'] E(1) m2 by (auto simp: moved_def)
    then show "\<exists>s'. request_jobs n env m (fst e) (snd e) opts p' s2 = (s', False) \<and> moved G (is_prior p') s1 s'"
      using moved_trans [OF m2] by (auto simp: ew)
  qed
  then obtain s' where s': "calls (\<lambda>e. request_jobs n env m (fst e) (snd e) opts p') (getEffectedEdges m v s1) s1 = (s', False)"
    "moved G (is_prior p') s1 s'" by blast
  have "view_at (sv_cell v) s \<noteq> None" using v by (auto simp: vw_def)
  then have "request_jobs (Suc n) env m v f opts p s = (s', False)"
    using s1(1) s'(1) by (auto simp: Let_def then_call_def p'_def prior_request_def split: option.splits)
  then show ?thesis using moved_trans [OF m1 s'(2)] pp by auto
qed

lemma request_jobs_moved:
  assumes P: "part_of m G"
  shows "consistent G s \<Longrightarrow> vw s (sv_cell v) = Some (v, st) \<Longrightarrow> f AND FLAG_REMOVE = 0 \<Longrightarrow>
    \<exists>s'. request_jobs n env m v f opts p s = (s', False) \<and> moved G (is_prior p) s s'"
proof (induction n arbitrary: v f p s st)
  case 0
  then show ?case by (simp add: moved_def fresh_keys_def)
next
  case (Suc n)
  obtain B where I: "stage_inv G s (J s) B" and j: "jobs_ok None s" "sched_ok (sc_jq s)" "\<not> isFlushing (sc_jq s)"
    using Suc.prems(1) by (auto simp: consistent_def)
  have "\<exists>s'. request_jobs (Suc n) env m v f opts p s = (s', False) \<and>
    moved G (is_prior p \<or> prior_request v f opts) s s'"
    by (rule request_step [OF P j inv_enter [OF I Suc.prems(2,3)] invD(13) [OF I] Suc.prems(2) Suc.IH])
  then show ?case using moved_prior by blast
qed

text \<open>Requests that complete the table, with the flush that may follow.\<close>

lemma requestViewUpdate_consistent:
  assumes P: "part_of m G" and a: "en_async env"
    and j: "jobs_ok None s" "sched_ok (sc_jq s)" "\<not> isFlushing (sc_jq s)"
    and I: "stage_inv G s ((J s)(job_key (sv_cell v) f \<mapsto> CRender v f opts)) B"
    and old: "\<And>cl. J s (job_key (sv_cell v) f) = Some cl \<Longrightarrow> job_ok s (job_key (sv_cell v) f) cl"
    and v: "vw s (sv_cell v) = Some (v, st)"
  shows "\<exists>s'. requestViewUpdate env m v f opts p fl s = (s', False) \<and> consistent G s' \<and> same_views s s' \<and>
    fresh_keys s s' \<and> (fl \<longrightarrow> settled s \<longrightarrow> settled s')"
proof -
  have "\<exists>s'. request_jobs (cell_fuel m) env m v f opts p s = (s', False) \<and>
    moved G (is_prior p \<or> prior_request v f opts) s s'"
    unfolding cell_fuel_def Suc_eq_plus1 [symmetric]
    by (rule request_step [OF P j I old v request_jobs_moved [OF P]])
  then obtain s1 where s1: "request_jobs (cell_fuel m) env m v f opts p s = (s1, False)"
    "moved G (is_prior p \<or> prior_request v f opts) s s1" by blast
  have c1: "consistent G s1" using s1(2) by (simp add: moved_def)
  have vn: "view_at (sv_cell v) s \<noteq> None" using v by (auto simp: vw_def)
  show ?thesis
  proof (cases "fl \<and> \<not> prior_request v f opts")
    case True
    then have "requestViewUpdate env m v f opts p fl s = (flush env m s1, False)"
      using s1(1) vn by (simp add: requestViewUpdate_def then_call_def prior_request_def)
    moreover have "same_views s (flush env m s1)"
      using s1(2) a by (simp add: moved_def same_views_def flush_def upd_jq_def)
    moreover have "fresh_keys s (flush env m s1)"
      using s1(2) flush_consistent(3) [OF a c1, of m] by (simp add: moved_def fresh_keys_def)
    ultimately show ?thesis using flush_consistent [OF a c1, of m] by auto
  next
    case False
    then have r: "requestViewUpdate env m v f opts p fl s = (s1, False)"
      using s1(1) by (auto simp: requestViewUpdate_def then_call_def prior_request_def)
    have "settled s1" if "fl" "settled s"
    proof -
      have "only_updates s s1" "same_sched (sc_jq s) (sc_jq s1)" using that False s1(2) by (auto simp: moved_def)
      then have "is_update cl" if "\<not> isFlushPending (sc_jq s1)" "J s1 k = Some cl" for k cl
        using that \<open>settled s\<close> unfolding settled_def same_sched_def only_updates_def
        by (metis closure.simps(11) is_update_def option.inject)
      then show ?thesis using c1 by (auto simp: settled_def consistent_def)
    qed
    then show ?thesis using r c1 s1(2) by (auto simp: moved_def)
  qed
qed

end
