(* ===== verification/Scheduler_Events.thy ===== *)
theory Scheduler_Events
  imports Scheduler_Laws
begin

text \<open>
  What the events of the model do to the scheduler, seen from the invariant of \<open>Scheduler_Laws\<close>: runs
  of an asynchronous renderer in which cells are added, removed, restacked, changed and reset, and in which
  the browser fires the outstanding flush. In such a run no call throws; once no flush is outstanding
  the stage shows the views of the model's cells and nothing else; and firing gets there.
\<close>

section \<open>One event\<close>

text \<open>The id of a cell is unused when no job of an earlier cell of that id is left.\<close>

definition unused :: "string \<Rightarrow> scheduler \<Rightarrow> bool" where
  "unused i s \<longleftrightarrow> map_of (sc_willRemove s) i = None \<and> J s (insert_id i) = None"

lemma flag_insert [simp]: "FLAG_INSERT AND FLAG_INSERT \<noteq> 0" "FLAG_INSERT AND FLAG_REMOVE = 0" "FLAG_INSERT \<noteq> 0"
  by code_simp+

lemma flag_remove_free: "(FLAG_INSERT OR getBootstrapFlag (flags_of v)) AND FLAG_REMOVE = 0"
  using flags_reserved(1) [of v] by (simp add: getBootstrapFlag_def bit.conj_disj_distrib2)

lemma flag_insert_set: "(FLAG_INSERT OR f) AND FLAG_INSERT \<noteq> 0"
  using flag_insert(1) by (simp add: bit.conj_disj_distrib2)

lemma part_of_plain: "part_of m G \<Longrightarrow> G i = Some c \<Longrightarrow> plain i"
  using getCell_iff [of m i c] by (auto simp: part_of_def proper_def)

text \<open>A new cell gets a view and a job that inserts it.\<close>

lemma inv_new_view:
  assumes I: "stage_inv G s T B" and i: "G i = None" "wr s i = None" "T (insert_id i) = None" "plain i"
    and v: "v = \<lparr>sv_no = sc_next s, sv_cell = i, sv_edge = gc_edge c\<rparr>" "vi_view it = v"
    and f: "f AND FLAG_INSERT \<noteq> 0" "f AND FLAG_REMOVE = 0"
    and s': "s' = s\<lparr>sc_next := sc_next s + 1, sc_views := map_put (sc_views s) i it\<rparr>"
  shows "stage_inv (G(i \<mapsto> c)) s' (T(insert_id i \<mapsto> CRender v f opts)) B"
proof -
  note D = invD [OF I]
  have vw': "vw s' = (vw s)(i \<mapsto> (v, vi_state it))"
    by (auto simp: s' vw_def view_at_def fun_eq_iff v(2))
  have wr': "wr s' = wr s" by (simp add: s' wr_def [abs_def])
  have n: "vw s i = None" using D(3) [of i] i(1) by simp
  have k: "known s' j w \<longleftrightarrow> known s j w \<or> j = i \<and> w = v" for j w
    using n i(2) by (auto simp: known_def vw' wr')
  have sv: "sv_cell v = i" "sv_no v = sc_next s" "sv_edge v = gc_edge c" by (simp_all add: v(1))
  let ?T = "T(insert_id i \<mapsto> CRender v f opts)"
  have jo: "job_ok s' j cl" if "?T j = Some cl" for j cl
  proof (cases "j = insert_id i")
    case True
    then show ?thesis using that f i(4) sv by (auto simp: job_ok_def job_key_def vw')
  next
    case False
    then have "T j = Some cl" using that by simp
    then have o: "job_ok s j cl" by (rule D(13))
    show ?thesis
    proof (cases cl)
      case (CRender w g o')
      have "sv_cell w \<noteq> i" using o False n by (auto simp: CRender job_ok_def job_key_def)
      then show ?thesis using o by (simp add: CRender job_ok_def vw')
    next
      case (CUpdate w g)
      then show ?thesis using o n by (auto simp: job_ok_def vw')
    next
      case (CRemove w)
      then show ?thesis using o by (auto simp: job_ok_def wr')
    qed
  qed
  have no: "sv_no w < sc_next s" if "known s j w" for j w using D(7) [OF that] .
  show ?thesis
  proof (rule invI [OF _ _ _ _ _ _ _ _ _ jo])
    show "stage_rel s' B []" using D(1) stage_rel_cong [of s' s B "[]"] by (simp add: s')
    show "sc_area s' = None" using D(2) by (simp add: s')
    show "vw s' j = None \<longleftrightarrow> (G(i \<mapsto> c)) j = None" for j using D(3) [of j] by (simp add: vw')
    show "sv_edge w = gc_edge d" if "(G(i \<mapsto> c)) j = Some d" "vw s' j = Some (w, st)" for j d w st
      using that D(4) [of j d w st] sv by (auto simp: vw' split: if_splits)
    show "sv_cell w = j \<and> plain j \<and> sv_no w < sc_next s'" if "known s' j w" for j w
    proof -
      have "sc_next s' = sc_next s + 1" by (simp add: s')
      then show ?thesis using that D(5,6) no [of j w] sv i(4) by (auto simp: k)
    qed
    show "j = j'" if "known s' j w" "known s' j' w'" "sv_no w = sv_no w'" for j w j' w'
      using that D(8) [of j w j' w'] no [of j w] no [of j' w'] sv by (auto simp: k)
    show "vw s' j = None \<and> (\<exists>v. ?T j = Some (CRemove v))" if "wr s' j = Some w" for j w
    proof -
      have w: "wr s j = Some w" using that by (simp add: wr')
      then have "plain j" using D(6) [of j w] by (simp add: known_def)
      then have "j \<noteq> insert_id i" by (rule plain_insert_id)
      moreover have "j \<noteq> i" using w i(2) by auto
      ultimately show ?thesis using D(9) [OF w] D(10) [OF w] by (simp add: vw')
    qed
    show "st = MOUNTED \<and> in_stage (G(i \<mapsto> c)) B j w \<or> insertion ?T j w" if "vw s' j = Some (w, st)" for j w st
    proof (cases "j = i")
      case True
      then show ?thesis using that f by (auto simp: vw' insertion_def)
    next
      case False
      then show ?thesis using that D(11) [of j w st] by (auto simp: vw' in_stage_def insertion_def)
    qed
    show "\<exists>j w. known s' j w \<and> sv_no w = n" if "n \<in> set (B z)" for n z
      using D(12) [OF that] by (auto simp: k)
  qed
qed

lemma render_cell_consistent:
  assumes a: "en_async env" and P: "part_of m (G(gc_id c \<mapsto> c))" and C: "consistent G s"
    and n: "G (gc_id c) = None" "unused (gc_id c) s" "\<not> en_norender env c"
  shows "\<exists>s'. render_cell env m opts c s = (s', False) \<and> consistent (G(gc_id c \<mapsto> c)) s' \<and>
    (\<forall>j. G j = None \<longrightarrow> j \<noteq> gc_id c \<longrightarrow> unused j s \<longrightarrow> unused j s')"
proof -
  let ?i = "gc_id c" and ?G = "G(gc_id c \<mapsto> c)"
  define v where "v = \<lparr>sv_no = sc_next s, sv_cell = ?i, sv_edge = gc_edge c\<rparr>"
  define f where "f = FLAG_INSERT OR getBootstrapFlag (flags_of v)"
  define it where "it = \<lparr>vi_view = v, vi_flag = f, vi_opts = opts, vi_state = CREATED\<rparr>"
  define s0 where "s0 = s\<lparr>sc_next := sc_next s + 1, sc_views := map_put (sc_views s) ?i it\<rparr>"
  obtain B where I: "stage_inv G s (J s) B" and j: "jobs_ok None s" "sched_ok (sc_jq s)" "\<not> isFlushing (sc_jq s)"
    using C by (auto simp: consistent_def)
  have nv: "view_at j s = None \<longleftrightarrow> G j = None" for j using invD(3) [OF I, of j] by (simp add: vw_def)
  have u: "wr s ?i = None" "J s (insert_id ?i) = None" using n(2) by (simp_all add: unused_def wr_def)
  have f: "f AND FLAG_INSERT \<noteq> 0" "f AND FLAG_REMOVE = 0"
    unfolding f_def by (rule flag_insert_set flag_remove_free)+
  have sv: "sv_cell v = ?i" by (simp add: v_def)
  have k: "job_key (sv_cell v) f = insert_id ?i" using f by (simp add: job_key_def sv)
  have js: "J s0 = J s" "jobs_ok None s0" using jobs_ok_frame [of s0 s None] j(1) by (auto simp: s0_def)
  have "stage_inv ?G s0 ((J s)(insert_id ?i \<mapsto> CRender v f opts)) B"
    by (rule inv_new_view [OF I n(1) u part_of_plain [OF P] v_def _ f s0_def]) (simp_all add: it_def)
  then have I0: "stage_inv ?G s0 ((J s0)(job_key (sv_cell v) f \<mapsto> CRender v f opts)) B" by (simp add: k js)
  have v0: "vw s0 (sv_cell v) = Some (v, CREATED)" by (simp add: sv s0_def vw_def view_at_def it_def)
  have "\<exists>s'. requestViewUpdate env m v f opts (getRenderPriority v) False s0 = (s', False) \<and> consistent ?G s' \<and>
      same_views s0 s' \<and> fresh_keys s0 s' \<and> (False \<longrightarrow> settled s0 \<longrightarrow> settled s')"
    by (rule requestViewUpdate_consistent [OF P a js(2) _ _ I0 _ v0])
       (use j u k js in \<open>auto simp: s0_def\<close>)
  then obtain s1 where s1: "requestViewUpdate env m v f opts (getRenderPriority v) False s0 = (s1, False)"
    "consistent ?G s1" "same_views s0 s1" "fresh_keys s0 s1" by blast
  have "render_cell env m opts c s = (s1, False)"
    using s1(1) nv [of ?i] n(1,3) by (simp add: render_cell_def create_view_def Let_def v_def f_def it_def s0_def)
  moreover have "unused j s1" if h: "G j = None" "j \<noteq> ?i" "unused j s" for j
  proof -
    have "vw s0 j = None" using nv [of j] h by (simp add: vw_def s0_def view_at_def)
    then have "J s1 (insert_id j) = J s (insert_id j)" using s1(4) js(1) by (simp add: fresh_keys_def)
    moreover have "wr s1 j = wr s j" using s1(3) by (simp add: same_views_def s0_def wr_def)
    ultimately show ?thesis using h(3) by (simp add: unused_def wr_def)
  qed
  ultimately show ?thesis using s1(2) by blast
qed

text \<open>Several new cells, in the order of the calls.\<close>

definition hear :: "gcell list \<Rightarrow> (string \<Rightarrow> gcell option) \<Rightarrow> string \<Rightarrow> gcell option" where
  "hear cs G = fold (\<lambda>c G. G(gc_id c \<mapsto> c)) cs G"

lemma cells_consistent:
  assumes a: "en_async env"
  shows "part_of m (hear cs G) \<Longrightarrow> (\<And>c. c \<in> set cs \<Longrightarrow> getCell (gc_id c) m = Some c \<and> \<not> en_norender env c) \<Longrightarrow>
    part_of m G \<Longrightarrow> consistent G s \<Longrightarrow> distinct (map gc_id cs) \<Longrightarrow>
    (\<And>c. c \<in> set cs \<Longrightarrow> G (gc_id c) = None \<and> unused (gc_id c) s) \<Longrightarrow>
    \<exists>s'. fold (\<lambda>c r. then_call r (render_cell env m opts c)) cs (s, False) = (s', False) \<and> consistent (hear cs G) s'"
proof (induction cs arbitrary: G s)
  case (Cons c cs)
  let ?G = "G(gc_id c \<mapsto> c)"
  have P: "part_of m ?G" using Cons.prems(2) [of c] Cons.prems(3) by (auto simp: part_of_def)
  obtain s1 where s1: "render_cell env m opts c s = (s1, False)" "consistent ?G s1"
    "\<forall>j. G j = None \<longrightarrow> j \<noteq> gc_id c \<longrightarrow> unused j s \<longrightarrow> unused j s1"
    using render_cell_consistent [OF a P Cons.prems(4), of opts] Cons.prems(2,6) by auto
  have "\<exists>s'. fold (\<lambda>c r. then_call r (render_cell env m opts c)) cs (s1, False) = (s', False) \<and> consistent (hear cs ?G) s'"
  proof (rule Cons.IH [OF _ _ P s1(2)])
    show "part_of m (hear cs ?G)" using Cons.prems(1) by (simp add: hear_def)
    show "?G (gc_id d) = None \<and> unused (gc_id d) s1" if "d \<in> set cs" for d
    proof -
      have "gc_id d \<in> gc_id ` set cs" using that by (rule imageI)
      then have "gc_id d \<noteq> gc_id c" using Cons.prems(5) by auto
      then show ?thesis using Cons.prems(6) [of d] s1(3) that by simp
    qed
  qed (use Cons.prems(2,5) in auto)
  then show ?case using s1(1) by (simp add: hear_def then_call_def)
qed (simp add: hear_def)

lemma renderViews_consistent:
  assumes a: "en_async env" and P: "part_of m G" "consistent G s"
    and cs: "\<And>c. c \<in> set cs \<Longrightarrow> getCell (gc_id c) m = Some c \<and> \<not> en_norender env c"
    and d: "distinct (map gc_id cs)" and n: "\<And>c. c \<in> set cs \<Longrightarrow> G (gc_id c) = None \<and> unused (gc_id c) s"
  shows "\<exists>s'. renderViews env m cs opts s = (s', False) \<and>
    consistent (\<lambda>i. if i \<in> gc_id ` set cs then getCell i m else G i) s' \<and> settled s'"
proof -
  let ?cs = "sort_key (\<lambda>c. if gc_edge c then 1 else 0 :: nat) cs"
  have h: "hear ds G i = (if i \<in> gc_id ` set ds then getCell i m else G i)"
    if "set ds \<subseteq> set cs" for ds i and G :: "string \<Rightarrow> gcell option"
    using that
  proof (induction ds arbitrary: G)
    case (Cons d ds)
    then show ?case using cs [of d] by (auto simp: hear_def)
  qed (simp add: hear_def)
  have H: "hear ?cs G = (\<lambda>i. if i \<in> gc_id ` set cs then getCell i m else G i)" using h [of ?cs G] by auto
  have "part_of m (hear ?cs G)" using P(1) by (auto simp: part_of_def H)
  moreover have "distinct (map gc_id ?cs)"
    using d by (simp add: distinct_map)
  ultimately obtain s1 where s1: "calls (render_cell env m opts) ?cs s = (s1, False)" "consistent (hear ?cs G) s1"
    using cells_consistent [OF a, of m ?cs G s opts] cs P n by (auto simp: calls_def)
  have "renderViews env m cs opts s = (flush env m s1, False)" using s1(1) by (simp add: renderViews_def then_call_def)
  then show ?thesis using flush_consistent [OF a s1(2)] H by auto
qed

lemma added_consistent:
  assumes a: "en_async env" and P: "part_of m (G(gc_id c \<mapsto> c))" and C: "consistent G s"
    and n: "G (gc_id c) = None" "unused (gc_id c) s" "\<not> en_norender env c"
  shows "\<exists>s'. onCellAddedView env m c opts s = (s', False) \<and> consistent (G(gc_id c \<mapsto> c)) s' \<and> settled s'"
proof -
  have g: "getCell (gc_id c) m = Some c" using P by (simp add: part_of_def)
  have "getCell i m = Some d" if "G i = Some d" for i d
  proof -
    have "(G(gc_id c \<mapsto> c)) i = Some d" using that n(1) by auto
    then show ?thesis using P by (simp add: part_of_def del: fun_upd_apply)
  qed
  then have P0: "part_of m G" using P by (simp add: part_of_def del: fun_upd_apply)
  have "(\<lambda>i. if i \<in> gc_id ` set [c] then getCell i m else G i) = G(gc_id c \<mapsto> c)" using g by auto
  then show ?thesis
    using renderViews_consistent [OF a P0 C, of "[c]" opts] g n by (simp add: onCellAddedView_def del: fun_upd_apply)
qed

text \<open>A removed cell's view waits for a job that takes it off the stage.\<close>

lemma inv_removed_view:
  assumes I: "stage_inv G s T B" and it: "view_at i s = Some it"
    and s': "s' = s\<lparr>sc_willRemove := map_put (sc_willRemove s) i it, sc_views := map_del (sc_views s) i\<rparr>"
  shows "stage_inv (G(i := None)) s' (T(i \<mapsto> CRemove (vi_view it))) B"
proof -
  note D = invD [OF I]
  let ?v = "vi_view it" and ?T = "T(i \<mapsto> CRemove (vi_view it))"
  have v: "vw s i = Some (?v, vi_state it)" using it by (simp add: vw_def)
  have p: "plain i" by (rule inv_plain [OF I v])
  have vw': "vw s' = (vw s)(i := None)" by (auto simp: s' vw_def view_at_def fun_eq_iff)
  have wr': "wr s' = (wr s)(i \<mapsto> ?v)" by (auto simp: s' wr_def fun_eq_iff)
  have wn: "wr s i = None" by (rule no_removal [OF I v])
  have k: "known s' j w \<longleftrightarrow> known s j w" for j w
    using v wn by (auto simp: known_def vw' wr')
  have ci: "sv_cell w = j" if "vw s j = Some (w, st)" for j w st using D(5) [of j w] that by (simp add: known_def)
  have jo: "job_ok s' j cl" if "?T j = Some cl" for j cl
  proof (cases "j = i")
    case True
    then show ?thesis using that p ci [OF v] by (auto simp: job_ok_def wr')
  next
    case False
    then have o: "job_ok s j cl" using that D(13) by simp
    show ?thesis
    proof (cases cl)
      case (CRender w g o')
      have "g AND FLAG_INSERT \<noteq> 0" if "sv_cell w = i" using o that False by (auto simp: CRender job_ok_def job_key_def split: if_splits)
      then show ?thesis using o by (auto simp: CRender job_ok_def vw')
    next
      case (CUpdate w g)
      then show ?thesis using o False by (auto simp: job_ok_def vw')
    next
      case (CRemove w)
      then have "j = sv_cell w \<and> plain j \<and> wr s j \<noteq> None" using o by (auto simp: job_ok_def)
      then show ?thesis using CRemove False by (auto simp: job_ok_def wr')
    qed
  qed
  show ?thesis
  proof (rule invI [OF _ _ _ _ _ _ _ _ _ jo])
    show "stage_rel s' B []" using D(1) stage_rel_cong [of s' s B "[]"] by (simp add: s')
    show "sc_area s' = None" using D(2) by (simp add: s')
    show "vw s' j = None \<longleftrightarrow> (G(i := None)) j = None" for j using D(3) [of j] by (simp add: vw')
    show "sv_edge w = gc_edge d" if "(G(i := None)) j = Some d" "vw s' j = Some (w, st)" for j d w st
      using that D(4) [of j d w st] by (auto simp: vw' split: if_splits)
    show "sv_cell w = j \<and> plain j \<and> sv_no w < sc_next s'" if "known s' j w" for j w
    proof -
      have "sc_next s' = sc_next s" by (simp add: s')
      then show ?thesis using that D(5,6,7) by (auto simp: k)
    qed
    show "j = j'" if "known s' j w" "known s' j' w'" "sv_no w = sv_no w'" for j w j' w'
      using that D(8) [of j w j' w'] by (simp add: k)
    show "vw s' j = None \<and> (\<exists>v. ?T j = Some (CRemove v))" if "wr s' j = Some w" for j w
      using that D(9,10) [of j w] by (auto simp: vw' wr' split: if_splits)
    show "st = MOUNTED \<and> in_stage (G(i := None)) B j w \<or> insertion ?T j w" if "vw s' j = Some (w, st)" for j w st
      using that D(11) [of j w st] plain_insert_id(2) [OF p, of j]
      by (auto simp: vw' in_stage_def insertion_def split: if_splits)
    show "\<exists>j w. known s' j w \<and> sv_no w = n" if "n \<in> set (B z)" for n z
      using D(12) [OF that] by (simp add: k)
  qed
qed

lemma removed_consistent:
  assumes a: "en_async env" and C: "consistent G s" and g: "G i \<noteq> None"
  shows "consistent (G(i := None)) (onCellRemovedView env m i s)" "settled (onCellRemovedView env m i s)"
proof -
  obtain B where I: "stage_inv G s (J s) B" and j: "jobs_ok None s" "sched_ok (sc_jq s)" "\<not> isFlushing (sc_jq s)"
    using C by (auto simp: consistent_def)
  obtain it where it: "view_at i s = Some it" using invD(3) [OF I, of i] g by (auto simp: vw_def)
  define s0 where "s0 = s\<lparr>sc_willRemove := map_put (sc_willRemove s) i it, sc_views := map_del (sc_views s) i\<rparr>"
  let ?s = "queue_closure i (getRenderPriority (vi_view it)) (CRemove (vi_view it)) s0"
  have js: "J s0 = J s" "jobs_ok None s0" using jobs_ok_frame [of s0 s None] j(1) by (auto simp: s0_def)
  note Q = queue_closure_jobs [OF js(2), of i "getRenderPriority (vi_view it)" "CRemove (vi_view it)"]
  have "stage_inv (G(i := None)) ?s (J ?s) B"
    using inv_queue_closure [OF inv_removed_view [OF I it s0_def]] Q(2) js(1) by simp
  moreover have "same_sched (sc_jq s) (sc_jq ?s)" by (simp add: queue_closure_def same_sched_queueJob s0_def)
  ultimately have c: "consistent (G(i := None)) ?s"
    using Q(1) j by (auto simp: consistent_def same_sched_def sched_ok_def)
  have "onCellRemovedView env m i s = flush env m ?s"
    by (simp add: onCellRemovedView_def removeViews_def it s0_def)
  then show "consistent (G(i := None)) (onCellRemovedView env m i s)" "settled (onCellRemovedView env m i s)"
    using flush_consistent [OF a c] by simp_all
qed

text \<open>A cell that changes, in its z-index or otherwise.\<close>

lemma inv_cell_changed:
  assumes I: "stage_inv G s T B" and g: "G i = Some c" "gc_edge c' = gc_edge c"
    and z: "z_of c' = z_of c \<or> (\<exists>v st. vw s i = Some (v, st) \<and> insertion T i v)"
  shows "stage_inv (G(i \<mapsto> c')) s T B"
proof -
  note D = invD [OF I]
  show ?thesis
  proof (rule invI [OF D(1,2) _ _ _ D(8) _ _ D(12,13)])
    show "vw s j = None \<longleftrightarrow> (G(i \<mapsto> c')) j = None" for j using D(3) [of j] g by simp
    show "sv_edge v = gc_edge d" if "(G(i \<mapsto> c')) j = Some d" "vw s j = Some (v, st)" for j d v st
      using that D(4) [of j _ v st] g by (auto split: if_splits)
    show "st = MOUNTED \<and> in_stage (G(i \<mapsto> c')) B j v \<or> insertion T j v" if "vw s j = Some (v, st)" for j v st
      using that D(11) [OF that] z g by (auto simp: in_stage_def)
  qed (use D(5,6,7,9,10) in blast)+
qed

lemma z_changed_consistent:
  assumes a: "en_async env" and P: "part_of m (G(i \<mapsto> c'))" and C: "consistent G s" "settled s"
    and g: "G i = Some c" "gc_edge c' = gc_edge c"
  shows "\<exists>s'. onCellZIndexChanged env m i opts s = (s', False) \<and> consistent (G(i \<mapsto> c')) s' \<and> settled s'"
proof -
  obtain B where I: "stage_inv G s (J s) B" and j: "jobs_ok None s" "sched_ok (sc_jq s)" "\<not> isFlushing (sc_jq s)"
    using C by (auto simp: consistent_def)
  obtain it where it: "view_at i s = Some it" using invD(3) [OF I, of i] g by (auto simp: vw_def)
  let ?v = "vi_view it"
  have vi: "vw s i = Some (?v, vi_state it)" using it by (simp add: vw_def)
  have ci: "sv_cell ?v = i" using invD(5) [OF I, of i ?v] vi by (simp add: known_def)
  have v: "vw s (sv_cell ?v) = Some (?v, vi_state it)" using vi ci by simp
  let ?T = "(J s)(job_key (sv_cell ?v) FLAG_INSERT \<mapsto> CRender ?v FLAG_INSERT opts)"
  have "insertion ?T i ?v" by (auto simp: insertion_def job_key_def ci)
  then have I1: "stage_inv (G(i \<mapsto> c')) s ?T B"
    using inv_cell_changed [where c = c and c' = c', OF inv_enter [OF I v] g] vi by simp
  have r: "onCellZIndexChanged env m i opts s = requestViewUpdate env m ?v FLAG_INSERT opts JOB_Update True s"
    by (simp add: onCellZIndexChanged_def it)
  show ?thesis
    unfolding r using requestViewUpdate_consistent [OF P a j I1 invD(13) [OF I] v, where p = JOB_Update and fl = True] C(2) by blast
qed

lemma changed_consistent:
  assumes a: "en_async env" and P: "part_of m (G(i \<mapsto> c'))" and C: "consistent G s" "settled s"
    and g: "G i = Some c" "gc_edge c' = gc_edge c" "z_of c' = z_of c" and it: "view_at i s = Some it"
  shows "\<exists>s'. onCellChanged env m (vi_view it) h updated dirty tool opts s = (s', False) \<and>
    consistent (G(i \<mapsto> c')) s' \<and> settled s'"
proof (cases "onAttrsChange (flags_of (vi_view it)) h updated dirty")
  case None
  obtain B where I: "stage_inv G s (J s) B" using C(1) by (auto simp: consistent_def)
  have "stage_inv (G(i \<mapsto> c')) s (J s) B" by (rule inv_cell_changed [OF I g(1,2)]) (simp add: g(3))
  then have "consistent (G(i \<mapsto> c')) s" using C(1) by (auto simp: consistent_def)
  then show ?thesis using None C(2) by (simp add: onCellChanged_def)
next
  case (Some f)
  let ?v = "vi_view it" and ?o = "if tool then opts\<lparr>ro_sync := True\<rparr> else opts"
  obtain B where I: "stage_inv G s (J s) B" and j: "jobs_ok None s" "sched_ok (sc_jq s)" "\<not> isFlushing (sc_jq s)"
    using C by (auto simp: consistent_def)
  have vi: "vw s i = Some (?v, vi_state it)" using it by (simp add: vw_def)
  have ci: "sv_cell ?v = i" using invD(5) [OF I, of i ?v] vi by (simp add: known_def)
  have v: "vw s (sv_cell ?v) = Some (?v, vi_state it)" using vi ci by simp
  have f: "f AND FLAG_REMOVE = 0"
    using Some flags_reserved(3) by (auto simp: onAttrsChange_def Let_def bit.conj_disj_distrib2 flags_reserved split: if_splits)
  have I1: "stage_inv (G(i \<mapsto> c')) s (J s) B" by (rule inv_cell_changed [OF I g(1,2)]) (simp add: g(3))
  have r: "onCellChanged env m ?v h updated dirty tool opts s = requestViewUpdate env m ?v f ?o JOB_Update True s"
    by (simp add: onCellChanged_def Some)
  show ?thesis
    unfolding r using requestViewUpdate_consistent [OF P a j inv_enter [OF I1 v f] invD(13) [OF I1] v, where p = JOB_Update and fl = True] C(2)
    by blast
qed

text \<open>A reset throws everything away and renders the cells of the model anew.\<close>

text \<open>While views are taken off the stage, its elements are those of the views still to be removed.\<close>

definition removing :: "string set \<Rightarrow> scheduler \<Rightarrow> bool" where
  "removing D s \<longleftrightarrow> dom (map_of (sc_willRemove s)) \<subseteq> D \<and> sc_zPivots s = [] \<and>
     (\<forall>i it. map_of (sc_willRemove s) i = Some it \<longrightarrow> sv_cell (vi_view it) = i) \<and>
     (\<forall>c \<in> set (sc_stage s). \<exists>i it. map_of (sc_willRemove s) i = Some it \<and> c = Elem (sv_no (vi_view it)))"

lemma removing_step:
  assumes "removing (insert i D) s" "map_of (sc_willRemove s) i = Some it"
  shows "removing D (removeView (vi_view it) s)"
proof -
  have c: "sv_cell (vi_view it) = i" using assms by (auto simp: removing_def)
  let ?s = "removeView (vi_view it) s"
  have f: "map_of (sc_willRemove ?s) = (map_of (sc_willRemove s))(i := None)" "sc_zPivots ?s = sc_zPivots s"
    "sc_stage ?s = removeAll (Elem (sv_no (vi_view it))) (sc_stage s)"
    using assms(2) by (simp_all add: removeView_def c trigger_ev_def unmount_def)
  have "\<exists>j it'. map_of (sc_willRemove ?s) j = Some it' \<and> x = Elem (sv_no (vi_view it'))" if "x \<in> set (sc_stage ?s)" for x
  proof -
    have x: "x \<in> set (sc_stage s)" "x \<noteq> Elem (sv_no (vi_view it))" using that by (auto simp: f)
    have "\<exists>j it'. map_of (sc_willRemove s) j = Some it' \<and> x = Elem (sv_no (vi_view it'))"
      using assms(1) x(1) unfolding removing_def by blast
    then obtain j it' where "map_of (sc_willRemove s) j = Some it'" "x = Elem (sv_no (vi_view it'))" by blast
    then show ?thesis using x assms(2) by (cases "j = i") (auto simp: f)
  qed
  then show ?thesis using assms(1) by (auto simp: removing_def f)
qed

definition reset_one :: "string \<Rightarrow> scheduler \<Rightarrow> scheduler" where
  "reset_one i s = (case map_of (sc_willRemove s) i of None \<Rightarrow> s | Some it \<Rightarrow> removeView (vi_view it) s)"

lemma removing_all: "removing (set is) s \<Longrightarrow> removing {} (fold reset_one is s)"
proof (induction "is" arbitrary: s)
  case (Cons i "is")
  have "removing (set is) (reset_one i s)"
  proof (cases "map_of (sc_willRemove s) i")
    case None
    then show ?thesis using Cons.prems by (auto simp: reset_one_def removing_def)
  next
    case (Some it)
    then show ?thesis using removing_step [of i "set is" s it] Cons.prems by (simp add: reset_one_def)
  qed
  then show ?case using Cons.IH by simp
qed simp

lemma removeView_frame:
  "sc_area (removeView v s) = sc_area s \<and> sc_next (removeView v s) = sc_next s \<and>
   sc_jq (removeView v s) = sc_jq s \<and> sc_closures (removeView v s) = sc_closures s"
  by (simp add: removeView_def trigger_ev_def unmount_def split: option.splits)

lemma reset_one_frame:
  "sc_area (fold reset_one is s) = sc_area s \<and> sc_next (fold reset_one is s) = sc_next s \<and>
   sc_jq (fold reset_one is s) = sc_jq s \<and> sc_closures (fold reset_one is s) = sc_closures s"
  by (induction "is" arbitrary: s) (auto simp: reset_one_def removeView_frame split: option.splits)

lemma cleared_consistent:
  assumes C: "consistent G s"
  shows "consistent (\<lambda>_. None) (resetViews (removeZPivots (upd_jq clearJobs s)))" "unused i (resetViews (removeZPivots (upd_jq clearJobs s)))"
proof -
  obtain B where I: "stage_inv G s (J s) B" and j: "jobs_ok None s" "sched_ok (sc_jq s)"
    using C by (auto simp: consistent_def)
  note D = invD [OF I]
  let ?s1 = "removeZPivots (upd_jq clearJobs s)"
  define s2 where "s2 = ?s1\<lparr>sc_willRemove := fold (\<lambda>i w. map_put w i (the (map_of (sc_willRemove s) i)))
      (map fst (sc_willRemove s)) (sc_views s)\<rparr>"
  let ?is = "key_order (map fst (sc_willRemove s2))"
  let ?s = "resetViews ?s1"
  have r: "?s = (fold reset_one ?is s2)\<lparr>sc_views := [], sc_willRemove := []\<rparr>"
    unfolding resetViews_def Let_def reset_one_def [abs_def] s2_def by (simp add: removeZPivots_def upd_jq_def)
  have w: "map_of (sc_willRemove s2) k = Some it \<longleftrightarrow>
      map_of (sc_willRemove s) k = Some it \<or> map_of (sc_willRemove s) k = None \<and> view_at k s = Some it" for k it
  proof (cases "map_of (sc_willRemove s) k")
    case None
    then have "k \<notin> set (map fst (sc_willRemove s))" by (simp add: map_of_eq_None_iff)
    then show ?thesis using None unfolding s2_def by (simp add: assoc.get_fold_put view_at_def)
  next
    case (Some it')
    then have "k \<in> set (map fst (sc_willRemove s))" by (metis map_of_eq_None_iff option.distinct(1) set_map)
    then show ?thesis using Some unfolding s2_def by (simp add: assoc.get_fold_put)
  qed
  have kn: "(\<exists>it. map_of (sc_willRemove s2) k = Some it \<and> vi_view it = v) \<longleftrightarrow> known s k v" for k v
  proof (cases "map_of (sc_willRemove s) k")
    case None
    then show ?thesis by (auto simp: w known_def vw_def wr_def)
  next
    case (Some it')
    then have "vw s k = None" using D(9) [of k "vi_view it'"] by (simp add: wr_def)
    then show ?thesis using Some by (auto simp: w known_def wr_def)
  qed
  have st: "sc_stage s2 = filter (\<lambda>c. case c of Pivot z \<Rightarrow> z \<notin> set (sc_zPivots s) | Elem _ \<Rightarrow> True) (sc_stage s)"
    by (simp add: s2_def removeZPivots_def upd_jq_def cong: stage_child.case_cong)
  have "removing (set ?is) s2"
    unfolding removing_def
  proof (intro conjI ballI allI impI)
    show "dom (map_of (sc_willRemove s2)) \<subseteq> set ?is" by (auto simp: dom_map_of_conv_image_fst)
    show "sc_zPivots s2 = []" by (simp add: s2_def removeZPivots_def)
    show "sv_cell (vi_view it) = k" if "map_of (sc_willRemove s2) k = Some it" for k it
      using that D(5) kn by blast
    fix c assume c: "c \<in> set (sc_stage s2)"
    then have "c \<in> set (sc_stage s)" "\<And>z. c = Pivot z \<Longrightarrow> z \<notin> set (sc_zPivots s)" by (auto simp: st)
    moreover have "z \<in> set (sc_zPivots s)" if "Pivot z \<in> set (sc_stage s)" for z
      using D(1) that by (simp add: stage_rel_def)
    ultimately have "\<exists>n. c = Elem n \<and> Elem n \<in> set (sc_stage s)" by (cases c rule: stage_child.exhaust) blast+
    then obtain n where n: "c = Elem n" "Elem n \<in> set (sc_stage s)" by blast
    then obtain z where "n \<in> set (B z)" using D(1) by (auto simp: stage_rel_def)
    then obtain k v where "known s k v" "sv_no v = n" using D(12) by blast
    then show "\<exists>i it. map_of (sc_willRemove s2) i = Some it \<and> c = Elem (sv_no (vi_view it))" using kn [of k v] n(1) by auto
  qed
  from removing_all [OF this] have e: "sc_stage ?s = []" "sc_zPivots ?s = []"
    unfolding r by (auto simp: removing_def)
  have f: "sc_area ?s = None" "sc_jq ?s = clearJobs (sc_jq s)" "sc_closures ?s = sc_closures s"
    "sc_views ?s = []" "sc_willRemove ?s = []"
    using reset_one_frame [of ?is s2] D(2) unfolding r by (simp_all add: s2_def removeZPivots_def upd_jq_def)
  have q: "queue (clearJobs (sc_jq s)) = []" "pendingJobs (clearJobs (sc_jq s)) = Map.empty"
    "\<not> isFlushing (clearJobs (sc_jq s))"
    by (simp_all add: clearJobs_def cancelScheduleJob_def)
  have Je: "J ?s = Map.empty" using q by (simp add: J_def [abs_def] f job_table_def)
  have jo: "jobs_ok None ?s"
    using q by (simp add: jobs_ok_def table_ok_def f job_table_def objs_ok_def desc_def)
  have v: "vw ?s k = None" "wr ?s k = None" for k by (simp_all add: vw_def view_at_def wr_def f)
  have "stage_inv (\<lambda>_. None) ?s (J ?s) (\<lambda>_. [])"
    by (rule invI) (simp_all add: v known_def Je f stage_rel_def once_def painted_def e)
  moreover have "sched_ok (clearJobs (sc_jq s))"
    using jq_ok_clearJobs [of "sc_jq s"] j by (simp add: jq_ok_def jobs_ok_def table_ok_def)
  ultimately show "consistent (\<lambda>_. None) ?s" using jo q by (auto simp: consistent_def f)
  show "unused i ?s" by (simp add: unused_def f Je)
qed

lemma reseted_consistent:
  assumes a: "en_async env" and P: "proper m" and C: "consistent G s"
    and n: "\<And>c. c \<in> set (getCells m) \<Longrightarrow> \<not> en_norender env c"
  shows "\<exists>s'. onModelReseted env m sync False previous s = (s', False) \<and> consistent (\<lambda>i. getCell i m) s' \<and> settled s'"
proof -
  let ?s = "resetViews (removeZPivots (upd_jq clearJobs s))"
  let ?s1 = "?s\<lparr>sc_arrays := sc_arrays ?s @ [map gc_id (getCells m)]\<rparr>"
  note R = cleared_consistent [OF C]
  have ok: "model_ok m" using P by (simp add: proper_def)
  have c: "getCell (gc_id c) m = Some c" if "c \<in> set (getCells m)" for c
    using that getCell_iff [OF ok] by (simp add: cells_of_def getCells_def)
  have js: "J ?s1 = J ?s" "jobs_ok None ?s1 \<longleftrightarrow> jobs_ok None ?s" using jobs_ok_frame [of ?s1 ?s None] by auto
  have "stage_inv (\<lambda>_. None) ?s1 (J ?s) B" if "stage_inv (\<lambda>_. None) ?s (J ?s) B" for B
    by (rule inv_cong [OF that]) (simp_all add: vw_def [abs_def] view_at_def wr_def [abs_def])
  then have C1: "consistent (\<lambda>_. None) ?s1" using R(1) js by (auto simp: consistent_def)
  have u: "unused i ?s1" for i using R(2) [of i] js by (simp add: unused_def)
  have d: "distinct (map gc_id (getCells m))" using ok by (simp add: model_ok_def coll_ok_def getCells_def distinct_map)
  have e: "(\<lambda>i. if i \<in> gc_id ` set (getCells m) then getCell i m else None) = (\<lambda>i. getCell i m)"
  proof
    fix i show "(if i \<in> gc_id ` set (getCells m) then getCell i m else None) = getCell i m"
    proof (cases "getCell i m")
      case (Some c)
      then have "c \<in> set (getCells m)" "i = gc_id c"
        using getCell_iff [OF ok, of i c] by (simp_all add: cells_of_def getCells_def)
      then show ?thesis by simp
    qed simp
  qed
  have P0: "part_of m (\<lambda>_. None)" using P by (simp add: part_of_def)
  show ?thesis
    using renderViews_consistent [OF a P0 C1, of "getCells m" "\<lparr>ro_sync = sync, ro_queue = Some (length (sc_arrays ?s))\<rparr>"] c n d u
    unfolding e by (simp add: onModelReseted_def Let_def)
qed

section \<open>Runs\<close>

text \<open>\<open>rendering env G s t\<close>: the scheduler has come to \<open>s\<close> and has heard of the cells of \<open>G\<close>; \<open>t\<close> tells
  whether a call has thrown. At every event the model has at least the cells the scheduler has heard
  of, edges end at cells of the model, and an id comes again only when the jobs of its earlier cell
  are done.\<close>

inductive rendering :: "env \<Rightarrow> (string \<Rightarrow> gcell option) \<Rightarrow> scheduler \<Rightarrow> bool \<Rightarrow> bool" for env where
  start: "rendering env (\<lambda>_. None) new_Scheduler False"
| added: "rendering env G s t \<Longrightarrow> part_of m (G(gc_id c \<mapsto> c)) \<Longrightarrow> G (gc_id c) = None \<Longrightarrow>
    unused (gc_id c) s \<Longrightarrow> \<not> en_norender env c \<Longrightarrow> onCellAddedView env m c opts s = (s', t') \<Longrightarrow>
    rendering env (G(gc_id c \<mapsto> c)) s' (t \<or> t')"
| removed: "rendering env G s t \<Longrightarrow> G i \<noteq> None \<Longrightarrow>
    rendering env (G(i := None)) (onCellRemovedView env m i s) t"
| restacked: "rendering env G s t \<Longrightarrow> part_of m (G(i \<mapsto> c')) \<Longrightarrow> G i = Some c \<Longrightarrow> gc_edge c' = gc_edge c \<Longrightarrow>
    onCellZIndexChanged env m i opts s = (s', t') \<Longrightarrow> rendering env (G(i \<mapsto> c')) s' (t \<or> t')"
| changed: "rendering env G s t \<Longrightarrow> part_of m (G(i \<mapsto> c')) \<Longrightarrow> G i = Some c \<Longrightarrow> gc_edge c' = gc_edge c \<Longrightarrow>
    z_of c' = z_of c \<Longrightarrow> view_at i s = Some it \<Longrightarrow>
    onCellChanged env m (vi_view it) h updated dirty tool opts s = (s', t') \<Longrightarrow>
    rendering env (G(i \<mapsto> c')) s' (t \<or> t')"
| reseted: "rendering env G s t \<Longrightarrow> proper m \<Longrightarrow> (\<forall>c \<in> set (getCells m). \<not> en_norender env c) \<Longrightarrow>
    onModelReseted env m sync False previous s = (s', t') \<Longrightarrow> rendering env (\<lambda>i. getCell i m) s' (t \<or> t')"
| shown_again: "rendering env G s t \<Longrightarrow> rendering env G (onCellVisibleChanged m i b s) t"
| fired: "rendering env G s t \<Longrightarrow> part_of m G \<Longrightarrow> rendering env G (fire env m d s) t"

lemma new_consistent: "consistent (\<lambda>_. None) new_Scheduler" "settled new_Scheduler"
proof -
  have e: "view_at i new_Scheduler = None" "map_of (sc_willRemove new_Scheduler) i = None"
    "J new_Scheduler k = None" for i k
    by (simp_all add: new_Scheduler_def view_at_def J_def job_table_def new_JobQueue_def)
  have "stage_inv (\<lambda>_. None) new_Scheduler (J new_Scheduler) (\<lambda>_. [])"
    by (rule invI)
       (simp_all add: e vw_def wr_def known_def, simp_all add: stage_rel_def once_def painted_def new_Scheduler_def)
  moreover have "table_ok None new_JobQueue"
    by (simp add: table_ok_def objs_ok_def new_JobQueue_def desc_def)
  ultimately show "consistent (\<lambda>_. None) new_Scheduler" "settled new_Scheduler"
    by (auto simp: consistent_def settled_def jobs_ok_def e sched_ok_def)
       (simp_all add: new_Scheduler_def job_table_def new_JobQueue_def)
qed

lemma visible_consistent:
  assumes "consistent G s" "settled s"
  shows "consistent G (onCellVisibleChanged m i b s)" "settled (onCellVisibleChanged m i b s)"
proof -
  let ?s = "onCellVisibleChanged m i b s"
  have f: "sc_views ?s = sc_views s" "sc_willRemove ?s = sc_willRemove s" "sc_area ?s = sc_area s"
    "sc_next ?s = sc_next s" "sc_jq ?s = sc_jq s" "sc_closures ?s = sc_closures s"
    "sc_zPivots ?s = sc_zPivots s" "sc_stage ?s = sc_stage s"
    using toggleVisible_views toggleVisible_frame by (simp_all add: onCellVisibleChanged_def)
  have js: "J ?s = J s" "jobs_ok None ?s \<longleftrightarrow> jobs_ok None s"
    using jobs_ok_frame [of ?s s None] f by auto
  have "stage_inv G ?s (J s) B" if "stage_inv G s (J s) B" for B
    by (rule inv_cong [OF that f(8,7,3,4) vw_frame [OF f(1)] wr_frame [OF f(2)]])
  then show "consistent G ?s" using assms(1) f js by (auto simp: consistent_def)
  show "settled ?s" using assms(2) f js by (simp add: settled_def)
qed

lemma rendering_ok:
  assumes "en_async env" "rendering env G s t"
  shows "consistent G s \<and> settled s \<and> \<not> t"
  using assms(2)
proof induction
  case start
  then show ?case using new_consistent by simp
next
  case (added G s t m c opts s' t')
  then show ?case using added_consistent [OF assms(1) added.hyps(2), of s opts] by (auto simp del: fun_upd_apply)
next
  case (removed G s t i m)
  then show ?case using removed_consistent [OF assms(1)] by blast
next
  case (restacked G s t m i c' c opts s' t')
  then show ?case using z_changed_consistent [OF assms(1) restacked.hyps(2), of s c opts] by (auto simp del: fun_upd_apply)
next
  case (changed G s t m i c' c it h updated dirty tool opts s' t')
  then show ?case
    using changed_consistent [OF assms(1) changed.hyps(2), where s = s and c = c and it = it and h = h and
        updated = updated and dirty = dirty and tool = tool and opts = opts] by (auto simp del: fun_upd_apply)
next
  case (reseted G s t m sync previous s' t')
  then show ?case
    using reseted_consistent [OF assms(1) reseted.hyps(2), of G s sync previous] by auto
next
  case (shown_again G s t m i b)
  then show ?case using visible_consistent by blast
next
  case (fired G s t m d)
  then show ?case using fire_consistent by blast
qed

section \<open>What the stage shows\<close>

text \<open>The elements of the views of the cells with z-index \<open>z\<close>.\<close>

definition views_at :: "(string \<Rightarrow> gcell option) \<Rightarrow> scheduler \<Rightarrow> int \<Rightarrow> nat set" where
  "views_at G s z = {n. \<exists>i c v. G i = Some c \<and> z_of c = z \<and> findViewByCell i s = Some v \<and> sv_no v = n}"

definition exact :: "(string \<Rightarrow> gcell option) \<Rightarrow> scheduler \<Rightarrow> bool" where
  "exact G s \<longleftrightarrow> (\<forall>i. findViewByCell i s = None \<longleftrightarrow> G i = None) \<and>
     (\<exists>B. sc_stage s = painted (sort (sc_zPivots s)) B [] \<and> distinct (sc_stage s) \<and>
       (\<forall>z. set (B z) = views_at G s z) \<and> (\<forall>z. views_at G s z \<noteq> {} \<longrightarrow> z \<in> set (sc_zPivots s)))"

lemma settled_exact:
  assumes "consistent G s" "settled s" "\<not> isFlushPending (sc_jq s)"
  shows "exact G s"
proof -
  obtain B where I: "stage_inv G s (J s) B" using assms(1) by (auto simp: consistent_def)
  note D = invD [OF I]
  have u: "is_update cl" if "J s k = Some cl" for k cl using assms(2,3) that by (auto simp: settled_def)
  have W: "wr s i = None" for i
    using D(10) [of i] u [of i] by (cases "wr s i") (auto simp: is_update_def)
  have S: "in_stage G B i v" if "vw s i = Some (v, st)" for i v st
  proof -
    have "\<not> insertion (J s) i v" using u [of "insert_id i"] by (auto simp: insertion_def is_update_def)
    then show ?thesis using D(11) [OF that] by blast
  qed
  have F: "findViewByCell i s = map_option fst (vw s i)" for i
    by (simp add: findViewByCell_def vw_def option.map_comp comp_def)
  have b: "n \<in> set (B z) \<longleftrightarrow> n \<in> views_at G s z" for n z
  proof
    assume n: "n \<in> set (B z)"
    then obtain i v st where v: "vw s i = Some (v, st)" "sv_no v = n"
      using D(12) [OF n] W by (auto simp: known_def)
    then obtain c where c: "G i = Some c" using D(3) [of i] by auto
    then have "n \<in> set (B (z_of c))" using S [OF v(1)] v(2) by (auto simp: in_stage_def)
    then have "z_of c = z" using D(1) n by (auto simp: stage_rel_def once_def)
    then show "n \<in> views_at G s z" using v c by (auto simp: views_at_def F)
  next
    assume "n \<in> views_at G s z"
    then show "n \<in> set (B z)" using S by (auto simp: views_at_def F in_stage_def)
  qed
  have R: "sc_stage s = painted (sort (sc_zPivots s)) B []" "distinct (sc_stage s)"
    "\<And>z. z \<notin> set (sc_zPivots s) \<Longrightarrow> B z = []"
    using D(1) distinct_painted [of "sort (sc_zPivots s)" B "[]"] by (simp_all add: stage_rel_def)
  have z: "z \<in> set (sc_zPivots s)" if "views_at G s z \<noteq> {}" for z
    using that R(3) [of z] b [of _ z] by (cases "z \<in> set (sc_zPivots s)") auto
  have "set (B z) = views_at G s z" for z using b by blast
  moreover have "findViewByCell i s = None \<longleftrightarrow> G i = None" for i using D(3) [of i] F by simp
  ultimately show ?thesis unfolding exact_def using R(1,2) z by blast
qed

lemma fire_idle: "sched_ok (sc_jq s) \<Longrightarrow> \<not> isFlushPending (sc_jq s) \<Longrightarrow> fire env m d s = s"
  by (simp add: fire_def sched_ok_def)

text \<open>Every flush that leaves one outstanding has done a part of the work.\<close>

lemma fires_settle:
  assumes P: "part_of m G"
  shows "consistent G s \<Longrightarrow> settled s \<Longrightarrow> table_weight (J s) < length ds \<Longrightarrow>
    (let s' = fold (fire env m) ds s in consistent G s' \<and> settled s' \<and> \<not> isFlushPending (sc_jq s'))"
proof (induction ds arbitrary: s)
  case (Cons d ds)
  let ?s = "fire env m d s"
  note F = fire_consistent [OF P Cons.prems(1,2), of env d]
  show ?case
  proof (cases "isFlushPending (sc_jq ?s)")
    case True
    then have "table_weight (J ?s) < length ds" using F(3) Cons.prems(3) by simp
    then show ?thesis using Cons.IH [OF F(1,2)] by simp
  next
    case False
    have so: "sched_ok (sc_jq ?s)" using F(2) by (simp add: settled_def)
    have "fold (fire env m) ds ?s = ?s"
      by (induction ds) (simp_all add: fire_idle [OF so False])
    then show ?thesis using F False by simp
  qed
qed simp

text \<open>C11: In an asynchronous renderer without a render area no call throws while cells are added, removed,
  restacked, changed and reset, whatever the browser fires in between; whenever no flush is outstanding
  the stage shows, in the bands of their z-indexes, exactly one element for every cell of the model; and
  after more flushes than twice the number of queued jobs none is outstanding. The events are those of
  \<open>rendering\<close>: every cell has a view, edges end at points or at cells of the model (the code throws for
  others), an id is used again only when the jobs of its earlier cell are done (otherwise its removal
  would meet the updates of the new cell in the queue), a change keeps the kind of a cell, and a reset
  is not a diff.\<close>

theorem stage_shows_model:
  assumes "en_async env" "rendering env G s t"
  shows "\<not> t \<and> (\<not> isFlushPending (sc_jq s) \<longrightarrow> exact G s) \<and>
    (\<forall>m ds. part_of m G \<longrightarrow> 2 * length (queue (sc_jq s)) < length ds \<longrightarrow>
       (let s' = fold (fire env m) ds s in \<not> isFlushPending (sc_jq s') \<and> exact G s'))"
proof -
  have R: "consistent G s" "settled s" "\<not> t" using rendering_ok [OF assms] by simp_all
  have w: "table_weight (J s) \<le> 2 * length (queue (sc_jq s))"
  proof -
    have "sum_list (map (job_weight s) xs) \<le> 2 * length xs" for xs
      by (induction xs) (auto simp: job_weight_def split: option.splits closure.splits)
    then have "flush_fuel s \<le> 2 * length (queue (sc_jq s))" by (simp only: flush_fuel_def)
    then show ?thesis using fuel_weight(1) [of None s] R(1) by (simp add: consistent_def)
  qed
  have "let s' = fold (fire env m) ds s in \<not> isFlushPending (sc_jq s') \<and> exact G s'"
    if "part_of m G" "2 * length (queue (sc_jq s)) < length ds" for m ds
    using fires_settle [OF that(1) R(1,2), of ds env] settled_exact w that(2) by (simp add: Let_def)
  then show ?thesis using R settled_exact by blast
qed

lemma shown_model_proper: "part_of shown_model ((\<lambda>_. None)(''a'' \<mapsto> shown_cell))"
proof -
  have "model_ok (fold run_op [OpAdd shown_cell] newModel)" by (rule reachable_model_ok)
  then have ok: "model_ok shown_model" by (simp add: shown_model_def)
  have "cells_of shown_model = {shown_cell}" unfolding cells_of_def by code_simp
  moreover have "plain ''a''" by (auto simp: plain_def insert_id_def)
  moreover have "gc_edge shown_cell = False" "gc_id shown_cell = ''a''" by (simp_all add: shown_cell_def)
  ultimately show ?thesis using ok shown_model_cells by (simp add: part_of_def proper_def)
qed

lemma stage_shows_model_witness:
  "let s' = fold (fire shown_env shown_model) (replicate (2 * length (queue (sc_jq shown_sched)) + 1) None) shown_sched
   in \<not> isFlushPending (sc_jq s') \<and> exact ((\<lambda>_. None)(''a'' \<mapsto> shown_cell)) s'"
proof -
  have i: "gc_id shown_cell = ''a''" by (simp add: shown_cell_def)
  obtain s' t' where r: "onCellAddedView shown_env shown_model shown_cell default_opts new_Scheduler = (s', t')"
    by (cases "onCellAddedView shown_env shown_model shown_cell default_opts new_Scheduler")
  have "unused ''a'' new_Scheduler"
    by (simp add: unused_def new_Scheduler_def J_def job_table_def new_JobQueue_def)
  then have "rendering shown_env ((\<lambda>_. None)(''a'' \<mapsto> shown_cell)) s' (False \<or> t')"
    using rendering.added [OF rendering.start _ _ _ _ r] shown_model_proper i by (simp add: shown_env_def)
  moreover have "s' = shown_sched" by (simp add: shown_sched_def sched_step_def r)
  moreover have "en_async shown_env" by (simp add: shown_env_def)
  ultimately have "rendering shown_env ((\<lambda>_. None)(''a'' \<mapsto> shown_cell)) shown_sched (False \<or> t')"
    "en_async shown_env" by (simp_all del: fun_upd_apply)
  from this(2,1) show ?thesis
    by (rule stage_shows_model [THEN conjunct2, THEN conjunct2, rule_format, OF _ _ shown_model_proper]) simp
qed

end
